(* ===== verification/Prelude.thy ===== *)
theory Prelude
  imports Main "HOL-Library.Word"
begin

text \<open>
  Shared vocabulary of the development: the machine types the C++ sources use, the saturating
  increment \<open>SafeAddOne\<close> that both \<^verbatim>\<open>raft_node.cpp\<close> and \<^verbatim>\<open>replicator.cpp\<close> define, and the
  facts about words and lists that several components rely on. The collection
  \<open>node_defs\<close> gathers the equations of the node's operations that only touch
  sub-records (timers, metrics, snapshot worker), so that frame conditions are automatic;
  \<open>u64\<close> gathers the facts that turn 64-bit comparisons into comparisons of naturals.
\<close>

section \<open>Machine types\<close>

type_synonym u64 = "64 word"
type_synonym u32 = "32 word"
type_synonym byte = "8 word"

named_theorems node_defs "operations of the node that update one sub-record only"
named_theorems u64_simps "64-bit comparisons as comparisons of naturals"

section \<open>The saturating increment\<close>

definition SafeAddOne :: "u64 \<Rightarrow> u64" where
  "SafeAddOne v = (if v = - 1 then v else v + 1)"

lemma unat_u64_max: "unat (- 1 :: u64) = 2 ^ 64 - 1"
  by (simp add: unsigned_minus_1_eq_mask mask_eq_exp_minus_1)

lemma unat_le_u64_max: "unat (v :: u64) \<le> 2 ^ 64 - 1"
  using unsigned_less [of v, where 'a = nat] by simp

lemma unat_SafeAddOne: "unat (SafeAddOne v) = min (unat v + 1) (2 ^ 64 - 1)"
proof (cases "v = - 1")
  case True
  then show ?thesis by (simp add: SafeAddOne_def unat_u64_max)
next
  case False
  then have "unat v \<noteq> 2 ^ 64 - 1"
    by (metis unat_u64_max word_unat_eq_iff)
  with unat_le_u64_max [of v] have lt: "unat v + 1 < 2 ^ 64" by linarith
  then have "unat (v + 1) = unat v + 1" by (simp add: unat_word_ariths)
  with False lt show ?thesis by (simp add: SafeAddOne_def)
qed

lemma SafeAddOne_pos [simp]: "SafeAddOne v \<noteq> 0"
  using unat_SafeAddOne [of v] by auto

lemma le_SafeAddOne [simp]: "v \<le> SafeAddOne v"
  using unat_le_u64_max [of v] by (simp add: word_le_nat_alt unat_SafeAddOne)

lemma SafeAddOne_mono: "a \<le> b \<Longrightarrow> SafeAddOne a \<le> SafeAddOne b"
  by (auto simp: word_le_nat_alt unat_SafeAddOne)

lemma SafeAddOne_eq_Suc: "v < b \<Longrightarrow> unat (SafeAddOne v) = Suc (unat v)"
  using unat_le_u64_max [of b] by (simp add: word_less_nat_alt unat_SafeAddOne)

lemma unat_add_one: "v < b \<Longrightarrow> unat (v + 1 :: u64) = Suc (unat v)"
  using unsigned_less [of b, where 'a = nat] by (simp add: word_less_nat_alt unat_word_ariths)

lemma unat_minus_one: "j < i \<Longrightarrow> unat (i - 1 :: u64) = unat i - 1"
proof -
  assume "j < i"
  then have "0 < unat i" by (simp add: word_less_nat_alt)
  then have "1 \<le> i" by (simp add: word_le_nat_alt)
  then show "unat (i - 1) = unat i - 1" by (simp add: unat_sub)
qed

lemmas unat_order [u64_simps] = word_less_nat_alt word_le_nat_alt

section \<open>Results\<close>

text \<open>Sequencing of computations that may fail: the first error ends the sequence.\<close>

definition res_then :: "'e + 'a \<Rightarrow> ('a \<Rightarrow> 'e + 'b) \<Rightarrow> 'e + 'b" where
  "res_then r f = (case r of Inl e \<Rightarrow> Inl e | Inr x \<Rightarrow> f x)"

lemma res_then_simps [simp]: "res_then (Inl e) f = Inl e" "res_then (Inr x) f = f x"
  by (simp_all add: res_then_def)

lemma res_then_ok_iff: "res_then r f = Inr y \<longleftrightarrow> (\<exists>x. r = Inr x \<and> f x = Inr y)"
  by (cases r) simp_all

section \<open>Lists\<close>

lemma last_take_Suc: "n < length xs \<Longrightarrow> last (take (Suc n) xs) = xs ! n"
  by (simp add: take_Suc_conv_app_nth)

lemma hd_take_pos: "0 < n \<Longrightarrow> hd (take n xs) = hd xs"
  by (cases xs; cases n) auto

section \<open>Text\<close>

text \<open>\<^verbatim>\<open>std::to_string\<close> and stream output of integers: decimal digits, a minus sign where needed.\<close>

definition digit_char :: "nat \<Rightarrow> char" where
  "digit_char d = char_of (48 + d)"

function string_of_nat :: "nat \<Rightarrow> string" where
  "string_of_nat k =
     (if k < 10 then [digit_char k] else string_of_nat (k div 10) @ [digit_char (k mod 10)])"
  by pat_completeness auto
termination
  by (relation "measure id") auto

declare string_of_nat.simps [simp del]

definition string_of_int :: "int \<Rightarrow> string" where
  "string_of_int i = (if i < 0 then CHR ''-'' # string_of_nat (nat (- i)) else string_of_nat (nat i))"

definition string_of_u64 :: "u64 \<Rightarrow> string" where
  "string_of_u64 v = string_of_nat (unat v)"

text \<open>Reading decimal digits, as \<^verbatim>\<open>std::stoi\<close> and \<^verbatim>\<open>std::stoull\<close> do.\<close>

definition is_digit :: "char \<Rightarrow> bool" where
  "is_digit c \<longleftrightarrow> 48 \<le> (of_char c :: nat) \<and> (of_char c :: nat) \<le> 57"

definition digit_value :: "char \<Rightarrow> nat" where
  "digit_value c = of_char c - 48"

definition digits_value :: "string \<Rightarrow> nat" where
  "digits_value ds = foldl (\<lambda>v c. 10 * v + digit_value c) 0 ds"

lemma digit_char [simp]:
  assumes "d < 10"
  shows "is_digit (digit_char d)" "digit_value (digit_char d) = d"
  using assms by (simp_all add: is_digit_def digit_value_def digit_char_def)

lemma string_of_nat_digits:
  "string_of_nat k \<noteq> [] \<and> list_all is_digit (string_of_nat k) \<and> digits_value (string_of_nat k) = k"
proof (induction k rule: string_of_nat.induct)
  case (1 k)
  show ?case
  proof (cases "k < 10")
    case True
    then show ?thesis by (simp add: string_of_nat.simps digits_value_def)
  next
    case False
    with "1.IH" have IH: "list_all is_digit (string_of_nat (k div 10))" "digits_value (string_of_nat (k div 10)) = k div 10"
      by auto
    from False have eq: "string_of_nat k = string_of_nat (k div 10) @ [digit_char (k mod 10)]"
      by (subst string_of_nat.simps) simp
    with IH show ?thesis by (simp add: digits_value_def)
  qed
qed

lemma length_string_of_nat: "k < 10 ^ Suc n \<Longrightarrow> length (string_of_nat k) \<le> Suc n"
proof (induction n arbitrary: k)
  case 0
  then show ?case by (subst string_of_nat.simps) simp
next
  case (Suc n)
  show ?case
  proof (cases "k < 10")
    case True
    then show ?thesis by (subst string_of_nat.simps) simp
  next
    case False
    have "k div 10 < 10 ^ Suc n" using Suc.prems by (simp add: less_mult_imp_div_less mult.commute)
    from Suc.IH [OF this] False show ?thesis by (subst string_of_nat.simps) simp
  qed
qed

text \<open>\<^verbatim>\<open>std::isspace\<close> in the C locale.\<close>

definition isspace :: "char \<Rightarrow> bool" where
  "isspace c \<longleftrightarrow> c \<in> {CHR 0x20, CHR 0x09, CHR 0x0A, CHR 0x0B, CHR 0x0C, CHR 0x0D}"

lemma string_of_nat_inject [simp]: "string_of_nat a = string_of_nat b \<longleftrightarrow> a = b"
  by (metis string_of_nat_digits)

lemma string_of_nat_not_minus: "string_of_nat a \<noteq> CHR ''-'' # s"
  using string_of_nat_digits [of a] by (cases "string_of_nat a") (auto simp: is_digit_def)

lemma string_of_int_inject [simp]: "string_of_int a = string_of_int b \<longleftrightarrow> a = b"
  using string_of_nat_not_minus [of "nat a"] string_of_nat_not_minus [of "nat b"]
  by (auto simp: string_of_int_def eq_commute [of "string_of_nat _" "_ # _"])

text \<open>Padding with zeros on the left, as \<^verbatim>\<open>std::setw\<close> and \<^verbatim>\<open>std::setfill\<close> do.\<close>

definition zero_padded :: "nat \<Rightarrow> string \<Rightarrow> string" where
  "zero_padded width s = replicate (width - length s) (CHR ''0'') @ s"

lemma digits_value_zeros: "digits_value (replicate z (CHR ''0'') @ s) = digits_value s"
proof -
  have "foldl (\<lambda>v c. 10 * v + digit_value c) 0 (replicate z (CHR ''0'')) = 0"
    by (induction z) (simp_all add: digit_value_def)
  then show ?thesis by (simp add: digits_value_def)
qed

text \<open>The operator \<^verbatim>\<open>/\<close> of \<^verbatim>\<open>std::filesystem::path\<close> on relative right-hand sides.\<close>

definition path_append :: "string \<Rightarrow> string \<Rightarrow> string" where
  "path_append a b =
     (if a = [] then b else if last a = CHR ''/'' then a @ b else a @ CHR ''/'' # b)"

lemma path_append_inject: "path_append a b = path_append a c \<longleftrightarrow> b = c"
  by (simp add: path_append_def)

end
