(* ===== verification/Command.thy ===== *)
theory Command
  imports Prelude
begin

text \<open>
  The client command of \<^verbatim>\<open>modules/raft/common/command.h\<close> and \<^verbatim>\<open>command.cpp\<close>: its validity check, the
  text format written into the Raft log (\<open>SET|key|value\<close>, \<open>DEL|key|\<close>) and the parser that reads
  it back. The parser splits with \<^verbatim>\<open>std::getline\<close>, which yields no field after a trailing
  delimiter; that detail decides which commands survive the round trip.
\<close>

section \<open>Data\<close>

datatype CommandType = kUnknown | kSet | kDelete

record Command =
  cmd_type :: CommandType
  cmd_key :: string
  cmd_value :: string

section \<open>Operations\<close>

text \<open>
  \<^verbatim>\<open>std::getline\<close> on a string stream: fields end at a delimiter or at the end of the input, and
  an input that is exhausted right after a delimiter (or empty) yields no further field.
\<close>

function Split :: "string \<Rightarrow> char \<Rightarrow> string list" where
  "Split str delim =
     (if str = [] then []
      else takeWhile (\<lambda>c. c \<noteq> delim) str # Split (drop 1 (dropWhile (\<lambda>c. c \<noteq> delim) str)) delim)"
  by pat_completeness auto
termination
proof (relation "measure (\<lambda>(str, _). length str)")
  fix str :: string and delim :: char
  assume "str \<noteq> []"
  moreover have "length (dropWhile (\<lambda>c. c \<noteq> delim) str) \<le> length str"
    by (rule length_dropWhile_le)
  ultimately show "((drop 1 (dropWhile (\<lambda>c. c \<noteq> delim) str), delim), str, delim)
      \<in> measure (\<lambda>(str, _). length str)"
    by (cases str) auto
qed simp

declare Split.simps [simp del]

definition IsValid :: "Command \<Rightarrow> bool" where
  "IsValid c = (case cmd_type c of
      kSet \<Rightarrow> cmd_key c \<noteq> []
    | kDelete \<Rightarrow> cmd_key c \<noteq> []
    | kUnknown \<Rightarrow> False)"

definition Serialize :: "Command \<Rightarrow> string" where
  "Serialize c = (case cmd_type c of
      kSet \<Rightarrow> ''SET|'' @ cmd_key c @ ''|'' @ cmd_value c
    | kDelete \<Rightarrow> ''DEL|'' @ cmd_key c @ ''|''
    | kUnknown \<Rightarrow> [])"

text \<open>
  The out-parameter becomes the result: \<open>None\<close> is the return value false. Callers only use the
  out-parameter when the function returns true.
\<close>

definition Deserialize :: "string \<Rightarrow> Command option" where
  "Deserialize data =
     (let parts = Split data (CHR ''|'') in
      if parts = [] then None
      else if parts ! 0 = ''SET'' then
        (if length parts < 3 then None
         else let out = \<lparr>cmd_type = kSet, cmd_key = parts ! 1, cmd_value = parts ! 2\<rparr>
              in if IsValid out then Some out else None)
      else if parts ! 0 = ''DEL'' then
        (if length parts < 2 then None
         else let out = \<lparr>cmd_type = kDelete, cmd_key = parts ! 1, cmd_value = []\<rparr>
              in if IsValid out then Some out else None)
      else None)"

section \<open>Splitting\<close>

lemma Split_Nil [simp]: "Split [] d = []"
  by (simp add: Split.simps)

lemma Split_field:
  assumes "d \<notin> set f"
  shows "Split (f @ d # rest) d = f # Split rest d"
proof -
  have "takeWhile (\<lambda>c. c \<noteq> d) (f @ d # rest) = f
      \<and> dropWhile (\<lambda>c. c \<noteq> d) (f @ d # rest) = d # rest"
    using assms by (induction f) auto
  then show ?thesis by (subst Split.simps) simp
qed

lemma Split_last_field:
  assumes "d \<notin> set f" and "f \<noteq> []"
  shows "Split f d = [f]"
proof -
  have tw: "takeWhile (\<lambda>c. c \<noteq> d) f = f" and dw: "dropWhile (\<lambda>c. c \<noteq> d) f = []"
    using assms(1) by (auto simp only: takeWhile_eq_all_conv dropWhile_eq_Nil_conv)
  show ?thesis unfolding Split.simps [of f] tw dw using assms(2) by simp
qed

lemma Split_SET: "Split (''SET|'' @ rest) (CHR ''|'') = ''SET'' # Split rest (CHR ''|'')"
  using Split_field [of "CHR ''|''" "''SET''" rest] by simp

lemma Split_DEL: "Split (''DEL|'' @ rest) (CHR ''|'') = ''DEL'' # Split rest (CHR ''|'')"
  using Split_field [of "CHR ''|''" "''DEL''" rest] by simp

section \<open>Parsing what was printed\<close>

lemma Deserialize_Serialize_set:
  assumes "k \<noteq> []" and "CHR ''|'' \<notin> set k" and "CHR ''|'' \<notin> set v" and "v \<noteq> []"
  shows "Deserialize (Serialize \<lparr>cmd_type = kSet, cmd_key = k, cmd_value = v\<rparr>)
       = Some \<lparr>cmd_type = kSet, cmd_key = k, cmd_value = v\<rparr>"
proof -
  have "Split (''SET|'' @ k @ CHR ''|'' # v) (CHR ''|'') = [''SET'', k, v]"
    using assms by (simp add: Split_SET [simplified] Split_field Split_last_field)
  with assms(1) show ?thesis by (simp add: Serialize_def Deserialize_def IsValid_def Let_def)
qed

lemma Deserialize_Serialize_delete:
  assumes "k \<noteq> []" and "CHR ''|'' \<notin> set k"
  shows "Deserialize (Serialize \<lparr>cmd_type = kDelete, cmd_key = k, cmd_value = v\<rparr>)
       = Some \<lparr>cmd_type = kDelete, cmd_key = k, cmd_value = []\<rparr>"
proof -
  have "Split (''DEL|'' @ k @ CHR ''|'' # []) (CHR ''|'') = [''DEL'', k]"
    using assms by (simp add: Split_DEL [simplified] Split_field)
  with assms(1) show ?thesis by (simp add: Serialize_def Deserialize_def IsValid_def Let_def)
qed

lemma Deserialize_empty_value:
  assumes "CHR ''|'' \<notin> set k"
  shows "Deserialize (''SET|'' @ k @ ''|'') = None"
proof -
  have "Split (''SET|'' @ k @ CHR ''|'' # []) (CHR ''|'') = [''SET'', k]"
    using assms by (simp add: Split_SET [simplified] Split_field)
  then show ?thesis by (simp add: Deserialize_def Let_def)
qed

lemma Deserialize_IsValid: "Deserialize data = Some c \<Longrightarrow> IsValid c"
  by (auto simp: Deserialize_def Let_def split: if_splits)

lemma Deserialize_not_unknown: "Deserialize data = Some c \<Longrightarrow> cmd_type c \<noteq> kUnknown"
  by (auto simp: Deserialize_def Let_def split: if_splits)

lemma Serialize_eq_Nil_iff: "Serialize c = [] \<longleftrightarrow> cmd_type c = kUnknown"
  by (simp add: Serialize_def split: CommandType.splits)

end
