(* ===== verification/TimerScheduler.thy ===== *)
theory TimerScheduler
  imports Prelude
begin

text \<open>
  The timer of \<^verbatim>\<open>modules/raft/runtime/min_heap_timer.h\<close> and \<^verbatim>\<open>min_heap_timer.cpp\<close>: tasks ordered by
  deadline in a min-heap, an index from task id to pending task used by \<open>Cancel\<close>, and one worker
  that pops due tasks. A task object is shared between the heap and the index through a
  \<^verbatim>\<open>shared_ptr\<close>; the model keeps the object (with its \<open>cancelled\<close> flag) in the heap and the
  set of indexed ids in \<open>tasks\<close>, so that cancelling writes the flag of the heap's copy.
  Time is the reading of \<^verbatim>\<open>steady_clock\<close>, an integer supplied by the caller.
\<close>

section \<open>State\<close>

record 'f Task =
  deadline :: int
  task_id :: u64
  task_fn :: 'f
  cancelled :: bool

record 'f TimerScheduler =
  started :: bool
  stop :: bool
  next_id :: u64
  heap :: "'f Task list"
  tasks :: "u64 list"

definition TimerScheduler_init :: "'f TimerScheduler" where
  "TimerScheduler_init = \<lparr>started = False, stop = False, next_id = 1, heap = [], tasks = []\<rparr>"

section \<open>Operations\<close>

text \<open>\<open>TaskCompare lhs rhs\<close>: \<open>lhs\<close> comes out of the queue after \<open>rhs\<close>.\<close>

definition TaskCompare :: "'f Task \<Rightarrow> 'f Task \<Rightarrow> bool" where
  "TaskCompare lhs rhs =
     (if deadline lhs = deadline rhs then task_id lhs > task_id rhs
      else deadline lhs > deadline rhs)"

text \<open>
  The priority queue's interface: \<open>heap_top\<close> is an element no other element precedes (for an
  empty queue there is none) and \<open>heap_pop\<close> removes it.
\<close>

fun heap_top :: "'f Task list \<Rightarrow> 'f Task option" where
  "heap_top [] = None"
| "heap_top (t # ts) =
     (case heap_top ts of None \<Rightarrow> Some t
      | Some u \<Rightarrow> if TaskCompare t u then Some u else Some t)"

definition heap_pop :: "'f Task list \<Rightarrow> 'f Task list" where
  "heap_pop ts = (case heap_top ts of None \<Rightarrow> ts | Some u \<Rightarrow> remove1 u ts)"

definition Timer_Start :: "'f TimerScheduler \<Rightarrow> 'f TimerScheduler" where
  "Timer_Start s = (if started s then s else s\<lparr>started := True, stop := False\<rparr>)"

definition Timer_Stop :: "'f TimerScheduler \<Rightarrow> 'f TimerScheduler" where
  "Timer_Stop s =
     (if \<not> started s then s
      else s\<lparr>stop := True, heap := [], tasks := [], started := False\<rparr>)"

definition ScheduleAfter ::
    "int \<Rightarrow> int \<Rightarrow> 'f \<Rightarrow> 'f TimerScheduler \<Rightarrow> u64 \<times> 'f TimerScheduler" where
  "ScheduleAfter now delay fn s =
     (let task = \<lparr>deadline = now + delay, task_id = next_id s, task_fn = fn, cancelled = False\<rparr>;
          s1 = s\<lparr>next_id := next_id s + 1\<rparr>
      in if stop s1 then (0, s1)
         else (task_id task,
               s1\<lparr>tasks := List.insert (task_id task) (tasks s1), heap := task # heap s1\<rparr>))"

definition Timer_Cancel :: "u64 \<Rightarrow> 'f TimerScheduler \<Rightarrow> bool \<times> 'f TimerScheduler" where
  "Timer_Cancel tid s =
     (if tid \<notin> set (tasks s) then (False, s)
      else (True, s\<lparr>heap := map (\<lambda>t. if task_id t = tid then t\<lparr>cancelled := True\<rparr> else t) (heap s),
                   tasks := remove1 tid (tasks s)\<rparr>))"

text \<open>
  One iteration of the worker's loop at time \<open>now\<close>, with the scheduler's lock held: leave the
  loop, wait, drop a cancelled task, wait for the earliest deadline, or hand out a callback.
\<close>

datatype 'f run_action = RunStopped | RunWait | RunDropped | RunWaitUntil int | RunFire 'f

definition Run_iteration :: "int \<Rightarrow> 'f TimerScheduler \<Rightarrow> 'f run_action \<times> 'f TimerScheduler" where
  "Run_iteration now s =
     (if stop s then (RunStopped, s)
      else case heap_top (heap s) of
        None \<Rightarrow> (RunWait, s)
      | Some task \<Rightarrow>
          if cancelled task then (RunDropped, s\<lparr>heap := heap_pop (heap s)\<rparr>)
          else if deadline task > now then (RunWaitUntil (deadline task), s)
          else (RunFire (task_fn task),
                s\<lparr>heap := heap_pop (heap s), tasks := remove1 (task_id task) (tasks s)\<rparr>))"

section \<open>The queue\<close>

lemma heap_top_in: "heap_top ts = Some u \<Longrightarrow> u \<in> set ts"
  by (induction ts arbitrary: u) (auto split: option.splits if_splits)

lemma heap_top_None [simp]: "heap_top ts = None \<longleftrightarrow> ts = []"
  by (cases ts) (auto split: option.splits)

lemma TaskCompare_trans: "\<not> TaskCompare a b \<Longrightarrow> \<not> TaskCompare b c \<Longrightarrow> \<not> TaskCompare a c"
  by (auto simp: TaskCompare_def split: if_splits)

lemma TaskCompare_asym: "TaskCompare a b \<Longrightarrow> \<not> TaskCompare b a"
  by (auto simp: TaskCompare_def split: if_splits)

lemma heap_top_first: "heap_top ts = Some u \<Longrightarrow> t \<in> set ts \<Longrightarrow> \<not> TaskCompare u t"
proof (induction ts arbitrary: u)
  case Nil
  then show ?case by simp
next
  case (Cons a ts)
  show ?case
  proof (cases "heap_top ts")
    case None
    with Cons.prems show ?thesis by (auto simp: TaskCompare_def)
  next
    case (Some v)
    note IH = Cons.IH [OF Some]
    show ?thesis
    proof (cases "TaskCompare a v")
      case True
      with Cons.prems Some have "u = v" by simp
      with True Cons.prems(2) IH show ?thesis by (auto dest: TaskCompare_asym)
    next
      case False
      with Cons.prems Some have "u = a" by simp
      with False Cons.prems(2) IH show ?thesis
        by (auto simp: TaskCompare_def split: if_splits intro: TaskCompare_trans)
    qed
  qed
qed

lemma heap_top_least_deadline:
  "heap_top ts = Some u \<Longrightarrow> t \<in> set ts \<Longrightarrow> deadline u \<le> deadline t"
  using heap_top_first [of ts u t] by (auto simp: TaskCompare_def split: if_splits)

lemma heap_pop_eq: "heap_top ts = Some u \<Longrightarrow> heap_pop ts = remove1 u ts"
  by (simp add: heap_pop_def)

lemma distinct_map_remove1: "distinct (map f ts) \<Longrightarrow> distinct (map f (remove1 u ts))"
  by (auto simp: distinct_map intro: inj_on_subset set_remove1_subset)

lemma set_remove1_distinct_map: "distinct (map f ts) \<Longrightarrow> set (remove1 u ts) = set ts - {u}"
  by (rule set_remove1_eq) (rule distinct_map [THEN iffD1, THEN conjunct1])

section \<open>Scheduler invariant\<close>

text \<open>
  The index holds exactly the ids of the queued tasks that are not cancelled, ids are unique and
  were all handed out before \<open>next_id\<close>. The counter does not wrap in less than \<open>2 ^ 64\<close> calls;
  \<open>ScheduleAfter\<close> keeps the invariant while it is below the maximum.
\<close>

definition timer_inv :: "'f TimerScheduler \<Rightarrow> bool" where
  "timer_inv s \<longleftrightarrow>
     distinct (map task_id (heap s)) \<and> distinct (tasks s) \<and>
     (\<forall>t \<in> set (heap s). task_id t < next_id s) \<and>
     (\<forall>i. i \<in> set (tasks s) \<longleftrightarrow> (\<exists>t \<in> set (heap s). task_id t = i \<and> \<not> cancelled t))"

lemma timer_inv_init: "timer_inv TimerScheduler_init"
  by (simp add: timer_inv_def TimerScheduler_init_def)

lemma timer_inv_Start: "timer_inv s \<Longrightarrow> timer_inv (Timer_Start s)"
  by (simp add: timer_inv_def Timer_Start_def)

lemma timer_inv_Stop: "timer_inv s \<Longrightarrow> timer_inv (Timer_Stop s)"
  by (auto simp: timer_inv_def Timer_Stop_def)

lemma timer_inv_ScheduleAfter:
  assumes inv: "timer_inv s" and room: "next_id s < - 1"
  shows "timer_inv (snd (ScheduleAfter now delay fn s))"
proof -
  have up: "i < next_id s + 1" if "i \<le> next_id s" for i
    using that unat_add_one [OF room] by (simp add: u64_simps)
  have "next_id s \<notin> task_id ` set (heap s)" and "next_id s \<notin> set (tasks s)"
    using inv by (auto simp: timer_inv_def)
  with inv up show ?thesis
    by (auto simp: timer_inv_def ScheduleAfter_def Let_def less_imp_le)
qed

lemma timer_inv_Cancel:
  assumes "timer_inv s"
  shows "timer_inv (snd (Timer_Cancel tid s))"
proof (cases "tid \<in> set (tasks s)")
  case False
  with assms show ?thesis by (simp add: Timer_Cancel_def)
next
  case True
  have ids: "map task_id (map (\<lambda>t. if task_id t = tid then t\<lparr>cancelled := True\<rparr> else t) (heap s))
      = map task_id (heap s)"
    by (simp add: comp_def)
  have "set (remove1 tid (tasks s)) = set (tasks s) - {tid}"
    using assms by (auto simp: timer_inv_def)
  with assms True ids show ?thesis
    by (auto simp: timer_inv_def Timer_Cancel_def simp del: map_map)
qed

lemma timer_inv_Run_iteration:
  assumes inv: "timer_inv s"
  shows "timer_inv (snd (Run_iteration now s))"
proof (cases "stop s")
  case True
  with inv show ?thesis by (simp add: Run_iteration_def)
next
  case run: False
  show ?thesis
  proof (cases "heap_top (heap s)")
    case None
    with inv run show ?thesis by (simp add: Run_iteration_def)
  next
    case (Some u)
    note u = heap_top_in [OF Some]
    have d: "distinct (map task_id (heap s))" using inv by (simp add: timer_inv_def)
    have inj: "t = u" if "t \<in> set (heap s)" "task_id t = task_id u" for t
      using d u that by (auto simp: distinct_map dest: inj_onD)
    note pop = heap_pop_eq [OF Some] set_remove1_distinct_map [OF d] distinct_map_remove1 [OF d]
    have "set (remove1 (task_id u) (tasks s)) = set (tasks s) - {task_id u}"
      using inv by (auto simp: timer_inv_def)
    with inv run Some u pop inj show ?thesis
      by (auto simp: timer_inv_def Run_iteration_def)
  qed
qed

section \<open>What the worker hands out\<close>

lemma Run_iteration_fire:
  assumes "Run_iteration now s = (RunFire f, s')"
  obtains u where "u \<in> set (heap s)" "task_fn u = f" "\<not> cancelled u" "deadline u \<le> now"
    "\<And>t. t \<in> set (heap s) \<Longrightarrow> deadline u \<le> deadline t" "heap_top (heap s) = Some u"
proof -
  from assms obtain u where u: "heap_top (heap s) = Some u" "\<not> cancelled u" "deadline u \<le> now"
      "task_fn u = f"
    by (auto simp: Run_iteration_def split: if_splits option.splits)
  with that [of u] heap_top_in [OF u(1)] heap_top_least_deadline [OF u(1)] show thesis by blast
qed

lemma Timer_Cancel_marks:
  assumes "fst (Timer_Cancel tid s)" and "t \<in> set (heap (snd (Timer_Cancel tid s)))"
    and "task_id t = tid"
  shows "cancelled t"
proof -
  have "tid \<in> set (tasks s)" using assms(1) by (simp add: Timer_Cancel_def split: if_splits)
  then have "set (heap (snd (Timer_Cancel tid s)))
      = (\<lambda>t. if task_id t = tid then t\<lparr>cancelled := True\<rparr> else t) ` set (heap s)"
    by (simp add: Timer_Cancel_def)
  then obtain u where "t = (if task_id u = tid then u\<lparr>cancelled := True\<rparr> else u)"
    using assms(2) by (auto simp only:)
  with assms(3) show ?thesis by (simp split: if_splits)
qed


section \<open>Histories of the scheduler\<close>

text \<open>
  What callers and the worker do to a scheduler, one step at a time. The id counter is assumed not to
  wrap, that is, fewer than \<open>2 ^ 64 - 1\<close> timers are armed in the life of the process.
\<close>

inductive timer_step :: "'f TimerScheduler \<Rightarrow> 'f TimerScheduler \<Rightarrow> bool" where
  ts_start: "timer_step s (Timer_Start s)"
| ts_stop: "timer_step s (Timer_Stop s)"
| ts_schedule: "next_id s < - 1 \<Longrightarrow> timer_step s (snd (ScheduleAfter now delay fn s))"
| ts_cancel: "timer_step s (snd (Timer_Cancel tid s))"
| ts_run: "timer_step s (snd (Run_iteration now s))"

inductive timer_reach :: "'f TimerScheduler \<Rightarrow> 'f TimerScheduler \<Rightarrow> bool" where
  tr_here: "timer_reach s s"
| tr_step: "timer_reach s s' \<Longrightarrow> timer_step s' s'' \<Longrightarrow> timer_reach s s''"

text \<open>The id whose callback the worker takes out at time \<open>now\<close>, if it takes one.\<close>

definition fired :: "int \<Rightarrow> 'f TimerScheduler \<Rightarrow> u64 option" where
  "fired now s = (case fst (Run_iteration now s) of RunFire f \<Rightarrow> map_option task_id (heap_top (heap s)) | _ \<Rightarrow> None)"

text \<open>An id that can fire no more: it was handed out, and what the queue still has of it is cancelled.\<close>

definition spent :: "u64 \<Rightarrow> 'f TimerScheduler \<Rightarrow> bool" where
  "spent tid s \<longleftrightarrow> tid < next_id s \<and> (\<forall>t \<in> set (heap s). task_id t = tid \<longrightarrow> cancelled t)"

lemma timer_inv_step: "timer_step s s' \<Longrightarrow> timer_inv s \<Longrightarrow> timer_inv s'"
  by (induction rule: timer_step.induct)
    (simp_all add: timer_inv_Start timer_inv_Stop timer_inv_ScheduleAfter timer_inv_Cancel
      timer_inv_Run_iteration)

lemma set_heap_pop: "set (heap_pop ts) \<subseteq> set ts"
  by (simp add: heap_pop_def set_remove1_subset split: option.split)

lemma spent_schedule:
  assumes "spent tid s" and "next_id s < - 1"
  shows "spent tid (snd (ScheduleAfter now delay fn s))"
proof -
  have "tid < next_id s + 1"
    using assms unat_add_one [OF assms(2)] by (simp add: spent_def u64_simps)
  with assms show ?thesis by (auto simp: spent_def ScheduleAfter_def Let_def)
qed

lemma spent_run: "spent tid s \<Longrightarrow> spent tid (snd (Run_iteration now s))"
  using set_heap_pop [of "heap s"] by (auto simp: spent_def Run_iteration_def split: option.split)

lemma spent_step: "timer_step s s' \<Longrightarrow> spent tid s \<Longrightarrow> spent tid s'"
proof (induction rule: timer_step.induct)
  case (ts_cancel s i)
  then show ?case by (auto simp: spent_def Timer_Cancel_def)
qed (auto simp: spent_schedule spent_run, auto simp: spent_def Timer_Start_def Timer_Stop_def)

lemma spent_reach: "timer_reach s s' \<Longrightarrow> spent tid s \<Longrightarrow> spent tid s'"
  by (induction rule: timer_reach.induct) (auto intro: spent_step)

lemma spent_not_fired: "spent tid s \<Longrightarrow> fired now s \<noteq> Some tid"
  by (auto simp: fired_def spent_def Run_iteration_def dest!: heap_top_in split: option.splits)

lemma spent_Cancel:
  assumes "timer_inv s" and "fst (Timer_Cancel tid s)"
  shows "spent tid (snd (Timer_Cancel tid s))"
proof -
  have "tid \<in> set (tasks s)" using assms(2) by (simp add: Timer_Cancel_def split: if_splits)
  with assms(1) have "tid < next_id s" by (auto simp: timer_inv_def)
  with Timer_Cancel_marks [OF assms(2)] show ?thesis
    by (auto simp: spent_def Timer_Cancel_def)
qed

lemma spent_fired:
  assumes inv: "timer_inv s" and f: "fired now s = Some tid"
  shows "spent tid (snd (Run_iteration now s))"
proof -
  from f obtain u where u: "heap_top (heap s) = Some u" "task_id u = tid" "\<not> stop s"
      "\<not> cancelled u" "\<not> deadline u > now"
    by (auto simp: fired_def Run_iteration_def split: option.splits if_splits)
  have d: "distinct (map task_id (heap s))" using inv by (simp add: timer_inv_def)
  have "t = u" if "t \<in> set (heap s)" "task_id t = tid" for t
    using d that u(2) heap_top_in [OF u(1)] by (auto simp: distinct_map dest: inj_onD)
  then have "\<forall>t \<in> set (remove1 u (heap s)). task_id t \<noteq> tid"
    using set_remove1_distinct_map [OF d, of u] by auto
  moreover have "tid < next_id s" using inv heap_top_in [OF u(1)] u(2) by (auto simp: timer_inv_def)
  ultimately show ?thesis using u heap_pop_eq [OF u(1)] by (auto simp: spent_def Run_iteration_def)
qed


lemma timer_inv_reach: "timer_reach s s' \<Longrightarrow> timer_inv s \<Longrightarrow> timer_inv s'"
  by (induction rule: timer_reach.induct) (auto intro: timer_inv_step)

section \<open>A due task is reached\<close>

text \<open>The worker's loop without interference, at a fixed reading of the clock.\<close>

fun run_rounds :: "nat \<Rightarrow> int \<Rightarrow> 'f TimerScheduler \<Rightarrow> 'f TimerScheduler" where
  "run_rounds 0 now s = s"
| "run_rounds (Suc k) now s = run_rounds k now (snd (Run_iteration now s))"

lemma Run_iteration_due:
  assumes run: "\<not> stop s" and t: "t \<in> set (heap s)" "deadline t \<le> now"
    and top: "heap_top (heap s) = Some u"
  shows "heap (snd (Run_iteration now s)) = remove1 u (heap s)"
    and "\<not> stop (snd (Run_iteration now s))"
    and "\<not> cancelled u \<Longrightarrow> fired now s = Some (task_id u)"
proof -
  have "deadline u \<le> now" using heap_top_least_deadline [OF top t(1)] t(2) by simp
  with run top show "heap (snd (Run_iteration now s)) = remove1 u (heap s)"
    "\<not> stop (snd (Run_iteration now s))" "\<not> cancelled u \<Longrightarrow> fired now s = Some (task_id u)"
    by (simp_all add: Run_iteration_def fired_def heap_pop_eq)
qed

lemma due_task_reached:
  assumes "\<not> stop s" and "t \<in> set (heap s)" and "\<not> cancelled t" and "deadline t \<le> now"
  shows "\<exists>k < length (heap s). fired now (run_rounds k now s) = Some (task_id t)"
  using assms
proof (induction "length (heap s)" arbitrary: s)
  case 0
  then show ?case by simp
next
  case (Suc m)
  from Suc.prems(2) obtain u where top: "heap_top (heap s) = Some u"
    by (metis heap_top_None list.set(1) empty_iff not_None_eq)
  note due = Run_iteration_due [OF Suc.prems(1,2,4) top]
  show ?case
  proof (cases "u = t")
    case True
    with due(3) Suc.prems(3) Suc.hyps(2) show ?thesis by (intro exI [of _ 0]) (cases "heap s"; simp)
  next
    case False
    let ?s' = "snd (Run_iteration now s)"
    have len: "m = length (heap ?s')"
      using due(1) Suc.hyps(2) heap_top_in [OF top] by (simp add: length_remove1)
    have "t \<in> set (heap ?s')" using due(1) False Suc.prems(2) by simp
    from Suc.hyps(1) [OF len due(2) this Suc.prems(3,4)] obtain k where
      "k < m" "fired now (run_rounds k now ?s') = Some (task_id t)" using len by auto
    with Suc.hyps(2) show ?thesis by (intro exI [of _ "Suc k"]) simp
  qed
qed

section \<open>Properties\<close>

text \<open>
  C16. A cancelled timer never fires: once \<^verbatim>\<open>Cancel\<close> has returned true for an id, no later iteration of the
  worker takes that id's callback out, whatever is scheduled, cancelled, stopped or started in between.
\<close>

theorem cancelled_timer_never_fires:
  assumes "timer_reach TimerScheduler_init s" and "fst (Timer_Cancel tid s)"
    and "timer_reach (snd (Timer_Cancel tid s)) s'"
  shows "fired now s' \<noteq> Some tid"
  by (rule spent_not_fired [OF spent_reach [OF assms(3)]])
    (rule spent_Cancel [OF timer_inv_reach [OF assms(1) timer_inv_init] assms(2)])

theorem cancelled_timer_never_fires_witness:
  "fired 9 (snd (Timer_Cancel 1 (snd (ScheduleAfter 0 5 (0 :: nat) TimerScheduler_init)))) \<noteq> Some 1"
proof -
  have "timer_reach TimerScheduler_init (snd (ScheduleAfter 0 5 (0 :: nat) TimerScheduler_init))"
    by (rule tr_step [OF tr_here ts_schedule]) (simp add: TimerScheduler_init_def word_less_nat_alt unat_u64_max)
  moreover have "fst (Timer_Cancel 1 (snd (ScheduleAfter 0 5 (0 :: nat) TimerScheduler_init)))"
    by (simp add: Timer_Cancel_def ScheduleAfter_def TimerScheduler_init_def)
  ultimately show ?thesis by (rule cancelled_timer_never_fires [OF _ _ tr_here])
qed

text \<open>
  C17. A timer fires at most once: after the worker has taken out the callback of an id, it never takes
  out the same id again.
\<close>

theorem timer_fires_once:
  assumes "timer_reach TimerScheduler_init s" and "fired now s = Some tid"
    and "timer_reach (snd (Run_iteration now s)) s'"
  shows "fired later s' \<noteq> Some tid"
  by (rule spent_not_fired [OF spent_reach [OF assms(3)]])
    (rule spent_fired [OF timer_inv_reach [OF assms(1) timer_inv_init] assms(2)])

theorem timer_fires_once_witness:
  "fired 9 (snd (ScheduleAfter 0 5 (0 :: nat) TimerScheduler_init)) = Some 1 \<and>
   fired 9 (snd (Run_iteration 9 (snd (ScheduleAfter 0 5 (0 :: nat) TimerScheduler_init)))) \<noteq> Some 1"
proof -
  have "timer_reach TimerScheduler_init (snd (ScheduleAfter 0 5 (0 :: nat) TimerScheduler_init))"
    by (rule tr_step [OF tr_here ts_schedule]) (simp add: TimerScheduler_init_def word_less_nat_alt unat_u64_max)
  moreover have "fired 9 (snd (ScheduleAfter 0 5 (0 :: nat) TimerScheduler_init)) = Some 1"
    by (simp add: fired_def Run_iteration_def ScheduleAfter_def TimerScheduler_init_def)
  ultimately show ?thesis using timer_fires_once [OF _ _ tr_here] by blast
qed

text \<open>
  C18. A due timer is served: while the scheduler runs, a task that is queued, not cancelled and due is
  taken out after fewer iterations of the worker than there are tasks in the queue.
\<close>

theorem due_timer_fires:
  assumes "\<not> stop s" and "t \<in> set (heap s)" and "\<not> cancelled t" and "deadline t \<le> now"
  shows "\<exists>k < length (heap s). fired now (run_rounds k now s) = Some (task_id t)"
  by (rule due_task_reached [OF assms])

theorem due_timer_fires_witness:
  "\<exists>k < 2. fired 9 (run_rounds k 9 (snd (ScheduleAfter 0 3 (0 :: nat)
     (snd (ScheduleAfter 0 5 1 TimerScheduler_init))))) = Some 1"
  using due_timer_fires [where s = "snd (ScheduleAfter 0 3 (0 :: nat) (snd (ScheduleAfter 0 5 1 TimerScheduler_init)))"
      and now = 9 and t = "\<lparr>deadline = 5, task_id = 1, task_fn = 1, cancelled = False\<rparr>"]
  by (simp add: ScheduleAfter_def TimerScheduler_init_def numeral_2_eq_2)

end
