(* ===== verification/NodeTypes.thy ===== *)
theory NodeTypes
  imports Command TimerScheduler
begin

text \<open>
  The data of the node: configuration (\<^verbatim>\<open>common/config.h\<close>), proposal results (\<^verbatim>\<open>common/propose.h\<close>),
  the messages of \<^verbatim>\<open>proto/raft.proto\<close>, the persistent state (\<^verbatim>\<open>storage/raft_storage.h\<close>), the
  abstract interfaces \<^verbatim>\<open>IRaftStorage\<close>, \<^verbatim>\<open>IStateMachine\<close> and \<^verbatim>\<open>ISnapshotStorage\<close> as records of
  functions, and the fields of \<^verbatim>\<open>RaftNode\<close> (\<^verbatim>\<open>node/raft_node.h\<close>).

  The node reaches its disk and its state machine only through the virtual interfaces, so the model
  is polymorphic in the type \<open>'w\<close> of what is on disk and the type \<open>'m\<close> of the state machine;
  every operation that calls an interface takes the record \<open>interfaces\<close> of its functions.
\<close>

section \<open>Configuration\<close>

record PeerConfig =
  peer_id :: int
  peer_address :: string

record KvRequestLimits =
  max_key_bytes :: nat
  max_value_bytes :: nat
  max_command_bytes :: nat

record NodeConfig =
  cfg_node_id :: int
  cfg_address :: string
  cfg_peers :: "PeerConfig list"
  election_timeout_min :: int
  election_timeout_max :: int
  heartbeat_interval :: int
  rpc_deadline :: int
  cfg_data_dir :: string
  kv_limits :: KvRequestLimits

record snapshotConfig =
  snap_enabled :: bool
  cfg_snapshot_dir :: string
  log_threshold :: u64
  snapshot_interval :: int
  max_snapshot_count :: nat
  load_on_startup :: bool
  snap_file_prefix :: string

definition default_kv_limits :: KvRequestLimits where
  "default_kv_limits = \<lparr>max_key_bytes = 256, max_value_bytes = 64 * 1024,
     max_command_bytes = 1024 * 1024\<rparr>"

definition default_snapshot_config :: snapshotConfig where
  "default_snapshot_config = \<lparr>snap_enabled = True, cfg_snapshot_dir = [], log_threshold = 30,
     snapshot_interval = 600000, max_snapshot_count = 5, load_on_startup = True,
     snap_file_prefix = ''snapshot''\<rparr>"

section \<open>Results of a proposal\<close>

datatype ProposeStatus = Propose_kOk | Propose_kNotLeader | Propose_kInvalidCommand
  | Propose_kNodeStopping | Propose_kReplicationFailed | Propose_kCommitFailed
  | Propose_kApplyFailed | Propose_kTimeout

record ProposeResult =
  pr_status :: ProposeStatus
  pr_leader_id :: int
  pr_term :: u64
  pr_log_index :: u64
  pr_message :: string

definition ProposeResult_init :: ProposeResult where
  "ProposeResult_init = \<lparr>pr_status = Propose_kReplicationFailed, pr_leader_id = - 1, pr_term = 0,
     pr_log_index = 0, pr_message = []\<rparr>"

section \<open>Log records and messages\<close>

record LogRecord =
  lr_index :: u64
  lr_term :: u64
  lr_command :: string

record VoteRequest =
  vq_term :: u64
  candidate_id :: int
  vq_last_log_index :: u64
  vq_last_log_term :: u64

record VoteResponse =
  vs_term :: u64
  vote_granted :: bool

record LogEntry =
  le_index :: u64
  le_term :: u64
  le_command :: string

record AppendEntriesRequest =
  aq_term :: u64
  aq_leader_id :: int
  prev_log_index :: u64
  prev_log_term :: u64
  entries :: "LogEntry list"
  leader_commit :: u64

record AppendEntriesResponse =
  as_term :: u64
  as_success :: bool
  as_match_index :: u64
  as_last_log_index :: u64
  conflict_index :: u64
  conflict_term :: u64

record InstallSnapshotRequest =
  iq_term :: u64
  iq_leader_id :: int
  iq_last_included_index :: u64
  iq_last_included_term :: u64
  snapshot_data :: string

record InstallSnapshotResponse =
  is_term :: u64
  is_success :: bool
  is_last_log_index :: u64
  is_message :: string

section \<open>Interfaces\<close>

record PersistentRaftState =
  ps_current_term :: u64
  ps_voted_for :: int
  ps_commit_index :: u64
  ps_last_applied :: u64
  ps_log :: "LogRecord list"

record ApplyResult =
  apply_Ok :: bool
  apply_message :: string

datatype SnapshotStatus = Snapshot_kOk | Snapshot_kInvalidArgument | Snapshot_kIoError
  | Snapshot_kCorruptedData | Snapshot_kNotFound | Snapshot_kVersionMismatch
  | Snapshot_kInternalError

record SnapshotResult =
  sr_status :: SnapshotStatus
  sr_message :: string

definition SnapshotResult_Ok :: "SnapshotResult \<Rightarrow> bool" where
  "SnapshotResult_Ok r = (sr_status r = Snapshot_kOk)"

record SnapshotMeta =
  sm_snapshot_path :: string
  sm_meta_path :: string
  sm_snapshot_dir :: string
  last_included_index :: u64
  last_included_term :: u64
  created_unix_ms :: u64
  data_checksum :: u32

record SnapshotValidationIssue =
  issue_path :: string
  issue_reason :: string

record SnapshotListResult =
  snapshots :: "SnapshotMeta list"
  validation_issues :: "SnapshotValidationIssue list"

text \<open>
  One field per virtual function the node calls; an \<open>Inl\<close> result is the return value false
  with its error text. The last five fields are the uses the node itself makes of streams and
  directories, for its identity file and when it ships or receives a snapshot: \<open>read_file\<close> is
  \<open>None\<close> when the file cannot be opened or read, and the error of \<open>write_file\<close> is the phase
  that failed, \<open>''open''\<close> or \<open>''write''\<close>.
\<close>

record ('w, 'm) interfaces =
  storage_Save :: "PersistentRaftState \<Rightarrow> 'w \<Rightarrow> (string + unit) \<times> 'w"
  storage_Load :: "'w \<Rightarrow> (string + PersistentRaftState \<times> bool) \<times> 'w"
  sm_Apply :: "u64 \<Rightarrow> string \<Rightarrow> 'm \<Rightarrow> ApplyResult \<times> 'm"
  sm_SaveSnapshot :: "string \<Rightarrow> 'm \<Rightarrow> 'w \<Rightarrow> SnapshotResult \<times> 'w"
  sm_LoadSnapshot :: "string \<Rightarrow> 'w \<Rightarrow> 'm \<Rightarrow> SnapshotResult \<times> 'm"
  ss_SaveSnapshotFile :: "string \<Rightarrow> u64 \<Rightarrow> u64 \<Rightarrow> 'w \<Rightarrow> (string + SnapshotMeta) \<times> 'w"
  ss_ListSnapshots :: "'w \<Rightarrow> (string + SnapshotListResult) \<times> 'w"
  ss_PruneSnapshots :: "nat \<Rightarrow> 'w \<Rightarrow> (string + unit) \<times> 'w"
  file_exists :: "string \<Rightarrow> 'w \<Rightarrow> bool"
  read_file :: "string \<Rightarrow> 'w \<Rightarrow> string option"
  write_file :: "string \<Rightarrow> string \<Rightarrow> 'w \<Rightarrow> (string + unit) \<times> 'w"
  remove_file :: "string \<Rightarrow> 'w \<Rightarrow> 'w"
  create_dirs :: "string \<Rightarrow> 'w \<Rightarrow> (string + unit) \<times> 'w"

section \<open>The node\<close>

datatype Role = kFollower | kCandidate | kLeader

text \<open>The callbacks the node hands to its scheduler.\<close>

datatype timer_task = ElectionTimeoutTask u64 | HeartbeatTask | SnapshotTimerTask

record timer_state =
  scheduler :: "timer_task TimerScheduler"
  election_timer_id :: "u64 option"
  election_timer_generation :: u64
  heartbeat_timer_id :: "u64 option"
  snapshot_timer_id :: "u64 option"
  rng_draws :: "nat \<Rightarrow> int"
  rng_pos :: nat
  clock :: int

datatype RpcKind = kRequestVote | kAppendEntries | kInstallSnapshot | kKvPut | kKvDelete | kKvGet
  | kKvStatus | kKvHealth | kKvMetrics

record RpcMetricState =
  metric_name :: string
  success_count :: u64
  failure_count :: u64
  total_latency_us :: u64
  max_latency_us :: u64

record metrics_state =
  propose_success_count :: u64
  propose_failure_count :: u64
  election_count :: u64
  leader_change_count :: u64
  snapshot_success_count :: u64
  snapshot_failure_count :: u64
  storage_persist_failure_count :: u64
  rpc_metrics :: "RpcMetricState list"

record snapshot_worker_state =
  snapshot_worker_stop :: bool
  snapshot_pending :: bool
  snapshot_in_progress :: bool
  pending_snapshot_index :: u64
  pending_snapshot_term :: u64

text \<open>
  \<^verbatim>\<open>Replicator\<close> (\<^verbatim>\<open>replication/replicator.h\<close>): its peer and its runtime state. The default-constructed
  time point of \<open>next_retry_time\<close> is \<open>0\<close>.
\<close>

record Replicator =
  rep_peer :: PeerConfig
  append_inflight :: bool
  snapshot_inflight :: bool
  next_retry_time :: int
  retry_backoff :: int
  append_rpc_started :: u64
  append_rpc_finished :: u64
  snapshot_rpc_started :: u64
  snapshot_rpc_finished :: u64
  transport_failures :: u64

record ('w, 'm) raft_node =
  config :: NodeConfig
  snapshot_config :: snapshotConfig
  role :: Role
  current_term :: u64
  voted_for :: int
  leader_id :: int
  log :: "LogRecord list"
  commit_index :: u64
  last_applied :: u64
  last_snapshot_index :: u64
  last_snapshot_term :: u64
  next_index :: "int \<rightharpoonup> u64"
  match_index :: "int \<rightharpoonup> u64"
  replicators :: "int \<rightharpoonup> Replicator"
  running :: bool
  state_machine :: 'm
  disk :: 'w
  timers :: timer_state
  metrics :: metrics_state
  snapshot_worker :: snapshot_worker_state

abbreviation node_id :: "('w, 'm) raft_node \<Rightarrow> int" where
  "node_id n \<equiv> cfg_node_id (config n)"

abbreviation peers :: "('w, 'm) raft_node \<Rightarrow> PeerConfig list" where
  "peers n \<equiv> cfg_peers (config n)"

definition kInternalNoOpCommand :: string where
  "kInternalNoOpCommand = ''__raft_internal_noop__''"

definition kSnapshotMarkerCommand :: string where
  "kSnapshotMarkerCommand = ''snapshot''"

end
