(* ===== verification/Codec.thy ===== *)
theory Codec
  imports Prelude
begin

text \<open>
  The binary fields of the file formats: \<^verbatim>\<open>WritePod\<close> and \<^verbatim>\<open>ReadPod\<close> on integers (little endian, as on
  the x86 and ARM targets of the build) and length-prefixed strings. \<open>codec\<close> is the contract
  between a writer and a reader; from it follows that counted sequences of encoded items are read
  back, which the snapshot and the log formats rely on.
\<close>

section \<open>The contract of a writer and a reader\<close>

text \<open>A reader applied a given number of times, as the loops over counted items do.\<close>

fun read_many :: "(string \<Rightarrow> ('a \<times> string) option) \<Rightarrow> nat \<Rightarrow> string \<Rightarrow> ('a list \<times> string) option" where
  "read_many dec 0 s = Some ([], s)"
| "read_many dec (Suc k) s =
     (case dec s of None \<Rightarrow> None
      | Some (x, r) \<Rightarrow>
          (case read_many dec k r of None \<Rightarrow> None | Some (xs, r') \<Rightarrow> Some (x # xs, r')))"

locale codec =
  fixes enc :: "'a \<Rightarrow> string" and dec :: "string \<Rightarrow> ('a \<times> string) option" and ok :: "'a \<Rightarrow> bool"
  assumes dec_enc: "ok x \<Longrightarrow> dec (enc x @ rest) = Some (x, rest)"
begin

lemma read_many_enc:
  "\<forall>x \<in> set xs. ok x \<Longrightarrow> read_many dec (length xs) (concat (map enc xs) @ rest) = Some (xs, rest)"
  by (induction xs) (simp_all add: dec_enc)

lemma enc_inj: "ok x \<Longrightarrow> ok y \<Longrightarrow> enc x = enc y \<Longrightarrow> x = y"
  using dec_enc [of x "[]"] dec_enc [of y "[]"] by simp

end

section \<open>Integers\<close>

fun le_bytes :: "nat \<Rightarrow> nat \<Rightarrow> string" where
  "le_bytes 0 v = []"
| "le_bytes (Suc k) v = char_of (v mod 256) # le_bytes k (v div 256)"

fun le_value :: "string \<Rightarrow> nat" where
  "le_value [] = 0"
| "le_value (c # cs) = of_char c + 256 * le_value cs"

definition ReadBytes :: "nat \<Rightarrow> string \<Rightarrow> (string \<times> string) option" where
  "ReadBytes k s = (if length s < k then None else Some (take k s, drop k s))"

definition WritePod :: "nat \<Rightarrow> nat \<Rightarrow> string" where
  "WritePod k v = le_bytes k v"

definition ReadPod :: "nat \<Rightarrow> string \<Rightarrow> (nat \<times> string) option" where
  "ReadPod k s = (case ReadBytes k s of None \<Rightarrow> None | Some (b, r) \<Rightarrow> Some (le_value b, r))"

lemma length_le_bytes [simp]: "length (le_bytes k v) = k"
  by (induction k arbitrary: v) auto

lemma le_value_le_bytes: "v < 256 ^ k \<Longrightarrow> le_value (le_bytes k v) = v"
proof (induction k arbitrary: v)
  case (Suc k)
  then have "v div 256 < 256 ^ k" by (simp add: less_mult_imp_div_less mult.commute)
  with Suc.IH [OF this] show ?case by simp
qed simp

interpretation pod: codec "WritePod k" "ReadPod k" "\<lambda>v. v < 256 ^ k" for k
  by unfold_locales (simp add: WritePod_def ReadPod_def ReadBytes_def le_value_le_bytes)

definition WriteU32 :: "u32 \<Rightarrow> string" where "WriteU32 v = WritePod 4 (unat v)"
definition WriteU64 :: "u64 \<Rightarrow> string" where "WriteU64 v = WritePod 8 (unat v)"

definition ReadU32 :: "string \<Rightarrow> (u32 \<times> string) option" where
  "ReadU32 s = (case ReadPod 4 s of None \<Rightarrow> None | Some (v, r) \<Rightarrow> Some (of_nat v, r))"

definition ReadU64 :: "string \<Rightarrow> (u64 \<times> string) option" where
  "ReadU64 s = (case ReadPod 8 s of None \<Rightarrow> None | Some (v, r) \<Rightarrow> Some (of_nat v, r))"

interpretation u32: codec WriteU32 ReadU32 "\<lambda>_. True"
proof
  fix x :: u32 and rest
  have "unat x < 256 ^ 4" using unsigned_less [of x, where 'a = nat] by simp
  then show "ReadU32 (WriteU32 x @ rest) = Some (x, rest)"
    by (simp add: ReadU32_def WriteU32_def pod.dec_enc)
qed

interpretation u64: codec WriteU64 ReadU64 "\<lambda>_. True"
proof
  fix x :: u64 and rest
  have "unat x < 256 ^ 8" using unsigned_less [of x, where 'a = nat] by simp
  then show "ReadU64 (WriteU64 x @ rest) = Some (x, rest)"
    by (simp add: ReadU64_def WriteU64_def pod.dec_enc)
qed

section \<open>Strings\<close>

text \<open>A length of at most \<open>2 ^ 64 - 1\<close> bytes, then the bytes.\<close>

definition WriteString :: "string \<Rightarrow> string" where
  "WriteString s = WriteU64 (of_nat (length s)) @ s"

definition ReadString :: "string \<Rightarrow> (string \<times> string) option" where
  "ReadString s = (case ReadU64 s of None \<Rightarrow> None | Some (sz, r) \<Rightarrow> ReadBytes (unat sz) r)"

interpretation str: codec WriteString ReadString "\<lambda>s. length s < 2 ^ 64"
proof
  fix x rest :: string
  assume "length x < 2 ^ 64"
  then have "unat (of_nat (length x) :: u64) = length x" by (simp add: unat_of_nat)
  then show "ReadString (WriteString x @ rest) = Some (x, rest)"
    by (simp add: ReadString_def WriteString_def ReadBytes_def u64.dec_enc)
qed

end
