(* ===== verification/FileSystem.thy ===== *)
theory FileSystem
  imports Prelude
begin

text \<open>
  The uses the sources make of \<^verbatim>\<open>std::filesystem\<close>, file streams and \<^verbatim>\<open>fsync\<close>: a finite table from path
  to file or directory, and one function per operation. Every operation first consults a list of
  faults. An \<open>IoError\<close> makes the one operation fail; a \<open>Crash\<close> stops the process there, after
  which every further operation fails without effect, so that the table is what a restart finds. A
  fault during a write carries the number of bytes that still reached the file, and one during a
  recursive removal the number of files already removed. An operation that completed is durable: the
  page cache is not modelled. Opening a directory as a stream is a failed open.
\<close>

section \<open>Paths\<close>

definition parent_path :: "string \<Rightarrow> string" where
  "parent_path p = rev (drop 1 (dropWhile (\<lambda>c. c \<noteq> CHR ''/'') (rev p)))"

definition filename :: "string \<Rightarrow> string" where
  "filename p = rev (takeWhile (\<lambda>c. c \<noteq> CHR ''/'') (rev p))"

definition under :: "string \<Rightarrow> string \<Rightarrow> bool" where
  "under d p \<longleftrightarrow> take (Suc (length d)) p = d @ ''/''"

lemma parent_path_shorter: "p \<noteq> [] \<Longrightarrow> length (parent_path p) < length p"
proof -
  assume "p \<noteq> []"
  have "length (dropWhile (\<lambda>c. c \<noteq> CHR ''/'') (rev p)) \<le> length p"
    using length_dropWhile_le [of _ "rev p"] by simp
  with \<open>p \<noteq> []\<close> show ?thesis unfolding parent_path_def
    by (cases p) auto
qed

function ancestors :: "string \<Rightarrow> string list" where
  "ancestors p = (if p = [] then [] else p # ancestors (parent_path p))"
  by pat_completeness auto
termination
  by (relation "measure length") (auto simp: parent_path_shorter)

declare ancestors.simps [simp del]

section \<open>State\<close>

datatype fs_entry = FFile string | FDir

datatype fault = NoFault | IoError nat | Crash nat

record fs =
  fs_entries :: "(string \<times> fs_entry) list"
  fs_faults :: "fault list"
  fs_crashed :: bool

definition fs_lookup :: "string \<Rightarrow> fs \<Rightarrow> fs_entry option" where
  "fs_lookup p w = map_of (fs_entries w) p"

definition fs_put :: "string \<Rightarrow> fs_entry \<Rightarrow> fs \<Rightarrow> fs" where
  "fs_put p e w = w\<lparr>fs_entries := (p, e) # filter (\<lambda>(q, _). q \<noteq> p) (fs_entries w)\<rparr>"

definition fs_drop :: "(string \<Rightarrow> bool) \<Rightarrow> fs \<Rightarrow> fs" where
  "fs_drop P w = w\<lparr>fs_entries := filter (\<lambda>(q, _). \<not> P q) (fs_entries w)\<rparr>"

text \<open>The next fault: \<open>None\<close> lets the operation run, \<open>Some k\<close> stops it after \<open>k\<close> bytes.\<close>

definition fs_io :: "fs \<Rightarrow> nat option \<times> fs" where
  "fs_io w =
     (if fs_crashed w then (Some 0, w)
      else case fs_faults w of
        [] \<Rightarrow> (None, w)
      | NoFault # r \<Rightarrow> (None, w\<lparr>fs_faults := r\<rparr>)
      | IoError k # r \<Rightarrow> (Some k, w\<lparr>fs_faults := r\<rparr>)
      | Crash k # r \<Rightarrow> (Some k, w\<lparr>fs_faults := r, fs_crashed := True\<rparr>))"

text \<open>The text of an \<^verbatim>\<open>error_code\<close> or of \<^verbatim>\<open>strerror\<close>; the sources only pass it on.\<close>

definition ec_message :: string where
  "ec_message = ''io error''"

section \<open>Operations\<close>

definition fs_exists :: "string \<Rightarrow> fs \<Rightarrow> bool" where
  "fs_exists p w \<longleftrightarrow> fs_lookup p w \<noteq> None"

definition fs_is_dir :: "string \<Rightarrow> fs \<Rightarrow> bool" where
  "fs_is_dir p w \<longleftrightarrow> fs_lookup p w = Some FDir"

definition fs_read :: "string \<Rightarrow> fs \<Rightarrow> string option" where
  "fs_read p w = (case fs_lookup p w of Some (FFile d) \<Rightarrow> Some d | _ \<Rightarrow> None)"

definition fs_create_directories :: "string \<Rightarrow> fs \<Rightarrow> (string + unit) \<times> fs" where
  "fs_create_directories p w0 =
     (let (stop, w) = fs_io w0 in
      if stop \<noteq> None \<or> (\<exists>a \<in> set (ancestors p). fs_read a w \<noteq> None)
      then (Inl ec_message, w)
      else (Inr (), fold (\<lambda>a. fs_put a FDir) (ancestors p) w))"

text \<open>
  Open for truncation, write, flush. The open fails on a directory, where the parent is missing,
  or by a fault; a fault at the write leaves a prefix of the data.
\<close>

definition fs_write :: "string \<Rightarrow> string \<Rightarrow> fs \<Rightarrow> (string + unit) \<times> fs" where
  "fs_write p data w0 =
     (let (stop, w) = fs_io w0 in
      if stop \<noteq> None \<or> fs_is_dir p w \<or> (parent_path p \<noteq> [] \<and> \<not> fs_is_dir (parent_path p) w)
      then (Inl ''open'', w)
      else let (stop2, w1) = fs_io w in
           case stop2 of
             Some k \<Rightarrow> (Inl ''write'', fs_put p (FFile (take k data)) w1)
           | None \<Rightarrow> (Inr (), fs_put p (FFile data) w1))"

definition fs_sync :: "string \<Rightarrow> fs \<Rightarrow> (string + unit) \<times> fs" where
  "fs_sync p w0 =
     (let (stop, w) = fs_io w0 in
      if stop \<noteq> None \<or> \<not> fs_exists p w then (Inl (''fsync failed: '' @ p @ '': '' @ ec_message), w)
      else (Inr (), w))"

text \<open>Removing a missing path is not an error.\<close>

definition fs_remove :: "string \<Rightarrow> fs \<Rightarrow> (string + unit) \<times> fs" where
  "fs_remove p w0 =
     (let (stop, w) = fs_io w0 in
      if stop \<noteq> None \<or> (fs_is_dir p w \<and> (\<exists>q \<in> fst ` set (fs_entries w). under p q))
      then (Inl ec_message, w)
      else (Inr (), fs_drop (\<lambda>q. q = p) w))"

text \<open>A recursive removal that is interrupted has removed some of the files and no directory.\<close>

definition fs_remove_all :: "string \<Rightarrow> fs \<Rightarrow> (string + unit) \<times> fs" where
  "fs_remove_all p w0 =
     (let (stop, w) = fs_io w0 in
      case stop of
        None \<Rightarrow> (Inr (), fs_drop (\<lambda>q. q = p \<or> under p q) w)
      | Some k \<Rightarrow>
          let gone = take k (map fst (filter (\<lambda>(q, e). (q = p \<or> under p q) \<and> e \<noteq> FDir) (fs_entries w)))
          in (Inl ec_message, fs_drop (\<lambda>q. q \<in> set gone) w))"

definition fs_rename :: "string \<Rightarrow> string \<Rightarrow> fs \<Rightarrow> (string + unit) \<times> fs" where
  "fs_rename a b w0 =
     (let (stop, w) = fs_io w0;
          blocked = (\<exists>q \<in> fst ` set (fs_entries w). under b q)
             \<or> (fs_is_dir a w \<noteq> fs_is_dir b w \<and> fs_exists b w)
             \<or> under a b \<or> (parent_path b \<noteq> [] \<and> \<not> fs_is_dir (parent_path b) w);
          here = (\<lambda>q. q = a \<or> under a q)
      in if stop \<noteq> None \<or> \<not> fs_exists a w \<or> blocked then (Inl ec_message, w)
         else (Inr (), w\<lparr>fs_entries :=
                 map (\<lambda>(q, e). (b @ drop (length a) q, e)) (filter (\<lambda>(q, _). here q) (fs_entries w))
                 @ filter (\<lambda>(q, _). \<not> here q \<and> q \<noteq> b) (fs_entries w)\<rparr>))"

definition fs_resize :: "string \<Rightarrow> nat \<Rightarrow> fs \<Rightarrow> (string + unit) \<times> fs" where
  "fs_resize p k w0 =
     (let (stop, w) = fs_io w0 in
      case (stop, fs_lookup p w) of
        (None, Some (FFile d)) \<Rightarrow>
          (Inr (), fs_put p (FFile (take k d @ replicate (k - length d) (CHR 0x00))) w)
      | _ \<Rightarrow> (Inl ec_message, w))"

text \<open>The paths directly inside a directory, in table order.\<close>

definition fs_list :: "string \<Rightarrow> fs \<Rightarrow> string list" where
  "fs_list d w = filter (\<lambda>q. parent_path q = d) (map fst (fs_entries w))"

text \<open>Appending to an open file; a fault leaves a prefix of the appended data.\<close>

definition fs_append :: "string \<Rightarrow> string \<Rightarrow> fs \<Rightarrow> fs" where
  "fs_append p data w0 =
     (let (stop, w) = fs_io w0 in
      case fs_lookup p w of
        Some (FFile d) \<Rightarrow> fs_put p (FFile (d @ (case stop of None \<Rightarrow> data | Some k \<Rightarrow> take k data))) w
      | _ \<Rightarrow> w)"

lemma fs_no_file_iff: "fs_read p w = None \<longleftrightarrow> (\<forall>d. fs_lookup p w \<noteq> Some (FFile d))"
  by (auto simp: fs_read_def split: option.split fs_entry.split)

section \<open>Sequences of operations\<close>

text \<open>
  \<open>io_then\<close> runs the second step on the world the first one left, unless the first one failed;
  \<open>on_error\<close> rewrites the message of a failed step. A sequence is what the sources write with early
  returns.
\<close>

definition io_then :: "('e + 'a) \<times> 'w \<Rightarrow> ('a \<Rightarrow> 'w \<Rightarrow> ('e + 'b) \<times> 'w) \<Rightarrow> ('e + 'b) \<times> 'w" where
  "io_then x f = (case x of (Inl e, w) \<Rightarrow> (Inl e, w) | (Inr a, w) \<Rightarrow> f a w)"

definition on_error :: "('e \<Rightarrow> 'd) \<Rightarrow> ('e + 'a) \<times> 'w \<Rightarrow> ('d + 'a) \<times> 'w" where
  "on_error g x = (case x of (Inl e, w) \<Rightarrow> (Inl (g e), w) | (Inr a, w) \<Rightarrow> (Inr a, w))"

lemma io_then_simps [simp]: "io_then (Inl e, w) f = (Inl e, w)" "io_then (Inr a, w) f = f a w"
  by (simp_all add: io_then_def)

lemma on_error_simps [simp]: "on_error g (Inl e, w) = (Inl (g e), w)" "on_error g (Inr a, w) = (Inr a, w)"
  by (simp_all add: on_error_def)

lemma snd_on_error [simp]: "snd (on_error g x) = snd x"
  by (simp add: on_error_def split: prod.split sum.split)

lemma io_then_cases:
  assumes "io_then x f = (r, w')"
  obtains (failed) e where "x = (Inl e, w')" "r = Inl e" | (ok) a w1 where "x = (Inr a, w1)" "f a w1 = (r, w')"
  using assms by (cases x; cases "fst x") auto

lemma io_ok_iff:
  "io_then x f = (Inr b, w') \<longleftrightarrow> (\<exists>a w. x = (Inr a, w) \<and> f a w = (Inr b, w'))"
  "on_error g x = (Inr a, w') \<longleftrightarrow> x = (Inr a, w')"
  by (auto simp: io_then_def on_error_def split: prod.splits sum.splits)

section \<open>Fault-free runs\<close>

definition fs_quiet :: "fs \<Rightarrow> bool" where
  "fs_quiet w \<longleftrightarrow> fs_faults w = [] \<and> \<not> fs_crashed w"

lemma fs_io_quiet [simp]: "fs_quiet w \<Longrightarrow> fs_io w = (None, w)"
  by (simp add: fs_quiet_def fs_io_def)

lemma fs_lookup_put [simp]: "fs_lookup q (fs_put p e w) = (if q = p then Some e else fs_lookup q w)"
proof -
  have "map_of (filter (\<lambda>(q, _). q \<noteq> p) es) q = map_of es q" if "q \<noteq> p" for es :: "(string \<times> fs_entry) list"
    using that by (induction es) auto
  then show ?thesis by (simp add: fs_lookup_def fs_put_def)
qed

lemma fs_lookup_drop: "fs_lookup q (fs_drop P w) = (if P q then None else fs_lookup q w)"
proof -
  have "map_of (filter (\<lambda>(q, _). \<not> P q) es) q = (if P q then None else map_of es q)"
    for es :: "(string \<times> fs_entry) list"
    by (induction es) auto
  then show ?thesis by (simp add: fs_lookup_def fs_drop_def)
qed

lemma fs_quiet_put [simp]: "fs_quiet (fs_put p e w) = fs_quiet w"
  by (simp add: fs_quiet_def fs_put_def)

lemma fs_quiet_drop [simp]: "fs_quiet (fs_drop P w) = fs_quiet w"
  by (simp add: fs_quiet_def fs_drop_def)

lemma fs_write_quiet:
  assumes "fs_quiet w" and "\<not> fs_is_dir p w" and "parent_path p = [] \<or> fs_is_dir (parent_path p) w"
  shows "fs_write p d w = (Inr (), fs_put p (FFile d) w)"
  using assms by (auto simp: fs_write_def)

lemma fs_read_after_write:
  "fst (fs_write p d w) = Inr () \<Longrightarrow> fs_read p (snd (fs_write p d w)) = Some d"
  by (auto simp: fs_write_def fs_read_def Let_def split_def split: if_splits option.splits)


section \<open>What an operation does to one path\<close>

lemma fs_lookup_io [simp]: "fs_lookup q (snd (fs_io w)) = fs_lookup q w"
  by (simp add: fs_io_def fs_lookup_def split: list.split fault.split)

lemma fs_lookup_fold_put:
  "q \<notin> set as \<Longrightarrow> fs_lookup q (fold (\<lambda>a. fs_put a FDir) as w) = fs_lookup q w"
  by (induction as arbitrary: w) auto

lemma ancestors_shorter: "a \<in> set (ancestors p) \<Longrightarrow> length a \<le> length p"
proof (induction p rule: ancestors.induct)
  case (1 p)
  show ?case
  proof (cases "p = []")
    case True
    with "1.prems" show ?thesis by (simp add: ancestors.simps)
  next
    case False
    with "1.prems" have "a = p \<or> a \<in> set (ancestors (parent_path p))"
      by (subst (asm) ancestors.simps) simp
    with "1.IH" [OF False] parent_path_shorter [OF False] show ?thesis by force
  qed
qed

lemma fs_lookup_create_directories:
  "length p < length q \<Longrightarrow> fs_lookup q (snd (fs_create_directories p w)) = fs_lookup q w"
  using ancestors_shorter [of q p]
  by (force simp: fs_create_directories_def fs_no_file_iff Let_def split_def fs_lookup_fold_put)

lemma fs_lookup_write_other:
  "q \<noteq> p \<Longrightarrow> fs_lookup q (snd (fs_write p d w)) = fs_lookup q w"
  by (simp add: fs_write_def Let_def split_def split: option.split)

lemma fs_lookup_write:
  "fst (fs_write p d w) = Inr () \<Longrightarrow> fs_lookup p (snd (fs_write p d w)) = Some (FFile d)"
  by (auto simp: fs_write_def Let_def split_def split: if_splits option.splits)

lemma fs_lookup_remove_other:
  "q \<noteq> p \<Longrightarrow> fs_lookup q (snd (fs_remove p w)) = fs_lookup q w"
  by (simp add: fs_remove_def Let_def split_def fs_lookup_drop)

lemma fs_lookup_remove:
  "fs_lookup p (snd (fs_remove p w)) = None \<or> fs_lookup p (snd (fs_remove p w)) = fs_lookup p w"
  by (simp add: fs_remove_def Let_def split_def fs_lookup_drop)

lemma under_longer: "under d p \<Longrightarrow> length d < length p"
proof -
  assume "under d p"
  then have "length (take (Suc (length d)) p) = Suc (length d)" by (simp add: under_def)
  then show ?thesis by simp
qed

lemma fs_lookup_rename_file:
  assumes "fs_rename a b w = (Inr (), w')" and "fs_lookup a w = Some e"
  shows "fs_lookup b w' = Some e"
proof -
  let ?here = "\<lambda>q. q = a \<or> under a q"
  let ?mv = "\<lambda>es. map (\<lambda>(q, x). (b @ drop (length a) q, x)) (filter (\<lambda>(q, _). ?here q) es)"
  have mv: "map_of es a = Some e \<Longrightarrow> map_of (?mv es) b = Some e" for es :: "(string \<times> fs_entry) list"
  proof (induction es)
    case (Cons x es)
    obtain q y where x: "x = (q, y)" by fastforce
    show ?case
    proof (cases "q = a")
      case True
      with Cons.prems x show ?thesis by simp
    next
      case False
      then have "b @ drop (length a) q \<noteq> b" if "under a q" using under_longer [OF that] by simp
      with False Cons x show ?thesis by auto
    qed
  qed simp
  let ?w = "snd (fs_io w)"
  have "map_of (fs_entries ?w) a = Some e" using assms(2) fs_lookup_io [of a w] by (simp add: fs_lookup_def)
  note mv [OF this]
  moreover have "fs_entries w' = ?mv (fs_entries ?w) @ filter (\<lambda>(q, _). \<not> ?here q \<and> q \<noteq> b) (fs_entries ?w)"
    using assms(1) by (auto simp: fs_rename_def Let_def split_def split: if_splits)
  ultimately show ?thesis by (simp add: fs_lookup_def)
qed

lemma fs_lookup_rename_failed:
  assumes "fs_rename a b w = (Inl x, w')"
  shows "fs_lookup q w' = fs_lookup q w"
  using assms fs_lookup_io [of q w] by (auto simp: fs_rename_def Let_def split_def split: if_splits)

end
