(* ===== verification/RaftStorage.thy ===== *)
theory RaftStorage
  imports NodeTypes Codec FileSystem
begin

text \<open>
  The storage of the hard state and the log (\<^verbatim>\<open>storage/raft_storage.cpp\<close>): \<^verbatim>\<open>meta.bin\<close> with the hard state and
  the bounds of the log, and a directory of segment files of up to 512 records each. \<open>Save\<close> writes
  both under temporary names and publishes the directory first, then \<^verbatim>\<open>meta.bin\<close>. \<open>Load\<close> reads them back,
  cuts a damaged tail off the last segment, and understands the older single-file format.

  The functions work on the file system of the theory \<open>FileSystem\<close>; the code for Windows is not
  modelled. \<open>fp\<close> is the test failpoint selected by the environment variable. When a write to a
  stream fails, the code's message depends on when the stream's buffer is emptied; the model
  reports the message of the flush.
\<close>

section \<open>Constants and failpoints\<close>

definition kLegacyFileMagic :: u32 where "kLegacyFileMagic = 0x52465431"
definition kLegacyFileVersion :: u32 where "kLegacyFileVersion = 2"
definition kMetaMagic :: u32 where "kMetaMagic = 0x524D5441"
definition kMetaVersion :: u32 where "kMetaVersion = 1"
definition kSegmentMagic :: u32 where "kSegmentMagic = 0x524C4F47"
definition kSegmentVersion :: u32 where "kSegmentVersion = 1"
definition kEntryTypeNormal :: u32 where "kEntryTypeNormal = 1"
definition kMaxEntriesPerSegment :: nat where "kMaxEntriesPerSegment = 512"
definition kMaxCommandBytes :: nat where "kMaxCommandBytes = 64 * 1024 * 1024"

definition meta_path_of :: "string \<Rightarrow> string" where "meta_path_of d = path_append d ''meta.bin''"
definition meta_tmp_path_of :: "string \<Rightarrow> string" where "meta_tmp_path_of d = path_append d ''meta.bin.tmp''"
definition log_dir_of :: "string \<Rightarrow> string" where "log_dir_of d = path_append d ''log''"
definition log_tmp_dir_of :: "string \<Rightarrow> string" where "log_tmp_dir_of d = path_append d ''log.tmp''"
definition log_backup_dir_of :: "string \<Rightarrow> string" where "log_backup_dir_of d = path_append d ''log.bak''"
definition legacy_path_of :: "string \<Rightarrow> string" where "legacy_path_of d = path_append d ''raft_state.bin''"

datatype StorageFailpoint = kNone | kMetaFileSync | kMetaDirectorySync | kLogDirectoryReplace
  | kLogDirectorySync | kFinalSegmentPartialWrite

definition CurrentStorageFailpoint :: "string option \<Rightarrow> StorageFailpoint" where
  "CurrentStorageFailpoint env_value =
     (case env_value of None \<Rightarrow> kNone
      | Some failpoint \<Rightarrow>
          if failpoint = ''meta_file_sync'' then kMetaFileSync
          else if failpoint = ''meta_directory_sync'' then kMetaDirectorySync
          else if failpoint = ''log_directory_replace'' then kLogDirectoryReplace
          else if failpoint = ''log_directory_sync'' then kLogDirectorySync
          else if failpoint = ''final_segment_partial_write'' then kFinalSegmentPartialWrite
          else kNone)"

definition BuildInjectedFailureMessage ::
    "string \<Rightarrow> string \<Rightarrow> string \<Rightarrow> string \<Rightarrow> string \<Rightarrow> string \<Rightarrow> string" where
  "BuildInjectedFailureMessage operation path failure_class trusted recovery diagnostic =
     ''injected durability failure, operation='' @ operation @ '', path='' @ path
     @ '', failure_class='' @ failure_class @ '', linux_specific=true''
     @ '', trusted_state_expectation='' @ trusted @ '', recovery_expectation='' @ recovery
     @ '', diagnostic_expectation='' @ diagnostic"

text \<open>\<open>Inl\<close> is the injected error, \<open>Inr\<close> goes on.\<close>

definition InjectFailureIfRequested ::
    "StorageFailpoint \<Rightarrow> StorageFailpoint \<Rightarrow> string \<Rightarrow> string \<Rightarrow> string \<Rightarrow> string \<Rightarrow> string
      \<Rightarrow> fs \<Rightarrow> (string + unit) \<times> fs" where
  "InjectFailureIfRequested fp failpoint operation path trusted failure_class diagnostic w =
     (if fp = failpoint
      then (Inl (BuildInjectedFailureMessage operation path failure_class trusted trusted diagnostic), w)
      else (Inr (), w))"

section \<open>Hard state\<close>

definition initial_state :: PersistentRaftState where
  "initial_state = \<lparr>ps_current_term = 0, ps_voted_for = - 1, ps_commit_index = 0,
     ps_last_applied = 0, ps_log = []\<rparr>"

definition ClampRecoveredHardState :: "PersistentRaftState \<Rightarrow> PersistentRaftState" where
  "ClampRecoveredHardState s0 =
     (let last_index = (if ps_log s0 = [] then 0 else lr_index (last (ps_log s0)));
          s1 = (if ps_commit_index s0 > last_index then s0\<lparr>ps_commit_index := last_index\<rparr> else s0);
          s2 = (if ps_last_applied s1 > last_index then s1\<lparr>ps_last_applied := last_index\<rparr> else s1)
      in if ps_last_applied s2 > ps_commit_index s2
         then s2\<lparr>ps_last_applied := ps_commit_index s2\<rparr> else s2)"

text \<open>\<^verbatim>\<open>voted_for\<close> is an \<^verbatim>\<open>int\<close> in memory and an \<^verbatim>\<open>int64_t\<close> on disk.\<close>

definition WriteI64 :: "int \<Rightarrow> string" where
  "WriteI64 v = WriteU64 (word_of_int v)"

definition cast_int :: "u64 \<Rightarrow> int" where
  "cast_int v = sint (ucast v :: u32)"

section \<open>Segment entries\<close>

record SegmentEntryHeader =
  sh_magic :: u32
  sh_version :: u32
  sh_index :: u64
  sh_term :: u64
  sh_type :: u32
  sh_data_size :: u32
  sh_checksum :: u32

text \<open>
  The struct is written as it lies in memory: 36 bytes of fields and 4 bytes of padding at the end.
  The padding is written as zeros here and ignored by the reader.
\<close>

definition write_header :: "SegmentEntryHeader \<Rightarrow> string" where
  "write_header h = WriteU32 (sh_magic h) @ WriteU32 (sh_version h) @ WriteU64 (sh_index h)
     @ WriteU64 (sh_term h) @ WriteU32 (sh_type h) @ WriteU32 (sh_data_size h)
     @ WriteU32 (sh_checksum h) @ WriteU32 0"

definition read_header :: "string \<Rightarrow> (SegmentEntryHeader \<times> string) option" where
  "read_header s =
     (case ReadU32 s of None \<Rightarrow> None | Some (magic, s1) \<Rightarrow>
      (case ReadU32 s1 of None \<Rightarrow> None | Some (version, s2) \<Rightarrow>
       (case ReadU64 s2 of None \<Rightarrow> None | Some (index, s3) \<Rightarrow>
        (case ReadU64 s3 of None \<Rightarrow> None | Some (trm, s4) \<Rightarrow>
         (case ReadU32 s4 of None \<Rightarrow> None | Some (ty, s5) \<Rightarrow>
          (case ReadU32 s5 of None \<Rightarrow> None | Some (data_size, s6) \<Rightarrow>
           (case ReadU32 s6 of None \<Rightarrow> None | Some (checksum, s7) \<Rightarrow>
            (case ReadU32 s7 of None \<Rightarrow> None | Some (padding, r) \<Rightarrow>
              Some (\<lparr>sh_magic = magic, sh_version = version, sh_index = index, sh_term = trm,
                     sh_type = ty, sh_data_size = data_size, sh_checksum = checksum\<rparr>, r)))))))))"

definition Fnv1aAppend :: "u32 \<Rightarrow> string \<Rightarrow> u32" where
  "Fnv1aAppend h data = foldl (\<lambda>hash c. xor hash (of_nat (of_char c)) * 16777619) h data"

definition ComputeEntryChecksum :: "u64 \<Rightarrow> u64 \<Rightarrow> u32 \<Rightarrow> u32 \<Rightarrow> string \<Rightarrow> u32" where
  "ComputeEntryChecksum index trm ty data_size data =
     Fnv1aAppend (Fnv1aAppend (Fnv1aAppend (Fnv1aAppend (Fnv1aAppend 2166136261
       (WriteU64 index)) (WriteU64 trm)) (WriteU32 ty)) (WriteU32 data_size)) data"

definition entry_header :: "LogRecord \<Rightarrow> SegmentEntryHeader" where
  "entry_header r =
     (let data_size = of_nat (length (lr_command r)) in
      \<lparr>sh_magic = kSegmentMagic, sh_version = kSegmentVersion, sh_index = lr_index r,
       sh_term = lr_term r, sh_type = kEntryTypeNormal, sh_data_size = data_size,
       sh_checksum = ComputeEntryChecksum (lr_index r) (lr_term r) kEntryTypeNormal data_size
         (lr_command r)\<rparr>)"

definition write_entry :: "LogRecord \<Rightarrow> string" where
  "write_entry r = write_header (entry_header r) @ lr_command r"

definition SegmentFileName :: "u64 \<Rightarrow> string" where
  "SegmentFileName first_index = ''segment_'' @ zero_padded 20 (string_of_u64 first_index) @ ''.log''"

definition ParseSegmentStartIndex :: "string \<Rightarrow> u64 option" where
  "ParseSegmentStartIndex path =
     (let name = filename path in
      if length name \<le> 12 \<or> take 8 name \<noteq> ''segment_'' \<or> drop (length name - 4) name \<noteq> ''.log''
      then None
      else let digits = take (length name - 12) (drop 8 name) in
           if digits = [] \<or> \<not> list_all is_digit digits then None
           else if digits_value digits \<ge> 2 ^ 64 then None
           else Some (of_nat (digits_value digits)))"

definition DescribeMetaLogBoundary :: "string \<Rightarrow> u64 \<Rightarrow> u64 \<Rightarrow> u64 \<Rightarrow> string" where
  "DescribeMetaLogBoundary meta_path first_log_index last_log_index log_count =
     ''meta_path='' @ meta_path @ '', first_log_index='' @ string_of_u64 first_log_index
     @ '', last_log_index='' @ string_of_u64 last_log_index @ '', log_count='' @ string_of_u64 log_count"

fun joined :: "string list \<Rightarrow> string" where
  "joined [] = []"
| "joined [x] = x"
| "joined (x # xs) = x @ '', '' @ joined xs"

definition DescribeSegmentFiles :: "(u64 \<times> string) list \<Rightarrow> string" where
  "DescribeSegmentFiles files = ''['' @ joined (map (\<lambda>f. filename (snd f)) files) @ '']''"


section \<open>Publishing files and directories\<close>

text \<open>\<^verbatim>\<open>open\<close>, \<^verbatim>\<open>fsync\<close>, \<^verbatim>\<open>close\<close>; a failing \<^verbatim>\<open>close\<close> is reported as a failing \<^verbatim>\<open>fsync\<close>.\<close>

definition SyncFile :: "string \<Rightarrow> fs \<Rightarrow> (string + unit) \<times> fs" where
  "SyncFile path w0 =
     (let (stop, w) = fs_io w0 in
      if \<not> fs_exists path w then (Inl (''open file for fsync failed: '' @ path @ '': '' @ ec_message), w)
      else if stop \<noteq> None then (Inl (''fsync file failed: '' @ path @ '': '' @ ec_message), w)
      else (Inr (), w))"

definition SyncDirectory :: "string \<Rightarrow> fs \<Rightarrow> (string + unit) \<times> fs" where
  "SyncDirectory path w0 =
     (let (stop, w) = fs_io w0 in
      if \<not> fs_is_dir path w
      then (Inl (''open directory for fsync failed: '' @ path @ '': '' @ ec_message), w)
      else if stop \<noteq> None then (Inl (''fsync directory failed: '' @ path @ '': '' @ ec_message), w)
      else (Inr (), w))"

definition sync_parent :: "string \<Rightarrow> fs \<Rightarrow> (string + unit) \<times> fs" where
  "sync_parent parent_dir w = (if parent_dir = [] then (Inr (), w) else SyncDirectory parent_dir w)"

definition ReplaceFile ::
    "StorageFailpoint \<Rightarrow> string \<Rightarrow> string \<Rightarrow> fs \<Rightarrow> (string + unit) \<times> fs" where
  "ReplaceFile fp src dst w0 =
     io_then (if fs_exists dst w0
              then on_error (\<lambda>ec. ''remove old file failed: '' @ dst @ '': '' @ ec) (fs_remove dst w0)
              else (Inr (), w0)) (\<lambda>_ w.
     io_then (on_error (\<lambda>ec. ''rename file failed: '' @ src @ '' -> '' @ dst @ '': '' @ ec)
                (fs_rename src dst w)) (\<lambda>_ w.
     io_then (InjectFailureIfRequested fp kMetaDirectorySync
                ''meta.bin parent directory sync after replace'' (parent_path dst)
                ''restart must stay on the previously trusted hard-state boundary if the new meta publish reached rename/replace but the parent directory sync did not complete''
                ''directory sync''
                ''error should identify that meta.bin reached rename/replace but the parent directory sync boundary did not complete'' w) (\<lambda>_ w.
     sync_parent (parent_path dst) w)))"

text \<open>The renames of \<open>ReplaceDirectory\<close>: the old directory is moved aside, then the new one moved in; when the
  second rename fails, the old one is moved back.\<close>

definition swap_directories ::
    "StorageFailpoint \<Rightarrow> string \<Rightarrow> string \<Rightarrow> string \<Rightarrow> fs \<Rightarrow> (string + unit) \<times> fs" where
  "swap_directories fp src dst backup w0 =
     io_then (if fs_exists dst w0
              then on_error (\<lambda>ec. ''rename old log dir to backup failed: '' @ ec) (fs_rename dst backup w0)
              else (Inr (), w0)) (\<lambda>_ w.
     io_then (InjectFailureIfRequested fp kLogDirectoryReplace ''log directory replace'' dst
                ''restart must keep the previously durable segment set and must not trust a partially published newer log boundary when replacing log/ fails''
                ''replace/rename''
                ''error should identify that replacing log/ failed before the newer segment tree became the trusted published boundary'' w) (\<lambda>_ w.
     case fs_rename src dst w of
       (Inr _, w1) \<Rightarrow> (Inr (), w1)
     | (Inl ec, w1) \<Rightarrow>
         (Inl (''rename new log dir failed: '' @ ec),
          if fs_exists backup w1 \<and> \<not> fs_exists dst w1 then snd (fs_rename backup dst w1) else w1)))"

definition ReplaceDirectory ::
    "StorageFailpoint \<Rightarrow> string \<Rightarrow> string \<Rightarrow> string \<Rightarrow> fs \<Rightarrow> (string + unit) \<times> fs" where
  "ReplaceDirectory fp src dst backup w0 =
     io_then (on_error (\<lambda>ec. ''remove old log backup dir failed: '' @ ec) (fs_remove_all backup w0)) (\<lambda>_ w.
     io_then (swap_directories fp src dst backup w) (\<lambda>_ w.
     io_then (InjectFailureIfRequested fp kLogDirectorySync ''log parent directory sync after publish''
                (parent_path dst)
                ''restart must stay bounded by the last fully durable segment publish if the new log tree becomes visible but the parent directory sync does not complete''
                ''directory sync''
                ''error should identify that the parent directory sync boundary failed after the newer log tree became visible'' w) (\<lambda>_ w.
     io_then (sync_parent (parent_path dst) w) (\<lambda>_ w.
     case fs_remove_all backup w of
       (Inl _, w1) \<Rightarrow> (Inr (), w1)
     | (Inr _, w1) \<Rightarrow> (Inr (), snd (sync_parent (parent_path dst) w1))))))"

section \<open>Saving\<close>

fun chunks :: "nat \<Rightarrow> 'a list \<Rightarrow> 'a list list" where
  "chunks k [] = []"
| "chunks k (x # xs) = (x # take (k - 1) xs) # chunks k (drop (k - 1) xs)"

definition FlushAndSyncSegmentFile ::
    "StorageFailpoint \<Rightarrow> string \<Rightarrow> bool \<Rightarrow> fs \<Rightarrow> (string + unit) \<times> fs" where
  "FlushAndSyncSegmentFile fp segment_path is_final_segment w =
     (if is_final_segment \<and> fp = kFinalSegmentPartialWrite
      then let expectation = ''save must fail before publishing the new log directory, so restart stays on the previously durable log boundary and ignores the partially written temp segment''
           in (Inl (BuildInjectedFailureMessage ''final segment partial write during save'' segment_path
                ''partial write'' expectation expectation
                ''error should identify that the final temp segment write stopped at a partial-record boundary and that recovery must reject the untrusted tail''),
               fs_append segment_path [CHR 0x42] w)
      else SyncFile segment_path w)"

text \<open>
  One segment file. A command of more than \<open>2 ^ 32 - 1\<close> bytes ends the save after the records before
  it were handed to the stream.
\<close>

definition write_segment ::
    "StorageFailpoint \<Rightarrow> string \<Rightarrow> bool \<Rightarrow> LogRecord list \<Rightarrow> fs \<Rightarrow> (string + unit) \<times> fs" where
  "write_segment fp log_dir is_final_segment records w0 =
     (let path = path_append log_dir (SegmentFileName (lr_index (hd records)));
          fitting = takeWhile (\<lambda>r. length (lr_command r) < 2 ^ 32) records
      in io_then (on_error (\<lambda>phase. if phase = ''open'' then ''open segment file for write failed: '' @ path
                    else if is_final_segment then ''flush final segment file failed''
                    else ''flush segment file failed'')
                  (fs_write path (concat (map write_entry fitting)) w0)) (\<lambda>_ w.
         if length fitting < length records then (Inl ''log command too large'', w)
         else FlushAndSyncSegmentFile fp path is_final_segment w))"

fun write_all_segments ::
    "StorageFailpoint \<Rightarrow> string \<Rightarrow> LogRecord list list \<Rightarrow> fs \<Rightarrow> (string + unit) \<times> fs" where
  "write_all_segments fp log_dir [] w = (Inr (), w)"
| "write_all_segments fp log_dir (seg # rest) w =
     io_then (write_segment fp log_dir (rest = []) seg w) (\<lambda>_ w. write_all_segments fp log_dir rest w)"

definition WriteSegments ::
    "StorageFailpoint \<Rightarrow> string \<Rightarrow> LogRecord list \<Rightarrow> fs \<Rightarrow> (string + unit) \<times> fs" where
  "WriteSegments fp log_dir records w0 =
     io_then (write_all_segments fp log_dir (chunks kMaxEntriesPerSegment records) w0) (\<lambda>_ w.
     SyncDirectory log_dir w)"

definition meta_bytes :: "PersistentRaftState \<Rightarrow> string" where
  "meta_bytes s =
     (let records = ps_log s;
          first_log_index = (if records = [] then 0 else lr_index (hd records));
          last_log_index = (if records = [] then 0 else lr_index (last records))
      in WriteU32 kMetaMagic @ WriteU32 kMetaVersion @ WriteU64 (ps_current_term s)
         @ WriteI64 (ps_voted_for s) @ WriteU64 (ps_commit_index s) @ WriteU64 (ps_last_applied s)
         @ WriteU64 first_log_index @ WriteU64 last_log_index @ WriteU64 (of_nat (length records)))"

definition WriteMeta ::
    "StorageFailpoint \<Rightarrow> string \<Rightarrow> PersistentRaftState \<Rightarrow> fs \<Rightarrow> (string + unit) \<times> fs" where
  "WriteMeta fp meta_path s w0 =
     io_then (on_error (\<lambda>phase. if phase = ''open'' then ''open temp meta file failed: '' @ meta_path
                else ''flush temp meta file failed'') (fs_write meta_path (meta_bytes s) w0)) (\<lambda>_ w.
     io_then (InjectFailureIfRequested fp kMetaFileSync ''meta.bin file sync'' meta_path
                ''restart must keep the previously durable term/vote/commit_index/last_applied and must not expose newer hard state when meta file data was not durably synced''
                ''file sync''
                ''error should identify that the meta temp file sync boundary failed before the new hard-state publish became durable'' w) (\<lambda>_ w.
     SyncFile meta_path w))"

text \<open>Everything before the first published name: the new log and the new meta under temporary names.\<close>

definition save_prepare ::
    "StorageFailpoint \<Rightarrow> string \<Rightarrow> PersistentRaftState \<Rightarrow> fs \<Rightarrow> (string + unit) \<times> fs" where
  "save_prepare fp d s w0 =
     io_then (on_error (\<lambda>ec. ''create data dir failed: '' @ ec) (fs_create_directories d w0)) (\<lambda>_ w.
     io_then (on_error (\<lambda>ec. ''remove stale temp log dir failed: '' @ ec)
                (fs_remove_all (log_tmp_dir_of d) w)) (\<lambda>_ w.
     io_then (on_error (\<lambda>ec. ''create temp log dir failed: '' @ ec)
                (fs_create_directories (log_tmp_dir_of d) w)) (\<lambda>_ w.
     io_then (WriteSegments fp (log_tmp_dir_of d) (ps_log s) w) (\<lambda>_ w.
     WriteMeta fp (meta_tmp_path_of d) s w))))"

definition Storage_Save ::
    "StorageFailpoint \<Rightarrow> string \<Rightarrow> PersistentRaftState \<Rightarrow> fs \<Rightarrow> (string + unit) \<times> fs" where
  "Storage_Save fp d s w0 =
     io_then (save_prepare fp d s w0) (\<lambda>_ w.
     io_then (ReplaceDirectory fp (log_tmp_dir_of d) (log_dir_of d) (log_backup_dir_of d) w) (\<lambda>_ w.
     io_then (ReplaceFile fp (meta_tmp_path_of d) (meta_path_of d) w) (\<lambda>_ w.
       (Inr (), snd (fs_remove (path_append d ''raft_state.bin.tmp'')
                  (snd (fs_remove (legacy_path_of d) w)))))))"


section \<open>Loading\<close>

record raft_meta =
  m_state :: PersistentRaftState
  m_first :: u64
  m_last :: u64
  m_count :: u64

definition read_meta_field ::
    "string \<Rightarrow> string \<Rightarrow> (string \<Rightarrow> ('a \<times> string) option) \<Rightarrow> string \<Rightarrow> string + 'a \<times> string" where
  "read_meta_field meta_path field_name dec s =
     (case dec s of
        None \<Rightarrow> Inl (''read meta field failed: path='' @ meta_path @ '', field='' @ field_name
                   @ '', reason=unexpected EOF'')
      | Some x \<Rightarrow> Inr x)"

definition meta_bounds_ok :: "u64 \<Rightarrow> u64 \<Rightarrow> u64 \<Rightarrow> bool" where
  "meta_bounds_ok first_log_index last_log_index log_count \<longleftrightarrow>
     (if log_count = 0 then first_log_index = 0 \<and> last_log_index = 0
      else first_log_index \<le> last_log_index \<and> last_log_index - first_log_index + 1 = log_count)"

definition parse_meta :: "string \<Rightarrow> string \<Rightarrow> string + raft_meta" where
  "parse_meta meta_path s0 =
     (res_then (read_meta_field meta_path ''magic'' ReadU32 s0) (\<lambda>(magic, s).
      res_then (read_meta_field meta_path ''version'' ReadU32 s) (\<lambda>(version, s).
      res_then (read_meta_field meta_path ''current_term'' ReadU64 s) (\<lambda>(trm, s).
      res_then (read_meta_field meta_path ''voted_for'' ReadU64 s) (\<lambda>(vote, s).
      res_then (read_meta_field meta_path ''commit_index'' ReadU64 s) (\<lambda>(ci, s).
      res_then (read_meta_field meta_path ''last_applied'' ReadU64 s) (\<lambda>(la, s).
      res_then (read_meta_field meta_path ''first_log_index'' ReadU64 s) (\<lambda>(fi, s).
      res_then (read_meta_field meta_path ''last_log_index'' ReadU64 s) (\<lambda>(li, s).
      res_then (read_meta_field meta_path ''log_count'' ReadU64 s) (\<lambda>(cnt, s).
      if magic \<noteq> kMetaMagic
      then Inl (''invalid raft meta magic: path='' @ meta_path @ '', magic='' @ string_of_nat (unat magic))
      else if version \<noteq> kMetaVersion
      then Inl (''unsupported raft meta version: path='' @ meta_path @ '', version='' @ string_of_nat (unat version))
      else if \<not> meta_bounds_ok fi li cnt
      then Inl (''meta log boundary invariant failed: '' @ DescribeMetaLogBoundary meta_path fi li cnt)
      else Inr \<lparr>m_state = \<lparr>ps_current_term = trm, ps_voted_for = cast_int vote, ps_commit_index = ci,
                            ps_last_applied = la, ps_log = []\<rparr>,
                m_first = fi, m_last = li, m_count = cnt\<rparr>))))))))))"

definition ReadMeta :: "string \<Rightarrow> fs \<Rightarrow> string + raft_meta" where
  "ReadMeta meta_path w =
     (case fs_read meta_path w of
        None \<Rightarrow> Inl (''open meta file failed: '' @ meta_path)
      | Some s \<Rightarrow> parse_meta meta_path s)"

definition TruncateFile :: "string \<Rightarrow> nat \<Rightarrow> fs \<Rightarrow> (string + unit) \<times> fs" where
  "TruncateFile path sz w0 =
     io_then (on_error (\<lambda>ec. ''truncate segment file failed: '' @ path @ '': '' @ ec) (fs_resize path sz w0))
       (\<lambda>_ w. SyncFile path w)"

text \<open>
  The loop over the entries of one file: why it stopped (\<open>None\<close> at a clean end), the offset after the
  last good entry, and the records accepted so far. The code's check that the reader made
  progress cannot fail, because an entry has at least 40 bytes.
\<close>

definition header_ok :: "SegmentEntryHeader \<Rightarrow> bool" where
  "header_ok h \<longleftrightarrow> sh_magic h = kSegmentMagic \<and> sh_version h = kSegmentVersion
     \<and> sh_type h = kEntryTypeNormal \<and> unat (sh_data_size h) \<le> kMaxCommandBytes"

lemma ReadPod_rest: "ReadPod k s = Some (v, r) \<Longrightarrow> length s = length r + k"
  by (auto simp: ReadPod_def ReadBytes_def split: if_splits)

lemma ReadU_rest:
  "ReadU32 s = Some (v, r) \<Longrightarrow> length s = length r + 4" "ReadU64 s = Some (x, r) \<Longrightarrow> length s = length r + 8"
  by (auto simp: ReadU32_def ReadU64_def dest: ReadPod_rest split: option.splits)

lemma read_header_rest: "read_header s = Some (h, r) \<Longrightarrow> length s = length r + 40"
  by (auto simp: read_header_def dest!: ReadU_rest split: option.splits prod.splits)

function read_entries ::
    "u64 \<Rightarrow> u64 \<Rightarrow> nat \<Rightarrow> string \<Rightarrow> LogRecord list \<Rightarrow> string option \<times> nat \<times> LogRecord list" where
  "read_entries first last_idx pos s records =
     (if s = [] then (None, pos, records)
      else case read_header s of
        None \<Rightarrow> (Some ''partial segment entry header'', pos, records)
      | Some (h, r) \<Rightarrow>
          if \<not> header_ok h
          then (Some (''invalid segment entry header at offset='' @ string_of_nat pos
                  @ '', magic='' @ string_of_nat (unat (sh_magic h))
                  @ '', version='' @ string_of_nat (unat (sh_version h))
                  @ '', type='' @ string_of_nat (unat (sh_type h))
                  @ '', data_size='' @ string_of_nat (unat (sh_data_size h))), pos, records)
          else if length r < unat (sh_data_size h)
          then (Some ''partial segment entry payload'', pos, records)
          else
            let data = take (unat (sh_data_size h)) r;
                checksum = ComputeEntryChecksum (sh_index h) (sh_term h) (sh_type h) (sh_data_size h) data
            in if checksum \<noteq> sh_checksum h
               then (Some (''segment checksum mismatch at index='' @ string_of_u64 (sh_index h)
                       @ '', expected='' @ string_of_nat (unat (sh_checksum h))
                       @ '', actual='' @ string_of_nat (unat checksum)), pos, records)
               else read_entries first last_idx (pos + 40 + unat (sh_data_size h))
                      (drop (unat (sh_data_size h)) r)
                      (if first \<le> sh_index h \<and> sh_index h \<le> last_idx
                       then records @ [\<lparr>lr_index = sh_index h, lr_term = sh_term h, lr_command = data\<rparr>]
                       else records))"
  by pat_completeness auto
termination
  by (relation "measure (\<lambda>(_, _, _, s, _). length s)") (auto dest!: read_header_rest)

declare read_entries.simps [simp del]

record load_progress =
  lp_records :: "LogRecord list"
  tail_truncated :: bool
  recovery_diagnostics :: "string list"

definition ReadSegmentFile ::
    "string \<Rightarrow> u64 \<Rightarrow> u64 \<Rightarrow> load_progress \<Rightarrow> fs \<Rightarrow> (string + load_progress) \<times> fs" where
  "ReadSegmentFile path first_log_index last_log_index p w =
     (case fs_read path w of
        None \<Rightarrow> (Inl (''open segment file failed: '' @ path), w)
      | Some s \<Rightarrow>
          (case read_entries first_log_index last_log_index 0 s (lp_records p) of
             (None, _, records) \<Rightarrow> (Inr (p\<lparr>lp_records := records\<rparr>), w)
           | (Some reason, last_good_pos, records) \<Rightarrow>
               io_then (TruncateFile path last_good_pos w) (\<lambda>_ w.
                 (Inr \<lparr>lp_records = records, tail_truncated = True,
                       recovery_diagnostics = recovery_diagnostics p @
                         [''segment tail truncated, path='' @ path @ '', reason='' @ reason
                          @ '', truncate_offset='' @ string_of_nat last_good_pos
                          @ '', accepted_records='' @ string_of_nat (length records)]\<rparr>, w))))"

fun read_segment_files ::
    "u64 \<Rightarrow> u64 \<Rightarrow> (u64 \<times> string) list \<Rightarrow> load_progress \<Rightarrow> fs \<Rightarrow> (string + load_progress) \<times> fs" where
  "read_segment_files first last_idx [] p w = (Inr p, w)"
| "read_segment_files first last_idx ((start_index, path) # rest) p w0 =
     (if tail_truncated p
      then let cleanup = ''removed_later_segment='' @ path in
           io_then (on_error (\<lambda>ec. cleanup @ '', reason='' @ ec) (fs_remove path w0)) (\<lambda>_ w.
             read_segment_files first last_idx rest
               (p\<lparr>recovery_diagnostics := recovery_diagnostics p @ [cleanup]\<rparr>) w)
      else io_then (ReadSegmentFile path first last_idx p w0) (\<lambda>p w.
             read_segment_files first last_idx rest p w))"

text \<open>
  The regular files of the log directory with a segment name, by start index. \<^verbatim>\<open>std::sort\<close> may swap
  files of the same start index; the names the code writes have different ones.
\<close>

definition segment_files :: "string \<Rightarrow> fs \<Rightarrow> (u64 \<times> string) list" where
  "segment_files log_dir w =
     sort_key fst (List.map_filter (\<lambda>q. case (fs_read q w, ParseSegmentStartIndex q) of
        (Some _, Some i) \<Rightarrow> Some (i, q) | _ \<Rightarrow> None) (fs_list log_dir w))"

definition load_count_ok :: "u64 \<Rightarrow> u64 \<Rightarrow> load_progress \<Rightarrow> bool" where
  "load_count_ok first_log_index expected_count p \<longleftrightarrow>
     length (lp_records p) = unat expected_count \<or>
     tail_truncated p
     \<and> \<not> (\<exists>diagnostic \<in> set (recovery_diagnostics p). take 22 diagnostic = ''removed_later_segment='')
     \<and> (if lp_records p = [] then first_log_index = 0
        else lr_index (hd (lp_records p)) = first_log_index)"

text \<open>The final checks on what was read. The last message names the first gap.\<close>

fun first_gap :: "LogRecord list \<Rightarrow> (u64 \<times> u64) option" where
  "first_gap (a # b # rest) = (if lr_index b \<noteq> lr_index a + 1 then Some (lr_index a, lr_index b)
     else first_gap (b # rest))"
| "first_gap _ = None"

definition check_loaded ::
    "string \<Rightarrow> u64 \<Rightarrow> u64 \<Rightarrow> u64 \<Rightarrow> (u64 \<times> string) list \<Rightarrow> load_progress \<Rightarrow> string + LogRecord list" where
  "check_loaded log_dir first_log_index last_log_index expected_count files p =
     (let records = lp_records p;
          bounds = '', expected_first='' @ string_of_u64 first_log_index
            @ '', expected_last='' @ string_of_u64 last_log_index;
          actual = (if records = [] then [] else '', actual_first='' @ string_of_u64 (lr_index (hd records))
            @ '', actual_last='' @ string_of_u64 (lr_index (last records)))
      in if \<not> load_count_ok first_log_index expected_count p
         then Inl (''log count mismatch, log_dir='' @ log_dir @ '', expected_count=''
                @ string_of_u64 expected_count @ '', actual_count='' @ string_of_nat (length records)
                @ bounds @ actual @ '', segment_files='' @ DescribeSegmentFiles files
                @ concat (map (\<lambda>diagnostic. '', '' @ diagnostic) (recovery_diagnostics p)))
         else if records = [] then Inr []
         else if lr_index (hd records) \<noteq> first_log_index
              \<or> (\<not> tail_truncated p \<and> lr_index (last records) \<noteq> last_log_index)
         then Inl (''log boundary mismatch while loading segments, log_dir='' @ log_dir @ bounds @ actual
                @ '', segment_files='' @ DescribeSegmentFiles files)
         else case first_gap records of
                Some (a, b) \<Rightarrow> Inl (''non-contiguous log indexes while loading segments, log_dir='' @ log_dir
                  @ '', previous_index='' @ string_of_u64 a @ '', actual_index='' @ string_of_u64 b
                  @ '', segment_files='' @ DescribeSegmentFiles files)
              | None \<Rightarrow> Inr records)"

definition LoadSegments ::
    "string \<Rightarrow> u64 \<Rightarrow> u64 \<Rightarrow> u64 \<Rightarrow> fs \<Rightarrow> (string + LogRecord list) \<times> fs" where
  "LoadSegments log_dir first_log_index last_log_index expected_count w0 =
     (if expected_count = 0 then (Inr [], w0)
      else if \<not> fs_exists log_dir w0 then (Inl (''log dir does not exist: '' @ log_dir), w0)
      else
        let files = segment_files log_dir w0
        in io_then (read_segment_files first_log_index last_log_index files
                     \<lparr>lp_records = [], tail_truncated = False, recovery_diagnostics = []\<rparr> w0) (\<lambda>p w.
           (check_loaded log_dir first_log_index last_log_index expected_count files p, w)))"

definition LoadSegmented :: "string \<Rightarrow> fs \<Rightarrow> (string + PersistentRaftState \<times> bool) \<times> fs" where
  "LoadSegmented d w0 =
     (let meta_path = meta_path_of d; log_dir = log_dir_of d;
          failed = ''load segmented raft state failed: meta='' @ meta_path @ '', log_dir='' @ log_dir
      in case ReadMeta meta_path w0 of
           Inl e \<Rightarrow> (Inl (failed @ '', reason='' @ e), w0)
         | Inr m \<Rightarrow>
             io_then (on_error (\<lambda>e. failed @ '', '' @ DescribeMetaLogBoundary meta_path (m_first m) (m_last m)
                          (m_count m) @ '', reason='' @ e)
                        (LoadSegments log_dir (m_first m) (m_last m) (m_count m) w0)) (\<lambda>records w.
               (Inr (ClampRecoveredHardState ((m_state m)\<lparr>ps_log := records\<rparr>), True), w)))"

section \<open>The older single-file format\<close>

definition read_legacy_field :: "(string \<Rightarrow> ('a \<times> string) option) \<Rightarrow> string \<Rightarrow> string + 'a \<times> string" where
  "read_legacy_field dec s = (case dec s of None \<Rightarrow> Inl ''unexpected EOF'' | Some x \<Rightarrow> Inr x)"

definition read_legacy_string :: "string \<Rightarrow> string + string \<times> string" where
  "read_legacy_string s =
     res_then (read_legacy_field ReadU64 s) (\<lambda>(sz, r).
       if unat sz > kMaxCommandBytes then Inl ''string payload too large''
       else case ReadBytes (unat sz) r of
              None \<Rightarrow> Inl ''unexpected EOF while reading string payload''
            | Some x \<Rightarrow> Inr x)"

fun read_legacy_records :: "nat \<Rightarrow> string \<Rightarrow> string + LogRecord list" where
  "read_legacy_records 0 s = Inr []"
| "read_legacy_records (Suc k) s =
     res_then (read_legacy_field ReadU64 s) (\<lambda>(index, s).
     res_then (read_legacy_field ReadU64 s) (\<lambda>(trm, s).
     res_then (read_legacy_string s) (\<lambda>(command, s).
     res_then (read_legacy_records k s) (\<lambda>records.
       Inr (\<lparr>lr_index = index, lr_term = trm, lr_command = command\<rparr> # records)))))"

definition parse_legacy :: "string \<Rightarrow> string + PersistentRaftState" where
  "parse_legacy s0 =
     res_then (read_legacy_field ReadU32 s0) (\<lambda>(magic, s).
     res_then (read_legacy_field ReadU32 s) (\<lambda>(version, s).
     res_then (read_legacy_field ReadU64 s) (\<lambda>(trm, s).
     res_then (read_legacy_field ReadU64 s) (\<lambda>(vote, s).
       if magic \<noteq> kLegacyFileMagic then Inl ''invalid legacy raft state magic''
       else if version \<noteq> 1 \<and> version \<noteq> kLegacyFileVersion
       then Inl ''unsupported legacy raft state version''
       else
         res_then (if version = 1 then Inr (0, 0, s)
                   else res_then (read_legacy_field ReadU64 s) (\<lambda>(ci, s).
                        res_then (read_legacy_field ReadU64 s) (\<lambda>(la, s). Inr (ci, la, s)))) (\<lambda>(ci, la, s).
         res_then (read_legacy_field ReadU64 s) (\<lambda>(log_count, s).
         res_then (read_legacy_records (unat log_count) s) (\<lambda>records.
           Inr (ClampRecoveredHardState \<lparr>ps_current_term = trm, ps_voted_for = cast_int vote,
                  ps_commit_index = ci, ps_last_applied = la, ps_log = records\<rparr>))))))))"

definition LoadLegacy :: "string \<Rightarrow> fs \<Rightarrow> (string + PersistentRaftState \<times> bool) \<times> fs" where
  "LoadLegacy state_path w =
     (case fs_read state_path w of
        None \<Rightarrow> (Inl (''open legacy state file failed: '' @ state_path), w)
      | Some s \<Rightarrow>
          (case parse_legacy s of Inl e \<Rightarrow> (Inl e, w) | Inr st \<Rightarrow> (Inr (st, True), w)))"

definition Storage_Load :: "string \<Rightarrow> fs \<Rightarrow> (string + PersistentRaftState \<times> bool) \<times> fs" where
  "Storage_Load d w =
     (if fs_exists (meta_path_of d) w then LoadSegmented d w
      else if fs_exists (legacy_path_of d) w then LoadLegacy (legacy_path_of d) w
      else (Inr (initial_state, False), w))"

end
