(* ===== verification/RaftLog.thy ===== *)
theory RaftLog
  imports NodeTypes
begin

text \<open>
  The log helpers of \<^verbatim>\<open>RaftNode\<close> (\<^verbatim>\<open>raft_node.cpp\<close>, lines 924 to 1078): first and last index, offset
  and term lookups, compaction after a snapshot, and the conflict hint a follower returns. The log
  of a node starts with the bootstrap record or with a snapshot marker and holds consecutive
  indexes from there on; \<open>log_wf\<close> states this and the lemmas show that every lookup stays inside
  the vector and that compaction keeps it.
\<close>

section \<open>Lookups\<close>

definition FirstLogIndexLocked :: "('w, 'm) raft_node \<Rightarrow> u64" where
  "FirstLogIndexLocked n = (if log n = [] then last_snapshot_index n else lr_index (hd (log n)))"

definition LastLogIndexLocked :: "('w, 'm) raft_node \<Rightarrow> u64" where
  "LastLogIndexLocked n = (if log n = [] then last_snapshot_index n else lr_index (last (log n)))"

definition LastLogTermLocked :: "('w, 'm) raft_node \<Rightarrow> u64" where
  "LastLogTermLocked n = (if log n = [] then last_snapshot_term n else lr_term (last (log n)))"

definition IsCandidateLogUpToDateLocked :: "u64 \<Rightarrow> u64 \<Rightarrow> ('w, 'm) raft_node \<Rightarrow> bool" where
  "IsCandidateLogUpToDateLocked last_log_index last_log_term n =
     (let my_last_term = LastLogTermLocked n in
      if last_log_term \<noteq> my_last_term then last_log_term > my_last_term
      else last_log_index \<ge> LastLogIndexLocked n)"

definition HasLogAtIndexLocked :: "u64 \<Rightarrow> ('w, 'm) raft_node \<Rightarrow> bool" where
  "HasLogAtIndexLocked i n =
     (if log n = [] then False
      else i \<ge> lr_index (hd (log n)) \<and> i \<le> lr_index (last (log n)))"

definition LogOffsetLocked :: "u64 \<Rightarrow> ('w, 'm) raft_node \<Rightarrow> nat" where
  "LogOffsetLocked i n = unat (i - lr_index (hd (log n)))"

definition LogAtIndexLocked :: "u64 \<Rightarrow> ('w, 'm) raft_node \<Rightarrow> LogRecord option" where
  "LogAtIndexLocked i n =
     (if \<not> HasLogAtIndexLocked i n then None else Some (log n ! LogOffsetLocked i n))"

definition TermAtIndexLocked :: "u64 \<Rightarrow> ('w, 'm) raft_node \<Rightarrow> u64" where
  "TermAtIndexLocked i n =
     (if i = last_snapshot_index n then last_snapshot_term n
      else case LogAtIndexLocked i n of None \<Rightarrow> 0 | Some record \<Rightarrow> lr_term record)"

fun first_index_of_term :: "u64 \<Rightarrow> LogRecord list \<Rightarrow> u64" where
  "first_index_of_term t [] = 0"
| "first_index_of_term t (record # rest) =
     (if lr_term record = t then lr_index record else first_index_of_term t rest)"

definition FirstIndexOfTermLocked :: "u64 \<Rightarrow> ('w, 'm) raft_node \<Rightarrow> u64" where
  "FirstIndexOfTermLocked t n = first_index_of_term t (log n)"

section \<open>Compaction\<close>

definition RestoreLogAfterSnapshotLocked ::
    "u64 \<Rightarrow> u64 \<Rightarrow> bool \<Rightarrow> ('w, 'm) raft_node \<Rightarrow> ('w, 'm) raft_node" where
  "RestoreLogAfterSnapshotLocked idx trm keep_suffix_when_boundary_matches n =
     (if idx \<le> last_snapshot_index n \<and> log n \<noteq> [] \<and> lr_index (hd (log n)) = last_snapshot_index n
      then n
      else
        let boundary_ok = (case LogAtIndexLocked idx n of None \<Rightarrow> False
                           | Some boundary \<Rightarrow> lr_term boundary = trm);
            keep_suffix = (if \<not> keep_suffix_when_boundary_matches then False
              else if \<not> boundary_ok \<and> idx = last_snapshot_index n then last_snapshot_term n = trm
              else boundary_ok);
            compacted = \<lparr>lr_index = idx, lr_term = trm, lr_command = kSnapshotMarkerCommand\<rparr>
              # (if keep_suffix then filter (\<lambda>record. lr_index record > idx) (log n) else []);
            n1 = n\<lparr>log := compacted, last_snapshot_index := idx, last_snapshot_term := trm\<rparr>;
            n2 = (if commit_index n1 < idx then n1\<lparr>commit_index := idx\<rparr> else n1)
        in if last_applied n2 < idx then n2\<lparr>last_applied := idx\<rparr> else n2)"

definition CompactLogPrefixLocked ::
    "u64 \<Rightarrow> u64 \<Rightarrow> ('w, 'm) raft_node \<Rightarrow> ('w, 'm) raft_node" where
  "CompactLogPrefixLocked idx trm n = RestoreLogAfterSnapshotLocked idx trm True n"

section \<open>The conflict hint\<close>

definition SetAppendEntriesConflictHintLocked ::
    "u64 \<Rightarrow> ('w, 'm) raft_node \<Rightarrow> AppendEntriesResponse \<Rightarrow> AppendEntriesResponse" where
  "SetAppendEntriesConflictHintLocked probe_index n response =
     (let r = response\<lparr>as_last_log_index := LastLogIndexLocked n, conflict_index := 0,
                       conflict_term := 0\<rparr> in
      if probe_index < last_snapshot_index n then
        r\<lparr>conflict_index := SafeAddOne (last_snapshot_index n)\<rparr>
      else if \<not> HasLogAtIndexLocked probe_index n then
        r\<lparr>conflict_index := SafeAddOne (LastLogIndexLocked n)\<rparr>
      else let t = TermAtIndexLocked probe_index n
           in r\<lparr>conflict_term := t, conflict_index := FirstIndexOfTermLocked t n\<rparr>)"

section \<open>Well-formed logs\<close>

text \<open>
  A well-formed log is never empty, its first record carries the snapshot boundary (index and term
  \<open>0\<close> before any snapshot) and the indexes increase by one, without wrapping.
\<close>

definition consecutive :: "LogRecord list \<Rightarrow> bool" where
  "consecutive l \<longleftrightarrow> (\<forall>i < length l. unat (lr_index (l ! i)) = unat (lr_index (hd l)) + i)"

definition log_wf :: "('w, 'm) raft_node \<Rightarrow> bool" where
  "log_wf n \<longleftrightarrow> log n \<noteq> [] \<and> consecutive (log n) \<and>
     lr_index (hd (log n)) = last_snapshot_index n \<and> lr_term (hd (log n)) = last_snapshot_term n"

lemma consecutive_nth:
  "consecutive l \<Longrightarrow> i < length l \<Longrightarrow> unat (lr_index (l ! i)) = unat (lr_index (hd l)) + i"
  by (simp add: consecutive_def)

lemma consecutive_last:
  assumes "consecutive l" and "l \<noteq> []"
  shows "unat (lr_index (last l)) = unat (lr_index (hd l)) + (length l - 1)"
  using assms consecutive_nth [of l "length l - 1"] by (simp add: last_conv_nth)

lemma consecutive_singleton [simp]: "consecutive [r]"
  by (simp add: consecutive_def)

lemma consecutive_take: "consecutive l \<Longrightarrow> consecutive (take k l)"
  by (cases "k = 0") (auto simp: consecutive_def hd_take_pos)

lemma consecutive_snoc:
  assumes "consecutive l" and "l \<noteq> []" and "unat (lr_index r) = Suc (unat (lr_index (last l)))"
  shows "consecutive (l @ [r])"
  using assms consecutive_last [OF assms(1,2)]
  by (auto simp: consecutive_def nth_append less_Suc_eq)

lemma consecutive_inj:
  assumes "consecutive l" and "i < length l" and "j < length l"
    and "lr_index (l ! i) = lr_index (l ! j)"
  shows "i = j"
  using consecutive_nth [OF assms(1,2)] consecutive_nth [OF assms(1,3)] assms(4) by (metis add_left_cancel)

lemma HasLog_offset:
  assumes "consecutive (log n)" and "HasLogAtIndexLocked i n"
  shows "LogOffsetLocked i n < length (log n)"
    and "lr_index (log n ! LogOffsetLocked i n) = i"
    and "LogOffsetLocked i n = unat i - unat (lr_index (hd (log n)))"
proof -
  have ne: "log n \<noteq> []" and le: "lr_index (hd (log n)) \<le> i" and ub: "i \<le> lr_index (last (log n))"
    using assms(2) by (auto simp: HasLogAtIndexLocked_def split: if_splits)
  from le show off: "LogOffsetLocked i n = unat i - unat (lr_index (hd (log n)))"
    by (simp add: LogOffsetLocked_def unat_sub)
  with ub ne le consecutive_last [OF assms(1) ne]
  show lt: "LogOffsetLocked i n < length (log n)"
    by (cases "log n") (auto simp: u64_simps)
  from consecutive_nth [OF assms(1) lt] off le
  show "lr_index (log n ! LogOffsetLocked i n) = i"
    by (simp add: u64_simps word_unat_eq_iff)
qed

lemma HasLog_iff_ex:
  assumes "consecutive (log n)"
  shows "HasLogAtIndexLocked i n \<longleftrightarrow> (\<exists>k < length (log n). lr_index (log n ! k) = i)"
proof
  assume "HasLogAtIndexLocked i n"
  then show "\<exists>k < length (log n). lr_index (log n ! k) = i"
    using HasLog_offset [OF assms] by blast
next
  assume "\<exists>k < length (log n). lr_index (log n ! k) = i"
  then obtain k where k: "k < length (log n)" "lr_index (log n ! k) = i" by blast
  then have "log n \<noteq> []" by auto
  with k consecutive_nth [OF assms k(1)] consecutive_last [OF assms]
  show "HasLogAtIndexLocked i n"
    by (auto simp: HasLogAtIndexLocked_def u64_simps)
qed

lemma LogAtIndexLocked_eq:
  assumes "consecutive (log n)" and "k < length (log n)"
  shows "LogAtIndexLocked (lr_index (log n ! k)) n = Some (log n ! k)"
proof -
  let ?i = "lr_index (log n ! k)"
  have has: "HasLogAtIndexLocked ?i n"
    using assms HasLog_iff_ex [OF assms(1)] by blast
  have "LogOffsetLocked ?i n = k"
    using consecutive_inj [OF assms(1) HasLog_offset(1) [OF assms(1) has] assms(2)]
      HasLog_offset(2) [OF assms(1) has] by simp
  with has show ?thesis by (simp add: LogAtIndexLocked_def)
qed

lemma LogAtIndexLocked_Some_iff:
  assumes "consecutive (log n)"
  shows "LogAtIndexLocked i n = Some r \<longleftrightarrow> r \<in> set (log n) \<and> lr_index r = i"
proof
  assume a: "LogAtIndexLocked i n = Some r"
  then have has: "HasLogAtIndexLocked i n" and r: "r = log n ! LogOffsetLocked i n"
    by (auto simp: LogAtIndexLocked_def split: if_splits)
  with HasLog_offset [OF assms has] show "r \<in> set (log n) \<and> lr_index r = i" by simp
next
  assume "r \<in> set (log n) \<and> lr_index r = i"
  then obtain k where "k < length (log n)" "log n ! k = r" by (auto simp: in_set_conv_nth)
  with LogAtIndexLocked_eq [OF assms] \<open>r \<in> set (log n) \<and> lr_index r = i\<close>
  show "LogAtIndexLocked i n = Some r" by auto
qed

lemma log_wfD:
  assumes "log_wf n"
  shows "log n \<noteq> []" "consecutive (log n)" "lr_index (hd (log n)) = last_snapshot_index n"
    "lr_term (hd (log n)) = last_snapshot_term n"
  using assms by (auto simp: log_wf_def)

lemma log_wf_cong:
  "log n' = log n \<Longrightarrow> last_snapshot_index n' = last_snapshot_index n \<Longrightarrow>
   last_snapshot_term n' = last_snapshot_term n \<Longrightarrow> log_wf n' = log_wf n"
  by (simp add: log_wf_def)

lemma log_wf_first: "log_wf n \<Longrightarrow> FirstLogIndexLocked n = last_snapshot_index n"
  by (simp add: log_wf_def FirstLogIndexLocked_def)

lemma log_wf_last:
  assumes "log_wf n"
  shows "unat (LastLogIndexLocked n) = unat (last_snapshot_index n) + (length (log n) - 1)"
  using assms consecutive_last [of "log n"] by (simp add: log_wf_def LastLogIndexLocked_def)

lemma log_wf_snapshot_le_last: "log_wf n \<Longrightarrow> last_snapshot_index n \<le> LastLogIndexLocked n"
  using log_wf_last [of n] by (simp add: u64_simps)

lemma log_wf_HasLog:
  assumes "log_wf n"
  shows "HasLogAtIndexLocked i n \<longleftrightarrow> last_snapshot_index n \<le> i \<and> i \<le> LastLogIndexLocked n"
  using assms by (simp add: log_wf_def HasLogAtIndexLocked_def LastLogIndexLocked_def)

lemma log_wf_nth:
  assumes "log_wf n" and "last_snapshot_index n \<le> i" and "i \<le> LastLogIndexLocked n"
  shows "LogAtIndexLocked i n = Some (log n ! (unat i - unat (last_snapshot_index n)))"
    and "unat i - unat (last_snapshot_index n) < length (log n)"
    and "lr_index (log n ! (unat i - unat (last_snapshot_index n))) = i"
proof -
  note wf = log_wfD [OF assms(1)]
  have has: "HasLogAtIndexLocked i n" using assms by (simp add: log_wf_HasLog)
  note off = HasLog_offset [OF wf(2) has]
  from off(3) wf(3) have o: "LogOffsetLocked i n = unat i - unat (last_snapshot_index n)" by simp
  from has o show "LogAtIndexLocked i n = Some (log n ! (unat i - unat (last_snapshot_index n)))"
    by (simp add: LogAtIndexLocked_def)
  from off o show "unat i - unat (last_snapshot_index n) < length (log n)"
    and "lr_index (log n ! (unat i - unat (last_snapshot_index n))) = i" by simp_all
qed

text \<open>The term lookup special-cases the snapshot boundary; on a well-formed log that agrees with
  the record stored there.\<close>

lemma TermAtIndexLocked_eq:
  assumes "log_wf n"
  shows "TermAtIndexLocked i n =
    (case LogAtIndexLocked i n of None \<Rightarrow> 0 | Some r \<Rightarrow> lr_term r)"
proof (cases "i = last_snapshot_index n")
  case True
  note wf = log_wfD [OF assms]
  have "0 < length (log n)" using wf(1) by simp
  with LogAtIndexLocked_eq [OF wf(2), of 0] wf True
  have "LogAtIndexLocked i n = Some (hd (log n))" by (simp add: hd_conv_nth)
  with True wf show ?thesis by (simp add: TermAtIndexLocked_def)
next
  case False
  then show ?thesis by (simp add: TermAtIndexLocked_def)
qed

section \<open>Compaction keeps the suffix\<close>

lemma consecutive_filter_gt:
  assumes "consecutive l" and "k < length l"
  shows "filter (\<lambda>r. lr_index r > lr_index (l ! k)) l = drop (Suc k) l"
proof -
  let ?P = "\<lambda>r. lr_index r > lr_index (l ! k)"
  have hi: "?P r" if "r \<in> set (drop (Suc k) l)" for r
  proof -
    from that obtain j where "j < length (drop (Suc k) l)" "r = drop (Suc k) l ! j"
      by (metis in_set_conv_nth)
    then have j: "Suc k + j < length l" "r = l ! (Suc k + j)" by auto
    with consecutive_nth [OF assms(1) j(1)] consecutive_nth [OF assms]
    show ?thesis by (simp add: u64_simps)
  qed
  have lo: "\<not> ?P r" if "r \<in> set (take (Suc k) l)" for r
  proof -
    from that obtain j where "j < length (take (Suc k) l)" "r = take (Suc k) l ! j"
      by (metis in_set_conv_nth)
    then have j: "j \<le> k" "j < length l" "r = l ! j" by auto
    with consecutive_nth [OF assms(1) j(2)] consecutive_nth [OF assms]
    show ?thesis by (simp add: u64_simps)
  qed
  have "filter ?P l = filter ?P (take (Suc k) l) @ filter ?P (drop (Suc k) l)"
    by (metis append_take_drop_id filter_append)
  with hi lo show ?thesis by (simp add: filter_empty_conv filter_id_conv)
qed

lemma consecutive_marker_drop:
  assumes "consecutive l" and "k < length l" and "lr_index m = lr_index (l ! k)"
  shows "consecutive (m # drop (Suc k) l)"
  unfolding consecutive_def
proof (intro allI impI)
  fix i assume i: "i < length (m # drop (Suc k) l)"
  show "unat (lr_index ((m # drop (Suc k) l) ! i)) = unat (lr_index (hd (m # drop (Suc k) l))) + i"
  proof (cases i)
    case 0
    then show ?thesis by simp
  next
    case (Suc j)
    with i have "Suc k + j < length l" by simp
    with consecutive_nth [OF assms(1) this] consecutive_nth [OF assms(1,2)] assms(3) Suc
    show ?thesis by simp
  qed
qed

text \<open>The boundary record of a compaction: present in the log with the snapshot's term.\<close>

definition boundary_matches :: "u64 \<Rightarrow> u64 \<Rightarrow> ('w, 'm) raft_node \<Rightarrow> bool" where
  "boundary_matches idx trm n \<longleftrightarrow> (\<exists>r \<in> set (log n). lr_index r = idx \<and> lr_term r = trm)"

definition snapshot_marker :: "u64 \<Rightarrow> u64 \<Rightarrow> LogRecord" where
  "snapshot_marker idx trm =
     \<lparr>lr_index = idx, lr_term = trm, lr_command = kSnapshotMarkerCommand\<rparr>"

lemma CompactLogPrefixLocked_stale:
  assumes "log_wf n" and "idx \<le> last_snapshot_index n"
  shows "CompactLogPrefixLocked idx trm n = n"
  using assms
  by (simp add: CompactLogPrefixLocked_def RestoreLogAfterSnapshotLocked_def log_wf_def)

lemma CompactLogPrefixLocked_new:
  assumes wf: "log_wf n" and new: "last_snapshot_index n < idx"
  shows "CompactLogPrefixLocked idx trm n =
    n\<lparr>log := snapshot_marker idx trm #
         (if boundary_matches idx trm n
          then drop (Suc (unat idx - unat (last_snapshot_index n))) (log n) else []),
      last_snapshot_index := idx, last_snapshot_term := trm,
      commit_index := max (commit_index n) idx, last_applied := max (last_applied n) idx\<rparr>"
proof -
  note lw = log_wfD [OF wf]
  have bm: "(case LogAtIndexLocked idx n of None \<Rightarrow> False | Some b \<Rightarrow> lr_term b = trm)
      = boundary_matches idx trm n"
  proof -
    note iff = LogAtIndexLocked_Some_iff [OF lw(2), of idx]
    show ?thesis
    proof (cases "LogAtIndexLocked idx n")
      case None
      then have "\<not> boundary_matches idx trm n" using iff by (auto simp: boundary_matches_def)
      with None show ?thesis by simp
    next
      case (Some b)
      with iff have "b \<in> set (log n)" "lr_index b = idx" by auto
      moreover from Some iff have "r = b" if "r \<in> set (log n)" "lr_index r = idx" for r
        using that by (metis option.inject)
      ultimately have "boundary_matches idx trm n \<longleftrightarrow> lr_term b = trm"
        unfolding boundary_matches_def by blast
      with Some show ?thesis by simp
    qed
  qed
  have flt: "filter (\<lambda>r. lr_index r > idx) (log n)
      = drop (Suc (unat idx - unat (last_snapshot_index n))) (log n)"
    if "boundary_matches idx trm n"
  proof -
    from that have "HasLogAtIndexLocked idx n"
      by (auto simp: boundary_matches_def HasLog_iff_ex [OF lw(2)] in_set_conv_nth)
    with wf new have "idx \<le> LastLogIndexLocked n" by (simp add: log_wf_HasLog)
    from log_wf_nth [OF wf _ this] new consecutive_filter_gt [OF lw(2)]
    show ?thesis by (metis order_less_imp_le)
  qed
  have fresh: "\<not> idx \<le> last_snapshot_index n" "idx \<noteq> last_snapshot_index n" using new by auto
  show ?thesis
    unfolding CompactLogPrefixLocked_def RestoreLogAfterSnapshotLocked_def snapshot_marker_def Let_def bm
    by (cases "boundary_matches idx trm n"; cases "commit_index n < idx"; cases "last_applied n < idx")
      (simp_all add: fresh flt max_absorb1 max_absorb2 not_less less_imp_le)
qed

lemma log_wf_Compact:
  assumes wf: "log_wf n"
  shows "log_wf (CompactLogPrefixLocked idx trm n)"
proof (cases "idx \<le> last_snapshot_index n")
  case True
  then show ?thesis using wf by (simp add: CompactLogPrefixLocked_stale)
next
  case False
  then have new: "last_snapshot_index n < idx" by simp
  note lw = log_wfD [OF wf]
  show ?thesis
  proof (cases "boundary_matches idx trm n")
    case True
    then have "HasLogAtIndexLocked idx n"
      by (auto simp: boundary_matches_def HasLog_iff_ex [OF lw(2)] in_set_conv_nth)
    with wf new have "idx \<le> LastLogIndexLocked n" by (simp add: log_wf_HasLog)
    note k = log_wf_nth [OF wf less_imp_le [OF new] this]
    have "consecutive (snapshot_marker idx trm #
        drop (Suc (unat idx - unat (last_snapshot_index n))) (log n))"
      by (rule consecutive_marker_drop [OF lw(2) k(2)]) (simp add: k(3) snapshot_marker_def)
    with True show ?thesis
      by (simp add: CompactLogPrefixLocked_new [OF wf new] log_wf_def snapshot_marker_def)
  next
    case False
    then show ?thesis
      by (simp add: CompactLogPrefixLocked_new [OF wf new] log_wf_def snapshot_marker_def)
  qed
qed

lemma Compact_keeps_suffix:
  assumes wf: "log_wf n" and b: "boundary_matches idx trm n" and i: "idx < i"
  shows "LogAtIndexLocked i (CompactLogPrefixLocked idx trm n) = LogAtIndexLocked i n"
proof (cases "idx \<le> last_snapshot_index n")
  case True
  then show ?thesis using wf by (simp add: CompactLogPrefixLocked_stale)
next
  case False
  then have new: "last_snapshot_index n < idx" by simp
  let ?n' = "CompactLogPrefixLocked idx trm n"
  note lw = log_wfD [OF wf] and lw' = log_wfD [OF log_wf_Compact [OF wf, of idx trm]]
  have "HasLogAtIndexLocked idx n"
    using b by (auto simp: boundary_matches_def HasLog_iff_ex [OF lw(2)] in_set_conv_nth)
  with wf new have "idx \<le> LastLogIndexLocked n" by (simp add: log_wf_HasLog)
  note k = log_wf_nth [OF wf less_imp_le [OF new] this]
  have log': "log ?n' = snapshot_marker idx trm # filter (\<lambda>r. lr_index r > idx) (log n)"
    using consecutive_filter_gt [OF lw(2) k(2)] k(3) b
    by (simp add: CompactLogPrefixLocked_new [OF wf new])
  have "r \<in> set (log ?n') \<and> lr_index r = i \<longleftrightarrow> r \<in> set (log n) \<and> lr_index r = i" for r
    using i by (auto simp: log' snapshot_marker_def)
  then have "LogAtIndexLocked i ?n' = Some r \<longleftrightarrow> LogAtIndexLocked i n = Some r" for r
    by (simp add: LogAtIndexLocked_Some_iff [OF lw'(2)] LogAtIndexLocked_Some_iff [OF lw(2)])
  then show ?thesis by (metis option.exhaust)
qed

end
