(* ===== verification/FilePaths.thy ===== *)
theory FilePaths
  imports FileSystem
begin

text \<open>
  Paths inside a directory, and what each operation of the file system does when no fault occurs, by
  the contents of the table: the lemmas the storage theories share.
\<close>

section \<open>Paths inside a directory\<close>

definition plain_dir :: "string \<Rightarrow> bool" where
  "plain_dir d \<longleftrightarrow> d \<noteq> [] \<and> last d \<noteq> CHR ''/''"

lemma path_append_plain: "plain_dir d \<Longrightarrow> path_append d n = d @ CHR ''/'' # n"
  by (simp add: path_append_def plain_dir_def)

lemma split_last_component:
  assumes "CHR ''/'' \<notin> set n"
  shows "filename (d @ CHR ''/'' # n) = n" and "parent_path (d @ CHR ''/'' # n) = d"
proof -
  have t: "takeWhile (\<lambda>c. c \<noteq> CHR ''/'') (rev n @ CHR ''/'' # rev d) = rev n"
    using assms by (subst takeWhile_append2) auto
  have dr: "dropWhile (\<lambda>c. c \<noteq> CHR ''/'') (rev n @ CHR ''/'' # rev d) = CHR ''/'' # rev d"
    using assms by (subst dropWhile_append2) auto
  from t show "filename (d @ CHR ''/'' # n) = n" by (simp add: filename_def)
  from dr show "parent_path (d @ CHR ''/'' # n) = d" by (simp add: parent_path_def)
qed

lemma parent_path_decompose:
  assumes "parent_path q = d" and "d \<noteq> []"
  shows "q = d @ CHR ''/'' # filename q"
proof -
  let ?P = "\<lambda>c. c \<noteq> CHR ''/''"
  have s: "rev q = takeWhile ?P (rev q) @ dropWhile ?P (rev q)" by simp
  have "dropWhile ?P (rev q) \<noteq> []"
  proof
    assume "dropWhile ?P (rev q) = []"
    with assms show False unfolding parent_path_def by simp
  qed
  then obtain c y where cy: "dropWhile ?P (rev q) = c # y" by (cases "dropWhile ?P (rev q)") simp_all
  then have "\<not> ?P c" using hd_dropWhile [of ?P "rev q"] by simp
  with cy have y: "dropWhile ?P (rev q) = CHR ''/'' # y" by simp
  then have "d = rev y" using assms(1) by (simp add: parent_path_def)
  moreover have "q = rev (dropWhile ?P (rev q)) @ rev (takeWhile ?P (rev q))"
    using s by (metis rev_append rev_rev_ident)
  ultimately show ?thesis using y by (simp add: filename_def)
qed

lemma under_iff: "under d q \<longleftrightarrow> (\<exists>x. q = d @ CHR ''/'' # x)"
proof
  assume "under d q"
  then have "take (Suc (length d)) q = d @ ''/''" by (simp add: under_def)
  then have "q = (d @ ''/'') @ drop (Suc (length d)) q" by (metis append_take_drop_id)
  then show "\<exists>x. q = d @ CHR ''/'' # x" by auto
qed (auto simp: under_def)

lemma under_child [simp]: "under d (d @ CHR ''/'' # x)"
  by (auto simp: under_iff)

lemma append_component_eq:
  assumes "CHR ''/'' \<notin> set a" and "CHR ''/'' \<notin> set b"
  shows "a @ CHR ''/'' # x = b @ CHR ''/'' # y \<longleftrightarrow> a = b \<and> x = y"
proof
  assume eq: "a @ CHR ''/'' # x = b @ CHR ''/'' # y"
  have "takeWhile (\<lambda>c. c \<noteq> CHR ''/'') (z @ CHR ''/'' # u) = z" if "CHR ''/'' \<notin> set z" for z u
    using that by (subst takeWhile_append2) auto
  with assms eq have "a = b" by metis
  with eq show "a = b \<and> x = y" by simp
qed simp

text \<open>Names inside one directory are unrelated: neither is inside another, and no path is inside two.\<close>

lemma sibling_paths:
  assumes "CHR ''/'' \<notin> set a" and "CHR ''/'' \<notin> set b"
  shows "\<not> under (d @ CHR ''/'' # a) (d @ CHR ''/'' # b)"
    and "under (d @ CHR ''/'' # a) q \<Longrightarrow> under (d @ CHR ''/'' # b) q \<Longrightarrow> a = b"
    and "\<not> under (d @ CHR ''/'' # a) d"
proof -
  show "\<not> under (d @ CHR ''/'' # a) (d @ CHR ''/'' # b)" using assms(2) by (auto simp: under_iff)
  show "under (d @ CHR ''/'' # a) q \<Longrightarrow> under (d @ CHR ''/'' # b) q \<Longrightarrow> a = b"
    using append_component_eq [OF assms] by (auto simp: under_iff)
  show "\<not> under (d @ CHR ''/'' # a) d" using under_longer [of "d @ CHR ''/'' # a" d] by auto
qed

lemma ancestors_child:
  assumes "CHR ''/'' \<notin> set n"
  shows "ancestors (d @ CHR ''/'' # n) = (d @ CHR ''/'' # n) # ancestors d"
  by (subst ancestors.simps) (simp add: split_last_component [OF assms])

lemma parent_of_child: "d \<noteq> [] \<Longrightarrow> parent_path q = d \<Longrightarrow> under d q"
  using parent_path_decompose [of q d] by (auto simp: under_iff)

lemma under_trans: "under a b \<Longrightarrow> under b c \<Longrightarrow> under a c"
  by (auto simp: under_iff)

lemma under_irrefl [simp]: "\<not> under a a"
  using under_longer [of a a] by auto

lemma under_parent:
  assumes "under q p"
  shows "q = parent_path p \<or> under q (parent_path p)"
proof -
  from assms obtain x where p: "p = q @ CHR ''/'' # x" by (auto simp: under_iff)
  show ?thesis
  proof (cases "CHR ''/'' \<in> set x")
    case False
    then show ?thesis by (simp add: p split_last_component)
  next
    case True
    then obtain y z where "x = y @ CHR ''/'' # z" "CHR ''/'' \<notin> set z"
      by (metis split_list_last)
    then have "parent_path p = q @ CHR ''/'' # y"
      using split_last_component(2) [of z "q @ CHR ''/'' # y"] by (simp add: p)
    then show ?thesis by simp
  qed
qed

lemma under_common:
  assumes "under q x" and "under b x"
  shows "q = b \<or> under q b \<or> under b q"
proof -
  from assms(1) obtain y where xy: "x = q @ CHR ''/'' # y" unfolding under_iff by blast
  from assms(2) obtain z where xz: "x = b @ CHR ''/'' # z" unfolding under_iff by blast
  from xy xz have e: "q @ CHR ''/'' # y = b @ CHR ''/'' # z" by simp
  consider us where "q = b @ us" "us @ CHR ''/'' # y = CHR ''/'' # z"
    | us where "q @ us = b" "CHR ''/'' # y = us @ CHR ''/'' # z"
    using e by (auto simp: append_eq_append_conv2)
  then show ?thesis
  proof cases
    case 1
    then show ?thesis by (cases us) (auto simp: under_iff)
  next
    case 2
    then show ?thesis by (cases us) (auto simp: under_iff)
  qed
qed

lemma ancestors_under: "a \<in> set (ancestors p) \<longleftrightarrow> a \<noteq> [] \<and> (a = p \<or> under a p)"
proof (induction p rule: ancestors.induct)
  case (1 p)
  show ?case
  proof (cases "p = []")
    case True
    then show ?thesis using under_longer [of a "[]"] by (auto simp: ancestors.simps)
  next
    case False
    have "a \<in> set (ancestors p) \<longleftrightarrow> a = p \<or> a \<in> set (ancestors (parent_path p))"
      using False by (subst ancestors.simps) simp
    moreover have "under a p" if "a \<noteq> []" "a = parent_path p \<or> under a (parent_path p)"
      using that parent_of_child [of "parent_path p" p] under_trans under_longer by fastforce
    ultimately show ?thesis using "1.IH" [OF False] False under_parent [of a p] by blast
  qed
qed

section \<open>The table after an operation\<close>

text \<open>What a restart finds: the table, without the faults of the previous run.\<close>

definition fs_restart :: "fs \<Rightarrow> fs" where
  "fs_restart w = w\<lparr>fs_faults := [], fs_crashed := False\<rparr>"

definition fs_distinct :: "fs \<Rightarrow> bool" where
  "fs_distinct w \<longleftrightarrow> distinct (map fst (fs_entries w))"

lemma fs_present_iff: "(\<exists>q \<in> fst ` set (fs_entries w). P q) \<longleftrightarrow> (\<exists>q. P q \<and> fs_lookup q w \<noteq> None)"
  by (auto simp: fs_lookup_def map_of_eq_None_iff)

lemma fs_distinct_put [simp]: "fs_distinct w \<Longrightarrow> fs_distinct (fs_put p e w)"
  by (auto simp: fs_distinct_def fs_put_def distinct_map_filter)

lemma fs_distinct_drop [simp]: "fs_distinct w \<Longrightarrow> fs_distinct (fs_drop P w)"
  by (simp add: fs_distinct_def fs_drop_def distinct_map_filter)

lemma fold_put_quiet [simp]: "fs_quiet (fold (\<lambda>a. fs_put a FDir) as w) = fs_quiet w"
  by (induction as arbitrary: w) auto

lemma fold_put_distinct [simp]: "fs_distinct w \<Longrightarrow> fs_distinct (fold (\<lambda>a. fs_put a FDir) as w)"
  by (induction as arbitrary: w) auto

lemma fold_put_lookup:
  "fs_lookup q (fold (\<lambda>a. fs_put a FDir) as w) = (if q \<in> set as then Some FDir else fs_lookup q w)"
  by (induction as arbitrary: w) auto

lemma fs_create_directories_quiet:
  assumes "fs_quiet w" and "\<forall>a \<in> set (ancestors p). \<forall>x. fs_lookup a w \<noteq> Some (FFile x)"
  shows "fs_create_directories p w = (Inr (), fold (\<lambda>a. fs_put a FDir) (ancestors p) w)"
  using assms by (auto simp: fs_create_directories_def fs_no_file_iff)

lemma fs_remove_all_quiet:
  "fs_quiet w \<Longrightarrow> fs_remove_all p w = (Inr (), fs_drop (\<lambda>q. q = p \<or> under p q) w)"
  by (simp add: fs_remove_all_def)

lemma fs_remove_quiet:
  assumes "fs_quiet w" and "\<not> fs_is_dir p w"
  shows "fs_remove p w = (Inr (), fs_drop (\<lambda>q. q = p) w)"
  using assms by (simp add: fs_remove_def)


lemma fs_restart_simps [simp]:
  "fs_quiet (fs_restart w)" "fs_entries (fs_restart w) = fs_entries w"
  "fs_lookup q (fs_restart w) = fs_lookup q w" "fs_restart (snd (fs_io w)) = fs_restart w"
  "fs_restart (fs_put p e w) = fs_put p e (fs_restart w)" "fs_restart (fs_drop P w) = fs_drop P (fs_restart w)"
  "fs_restart (fs_restart w) = fs_restart w"
  by (simp_all add: fs_restart_def fs_quiet_def fs_lookup_def fs_io_def fs_put_def fs_drop_def
      split: list.split fault.split)

lemma fs_restart_quiet: "fs_quiet w \<Longrightarrow> fs_restart w = w"
  by (simp add: fs_restart_def fs_quiet_def)

lemma fs_restart_fold [simp]:
  "fs_restart (fold (\<lambda>a. fs_put a FDir) as w) = fold (\<lambda>a. fs_put a FDir) as (fs_restart w)"
  by (induction as arbitrary: w) auto

lemma fs_restart_queries [simp]:
  "fs_exists q (fs_restart w) = fs_exists q w" "fs_is_dir q (fs_restart w) = fs_is_dir q w"
  "fs_read q (fs_restart w) = fs_read q w" "fs_list q (fs_restart w) = fs_list q w"
  "fs_distinct (fs_restart w) = fs_distinct w"
  by (simp_all add: fs_exists_def fs_is_dir_def fs_read_def fs_list_def fs_distinct_def)

definition fs_move :: "string \<Rightarrow> string \<Rightarrow> fs \<Rightarrow> fs" where
  "fs_move a b w = w\<lparr>fs_entries :=
     map (\<lambda>(q, e). (b @ drop (length a) q, e)) (filter (\<lambda>(q, _). q = a \<or> under a q) (fs_entries w))
     @ filter (\<lambda>(q, _). \<not> (q = a \<or> under a q) \<and> q \<noteq> b) (fs_entries w)\<rparr>"

lemma fs_rename_quiet:
  assumes "fs_quiet w" and "fs_exists a w" and "fs_lookup b w = None"
    and "\<And>q. under b q \<Longrightarrow> fs_lookup q w = None"
    and "\<not> under a b" and "parent_path b = [] \<or> fs_is_dir (parent_path b) w"
  shows "fs_rename a b w = (Inr (), fs_move a b w)"
proof -
  have free: "\<not> (\<exists>q \<in> fst ` set (fs_entries w). under b q)"
    unfolding fs_present_iff by (simp add: assms(4))
  have old: "\<not> (fs_is_dir a w \<noteq> fs_is_dir b w \<and> fs_exists b w)" using assms(3) by (simp add: fs_exists_def)
  show ?thesis unfolding fs_rename_def fs_io_quiet [OF assms(1)] Let_def prod.case
    by (subst if_not_P) (use assms(2,5,6) free old in \<open>simp_all add: fs_move_def\<close>)
qed

lemma fs_quiet_move [simp]: "fs_quiet (fs_move a b w) = fs_quiet w"
  by (simp add: fs_quiet_def fs_move_def)

lemma fs_restart_move [simp]: "fs_restart (fs_move a b w) = fs_move a b (fs_restart w)"
  by (simp add: fs_move_def fs_restart_def)

lemma here_cases: "q = a \<or> under a q \<Longrightarrow> \<exists>x. q = a @ x \<and> (x = [] \<or> hd x = CHR ''/'')"
  by (auto simp: under_iff)

lemma map_of_moved:
  assumes "x = [] \<or> hd x = CHR ''/''"
  shows "map_of (map (\<lambda>(q, e). (b @ drop (length a) q, e)) (filter (\<lambda>(q, _). q = a \<or> under a q) es)) (b @ x)
    = map_of es (a @ x)"
proof (induction es)
  case (Cons y es)
  obtain q e where y: "y = (q, e)" by fastforce
  have h: "a @ x = a \<or> under a (a @ x)" using assms by (cases x) (auto simp: under_iff)
  show ?case
  proof (cases "q = a \<or> under a q")
    case True
    then obtain z where "q = a @ z" by (auto simp: under_iff)
    with y True Cons show ?thesis by auto
  next
    case False
    with h have "q \<noteq> a @ x" by auto
    with y False Cons show ?thesis by simp
  qed
qed simp

lemma map_of_filter_keys: "map_of (filter (\<lambda>(q, _). P q) es) q = (if P q then map_of es q else None)"
  by (induction es) auto

lemma map_of_moved_None:
  assumes "\<not> (q = b \<or> under b q)"
  shows "map_of (map (\<lambda>(q, e). (b @ drop (length a) q, e)) (filter (\<lambda>(q, _). q = a \<or> under a q) es)) q = None"
proof -
  have "q \<noteq> b @ drop (length a) p" if "p = a \<or> under a p" for p
    using that assms by (auto simp: under_iff)
  then show ?thesis by (force simp: map_of_eq_None_iff)
qed

lemma fs_lookup_move:
  assumes "\<And>q. under b q \<Longrightarrow> fs_lookup q w = None"
  shows "fs_lookup q (fs_move a b w) =
    (if q = b \<or> under b q then fs_lookup (a @ drop (length b) q) w
     else if q = a \<or> under a q then None else fs_lookup q w)"
proof (cases "q = b \<or> under b q")
  case True
  then obtain x where x: "q = b @ x" "x = [] \<or> hd x = CHR ''/''" by (auto simp: under_iff)
  have n: "x \<noteq> [] \<Longrightarrow> map_of (fs_entries w) (b @ x) = None"
    using True x assms [of q] by (auto simp: fs_lookup_def)
  show ?thesis
    using True map_of_moved [OF x(2), of b a "fs_entries w"] n
    by (auto simp: x(1) fs_lookup_def fs_move_def map_add_def map_of_filter_keys split: option.split)
next
  case False
  then show ?thesis
    using map_of_moved_None [OF False, of a "fs_entries w"]
    by (simp add: fs_lookup_def fs_move_def map_add_def map_of_filter_keys)
qed

lemma fs_distinct_move:
  assumes "fs_distinct w" and "\<And>q. under b q \<Longrightarrow> fs_lookup q w = None"
  shows "fs_distinct (fs_move a b w)"
proof -
  let ?here = "\<lambda>q. q = a \<or> under a q"
  let ?H = "filter (\<lambda>(q, _). ?here q) (fs_entries w)"
  let ?R = "filter (\<lambda>(q, _). \<not> ?here q \<and> q \<noteq> b) (fs_entries w)"
  let ?f = "\<lambda>q. b @ drop (length a) q"
  have mp: "map fst (map (\<lambda>(q, e). (?f q, e)) ?H) = map ?f (map fst ?H)"
    by (rule nth_equalityI) (simp_all add: split_def)
  have "inj_on ?f {q. ?here q}"
  proof (rule inj_onI)
    fix x y assume "x \<in> {q. ?here q}" "y \<in> {q. ?here q}" and e: "?f x = ?f y"
    then obtain u v where "x = a @ u" "y = a @ v" using here_cases [of x a] here_cases [of y a] by auto
    with e show "x = y" by simp
  qed
  then have "inj_on ?f (set (map fst ?H))" by (rule inj_on_subset) auto
  moreover have "distinct (map fst ?H)" using assms(1) by (simp add: fs_distinct_def distinct_map_filter)
  ultimately have d1: "distinct (map ?f (map fst ?H))" by (simp add: distinct_map comp_inj_on)
  have d2: "distinct (map fst ?R)" using assms(1) by (simp add: fs_distinct_def distinct_map_filter)
  have "?f x \<noteq> y" if "?here x" "y \<in> set (map fst ?R)" for x y
  proof
    assume e: "?f x = y"
    from that(1) obtain u where u: "x = a @ u" "u = [] \<or> hd u = CHR ''/''" using here_cases by blast
    with e have "y = b \<or> under b y" by (cases u) (auto simp: under_iff)
    moreover have "y \<noteq> b" "fs_lookup y w \<noteq> None"
      using that(2) by (auto simp: fs_lookup_def map_of_eq_None_iff)
    ultimately show False using assms(2) by auto
  qed
  then have "set (map ?f (map fst ?H)) \<inter> set (map fst ?R) = {}" by fastforce
  moreover have "map fst (fs_entries (fs_move a b w)) = map ?f (map fst ?H) @ map fst ?R"
    unfolding mp [symmetric] fs_move_def by simp
  ultimately show ?thesis using d1 d2 unfolding fs_distinct_def by (simp only: distinct_append)
qed

section \<open>Well-formed tables\<close>

text \<open>Keys are unique, and whatever lies above a present path is a directory.\<close>

definition fs_wf :: "fs \<Rightarrow> bool" where
  "fs_wf w \<longleftrightarrow> fs_distinct w \<and>
     (\<forall>p q. fs_lookup p w \<noteq> None \<longrightarrow> q \<noteq> [] \<longrightarrow> under q p \<longrightarrow> fs_lookup q w = Some FDir)"

lemma fs_wfI:
  assumes "fs_distinct w"
    and "\<And>p q. fs_lookup p w \<noteq> None \<Longrightarrow> q \<noteq> [] \<Longrightarrow> under q p \<Longrightarrow> fs_lookup q w = Some FDir"
  shows "fs_wf w"
  using assms unfolding fs_wf_def by blast

lemma fs_wf_distinct: "fs_wf w \<Longrightarrow> fs_distinct w"
  by (simp add: fs_wf_def)

lemma fs_wf_above:
  "fs_wf w \<Longrightarrow> fs_lookup p w \<noteq> None \<Longrightarrow> q \<noteq> [] \<Longrightarrow> under q p \<Longrightarrow> fs_lookup q w = Some FDir"
  unfolding fs_wf_def by blast

lemma fs_wf_below:
  assumes "fs_wf w" and "\<not> fs_is_dir p w" and "p \<noteq> []" and "under p q"
  shows "fs_lookup q w = None"
proof (rule ccontr)
  assume "fs_lookup q w \<noteq> None"
  with fs_wf_above [OF assms(1) _ assms(3,4)] assms(2) show False by (simp add: fs_is_dir_def)
qed

lemma fs_wf_restart [simp]: "fs_wf (fs_restart w) = fs_wf w"
  by (simp add: fs_wf_def)

lemma fs_wf_io [simp]: "fs_wf (snd (fs_io w)) = fs_wf w"
  by (metis fs_wf_restart fs_restart_simps(4))

lemma fs_wf_put_file:
  assumes "fs_wf w" and "\<not> fs_is_dir p w" and "parent_path p = [] \<or> fs_is_dir (parent_path p) w" and "p \<noteq> []"
  shows "fs_wf (fs_put p (FFile c) w)"
proof (rule fs_wfI)
  show "fs_distinct (fs_put p (FFile c) w)" using assms(1) by (simp add: fs_wf_def)
  fix x q assume pr: "fs_lookup x (fs_put p (FFile c) w) \<noteq> None" and q: "q \<noteq> []" "under q x"
  have "fs_lookup q w = Some FDir"
  proof (cases "x = p")
    case True
    with q under_parent have qp: "q = parent_path p \<or> under q (parent_path p)" by blast
    with q assms(3) have d: "fs_lookup (parent_path p) w = Some FDir"
      using under_longer [of q "parent_path p"] by (auto simp: fs_is_dir_def)
    with qp q fs_wf_above [OF assms(1), of "parent_path p" q] show ?thesis by auto
  next
    case False
    with pr q fs_wf_above [OF assms(1), of x q] show ?thesis by simp
  qed
  with assms(2) show "fs_lookup q (fs_put p (FFile c) w) = Some FDir" by (auto simp: fs_is_dir_def)
qed

lemma fs_wf_make_dirs:
  assumes "fs_wf w" and "\<forall>a \<in> set (ancestors p). \<forall>x. fs_lookup a w \<noteq> Some (FFile x)"
  shows "fs_wf (fold (\<lambda>a. fs_put a FDir) (ancestors p) w)"
proof (rule fs_wfI)
  show "fs_distinct (fold (\<lambda>a. fs_put a FDir) (ancestors p) w)"
    using assms(1) by (simp add: fs_wf_distinct)
  fix x q assume pr: "fs_lookup x (fold (\<lambda>a. fs_put a FDir) (ancestors p) w) \<noteq> None" "q \<noteq> []" "under q x"
  show "fs_lookup q (fold (\<lambda>a. fs_put a FDir) (ancestors p) w) = Some FDir"
  proof (cases "x \<in> set (ancestors p)")
    case True
    then have "q \<in> set (ancestors p)" using pr(2,3) under_trans by (auto simp: ancestors_under)
    then show ?thesis by (simp add: fold_put_lookup)
  next
    case False
    with pr fs_wf_above [OF assms(1), of x q] show ?thesis by (simp add: fold_put_lookup)
  qed
qed

lemma fs_wf_drop:
  assumes "fs_wf w" and "\<And>q x. P q \<Longrightarrow> under q x \<Longrightarrow> fs_lookup x w \<noteq> None \<Longrightarrow> P x"
  shows "fs_wf (fs_drop P w)"
proof (rule fs_wfI)
  show "fs_distinct (fs_drop P w)" using assms(1) by (simp add: fs_wf_distinct)
  fix x q assume pr: "fs_lookup x (fs_drop P w) \<noteq> None" "q \<noteq> []" "under q x"
  then have x: "fs_lookup x w \<noteq> None" "\<not> P x" by (auto simp: fs_lookup_drop split: if_splits)
  then have "\<not> P q" using assms(2) pr(3) by blast
  with x pr fs_wf_above [OF assms(1), of x q] show "fs_lookup q (fs_drop P w) = Some FDir"
    by (simp add: fs_lookup_drop)
qed

lemma fs_wf_move:
  assumes wf: "fs_wf w" and free: "\<And>q. under b q \<Longrightarrow> fs_lookup q w = None"
    and out: "\<not> under a b" and parent: "parent_path b = [] \<or> fs_is_dir (parent_path b) w"
    and ne: "a \<noteq> []" "b \<noteq> []"
  shows "fs_wf (fs_move a b w)"
proof (rule fs_wfI)
  show "fs_distinct (fs_move a b w)" by (rule fs_distinct_move [OF fs_wf_distinct [OF wf] free])
  note look = fs_lookup_move [OF free]
  fix x q assume pr: "fs_lookup x (fs_move a b w) \<noteq> None" and q: "q \<noteq> []" "under q x"
  show "fs_lookup q (fs_move a b w) = Some FDir"
  proof (cases "x = b \<or> under b x")
    case True
    then obtain y where x: "x = b @ y" "y = [] \<or> hd y = CHR ''/''" by (auto simp: under_iff)
    have old: "fs_lookup (a @ y) w \<noteq> None" using pr True by (simp add: look x(1))
    consider "q = b" "y \<noteq> []" | "under q b" | "under b q"
      using True q(2) x under_common [of q x b] by (cases "y = []") auto
    then show ?thesis
    proof cases
      case 1
      then have "under a (a @ y)" using x(2) by (cases y) (auto simp: under_iff)
      with old fs_wf_above [OF wf] ne(1) 1 show ?thesis by (simp add: look)
    next
      case 2
      then have qp: "q = parent_path b \<or> under q (parent_path b)" by (rule under_parent)
      with q(1) parent have d: "fs_lookup (parent_path b) w = Some FDir"
        using under_longer [of q "parent_path b"] by (auto simp: fs_is_dir_def)
      with qp q(1) fs_wf_above [OF wf, of "parent_path b" q] have "fs_lookup q w = Some FDir" by auto
      moreover have "q \<noteq> b" "\<not> under b q" using 2 under_trans [of b q b] by auto
      moreover have "q \<noteq> a" "\<not> under a q" using 2 out under_trans [of a q b] by auto
      ultimately show ?thesis by (simp add: look)
    next
      case 3
      then obtain z where z: "q = b @ CHR ''/'' # z" by (auto simp: under_iff)
      with q(2) x(1) have "under (a @ CHR ''/'' # z) (a @ y)" by (auto simp: under_iff)
      with old fs_wf_above [OF wf] 3 z show ?thesis by (simp add: look)
    qed
  next
    case False
    then have x: "\<not> (x = a \<or> under a x)" "fs_lookup x w \<noteq> None"
      using pr by (auto simp: look split: if_splits)
    then have "q \<noteq> a" "\<not> under a q" "q \<noteq> b" "\<not> under b q"
      using q(2) under_trans free False by metis+
    with x q fs_wf_above [OF wf, of x q] show ?thesis by (simp add: look)
  qed
qed

section \<open>Effects of the operations under any faults\<close>

lemma fs_create_directories_cases:
  assumes "fs_create_directories p w = (r, w')"
  obtains (ok) "r = Inr ()" "fs_restart w' = fold (\<lambda>a. fs_put a FDir) (ancestors p) (fs_restart w)"
      "\<forall>a \<in> set (ancestors p). \<forall>x. fs_lookup a w \<noteq> Some (FFile x)"
    | (failed) e where "r = Inl e" "fs_restart w' = fs_restart w"
  using assms by (auto simp: fs_create_directories_def fs_no_file_iff Let_def split_def split: if_splits)

lemma fs_write_cases:
  assumes "fs_write p data w = (r, w')"
  obtains (ok) "r = Inr ()" "fs_restart w' = fs_put p (FFile data) (fs_restart w)" "\<not> fs_is_dir p w"
      "parent_path p = [] \<or> fs_is_dir (parent_path p) w"
    | (failed) e where "r = Inl e" "fs_restart w' = fs_restart w"
    | (torn) e k where "r = Inl e" "fs_restart w' = fs_put p (FFile (take k data)) (fs_restart w)"
      "\<not> fs_is_dir p w" "parent_path p = [] \<or> fs_is_dir (parent_path p) w"
  using assms by (auto simp: fs_write_def fs_is_dir_def Let_def split_def split: if_splits option.splits)

lemma fs_remove_cases:
  assumes "fs_remove p w = (r, w')"
  obtains (ok) "r = Inr ()" "fs_restart w' = fs_drop (\<lambda>q. q = p) (fs_restart w)"
      "fs_is_dir p w \<Longrightarrow> \<forall>q. under p q \<longrightarrow> fs_lookup q w = None"
    | (failed) e where "r = Inl e" "fs_restart w' = fs_restart w"
proof -
  have "(\<exists>q \<in> fst ` set (fs_entries (snd (fs_io w))). under p q) \<longleftrightarrow> (\<exists>q. under p q \<and> fs_lookup q w \<noteq> None)"
    unfolding fs_present_iff by simp
  with assms that show ?thesis
    by (auto simp: fs_remove_def fs_is_dir_def Let_def split_def split: if_splits)
qed

lemma fs_remove_all_cases:
  assumes "fs_remove_all p w = (r, w')"
  obtains (ok) "r = Inr ()" "fs_restart w' = fs_drop (\<lambda>q. q = p \<or> under p q) (fs_restart w)"
    | (partial) e gone where "r = Inl e" "fs_restart w' = fs_drop (\<lambda>q. q \<in> set gone) (fs_restart w)"
        "\<forall>q \<in> set gone. (q = p \<or> under p q) \<and> (\<exists>e. (q, e) \<in> set (fs_entries w) \<and> e \<noteq> FDir)"
proof (cases "fst (fs_io w)")
  case None
  with assms ok show ?thesis by (auto simp: fs_remove_all_def split_def)
next
  case (Some k)
  let ?gone = "take k (map fst (filter (\<lambda>(q, e). (q = p \<or> under p q) \<and> e \<noteq> FDir) (fs_entries w)))"
  have en: "fs_entries (snd (fs_io w)) = fs_entries w"
    using fs_restart_simps(2) [of "snd (fs_io w)"] fs_restart_simps(2) [of w] fs_restart_simps(4) [of w] by simp
  have "\<forall>q \<in> set ?gone. (q = p \<or> under p q) \<and> (\<exists>e. (q, e) \<in> set (fs_entries w) \<and> e \<noteq> FDir)"
    by (fastforce dest!: in_set_takeD)
  moreover have "r = Inl ec_message" "fs_restart w' = fs_drop (\<lambda>q. q \<in> set ?gone) (fs_restart w)"
    using assms Some en by (auto simp: fs_remove_all_def split_def Let_def)
  ultimately show ?thesis by (rule partial [rotated 2])
qed

text \<open>The part of a tree that an interrupted removal leaves is well formed, and other paths are as they were.\<close>

lemma fs_remove_all_partial:
  assumes "fs_wf w" and "\<forall>q \<in> set gone. (q = p \<or> under p q) \<and> (\<exists>e. (q, e) \<in> set (fs_entries w) \<and> e \<noteq> FDir)"
    and "p \<noteq> []"
  shows "\<And>q x. q \<in> set gone \<Longrightarrow> under q x \<Longrightarrow> fs_lookup x w = None"
proof -
  fix q x assume q: "q \<in> set gone" and u: "under q x"
  from q assms(2) obtain e where e: "(q, e) \<in> set (fs_entries w)" "e \<noteq> FDir" and "q = p \<or> under p q" by blast
  then have "q \<noteq> []" using assms(3) under_longer [of p q] by auto
  have "fs_lookup q w = Some e" using e(1) fs_wf_distinct [OF assms(1)] by (simp add: fs_lookup_def fs_distinct_def)
  with e(2) have "\<not> fs_is_dir q w" by (simp add: fs_is_dir_def)
  from fs_wf_below [OF assms(1) this \<open>q \<noteq> []\<close> u] show "fs_lookup x w = None" .
qed

lemma fs_rename_cases:
  assumes "fs_rename a b w = (r, w')"
  obtains (ok) "r = Inr ()" "fs_restart w' = fs_move a b (fs_restart w)" "fs_exists a w"
      "\<And>q. under b q \<Longrightarrow> fs_lookup q w = None" "\<not> under a b"
      "parent_path b = [] \<or> fs_is_dir (parent_path b) w"
    | (failed) e where "r = Inl e" "fs_restart w' = fs_restart w"
proof -
  let ?w = "snd (fs_io w)"
  have free: "(\<exists>q \<in> fst ` set (fs_entries ?w). under b q) \<longleftrightarrow> (\<exists>q. under b q \<and> fs_lookup q w \<noteq> None)"
    unfolding fs_present_iff by simp
  have mv: "fs_restart (fs_move a b ?w) = fs_move a b (fs_restart w)"
    by simp
  show ?thesis
  proof (cases "r = Inr ()")
    case True
    then have "w' = fs_move a b ?w" "fs_exists a w" "\<not> (\<exists>q \<in> fst ` set (fs_entries ?w). under b q)"
      "\<not> under a b" "parent_path b = [] \<or> fs_is_dir (parent_path b) w"
      using assms by (auto simp: fs_rename_def fs_move_def fs_exists_def fs_is_dir_def Let_def split_def
          split: if_splits)
    with ok [OF True] mv show ?thesis unfolding free by auto
  next
    case False
    then obtain e where "r = Inl e" by (cases r) auto
    with assms failed show ?thesis by (auto simp: fs_rename_def Let_def split_def split: if_splits)
  qed
qed

lemma fs_resize_cases:
  assumes "fs_resize p k w = (r, w')"
  obtains (ok) c where "r = Inr ()" "fs_read p w = Some c"
      "fs_restart w' = fs_put p (FFile (take k c @ replicate (k - length c) (CHR 0x00))) (fs_restart w)"
    | (failed) e where "r = Inl e" "fs_restart w' = fs_restart w"
  using assms
  by (auto simp: fs_resize_def fs_read_def Let_def split_def split: option.splits fs_entry.splits)

lemma fs_append_cases:
  obtains (ok) c k where "fs_read p w = Some c"
      "fs_restart (fs_append p data w) = fs_put p (FFile (c @ take k data)) (fs_restart w)"
    | (failed) "fs_restart (fs_append p data w) = fs_restart w"
proof -
  show ?thesis
  proof (cases "fs_lookup p w")
    case (Some e)
    show ?thesis
    proof (cases e)
      case (FFile c)
      have "\<exists>k. (case fst (fs_io w) of None \<Rightarrow> data | Some k \<Rightarrow> take k data) = take k data"
        by (cases "fst (fs_io w)") (auto intro: exI [of _ "length data"])
      then obtain k where "(case fst (fs_io w) of None \<Rightarrow> data | Some k \<Rightarrow> take k data) = take k data" ..
      with ok [of c k] Some FFile show ?thesis
        by (simp add: fs_append_def fs_read_def Let_def split_def)
    qed (use failed Some in \<open>simp add: fs_append_def Let_def split_def\<close>)
  qed (use failed in \<open>simp add: fs_append_def Let_def split_def\<close>)
qed

end
