(* ===== verification/StorageFormat.thy ===== *)
theory StorageFormat
  imports RaftStorage RaftLog FilePaths
begin

text \<open>
  The file formats of the storage are read back as they were written: entry headers, entries with
  their checksums, \<^verbatim>\<open>meta.bin\<close>, segment names, and the split of a log into segments.
\<close>

section \<open>Entries\<close>

interpretation hdr: codec write_header read_header "\<lambda>_. True"
  by unfold_locales (simp add: write_header_def read_header_def u32.dec_enc u64.dec_enc)

text \<open>What a log must satisfy so that the storage can represent it.\<close>

definition storable_record :: "LogRecord \<Rightarrow> bool" where
  "storable_record r \<longleftrightarrow> length (lr_command r) \<le> kMaxCommandBytes"

lemma storable_size:
  assumes "storable_record r"
  shows "unat (of_nat (length (lr_command r)) :: u32) = length (lr_command r)"
    and "length (lr_command r) < 2 ^ 32"
proof -
  show lt: "length (lr_command r) < 2 ^ 32" using assms by (simp add: storable_record_def kMaxCommandBytes_def)
  then show "unat (of_nat (length (lr_command r)) :: u32) = length (lr_command r)"
    by (simp add: unat_of_nat)
qed

lemma read_entries_step:
  assumes "storable_record r"
  shows "read_entries f l pos (write_entry r @ rest) acc =
    read_entries f l (pos + 40 + length (lr_command r)) rest
      (if f \<le> lr_index r \<and> lr_index r \<le> l then acc @ [r] else acc)"
proof -
  have ne: "write_entry r @ rest \<noteq> []"
  proof
    assume "write_entry r @ rest = []"
    then have "length (write_header (entry_header r)) = 0" by (simp add: write_entry_def)
    then show False by (simp add: write_header_def WriteU32_def WritePod_def)
  qed
  have hd: "read_header (write_entry r @ rest) = Some (entry_header r, lr_command r @ rest)"
    by (simp add: write_entry_def hdr.dec_enc)
  have sz: "unat (sh_data_size (entry_header r)) = length (lr_command r)"
    using storable_size(1) [OF assms] by (simp add: entry_header_def Let_def)
  have ok: "header_ok (entry_header r)"
    using sz assms by (simp add: header_ok_def storable_record_def) (simp add: entry_header_def Let_def)
  have f: "sh_index (entry_header r) = lr_index r" "sh_term (entry_header r) = lr_term r"
    "sh_type (entry_header r) = kEntryTypeNormal"
    "sh_checksum (entry_header r) = ComputeEntryChecksum (lr_index r) (lr_term r) kEntryTypeNormal
       (sh_data_size (entry_header r)) (lr_command r)"
    by (simp_all add: entry_header_def Let_def)
  have surj: "\<lparr>lr_index = lr_index r, lr_term = lr_term r, lr_command = lr_command r\<rparr> = r"
    by (cases r) simp
  show ?thesis
    unfolding read_entries.simps [of f l pos "write_entry r @ rest" acc] if_not_P [OF ne]
    by (simp add: hd ok sz f surj Let_def)
qed

lemma read_entries_written:
  "\<forall>r \<in> set rs. storable_record r \<Longrightarrow>
   \<exists>pos'. read_entries f l pos (concat (map write_entry rs)) acc =
     (None, pos', acc @ filter (\<lambda>r. f \<le> lr_index r \<and> lr_index r \<le> l) rs)"
proof (induction rs arbitrary: pos acc)
  case Nil
  show ?case by (simp add: read_entries.simps)
next
  case (Cons r rs)
  have "storable_record r" "\<forall>r \<in> set rs. storable_record r" using Cons.prems by simp_all
  from Cons.IH [OF this(2), of "pos + 40 + length (lr_command r)"
      "if f \<le> lr_index r \<and> lr_index r \<le> l then acc @ [r] else acc"]
  show ?case by (auto simp: read_entries_step [OF \<open>storable_record r\<close>])
qed

section \<open>The meta file\<close>

definition storable :: "PersistentRaftState \<Rightarrow> bool" where
  "storable s \<longleftrightarrow> - (2 ^ 31) \<le> ps_voted_for s \<and> ps_voted_for s < 2 ^ 31 \<and> consecutive (ps_log s) \<and>
     (\<forall>r \<in> set (ps_log s). storable_record r) \<and> length (ps_log s) < 2 ^ 64"

lemma cast_int_write:
  assumes "- (2 ^ 31) \<le> v" and "v < 2 ^ 31"
  shows "cast_int (word_of_int v) = v"
proof -
  have "ucast (word_of_int v :: u64) = (word_of_int v :: u32)"
    by (rule bit_word_eqI) (simp add: bit_simps)
  then show ?thesis using assms by (simp add: cast_int_def signed_of_int signed_take_bit_int_eq_self)
qed

definition meta_of :: "PersistentRaftState \<Rightarrow> raft_meta" where
  "meta_of s = \<lparr>m_state = s\<lparr>ps_log := []\<rparr>,
     m_first = (if ps_log s = [] then 0 else lr_index (hd (ps_log s))),
     m_last = (if ps_log s = [] then 0 else lr_index (last (ps_log s))),
     m_count = of_nat (length (ps_log s))\<rparr>"

lemma log_count_word: "length l < 2 ^ 64 \<Longrightarrow> unat (of_nat (length l) :: u64) = length l"
  by (simp add: unat_of_nat)

lemma meta_bounds_written:
  assumes "storable s"
  shows "meta_bounds_ok (m_first (meta_of s)) (m_last (meta_of s)) (m_count (meta_of s))"
proof (cases "ps_log s = []")
  case True
  then show ?thesis by (simp add: meta_bounds_ok_def meta_of_def)
next
  case False
  let ?f = "lr_index (hd (ps_log s))" and ?l = "lr_index (last (ps_log s))"
  have len: "length (ps_log s) < 2 ^ 64" and con: "consecutive (ps_log s)"
    using assms by (simp_all add: storable_def)
  have last: "unat ?l = unat ?f + (length (ps_log s) - 1)" by (rule consecutive_last [OF con False])
  then have le: "?f \<le> ?l" by (simp add: word_le_nat_alt)
  have "of_nat (unat ?l) = (of_nat (unat ?f) + of_nat (length (ps_log s) - 1) :: u64)"
    using last by simp
  then have "?l - ?f = of_nat (length (ps_log s) - 1)" by simp
  then have "?l - ?f + 1 = of_nat (length (ps_log s) - 1 + 1)" by simp
  also have "length (ps_log s) - 1 + 1 = length (ps_log s)" using False by (cases "ps_log s") auto
  finally have cnt: "?l - ?f + 1 = of_nat (length (ps_log s))" .
  have "(of_nat (length (ps_log s)) :: u64) \<noteq> 0"
    using log_count_word [OF len] False by (metis length_0_conv unat_0)
  with False le cnt show ?thesis by (simp add: meta_bounds_ok_def meta_of_def)
qed

lemma parse_meta_written:
  assumes "storable s"
  shows "parse_meta path (meta_bytes s) = Inr (meta_of s)"
proof -
  have vote: "cast_int (word_of_int (ps_voted_for s)) = ps_voted_for s"
    using assms by (intro cast_int_write) (simp_all add: storable_def)
  have last: "ReadU64 (WriteU64 x) = Some (x, [])" for x using u64.dec_enc [of x "[]"] by simp
  have b: "meta_bounds_ok (if ps_log s = [] then 0 else lr_index (hd (ps_log s)))
      (if ps_log s = [] then 0 else lr_index (last (ps_log s))) (of_nat (length (ps_log s)))"
    using meta_bounds_written [OF assms] by (simp add: meta_of_def)
  show ?thesis
    by (simp add: parse_meta_def meta_bytes_def read_meta_field_def WriteI64_def u32.dec_enc u64.dec_enc
        last vote b Let_def meta_of_def del: if_weak_cong)
qed

section \<open>Segment names\<close>

lemma segment_name_chars:
  "CHR ''/'' \<notin> set (SegmentFileName i)" "length (SegmentFileName i) = 32"
  "ParseSegmentStartIndex (d @ CHR ''/'' # SegmentFileName i) = Some i"
proof -
  let ?n = "string_of_nat (unat i)"
  note dg = string_of_nat_digits [of "unat i"]
  have sl: "c \<noteq> CHR ''/''" if "is_digit c" for c using that by (auto simp: is_digit_def)
  then have nosl: "CHR ''/'' \<notin> set ?n" using dg by (auto simp: list_all_iff)
  then show sf: "CHR ''/'' \<notin> set (SegmentFileName i)"
    by (simp add: SegmentFileName_def zero_padded_def string_of_u64_def)
  have "unat i < 10 ^ Suc 19" using unsigned_less [of i, where 'a = nat] by simp
  then have len: "length ?n \<le> 20" using length_string_of_nat [of "unat i" 19] by simp
  then have zl: "length (zero_padded 20 ?n) = 20" by (simp add: zero_padded_def)
  then show nl: "length (SegmentFileName i) = 32" by (simp add: SegmentFileName_def string_of_u64_def)
  have z: "list_all is_digit (zero_padded 20 ?n)" "digits_value (zero_padded 20 ?n) = unat i"
    using dg by (auto simp: zero_padded_def digits_value_zeros list_all_iff is_digit_def)
  have parts: "take 8 (SegmentFileName i) = ''segment_''" "drop 28 (SegmentFileName i) = ''.log''"
    "take 20 (drop 8 (SegmentFileName i)) = zero_padded 20 ?n"
    using zl by (simp_all add: SegmentFileName_def string_of_u64_def)
  have "zero_padded 20 ?n \<noteq> []" using zl by (metis list.size(3) zero_neq_numeral)
  moreover have "unat i < 2 ^ 64" using unsigned_less [of i, where 'a = nat] by simp
  ultimately show "ParseSegmentStartIndex (d @ CHR ''/'' # SegmentFileName i) = Some i"
    using parts z by (simp add: ParseSegmentStartIndex_def split_last_component(1) [OF sf] nl)
qed

end
