(* ===== verification/StorageLoad.thy ===== *)
theory StorageLoad
  imports StorageFormat "HOL-Library.Multiset"
begin

text \<open>
  What \<open>Load\<close> makes of a directory with written segments: the files are found in the order of
  their first index whatever the order of the directory listing, every record inside the bounds of
  \<^verbatim>\<open>meta.bin\<close> is read back, and the final checks accept exactly the runs that fill those bounds.
\<close>

section \<open>Segments of a log\<close>

lemma chunks_concat: "0 < k \<Longrightarrow> concat (chunks k l) = l"
  by (induction k l rule: chunks.induct) auto

lemma chunks_nonempty: "seg \<in> set (chunks k l) \<Longrightarrow> seg \<noteq> []"
  by (induction k l rule: chunks.induct) auto

lemma chunks_hd: "0 < k \<Longrightarrow> seg \<in> set (chunks k l) \<Longrightarrow> hd seg \<in> set l"
  using chunks_concat [of k l] chunks_nonempty [of seg k l] by (metis UN_I hd_in_set set_concat)

lemma consecutive_tl:
  assumes "consecutive (x # xs)"
  shows "consecutive xs" and "r \<in> set xs \<Longrightarrow> unat (lr_index x) < unat (lr_index r)"
proof -
  have i: "unat (lr_index (xs ! i)) = unat (lr_index x) + Suc i" if "i < length xs" for i
    using consecutive_nth [OF assms, of "Suc i"] that by simp
  then show "consecutive xs" by (cases xs) (force simp: consecutive_def)+
  show "unat (lr_index x) < unat (lr_index r)" if "r \<in> set xs"
    using that i by (force simp: in_set_conv_nth)
qed

lemma consecutive_drop: "consecutive l \<Longrightarrow> consecutive (drop n l)"
proof (induction n arbitrary: l)
  case (Suc n)
  then show ?case using consecutive_tl(1) by (cases l) auto
qed simp

lemma chunks_starts:
  assumes "0 < k" and "consecutive l"
  shows "sorted_wrt (<) (map (\<lambda>seg. lr_index (hd seg)) (chunks k l))"
  using assms
proof (induction k l rule: chunks.induct)
  case (2 k x xs)
  have "consecutive (drop (k - 1) xs)" using "2.prems"(2) consecutive_tl(1) consecutive_drop by blast
  moreover have "lr_index x < lr_index (hd seg)" if "seg \<in> set (chunks k (drop (k - 1) xs))" for seg
  proof -
    have "hd seg \<in> set xs" using chunks_hd [OF "2.prems"(1) that] by (rule in_set_dropD)
    with consecutive_tl(2) [OF "2.prems"(2)] show ?thesis by (simp add: u64_simps)
  qed
  ultimately show ?case using "2.IH" "2.prems"(1) by auto
qed simp

definition segment_path :: "string \<Rightarrow> LogRecord list \<Rightarrow> string" where
  "segment_path dir seg = dir @ CHR ''/'' # SegmentFileName (lr_index (hd seg))"

definition segment_bytes :: "LogRecord list \<Rightarrow> string" where
  "segment_bytes seg = concat (map write_entry seg)"

definition segments_of :: "LogRecord list \<Rightarrow> LogRecord list list" where
  "segments_of l = chunks kMaxEntriesPerSegment l"

lemma segments_concat [simp]: "concat (segments_of l) = l"
  unfolding segments_of_def by (rule chunks_concat) (simp add: kMaxEntriesPerSegment_def)

lemma segments_starts: "consecutive l \<Longrightarrow> sorted_wrt (<) (map (\<lambda>seg. lr_index (hd seg)) (segments_of l))"
  unfolding segments_of_def by (rule chunks_starts) (simp_all add: kMaxEntriesPerSegment_def)

text \<open>A directory holds a log: it consists of exactly the segments written for it.\<close>

definition holds_log :: "string \<Rightarrow> LogRecord list \<Rightarrow> fs \<Rightarrow> bool" where
  "holds_log dir l w \<longleftrightarrow> fs_lookup dir w = Some FDir \<and>
     (\<forall>q. under dir q \<longrightarrow> fs_lookup q w =
        map_of (map (\<lambda>seg. (segment_path dir seg, FFile (segment_bytes seg))) (segments_of l)) q)"

lemma holds_log_cong:
  assumes "\<And>q. q = dir \<or> under dir q \<Longrightarrow> fs_lookup q w' = fs_lookup q w"
  shows "holds_log dir l w' = holds_log dir l w"
  unfolding holds_log_def by (simp add: assms cong: imp_cong)

lemma holds_log_move:
  assumes "holds_log a l w" and "\<And>q. under b q \<Longrightarrow> fs_lookup q w = None"
  shows "holds_log b l (fs_move a b w)"
proof -
  have "map_of (map (\<lambda>seg. (segment_path a seg, FFile (segment_bytes seg))) segs) (a @ x) =
    map_of (map (\<lambda>seg. (segment_path b seg, FFile (segment_bytes seg))) segs) (b @ x)" for segs x
    by (induction segs) (auto simp: segment_path_def)
  note tab = this
  note look = fs_lookup_move [OF assms(2)]
  have "fs_lookup q (fs_move a b w) =
    map_of (map (\<lambda>seg. (segment_path b seg, FFile (segment_bytes seg))) (segments_of l)) q" if "under b q" for q
  proof -
    from that obtain x where q: "q = b @ CHR ''/'' # x" unfolding under_iff ..
    have "fs_lookup (a @ CHR ''/'' # x) w =
      map_of (map (\<lambda>seg. (segment_path a seg, FFile (segment_bytes seg))) (segments_of l)) (a @ CHR ''/'' # x)"
      using assms(1) by (simp add: holds_log_def)
    with that q tab show ?thesis by (simp add: look)
  qed
  with assms(1) show ?thesis by (simp add: holds_log_def look)
qed

lemma segment_path_facts:
  "filename (segment_path dir seg) = SegmentFileName (lr_index (hd seg))"
  "parent_path (segment_path dir seg) = dir" "under dir (segment_path dir seg)"
  "ParseSegmentStartIndex (segment_path dir seg) = Some (lr_index (hd seg))"
  unfolding segment_path_def
  using segment_name_chars(1,3) by (simp_all add: split_last_component)

lemma segment_table_key:
  "map_of (map (\<lambda>seg. (p seg, c seg)) segs) q = Some e \<Longrightarrow> \<exists>seg \<in> set segs. q = p seg"
  by (induction segs) (auto split: if_splits)

lemma segments_keys:
  assumes "consecutive l"
  shows "distinct (map (segment_path dir) (segments_of l))"
    and "distinct (map (\<lambda>seg. lr_index (hd seg)) (segments_of l))"
proof -
  show d: "distinct (map (\<lambda>seg. lr_index (hd seg)) (segments_of l))"
    using segments_starts [OF assms] strict_sorted_imp_sorted strict_sorted_iff by blast
  have "map (\<lambda>seg. lr_index (hd seg)) (segments_of l)
    = map (the \<circ> ParseSegmentStartIndex) (map (segment_path dir) (segments_of l))"
    by (simp add: segment_path_facts)
  with d show "distinct (map (segment_path dir) (segments_of l))" by (metis distinct_map)
qed

lemma holds_log_read:
  assumes "holds_log dir l w" and "consecutive l" and "seg \<in> set (segments_of l)"
  shows "fs_read (segment_path dir seg) w = Some (segment_bytes seg)"
proof -
  let ?t = "map (\<lambda>seg. (segment_path dir seg, FFile (segment_bytes seg))) (segments_of l)"
  have "distinct (map fst ?t)" using segments_keys(1) [OF assms(2), of dir] by (simp add: comp_def)
  moreover have "(segment_path dir seg, FFile (segment_bytes seg)) \<in> set ?t" using assms(3) by auto
  ultimately have "map_of ?t (segment_path dir seg) = Some (FFile (segment_bytes seg))" by (rule map_of_is_SomeI)
  with assms(1) segment_path_facts(3) [of dir seg] show ?thesis by (simp add: holds_log_def fs_read_def)
qed

lemma segment_files_held:
  assumes wf: "fs_wf w" and held: "holds_log dir l w" and con: "consecutive l" and ne: "dir \<noteq> []"
  shows "segment_files dir w = map (\<lambda>seg. (lr_index (hd seg), segment_path dir seg)) (segments_of l)"
proof -
  define f where "f = (\<lambda>q. case (fs_read q w, ParseSegmentStartIndex q) of
    (Some _, Some i) \<Rightarrow> Some (i, q) | _ \<Rightarrow> None)"
  let ?X = "List.map_filter f (fs_list dir w)"
  let ?Y = "map (\<lambda>seg. (lr_index (hd seg), segment_path dir seg)) (segments_of l)"
  have fq: "f q = Some y \<Longrightarrow> snd y = q" for q y
    by (auto simp: f_def split: option.splits)
  have dX: "distinct ?X"
  proof -
    have "inj_on (the \<circ> f) {q. f q \<noteq> None}" by (rule inj_onI) (use fq in force)
    moreover have "distinct (fs_list dir w)" using fs_wf_distinct [OF wf] by (simp add: fs_list_def fs_distinct_def)
    ultimately show ?thesis
      unfolding List.map_filter_def by (auto simp: distinct_map intro: inj_on_subset)
  qed
  have dY: "distinct ?Y" using segments_keys(1) [OF con, of dir]
    by (auto simp: distinct_map inj_on_def)
  have sets: "set ?X = set ?Y"
  proof (rule set_eqI, rule iffI)
    fix y assume "y \<in> set ?X"
    then obtain q where q: "q \<in> set (fs_list dir w)" "f q = Some y"
      unfolding List.map_filter_def by (auto simp: comp_def)
    then have "parent_path q = dir" and "fs_read q w \<noteq> None"
      by (auto simp: fs_list_def f_def split: option.splits)
    then have "under dir q" "fs_lookup q w \<noteq> None"
      using parent_of_child [OF ne] by (auto simp: fs_read_def split: option.splits)
    then obtain e where "map_of (map (\<lambda>seg. (segment_path dir seg, FFile (segment_bytes seg))) (segments_of l)) q
      = Some e" using held by (auto simp: holds_log_def)
    from segment_table_key [OF this]
    obtain seg where "seg \<in> set (segments_of l)" "q = segment_path dir seg" by blast
    with q(2) segment_path_facts(4) [of dir seg] show "y \<in> set ?Y"
      by (auto simp: f_def split: option.splits)
  next
    fix y assume "y \<in> set ?Y"
    then obtain seg where s: "seg \<in> set (segments_of l)" "y = (lr_index (hd seg), segment_path dir seg)" by auto
    note r = holds_log_read [OF held con s(1)]
    then have "segment_path dir seg \<in> set (fs_list dir w)"
      using segment_path_facts(2) [of dir seg]
      by (auto simp: fs_list_def fs_read_def fs_lookup_def split: option.splits dest: map_of_SomeD intro: rev_image_eqI)
    moreover have "f (segment_path dir seg) = Some y" using r s(2) segment_path_facts(4) by (simp add: f_def)
    ultimately show "y \<in> set ?X" unfolding List.map_filter_def by force
  qed
  then have ms: "mset ?X = mset ?Y" unfolding set_eq_iff_mset_eq_distinct [OF dX dY] .
  have sY: "sorted (map fst ?Y)" using strict_sorted_imp_sorted [OF segments_starts [OF con]]
    by (simp add: comp_def)
  have "inj_on fst (set ?Y)"
    using segments_keys(2) [OF con] by (auto simp: distinct_map inj_on_def)
  then have "inj_on fst (set ?X)" unfolding sets .
  then have "sort_key fst ?X = ?Y" using ms sY by (intro sort_key_inj_key_eq)
  then show ?thesis by (simp add: segment_files_def f_def)
qed

section \<open>Reading the segments\<close>

definition in_bounds :: "u64 \<Rightarrow> u64 \<Rightarrow> LogRecord \<Rightarrow> bool" where
  "in_bounds f t r \<longleftrightarrow> f \<le> lr_index r \<and> lr_index r \<le> t"

lemma ReadSegmentFile_written:
  assumes "fs_read path w = Some (segment_bytes seg)" and "\<forall>r \<in> set seg. storable_record r"
  shows "ReadSegmentFile path f t p w = (Inr (p\<lparr>lp_records := lp_records p @ filter (in_bounds f t) seg\<rparr>), w)"
proof -
  have eta: "(\<lambda>r. f \<le> lr_index r \<and> lr_index r \<le> t) = in_bounds f t" by (rule ext) (simp add: in_bounds_def)
  from read_entries_written [OF assms(2), of f t 0 "lp_records p"]
  obtain pos where "read_entries f t 0 (segment_bytes seg) (lp_records p) =
    (None, pos, lp_records p @ filter (in_bounds f t) seg)" unfolding eta segment_bytes_def by blast
  with assms(1) show ?thesis by (simp add: ReadSegmentFile_def)
qed

lemma read_segment_files_written:
  assumes "\<forall>seg \<in> set segs. fs_read (segment_path dir seg) w = Some (segment_bytes seg)"
    and "\<forall>r \<in> set (concat segs). storable_record r" and "\<not> tail_truncated p"
  shows "read_segment_files f t (map (\<lambda>seg. (lr_index (hd seg), segment_path dir seg)) segs) p w =
    (Inr (p\<lparr>lp_records := lp_records p @ filter (in_bounds f t) (concat segs)\<rparr>), w)"
  using assms
proof (induction segs arbitrary: p)
  case (Cons seg segs)
  have "ReadSegmentFile (segment_path dir seg) f t p w =
    (Inr (p\<lparr>lp_records := lp_records p @ filter (in_bounds f t) seg\<rparr>), w)"
    using Cons.prems by (intro ReadSegmentFile_written) auto
  with Cons.prems Cons.IH [of "p\<lparr>lp_records := lp_records p @ filter (in_bounds f t) seg\<rparr>"]
  show ?case by simp
qed simp

section \<open>The bounds of the meta file\<close>

lemma consecutive_Cons:
  assumes "consecutive xs" and "xs \<noteq> [] \<Longrightarrow> unat (lr_index (hd xs)) = Suc (unat (lr_index x))"
  shows "consecutive (x # xs)"
proof -
  have "unat (lr_index ((x # xs) ! i)) = unat (lr_index x) + i" if "i < Suc (length xs)" for i
    using that consecutive_nth [OF assms(1), of "i - 1"] assms(2) by (cases i; cases xs) auto
  then show ?thesis by (simp add: consecutive_def)
qed

lemma consecutive_in_bounds: "consecutive l \<Longrightarrow> consecutive (filter (in_bounds f t) l)"
proof (induction l)
  case (Cons x xs)
  note con = consecutive_tl [OF Cons.prems]
  show ?case
  proof (cases "in_bounds f t x")
    case False
    with Cons con(1) show ?thesis by simp
  next
    case True
    have "unat (lr_index (hd (filter (in_bounds f t) xs))) = Suc (unat (lr_index x))"
      if ne: "filter (in_bounds f t) xs \<noteq> []"
    proof -
      from ne obtain y ys where xs: "xs = y # ys" by (cases xs) auto
      have y: "unat (lr_index y) = Suc (unat (lr_index x))"
        using consecutive_nth [OF Cons.prems, of 1] by (simp add: xs)
      from ne obtain r where r: "r \<in> set xs" "in_bounds f t r" by (auto simp: filter_empty_conv)
      have "unat (lr_index y) \<le> unat (lr_index r)"
        using r(1) consecutive_tl(2) [of y ys r] con(1) by (auto simp: xs)
      then have "in_bounds f t y" using True r(2) y by (simp add: in_bounds_def u64_simps)
      with y show ?thesis by (simp add: xs)
    qed
    with Cons.IH con(1) True show ?thesis by (simp add: consecutive_Cons)
  qed
qed (simp add: consecutive_def)

lemma first_gap_consecutive: "consecutive l \<Longrightarrow> first_gap l = None"
proof (induction l rule: first_gap.induct)
  case (1 a b rest)
  have "unat (lr_index b) = Suc (unat (lr_index a))"
    using consecutive_nth [OF "1.prems", of 1] by simp
  then have "of_nat (unat (lr_index b)) = (of_nat (Suc (unat (lr_index a))) :: u64)" by (simp only:)
  then have "lr_index b = lr_index a + 1" by (simp add: add.commute)
  then show ?case using "1.IH" consecutive_tl(1) [OF "1.prems"] by simp
qed auto

lemma full_bounds:
  assumes "consecutive R" and "\<forall>r \<in> set R. in_bounds f t r" and "f \<le> t"
    and "length R = Suc (unat t - unat f)"
  shows "lr_index (hd R) = f" and "lr_index (last R) = t"
proof -
  have ne: "R \<noteq> []" using assms(4) by auto
  then have "in_bounds f t (hd R)" "in_bounds f t (last R)" using assms(2) by simp_all
  with consecutive_last [OF assms(1) ne] assms(3,4)
  show "lr_index (hd R) = f" "lr_index (last R) = t"
    by (auto simp: in_bounds_def u64_simps word_unat_eq_iff)
qed

text \<open>The records accepted when a directory holds the log \<open>l\<close> and \<^verbatim>\<open>meta.bin\<close> has the bounds of \<open>s\<close>.\<close>

definition bounded_log :: "PersistentRaftState \<Rightarrow> LogRecord list \<Rightarrow> LogRecord list" where
  "bounded_log s l = filter (in_bounds (m_first (meta_of s)) (m_last (meta_of s))) l"

lemma bounded_log_self: "consecutive (ps_log s) \<Longrightarrow> bounded_log s (ps_log s) = ps_log s"
proof -
  assume con: "consecutive (ps_log s)"
  have "in_bounds (m_first (meta_of s)) (m_last (meta_of s)) r" if "r \<in> set (ps_log s)" for r
  proof -
    from that obtain i where i: "i < length (ps_log s)" "r = ps_log s ! i" by (auto simp: in_set_conv_nth)
    then have ne: "ps_log s \<noteq> []" by auto
    with i consecutive_nth [OF con i(1)] consecutive_last [OF con ne] show ?thesis
      by (simp add: in_bounds_def meta_of_def u64_simps)
  qed
  then show ?thesis by (simp add: bounded_log_def)
qed

lemma storable_bounds:
  assumes "storable s" and "ps_log s \<noteq> []"
  shows "m_first (meta_of s) \<le> m_last (meta_of s)"
    and "length (ps_log s) = Suc (unat (m_last (meta_of s)) - unat (m_first (meta_of s)))"
proof -
  have con: "consecutive (ps_log s)" using assms(1) by (simp add: storable_def)
  show "m_first (meta_of s) \<le> m_last (meta_of s)"
    using assms(2) consecutive_last [OF con assms(2)] by (simp add: meta_of_def u64_simps)
  show "length (ps_log s) = Suc (unat (m_last (meta_of s)) - unat (m_first (meta_of s)))"
    using assms(2) consecutive_last [OF con assms(2)] by (cases "ps_log s") (auto simp: meta_of_def)
qed

lemma LoadSegments_held:
  assumes wf: "fs_wf w" and held: "holds_log dir l w" and ne: "dir \<noteq> []" and con: "consecutive l"
    and st: "\<forall>r \<in> set l. storable_record r" and s: "storable s" and nonempty: "ps_log s \<noteq> []"
  shows "\<exists>e. LoadSegments dir (m_first (meta_of s)) (m_last (meta_of s)) (m_count (meta_of s)) w =
    (if length (bounded_log s l) = length (ps_log s) then Inr (bounded_log s l) else Inl e, w)"
proof -
  let ?f = "m_first (meta_of s)" and ?t = "m_last (meta_of s)" and ?c = "m_count (meta_of s)"
  let ?R = "bounded_log s l"
  have cnt: "unat ?c = length (ps_log s)" using s log_count_word [of "ps_log s"] by (simp add: meta_of_def storable_def)
  then have c0: "?c \<noteq> 0" using nonempty by (metis length_0_conv unat_0)
  have "read_segment_files ?f ?t (segment_files dir w)
      \<lparr>lp_records = [], tail_truncated = False, recovery_diagnostics = []\<rparr> w =
    (Inr \<lparr>lp_records = ?R, tail_truncated = False, recovery_diagnostics = []\<rparr>, w)"
    unfolding segment_files_held [OF wf held con ne]
    by (subst read_segment_files_written)
      (use holds_log_read [OF held con] st in \<open>auto simp: bounded_log_def simp flip: set_concat\<close>)
  then have ld: "LoadSegments dir ?f ?t ?c w =
      (check_loaded dir ?f ?t ?c (segment_files dir w)
         \<lparr>lp_records = ?R, tail_truncated = False, recovery_diagnostics = []\<rparr>, w)"
    using c0 held by (simp add: LoadSegments_def fs_exists_def holds_log_def)
  have conR: "consecutive ?R" unfolding bounded_log_def by (rule consecutive_in_bounds [OF con])
  show ?thesis
  proof (cases "length ?R = length (ps_log s)")
    case True
    have "\<forall>r \<in> set ?R. in_bounds ?f ?t r" by (simp add: bounded_log_def)
    note fb = full_bounds [OF conR this storable_bounds(1) [OF s nonempty]]
    have "lr_index (hd ?R) = ?f" "lr_index (last ?R) = ?t"
      using fb True storable_bounds(2) [OF s nonempty] by simp_all
    with True ld cnt nonempty first_gap_consecutive [OF conR] show ?thesis
      by (auto simp: check_loaded_def load_count_ok_def Let_def)
  next
    case False
    with ld cnt show ?thesis by (simp add: check_loaded_def load_count_ok_def Let_def)
  qed
qed

text \<open>The whole of \<open>Load\<close> on a directory with a written \<^verbatim>\<open>meta.bin\<close>.\<close>

lemma Load_held:
  assumes "fs_wf w" and "plain_dir d" and "fs_lookup (meta_path_of d) w = Some (FFile (meta_bytes s))"
    and "storable s" and "ps_log s = [] \<or> holds_log (log_dir_of d) l w"
    and "consecutive l" and "\<forall>r \<in> set l. storable_record r"
  shows "\<exists>e. Storage_Load d w =
    (if length (bounded_log s l) = length (ps_log s) \<or> ps_log s = []
     then Inr (ClampRecoveredHardState (s\<lparr>ps_log := if ps_log s = [] then [] else bounded_log s l\<rparr>), True)
     else Inl e, w)"
proof -
  have m: "ReadMeta (meta_path_of d) w = Inr (meta_of s)"
    using assms(3) parse_meta_written [OF assms(4)] by (simp add: ReadMeta_def fs_read_def)
  have ex: "fs_exists (meta_path_of d) w" using assms(3) by (simp add: fs_exists_def)
  show ?thesis
  proof (cases "ps_log s = []")
    case True
    then have "m_count (meta_of s) = 0" by (simp add: meta_of_def)
    then show ?thesis using m ex True
      by (simp add: Storage_Load_def LoadSegmented_def LoadSegments_def Let_def) (simp add: meta_of_def)
  next
    case False
    have "log_dir_of d \<noteq> []" using assms(2) by (simp add: log_dir_of_def path_append_plain)
    with LoadSegments_held [OF assms(1) _ _ assms(6,7,4) False, of "log_dir_of d"] assms(5) False
    obtain e where "LoadSegments (log_dir_of d) (m_first (meta_of s)) (m_last (meta_of s)) (m_count (meta_of s)) w =
      (if length (bounded_log s l) = length (ps_log s) then Inr (bounded_log s l) else Inl e, w)" by blast
    then show ?thesis using m ex False
      by (simp add: Storage_Load_def LoadSegmented_def Let_def) (simp add: meta_of_def)
  qed
qed

end
