(* ===== verification/StorageSave.thy ===== *)
theory StorageSave
  imports StorageLoad
begin

text \<open>
  What each part of \<open>Save\<close> leaves on disk, whatever I/O errors or crash interrupt it: the files
  written under temporary names, the log directory after its renames, the meta file after its
  replacement. \<open>storage_ok\<close> is the well-formedness of the table and of the data directory that
  every part preserves.
\<close>

section \<open>Paths of the storage\<close>

lemma storage_paths:
  assumes "plain_dir d"
  shows "meta_path_of d = d @ CHR ''/'' # ''meta.bin''" "meta_tmp_path_of d = d @ CHR ''/'' # ''meta.bin.tmp''"
    "log_dir_of d = d @ CHR ''/'' # ''log''" "log_tmp_dir_of d = d @ CHR ''/'' # ''log.tmp''"
    "log_backup_dir_of d = d @ CHR ''/'' # ''log.bak''" "legacy_path_of d = d @ CHR ''/'' # ''raft_state.bin''"
    "path_append d ''raft_state.bin.tmp'' = d @ CHR ''/'' # ''raft_state.bin.tmp''"
  using assms by (simp_all add: meta_path_of_def meta_tmp_path_of_def log_dir_of_def log_tmp_dir_of_def
      log_backup_dir_of_def legacy_path_of_def path_append_plain)

definition storage_ok :: "string \<Rightarrow> fs \<Rightarrow> bool" where
  "storage_ok d w \<longleftrightarrow> plain_dir d \<and> fs_wf w \<and>
     (\<forall>a \<in> set (ancestors d). \<forall>x. fs_lookup a w \<noteq> Some (FFile x)) \<and>
     \<not> fs_is_dir (meta_path_of d) w \<and> \<not> fs_is_dir (meta_tmp_path_of d) w"

lemma storage_okD:
  assumes "storage_ok d w"
  shows "plain_dir d" "fs_wf w" "d \<noteq> []" "\<forall>a \<in> set (ancestors d). \<forall>x. fs_lookup a w \<noteq> Some (FFile x)"
    "\<not> fs_is_dir (d @ CHR ''/'' # ''meta.bin'') w" "\<not> fs_is_dir (d @ CHR ''/'' # ''meta.bin.tmp'') w"
  using assms by (auto simp: storage_ok_def plain_dir_def storage_paths [of d])

lemma storage_ok_restart [simp]: "storage_ok d (fs_restart w) = storage_ok d w"
  by (simp add: storage_ok_def)

lemma storage_ok_via: "fs_restart w' = fs_restart w \<Longrightarrow> storage_ok d w' = storage_ok d w"
  by (metis storage_ok_restart)

lemma lookup_via: "fs_restart w' = fs_restart w \<Longrightarrow> fs_lookup q w' = fs_lookup q w"
  by (metis fs_restart_simps(3))

lemma under_not_ancestor: "under d p \<Longrightarrow> p \<notin> set (ancestors d)"
  using ancestors_shorter [of p d] under_longer [of d p] by auto

lemma storage_ok_put:
  assumes "storage_ok d w" and "under d p" and "\<not> fs_is_dir p w" and "fs_is_dir (parent_path p) w"
  shows "storage_ok d (fs_put p (FFile c) w)"
proof -
  note ok = storage_okD [OF assms(1)]
  have "p \<noteq> []" using under_longer [OF assms(2)] by auto
  then have "fs_wf (fs_put p (FFile c) w)" using assms(3,4) ok(2) by (simp add: fs_wf_put_file)
  with ok under_not_ancestor [OF assms(2)] show ?thesis
    by (auto simp: storage_ok_def storage_paths fs_is_dir_def)
qed

lemma storage_ok_dirs:
  assumes "storage_ok d w" and "p = d \<or> p = d @ CHR ''/'' # ''log.tmp''"
    and "\<forall>a \<in> set (ancestors p). \<forall>x. fs_lookup a w \<noteq> Some (FFile x)"
  shows "storage_ok d (fold (\<lambda>a. fs_put a FDir) (ancestors p) w)"
proof -
  note ok = storage_okD [OF assms(1)]
  have "fs_wf (fold (\<lambda>a. fs_put a FDir) (ancestors p) w)" by (rule fs_wf_make_dirs [OF ok(2) assms(3)])
  moreover have "d @ CHR ''/'' # n \<notin> set (ancestors p)" if "n = ''meta.bin'' \<or> n = ''meta.bin.tmp''" for n
    using assms(2) that under_not_ancestor [of d "d @ CHR ''/'' # n"]
      ancestors_child [of "''log.tmp''" d] by auto
  ultimately show ?thesis using ok
    by (auto simp: storage_ok_def storage_paths fold_put_lookup fs_is_dir_def)
qed

lemma storage_ok_drop:
  assumes "storage_ok d w" and "\<And>q x. P q \<Longrightarrow> under q x \<Longrightarrow> fs_lookup x w \<noteq> None \<Longrightarrow> P x"
  shows "storage_ok d (fs_drop P w)"
  using storage_okD [OF assms(1)] fs_wf_drop [OF storage_okD(2) [OF assms(1)] assms(2)]
  by (auto simp: storage_ok_def storage_paths fs_lookup_drop fs_is_dir_def)

lemma storage_ok_move:
  assumes ok: "storage_ok d w" and ab: "CHR ''/'' \<notin> set a" "CHR ''/'' \<notin> set b" "a \<noteq> b"
    and free: "\<And>q. under (d @ CHR ''/'' # b) q \<Longrightarrow> fs_lookup q w = None"
    and ex: "fs_exists (d @ CHR ''/'' # a) w"
    and plain: "b = ''meta.bin'' \<or> b = ''meta.bin.tmp'' \<Longrightarrow> \<not> fs_is_dir (d @ CHR ''/'' # a) w"
  shows "storage_ok d (fs_move (d @ CHR ''/'' # a) (d @ CHR ''/'' # b) w)"
proof -
  let ?a = "d @ CHR ''/'' # a" and ?b = "d @ CHR ''/'' # b"
  note o = storage_okD [OF ok]
  have dir: "fs_is_dir d w"
    using fs_wf_above [OF o(2), of ?a d] ex o(3) by (simp add: fs_exists_def fs_is_dir_def)
  have wf: "fs_wf (fs_move ?a ?b w)"
    by (rule fs_wf_move [OF o(2) free]) (use dir ab in \<open>simp_all add: sibling_paths split_last_component\<close>)
  have anc: "fs_lookup q (fs_move ?a ?b w) = fs_lookup q w" if "q \<in> set (ancestors d)" for q
  proof -
    have "length q \<le> length d" by (rule ancestors_shorter [OF that])
    then have "q \<noteq> ?a" "q \<noteq> ?b" "\<not> under ?a q" "\<not> under ?b q"
      using under_longer [of ?a q] under_longer [of ?b q] by auto
    then show ?thesis by (simp add: fs_lookup_move [OF free])
  qed
  have meta: "\<not> fs_is_dir (d @ CHR ''/'' # n) (fs_move ?a ?b w)" if n: "n = ''meta.bin'' \<or> n = ''meta.bin.tmp''" for n
  proof -
    have "CHR ''/'' \<notin> set n" using n by auto
    with ab have "\<not> under ?b (d @ CHR ''/'' # n)" "\<not> under ?a (d @ CHR ''/'' # n)" by (simp_all add: sibling_paths)
    then show ?thesis using o n plain by (auto simp: fs_lookup_move [OF free] fs_is_dir_def)
  qed
  from wf o anc meta show ?thesis by (simp add: storage_ok_def storage_paths)
qed

section \<open>Case rules for sequences\<close>

lemma on_errorD:
  "on_error g x = (Inl e, w') \<Longrightarrow> \<exists>e'. x = (Inl e', w')" "on_error g x = (Inr a, w') \<Longrightarrow> x = (Inr a, w')"
  by (cases x; cases "fst x"; simp)+

lemma sync_effects [simp]:
  "fs_restart (snd (SyncFile p w)) = fs_restart w" "fs_restart (snd (SyncDirectory p w)) = fs_restart w"
  "fs_restart (snd (sync_parent p w)) = fs_restart w"
  by (simp_all add: SyncFile_def SyncDirectory_def sync_parent_def Let_def split_def)

lemma sync_effect_eq:
  "SyncFile p w = (r, w') \<Longrightarrow> fs_restart w' = fs_restart w"
  "SyncDirectory p w = (r, w') \<Longrightarrow> fs_restart w' = fs_restart w"
  "sync_parent p w = (r, w') \<Longrightarrow> fs_restart w' = fs_restart w"
  "InjectFailureIfRequested fp k op p1 t c dg w = (r, w') \<Longrightarrow> w' = w"
  using sync_effects [of p w] by (auto simp: InjectFailureIfRequested_def split: if_splits)

section \<open>Writing under temporary names\<close>

lemma segment_path_append: "path_append (d @ CHR ''/'' # ''log.tmp'') (SegmentFileName (lr_index (hd seg)))
    = segment_path (d @ CHR ''/'' # ''log.tmp'') seg"
  by (simp add: path_append_def segment_path_def)

lemma takeWhile_full: "\<not> length (takeWhile P xs) < length xs \<Longrightarrow> takeWhile P xs = xs"
  by (induction xs) (auto split: if_splits)

text \<open>An operation that only touches one path in the temporary directory.\<close>

lemma put_segment:
  assumes "storage_ok d w" and "fs_restart w' = fs_put p (FFile c) (fs_restart w)"
    and "p = segment_path (d @ CHR ''/'' # ''log.tmp'') seg" and "\<not> fs_is_dir p w"
    and "fs_is_dir (parent_path p) w"
  shows "storage_ok d w'" and "fs_lookup q w' = (if q = p then Some (FFile c) else fs_lookup q w)"
proof -
  have "under d p" using assms(3) by (simp add: segment_path_def under_iff)
  then have "storage_ok d (fs_put p (FFile c) w)" using assms by (simp add: storage_ok_put)
  then show "storage_ok d w'" using assms(2) by (metis fs_restart_simps(5) storage_ok_restart)
  show "fs_lookup q w' = (if q = p then Some (FFile c) else fs_lookup q w)"
    using assms(2) by (metis fs_lookup_put fs_restart_simps(3))
qed

lemma write_segment_effect:
  assumes run: "write_segment fp T fin seg w = (r, w')" and T: "T = d @ CHR ''/'' # ''log.tmp''"
    and ok: "storage_ok d w"
  shows "storage_ok d w' \<and> (\<forall>q. q \<noteq> segment_path T seg \<longrightarrow> fs_lookup q w' = fs_lookup q w) \<and>
    (r = Inr () \<longrightarrow> fs_lookup (segment_path T seg) w' = Some (FFile (segment_bytes seg)))"
proof -
  let ?p = "segment_path T seg"
  let ?fit = "takeWhile (\<lambda>r. length (lr_command r) < 2 ^ 32) seg"
  have pT: "parent_path ?p = T" "T \<noteq> []" by (simp_all add: segment_path_facts T)
  have ap: "path_append T (SegmentFileName (lr_index (hd seg))) = ?p" unfolding T by (rule segment_path_append)
  from run show ?thesis unfolding write_segment_def Let_def ap
  proof (cases rule: io_then_cases)
    case (failed e)
    from on_errorD(1) [OF failed(1)]
    obtain e' where "fs_write ?p (concat (map write_entry ?fit)) w = (Inl e', w')" ..
    then show ?thesis
    proof (cases rule: fs_write_cases)
      case (failed e'')
      then show ?thesis using ok \<open>r = Inl e\<close> storage_ok_via [OF failed(2)] lookup_via [OF failed(2)] by simp
    next
      case (torn e'' k)
      with put_segment [OF ok torn(2)] pT T \<open>r = Inl e\<close> show ?thesis by auto
    qed simp
  next
    case (ok u w1)
    have "storage_ok d w1 \<and>
      (\<forall>q. fs_lookup q w1 = (if q = ?p then Some (FFile (concat (map write_entry ?fit))) else fs_lookup q w))"
      using on_errorD(2) [OF ok(1)]
    proof (cases rule: fs_write_cases)
      case ok
      with put_segment [OF assms(3) ok(2)] pT T show ?thesis by auto
    qed simp_all
    then have w1: "storage_ok d w1"
      "\<And>q. fs_lookup q w1 = (if q = ?p then Some (FFile (concat (map write_entry ?fit))) else fs_lookup q w)"
      by simp_all
    show ?thesis
    proof (cases "length ?fit < length seg")
      case True
      with ok(2) w1 show ?thesis by auto
    next
      case False
      then have bytes: "concat (map write_entry ?fit) = segment_bytes seg"
        by (simp add: takeWhile_full segment_bytes_def)
      show ?thesis
      proof (cases "fin \<and> fp = kFinalSegmentPartialWrite")
        case True
        then have w': "w' = fs_append ?p [CHR 0x42] w1" and r: "r \<noteq> Inr ()"
          using ok(2) False by (auto simp: FlushAndSyncSegmentFile_def Let_def)
        have nd: "\<not> fs_is_dir ?p w1" "fs_is_dir (parent_path ?p) w1"
          using w1(2) [of ?p] fs_wf_above [OF storage_okD(2) [OF w1(1)], of ?p T] pT
          by (simp_all add: fs_is_dir_def segment_path_facts)
        show ?thesis
        proof (cases rule: fs_append_cases [of ?p w1 "[CHR 0x42]"])
          case (ok c k)
          with put_segment [OF w1(1) _ _ nd, of w' "c @ take k [CHR 0x42]" seg] T w' w1 r show ?thesis by simp
        next
          case failed
          with storage_ok_via [OF this] lookup_via [OF this] w' w1 r show ?thesis by simp
        qed
      next
        case nfp: False
        then have "SyncFile ?p w1 = (r, w')"
          using ok(2) False by (auto simp: FlushAndSyncSegmentFile_def)
        note this [THEN sync_effect_eq(1)]
        with storage_ok_via [OF this] lookup_via [OF this] w1 bytes show ?thesis by simp
      qed
    qed
  qed
qed

lemma write_all_segments_effect:
  assumes "write_all_segments fp T segs w = (r, w')" and "T = d @ CHR ''/'' # ''log.tmp''"
    and "storage_ok d w" and "distinct (map (segment_path T) segs)"
  shows "storage_ok d w' \<and> (\<forall>q. q \<notin> segment_path T ` set segs \<longrightarrow> fs_lookup q w' = fs_lookup q w) \<and>
    (r = Inr () \<longrightarrow> (\<forall>seg \<in> set segs. fs_lookup (segment_path T seg) w' = Some (FFile (segment_bytes seg))))"
  using assms
proof (induction segs arbitrary: w)
  case (Cons seg segs)
  from Cons.prems(1) have "io_then (write_segment fp T (segs = []) seg w) (\<lambda>_ w. write_all_segments fp T segs w) = (r, w')"
    by simp
  then show ?case
  proof (cases rule: io_then_cases)
    case (failed e)
    with write_segment_effect [OF failed(1) Cons.prems(2,3)] show ?thesis by simp
  next
    case (ok u w1)
    note st = write_segment_effect [OF ok(1) Cons.prems(2,3)]
    then have "storage_ok d w1" by simp
    note rest = Cons.IH [OF ok(2) Cons.prems(2) this]
    have "segment_path T seg \<notin> segment_path T ` set segs" "distinct (map (segment_path T) segs)"
      using Cons.prems(4) by auto
    with st rest show ?thesis by auto
  qed
qed simp

text \<open>The paths that the preparation of a save does not touch.\<close>

definition outside :: "string \<Rightarrow> string \<Rightarrow> bool" where
  "outside d q \<longleftrightarrow> under d q \<and> q \<noteq> d @ CHR ''/'' # ''log.tmp'' \<and> \<not> under (d @ CHR ''/'' # ''log.tmp'') q
     \<and> q \<noteq> d @ CHR ''/'' # ''meta.bin.tmp''"

definition prepares :: "string \<Rightarrow> fs \<Rightarrow> fs \<Rightarrow> bool" where
  "prepares d w w' \<longleftrightarrow> storage_ok d w' \<and> (\<forall>q. outside d q \<longrightarrow> fs_lookup q w' = fs_lookup q w)"

lemma prepares_trans: "prepares d w w1 \<Longrightarrow> prepares d w1 w2 \<Longrightarrow> prepares d w w2"
  by (simp add: prepares_def)

lemma prepares_ok: "prepares d w w' \<Longrightarrow> storage_ok d w'"
  by (simp add: prepares_def)

lemma prepares_same: "storage_ok d w \<Longrightarrow> fs_restart w' = fs_restart w \<Longrightarrow> prepares d w w'"
  using storage_ok_via [of w' w] lookup_via [of w' w] by (simp add: prepares_def)

lemma create_prepares:
  assumes "fs_create_directories p w = (r, w')" and ok: "storage_ok d w"
    and p: "p = d \<or> p = d @ CHR ''/'' # ''log.tmp''"
  shows "prepares d w w' \<and> (r = Inr () \<longrightarrow>
    (\<forall>q. fs_lookup q w' = (if q \<in> set (ancestors p) then Some FDir else fs_lookup q w)))"
  using assms(1)
proof (cases rule: fs_create_directories_cases)
  case ok
  have "storage_ok d (fold (\<lambda>a. fs_put a FDir) (ancestors p) w)"
    by (rule storage_ok_dirs [OF assms(2) p ok(3)])
  then have s: "storage_ok d w'" by (metis fs_restart_fold ok(2) storage_ok_restart)
  have l: "fs_lookup q w' = (if q \<in> set (ancestors p) then Some FDir else fs_lookup q w)" for q
    by (metis fold_put_lookup fs_restart_simps(3) ok(2))
  have "q \<notin> set (ancestors p)" if "outside d q" for q
    using that p under_not_ancestor [of d q] ancestors_child [of "''log.tmp''" d] by (auto simp: outside_def)
  with s l show ?thesis by (simp add: prepares_def)
next
  case (failed e)
  with prepares_same [OF assms(2) failed(2)] show ?thesis by simp
qed

lemma remove_partial:
  assumes ok: "storage_ok d w" and rs: "fs_restart w' = fs_drop (\<lambda>q. q \<in> set gone) (fs_restart w)"
    and g: "\<forall>q \<in> set gone. (q = d @ CHR ''/'' # n \<or> under (d @ CHR ''/'' # n) q) \<and>
      (\<exists>e. (q, e) \<in> set (fs_entries w) \<and> e \<noteq> FDir)"
  shows "storage_ok d w' \<and>
    (\<forall>q. \<not> (q = d @ CHR ''/'' # n \<or> under (d @ CHR ''/'' # n) q) \<longrightarrow> fs_lookup q w' = fs_lookup q w)"
proof -
  note below = fs_remove_all_partial [OF storage_okD(2) [OF ok] g]
  have "storage_ok d (fs_restart w')" unfolding rs
    by (rule storage_ok_drop) (use ok below in auto)
  moreover have "fs_lookup q (fs_restart w') = (if q \<in> set gone then None else fs_lookup q w)" for q
    unfolding rs by (simp add: fs_lookup_drop)
  ultimately show ?thesis using g by auto
qed

lemma remove_tmp_prepares:
  assumes "fs_remove_all (d @ CHR ''/'' # ''log.tmp'') w = (r, w')" and ok: "storage_ok d w"
  shows "prepares d w w' \<and> (r = Inr () \<longrightarrow> (\<forall>q. fs_lookup q w' =
    (if q = d @ CHR ''/'' # ''log.tmp'' \<or> under (d @ CHR ''/'' # ''log.tmp'') q then None else fs_lookup q w)))"
  using assms(1)
proof (cases rule: fs_remove_all_cases)
  case ok
  let ?P = "\<lambda>q. q = d @ CHR ''/'' # ''log.tmp'' \<or> under (d @ CHR ''/'' # ''log.tmp'') q"
  have "storage_ok d (fs_restart w')" unfolding ok(2)
    by (rule storage_ok_drop) (use assms(2) in \<open>auto intro: under_trans\<close>)
  then have s: "storage_ok d w'" by simp
  have l: "fs_lookup q w' = (if ?P q then None else fs_lookup q w)" for q
    unfolding fs_restart_simps(3) [of q w', symmetric] ok(2) fs_lookup_drop by simp
  then show ?thesis using s by (simp add: prepares_def outside_def)
next
  case (partial e gone)
  from remove_partial [OF assms(2) partial(2,3)] partial(1) show ?thesis by (simp add: prepares_def outside_def)
qed

lemma WriteSegments_prepares:
  assumes run: "WriteSegments fp T l w = (r, w')" and T: "T = d @ CHR ''/'' # ''log.tmp''"
    and ok: "storage_ok d w" and con: "consecutive l"
    and fresh: "fs_lookup T w = Some FDir" "\<forall>q. under T q \<longrightarrow> fs_lookup q w = None"
  shows "prepares d w w' \<and> (r = Inr () \<longrightarrow> holds_log T l w')"
proof -
  let ?segs = "segments_of l"
  have seg: "under T (segment_path T seg)" "\<not> outside d (segment_path T seg)" "segment_path T seg \<noteq> T" for seg
    using segment_path_facts(3) [of T seg] by (auto simp: outside_def T)
  from run show ?thesis unfolding WriteSegments_def segments_of_def [symmetric]
  proof (cases rule: io_then_cases)
    case (failed e)
    note st = write_all_segments_effect [OF failed(1) T ok segments_keys(1) [OF con]]
    have "q \<notin> segment_path T ` set ?segs" if "outside d q" for q using that seg(2) by auto
    with st failed(2) show ?thesis by (simp add: prepares_def)
  next
    case (ok u w1)
    note st = write_all_segments_effect [OF ok(1) T assms(3) segments_keys(1) [OF con]]
    note rs = sync_effect_eq(2) [OF ok(2)]
    have "q \<notin> segment_path T ` set ?segs" if "outside d q \<or> q = T" for q using that seg(2,3) by auto
    with st have pr: "prepares d w w1" and dir: "fs_lookup T w1 = Some FDir"
      using fresh(1) by (simp_all add: prepares_def)
    have "fs_lookup q w1 = map_of (map (\<lambda>seg. (segment_path T seg, FFile (segment_bytes seg))) ?segs) q"
      if q: "under T q" for q
    proof (cases "q \<in> segment_path T ` set ?segs")
      case True
      then obtain sg where sg: "sg \<in> set ?segs" "q = segment_path T sg" by auto
      have "map_of (map (\<lambda>seg. (segment_path T seg, FFile (segment_bytes seg))) ?segs) q
          = Some (FFile (segment_bytes sg))"
        by (rule map_of_is_SomeI) (use segments_keys(1) [OF con, of T] sg in \<open>auto simp: comp_def\<close>)
      with st sg show ?thesis by simp
    next
      case False
      have "map_of (map (\<lambda>seg. (segment_path T seg, FFile (segment_bytes seg))) ?segs) q = None"
        using False by (auto simp: map_of_eq_None_iff)
      with st False fresh(2) q show ?thesis by simp
    qed
    then have "holds_log T l w1" using dir by (simp add: holds_log_def)
    then have "holds_log T l w'" using lookup_via [OF rs] by (simp add: holds_log_def)
    with pr prepares_same [OF prepares_ok [OF pr] rs] show ?thesis by (blast intro: prepares_trans)
  qed
qed

lemma WriteMeta_effect:
  assumes run: "WriteMeta fp (d @ CHR ''/'' # ''meta.bin.tmp'') s w = (r, w')" and ok: "storage_ok d w"
  shows "storage_ok d w' \<and> (\<forall>q. q \<noteq> d @ CHR ''/'' # ''meta.bin.tmp'' \<longrightarrow> fs_lookup q w' = fs_lookup q w) \<and>
    (r = Inr () \<longrightarrow> fs_lookup (d @ CHR ''/'' # ''meta.bin.tmp'') w' = Some (FFile (meta_bytes s)))"
proof -
  let ?p = "d @ CHR ''/'' # ''meta.bin.tmp''"
  have put: "storage_ok d w1 \<and> (\<forall>q. fs_lookup q w1 = (if q = ?p then Some (FFile c) else fs_lookup q w))"
    if "fs_restart w1 = fs_put ?p (FFile c) (fs_restart w)" "parent_path ?p = [] \<or> fs_is_dir (parent_path ?p) w" for w1 c
  proof -
    have "parent_path ?p = d" by (simp add: split_last_component)
    with that(2) storage_okD(3,6) [OF ok] have "storage_ok d (fs_put ?p (FFile c) (fs_restart w))"
      by (intro storage_ok_put) (auto simp: ok)
    then have "storage_ok d (fs_restart w1)" unfolding that(1) .
    moreover have "fs_lookup q (fs_restart w1) = (if q = ?p then Some (FFile c) else fs_lookup q w)" for q
      unfolding that(1) by simp
    ultimately show ?thesis by simp
  qed
  from run show ?thesis unfolding WriteMeta_def
  proof (cases rule: io_then_cases)
    case (failed e)
    from on_errorD(1) [OF failed(1)] obtain e' where "fs_write ?p (meta_bytes s) w = (Inl e', w')" ..
    then show ?thesis
    proof (cases rule: fs_write_cases)
      case (failed e'')
      with storage_ok_via [OF failed(2)] lookup_via [OF failed(2)] ok \<open>r = Inl e\<close> show ?thesis by simp
    next
      case (torn e'' k)
      with put [OF torn(2,4)] \<open>r = Inl e\<close> show ?thesis by simp
    qed simp
  next
    case (ok u w1)
    have w1: "storage_ok d w1 \<and> (\<forall>q. fs_lookup q w1 = (if q = ?p then Some (FFile (meta_bytes s)) else fs_lookup q w))"
      using on_errorD(2) [OF ok(1)]
    proof (cases rule: fs_write_cases)
      case ok
      show ?thesis by (rule put [OF ok(2,4)])
    qed simp_all
    from ok(2) show ?thesis
    proof (cases rule: io_then_cases)
      case (failed e)
      with sync_effect_eq(4) [OF failed(1)] w1 show ?thesis by simp
    next
      case (ok u2 w2)
      with sync_effect_eq(4) [OF ok(1)] have "fs_restart w' = fs_restart w1" using sync_effect_eq(1) by auto
      with storage_ok_via [OF this] lookup_via [OF this] w1 show ?thesis by simp
    qed
  qed
qed

lemma save_prepare_effect:
  assumes run: "save_prepare fp d s w = (r, w')" and ok: "storage_ok d w" and con: "consecutive (ps_log s)"
  shows "prepares d w w' \<and> (r = Inr () \<longrightarrow> holds_log (d @ CHR ''/'' # ''log.tmp'') (ps_log s) w' \<and>
    fs_lookup (d @ CHR ''/'' # ''meta.bin.tmp'') w' = Some (FFile (meta_bytes s)))"
proof -
  let ?T = "d @ CHR ''/'' # ''log.tmp''"
  note pd = storage_okD(1) [OF ok]
  from run show ?thesis unfolding save_prepare_def storage_paths [OF pd]
  proof (cases rule: io_then_cases)
    case (failed e)
    from on_errorD(1) [OF failed(1)] obtain e' where "fs_create_directories d w = (Inl e', w')" ..
    with create_prepares [OF this ok] failed(2) show ?thesis by simp
  next
    case (ok u w1)
    have p1: "prepares d w w1" using create_prepares [OF on_errorD(2) [OF ok(1)] assms(2)] by simp
    from ok(2) show ?thesis
    proof (cases rule: io_then_cases)
      case (failed e)
      from on_errorD(1) [OF failed(1)] obtain e' where "fs_remove_all ?T w1 = (Inl e', w')" ..
      with remove_tmp_prepares [OF this prepares_ok [OF p1]] failed(2) p1 show ?thesis
        by (auto intro: prepares_trans)
    next
      case (ok u w2)
      note e2 = remove_tmp_prepares [OF on_errorD(2) [OF ok(1)] prepares_ok [OF p1]]
      then have p2: "prepares d w w2" using p1 by (blast intro: prepares_trans)
      from ok(2) show ?thesis
      proof (cases rule: io_then_cases)
        case (failed e)
        from on_errorD(1) [OF failed(1)] obtain e' where "fs_create_directories ?T w2 = (Inl e', w')" ..
        with create_prepares [OF this prepares_ok [OF p2]] failed(2) p2 show ?thesis
          by (auto intro: prepares_trans)
      next
        case (ok u w3)
        note e3 = create_prepares [OF on_errorD(2) [OF ok(1)] prepares_ok [OF p2]]
        then have p3: "prepares d w w3" using p2 by (blast intro: prepares_trans)
        have fresh: "fs_lookup ?T w3 = Some FDir" "\<forall>q. under ?T q \<longrightarrow> fs_lookup q w3 = None"
          using e2 e3 under_not_ancestor [of ?T] ancestors_child [of "''log.tmp''" d] by simp_all
        from ok(2) show ?thesis
        proof (cases rule: io_then_cases)
          case (failed e)
          with WriteSegments_prepares [OF failed(1) refl prepares_ok [OF p3] con fresh] p3 show ?thesis
            by (auto intro: prepares_trans)
        next
          case (ok u w4)
          note e4 = WriteSegments_prepares [OF ok(1) refl prepares_ok [OF p3] con fresh]
          then have p4: "prepares d w w4" and h4: "holds_log ?T (ps_log s) w4"
            using p3 by (auto intro: prepares_trans)
          note e5 = WriteMeta_effect [OF ok(2) prepares_ok [OF p4]]
          have "prepares d w4 w'" using e5 by (simp add: prepares_def outside_def)
          moreover have "q \<noteq> d @ CHR ''/'' # ''meta.bin.tmp''" if "q = ?T \<or> under ?T q" for q
            using that sibling_paths(1) [of "''log.tmp''" "''meta.bin.tmp''" d] by auto
          then have "holds_log ?T (ps_log s) w'" using h4 e5 holds_log_cong [of ?T w' w4] by blast
          ultimately show ?thesis using p4 e5 by (blast intro: prepares_trans)
        qed
      qed
    qed
  qed
qed

section \<open>Publishing the log directory\<close>

definition beside_log :: "string \<Rightarrow> string \<Rightarrow> bool" where
  "beside_log d q \<longleftrightarrow> (\<forall>n \<in> {''log'', ''log.tmp'', ''log.bak''}.
     q \<noteq> d @ CHR ''/'' # n \<and> \<not> under (d @ CHR ''/'' # n) q)"

text \<open>What a directory looks like, by the paths in it.\<close>

definition same_tree :: "string \<Rightarrow> fs \<Rightarrow> string \<Rightarrow> fs \<Rightarrow> bool" where
  "same_tree a w b w' \<longleftrightarrow> (\<forall>x. x = [] \<or> hd x = CHR ''/'' \<longrightarrow> fs_lookup (b @ x) w' = fs_lookup (a @ x) w)"

definition empty_tree :: "string \<Rightarrow> fs \<Rightarrow> bool" where
  "empty_tree a w \<longleftrightarrow> (\<forall>x. x = [] \<or> hd x = CHR ''/'' \<longrightarrow> fs_lookup (a @ x) w = None)"

lemma tree_paths: "(x = [] \<or> hd x = CHR ''/'') \<Longrightarrow> (a @ x = a \<or> under a (a @ x))"
  "q = a \<or> under a q \<Longrightarrow> \<exists>x. q = a @ x \<and> (x = [] \<or> hd x = CHR ''/'')"
  by (cases x) (auto simp: under_iff)

lemma empty_tree_iff: "empty_tree a w \<longleftrightarrow> (\<forall>q. q = a \<or> under a q \<longrightarrow> fs_lookup q w = None)"
  unfolding empty_tree_def using tree_paths by metis

lemma same_tree_refl_iff: "same_tree a w a w' \<longleftrightarrow> (\<forall>q. q = a \<or> under a q \<longrightarrow> fs_lookup q w' = fs_lookup q w)"
  unfolding same_tree_def using tree_paths by metis

lemma same_tree_trans: "same_tree a w b w1 \<Longrightarrow> same_tree b w1 c w2 \<Longrightarrow> same_tree a w c w2"
  by (simp add: same_tree_def)

lemma empty_tree_absent:
  assumes "fs_wf w" and "\<not> fs_exists a w" and "a \<noteq> []"
  shows "empty_tree a w"
  using fs_wf_below [OF assms(1) _ assms(3)] assms(2) by (auto simp: empty_tree_iff fs_exists_def fs_is_dir_def)

text \<open>Moving one of the three log directories to the name of another.\<close>

lemma rename_log:
  assumes run: "fs_rename (d @ CHR ''/'' # a) (d @ CHR ''/'' # b) w = (r, w')" and ok: "storage_ok d w"
    and ab: "a \<in> {''log'', ''log.tmp'', ''log.bak''}" "b \<in> {''log'', ''log.tmp'', ''log.bak''}" "a \<noteq> b"
  shows "storage_ok d w' \<and> (\<forall>q. beside_log d q \<longrightarrow> fs_lookup q w' = fs_lookup q w) \<and>
    (if r = Inr () then same_tree (d @ CHR ''/'' # a) w (d @ CHR ''/'' # b) w' \<and> empty_tree (d @ CHR ''/'' # a) w' \<and>
       (\<forall>q. \<not> (q = d @ CHR ''/'' # a \<or> under (d @ CHR ''/'' # a) q) \<longrightarrow>
            \<not> (q = d @ CHR ''/'' # b \<or> under (d @ CHR ''/'' # b) q) \<longrightarrow> fs_lookup q w' = fs_lookup q w) \<and>
       (\<forall>l. holds_log (d @ CHR ''/'' # a) l w \<longrightarrow> holds_log (d @ CHR ''/'' # b) l w')
     else \<forall>q. fs_lookup q w' = fs_lookup q w)"
proof -
  let ?a = "d @ CHR ''/'' # a" and ?b = "d @ CHR ''/'' # b"
  have ns: "CHR ''/'' \<notin> set a" "CHR ''/'' \<notin> set b" using ab by auto
  from run show ?thesis
  proof (cases rule: fs_rename_cases)
    case (failed e)
    with storage_ok_via [OF failed(2)] lookup_via [OF failed(2)] ok show ?thesis by simp
  next
    case ok
    have free: "\<And>q. under ?b q \<Longrightarrow> fs_lookup q (fs_restart w) = None" using ok(4) by simp
    note look = fs_lookup_move [OF free]
    have "storage_ok d (fs_restart w')" unfolding ok(2)
      by (rule storage_ok_move) (use assms(2) ns ab free ok(3) in auto)
    then have s: "storage_ok d w'" by simp
    have l: "fs_lookup q w' = (if q = ?b \<or> under ?b q then fs_lookup (?a @ drop (length ?b) q) w
       else if q = ?a \<or> under ?a q then None else fs_lookup q w)" for q
      unfolding fs_restart_simps(3) [of q w', symmetric] ok(2) by (simp add: look)
    have dis: "\<not> (q = ?b \<or> under ?b q)" if "q = ?a \<or> under ?a q" for q
      using that ab(3) sibling_paths [OF ns, of d] sibling_paths [OF ns(2,1), of d] by auto
    have h: "holds_log ?b l' (fs_restart w')" if "holds_log ?a l' w" for l'
      unfolding ok(2) by (rule holds_log_move) (use that free holds_log_cong [of ?a "fs_restart w" w] in simp_all)
    have "fs_lookup (?b @ x) w' = fs_lookup (?a @ x) w" if "x = [] \<or> hd x = CHR ''/''" for x
      using l [of "?b @ x"] tree_paths(1) [OF that, of ?b] by simp
    then have "same_tree ?a w ?b w'" unfolding same_tree_def by blast
    moreover have "empty_tree ?a w'" using l dis by (simp add: empty_tree_iff)
    moreover have "holds_log ?b l' w'" if "holds_log ?a l' w" for l'
      using h [OF that] holds_log_cong [of ?b "fs_restart w'" w'] by simp
    moreover have "\<forall>q. beside_log d q \<longrightarrow> fs_lookup q w' = fs_lookup q w" using l ab by (auto simp: beside_log_def)
    ultimately show ?thesis using s l ok(1) by simp
  qed
qed

lemma remove_backup:
  assumes run: "fs_remove_all (d @ CHR ''/'' # ''log.bak'') w = (r, w')" and ok: "storage_ok d w"
  shows "storage_ok d w' \<and> (r = Inr () \<longrightarrow> empty_tree (d @ CHR ''/'' # ''log.bak'') w') \<and>
    (\<forall>q. \<not> (q = d @ CHR ''/'' # ''log.bak'' \<or> under (d @ CHR ''/'' # ''log.bak'') q) \<longrightarrow>
       fs_lookup q w' = fs_lookup q w)"
  using run
proof (cases rule: fs_remove_all_cases)
  case ok
  have "storage_ok d (fs_restart w')" unfolding ok(2)
    by (rule storage_ok_drop) (use assms(2) in \<open>auto intro: under_trans\<close>)
  moreover have "fs_lookup q (fs_restart w') = (if q = d @ CHR ''/'' # ''log.bak''
      \<or> under (d @ CHR ''/'' # ''log.bak'') q then None else fs_lookup q w)" for q
    unfolding ok(2) fs_lookup_drop by simp
  ultimately show ?thesis by (simp add: empty_tree_iff)
next
  case (partial e gone)
  from remove_partial [OF assms(2) partial(2,3)] partial(1) show ?thesis by simp
qed

lemma log_names:
  "a \<in> {''log'', ''log.tmp'', ''log.bak''} \<Longrightarrow> CHR ''/'' \<notin> set a"
  "a \<in> {''log'', ''log.tmp'', ''log.bak''} \<Longrightarrow> b \<in> {''log'', ''log.tmp'', ''log.bak''} \<Longrightarrow> a \<noteq> b \<Longrightarrow>
   q = d @ CHR ''/'' # a \<or> under (d @ CHR ''/'' # a) q \<Longrightarrow>
   \<not> (q = d @ CHR ''/'' # b \<or> under (d @ CHR ''/'' # b) q)"
proof -
  show ns: "a \<in> {''log'', ''log.tmp'', ''log.bak''} \<Longrightarrow> CHR ''/'' \<notin> set a" for a by auto
  assume ab: "a \<in> {''log'', ''log.tmp'', ''log.bak''}" "b \<in> {''log'', ''log.tmp'', ''log.bak''}" "a \<noteq> b"
    and q: "q = d @ CHR ''/'' # a \<or> under (d @ CHR ''/'' # a) q"
  show "\<not> (q = d @ CHR ''/'' # b \<or> under (d @ CHR ''/'' # b) q)"
    using q ab(3) sibling_paths [OF ns [OF ab(1)] ns [OF ab(2)], of d]
      sibling_paths [OF ns [OF ab(2)] ns [OF ab(1)], of d] by auto
qed

text \<open>The old directory is moved aside.\<close>

lemma swap_aside:
  fixes d defines "L \<equiv> d @ CHR ''/'' # ''log''" and "T \<equiv> d @ CHR ''/'' # ''log.tmp''"
    and "B \<equiv> d @ CHR ''/'' # ''log.bak''"
  assumes run: "(if fs_exists L w then on_error g (fs_rename L B w) else (Inr (), w)) = (r, w1)"
    and ok: "storage_ok d w" and held: "holds_log T l w" and none: "empty_tree B w"
  shows "storage_ok d w1 \<and> (\<forall>q. beside_log d q \<longrightarrow> fs_lookup q w1 = fs_lookup q w) \<and>
    (if r = Inr () then empty_tree L w1 \<and> holds_log T l w1 \<and> (fs_exists B w1 \<longrightarrow> same_tree L w B w1)
     else same_tree L w L w1)"
proof (cases "fs_exists L w")
  case False
  then have "w1 = w" "r = Inr ()" using run by simp_all
  moreover have "empty_tree L w"
    by (rule empty_tree_absent [OF storage_okD(2) [OF ok] False]) (simp add: L_def)
  moreover have "\<not> fs_exists B w" using none by (simp add: empty_tree_iff fs_exists_def)
  ultimately show ?thesis using ok held by simp
next
  case True
  note run' = run [unfolded if_P [OF True]]
  obtain r' where ren: "fs_rename L B w = (r', w1)" using run' by (cases "fs_rename L B w"; cases "fst (fs_rename L B w)") auto
  then have r: "r = Inr () \<longleftrightarrow> r' = Inr ()" using run' by (cases r') auto
  note st = rename_log [OF ren [unfolded L_def B_def] ok]
  show ?thesis
  proof (cases "r' = Inr ()")
    case False
    with st r show ?thesis by (simp add: L_def same_tree_refl_iff)
  next
    case True
    have "fs_lookup q w1 = fs_lookup q w" if "q = T \<or> under T q" for q
      using st True that log_names(2) [of "''log.tmp''" "''log''" q d] log_names(2) [of "''log.tmp''" "''log.bak''" q d]
      by (simp add: T_def)
    then have "holds_log T l w1" using held holds_log_cong [of T w1 w] by blast
    with st True r show ?thesis by (simp add: L_def B_def)
  qed
qed

text \<open>The new directory is moved in; when that fails, the old one is moved back.\<close>

lemma swap_in:
  fixes d defines "L \<equiv> d @ CHR ''/'' # ''log''" and "T \<equiv> d @ CHR ''/'' # ''log.tmp''"
    and "B \<equiv> d @ CHR ''/'' # ''log.bak''"
  assumes run: "(case fs_rename T L w1 of (Inr _, w2) \<Rightarrow> (Inr (), w2)
       | (Inl ec, w2) \<Rightarrow> (Inl (g ec), if fs_exists B w2 \<and> \<not> fs_exists L w2 then snd (fs_rename B L w2) else w2))
     = (r, w')"
    and ok: "storage_ok d w1" and held: "holds_log T l w1" and gone: "empty_tree L w1"
    and old: "fs_exists B w1 \<longrightarrow> same_tree L w B w1"
  shows "storage_ok d w' \<and> (\<forall>q. beside_log d q \<longrightarrow> fs_lookup q w' = fs_lookup q w1) \<and>
    (if r = Inr () then holds_log L l w' else same_tree L w L w' \<or> empty_tree L w')"
proof -
  obtain r2 w2 where r2: "fs_rename T L w1 = (r2, w2)" by (cases "fs_rename T L w1")
  note st = rename_log [OF r2 [unfolded L_def T_def] ok]
  show ?thesis
  proof (cases r2)
    case (Inr v)
    then have "r = Inr ()" "w' = w2" using run r2 by simp_all
    with st Inr held show ?thesis by (simp add: L_def T_def)
  next
    case (Inl ec)
    then have w2: "storage_ok d w2" "\<And>q. fs_lookup q w2 = fs_lookup q w1" using st by simp_all
    have r: "r \<noteq> Inr ()" and w': "w' = (if fs_exists B w2 \<and> \<not> fs_exists L w2 then snd (fs_rename B L w2) else w2)"
      using run r2 Inl by auto
    have gone2: "empty_tree L w2" using gone w2(2) by (simp add: empty_tree_iff)
    show ?thesis
    proof (cases "fs_exists B w2 \<and> \<not> fs_exists L w2")
      case False
      then have "w' = w2" unfolding w' by (rule if_not_P)
      with w2 r gone2 show ?thesis by simp
    next
      case True
      obtain r3 where r3: "fs_rename B L w2 = (r3, w')" using w' True by (metis prod.collapse)
      note st3 = rename_log [OF r3 [unfolded L_def B_def] w2(1)]
      have "same_tree L w B w2" using True old w2(2) by (simp add: fs_exists_def same_tree_def)
      then show ?thesis using st3 r gone2 w2(2) same_tree_trans [of L w B w2 L w']
        by (cases "r3 = Inr ()") (simp_all add: L_def B_def empty_tree_iff)
    qed
  qed
qed

lemma swap_effect:
  fixes d defines "L \<equiv> d @ CHR ''/'' # ''log''" and "T \<equiv> d @ CHR ''/'' # ''log.tmp''"
    and "B \<equiv> d @ CHR ''/'' # ''log.bak''"
  assumes run: "swap_directories fp T L B w = (r, w')" and ok: "storage_ok d w" and held: "holds_log T l w"
    and none: "empty_tree B w"
  shows "storage_ok d w' \<and> (\<forall>q. beside_log d q \<longrightarrow> fs_lookup q w' = fs_lookup q w) \<and>
    (if r = Inr () then holds_log L l w' else same_tree L w L w' \<or> empty_tree L w')"
  using run unfolding swap_directories_def
proof (cases rule: io_then_cases)
  case (failed e)
  with swap_aside [OF failed(1) [unfolded L_def B_def] ok held [unfolded T_def] none [unfolded B_def]]
  show ?thesis by (simp add: L_def)
next
  case (ok u w1)
  note st = swap_aside [OF ok(1) [unfolded L_def B_def] assms(5) held [unfolded T_def] none [unfolded B_def]]
  from ok(2) show ?thesis
  proof (cases rule: io_then_cases)
    case (failed e)
    with sync_effect_eq(4) [OF failed(1)] st show ?thesis by (simp add: L_def)
  next
    case (ok u2 w2)
    have w2: "w2 = w1" by (rule sync_effect_eq(4) [OF ok(1)])
    from st have w1: "storage_ok d w1" "holds_log (d @ CHR ''/'' # ''log.tmp'') l w1"
      "empty_tree (d @ CHR ''/'' # ''log'') w1" "fs_exists (d @ CHR ''/'' # ''log.bak'') w1 \<longrightarrow>
        same_tree (d @ CHR ''/'' # ''log'') w (d @ CHR ''/'' # ''log.bak'') w1"
      and side: "\<forall>q. beside_log d q \<longrightarrow> fs_lookup q w1 = fs_lookup q w" by simp_all
    from swap_in [OF ok(2) [unfolded w2 L_def B_def T_def] w1] side show ?thesis by (simp add: L_def)
  qed
qed

text \<open>Removing the backup of a log that was replaced.\<close>

lemma backup_gone:
  assumes "fs_remove_all (d @ CHR ''/'' # ''log.bak'') w = (r, w')" and ok: "storage_ok d w"
  shows "storage_ok d w' \<and> (\<forall>q. beside_log d q \<longrightarrow> fs_lookup q w' = fs_lookup q w) \<and>
    (holds_log (d @ CHR ''/'' # ''log'') l w \<longrightarrow> holds_log (d @ CHR ''/'' # ''log'') l w') \<and>
    same_tree (d @ CHR ''/'' # ''log'') w (d @ CHR ''/'' # ''log'') w' \<and>
    (holds_log (d @ CHR ''/'' # ''log.tmp'') l w \<longrightarrow> holds_log (d @ CHR ''/'' # ''log.tmp'') l w')"
proof -
  note st = remove_backup [OF assms]
  have s: "fs_lookup q w' = fs_lookup q w"
    if "q = d @ CHR ''/'' # n \<or> under (d @ CHR ''/'' # n) q" "n = ''log'' \<or> n = ''log.tmp''" for q n
    using st that log_names(2) [of n "''log.bak''" q d] by auto
  then have "same_tree (d @ CHR ''/'' # ''log'') w (d @ CHR ''/'' # ''log'') w'" by (simp add: same_tree_refl_iff)
  moreover have "holds_log (d @ CHR ''/'' # n) l w' = holds_log (d @ CHR ''/'' # n) l w" if "n = ''log'' \<or> n = ''log.tmp''" for n
    by (rule holds_log_cong) (use s that in blast)
  moreover have "\<forall>q. beside_log d q \<longrightarrow> fs_lookup q w' = fs_lookup q w" using st by (simp add: beside_log_def)
  ultimately show ?thesis using st by simp
qed

text \<open>A step that leaves the table as it is.\<close>

lemma same_table:
  assumes "fs_restart w' = fs_restart w"
  shows "storage_ok d w' = storage_ok d w" "fs_lookup q w' = fs_lookup q w" "holds_log a l w' = holds_log a l w"
    "same_tree a v b w' = same_tree a v b w" "empty_tree a w' = empty_tree a w"
  using lookup_via [OF assms] storage_ok_via [OF assms]
  by (simp_all add: holds_log_def same_tree_def empty_tree_def)

lemma trees_restart [simp]:
  "holds_log a l (fs_restart w) = holds_log a l w" "same_tree a v b (fs_restart w) = same_tree a v b w"
  "empty_tree a (fs_restart w) = empty_tree a w"
  by (rule same_table; simp)+

lemma ReplaceDirectory_effect:
  fixes d defines "L \<equiv> d @ CHR ''/'' # ''log''" and "T \<equiv> d @ CHR ''/'' # ''log.tmp''"
    and "B \<equiv> d @ CHR ''/'' # ''log.bak''"
  assumes run: "ReplaceDirectory fp T L B w = (r, w')" and ok: "storage_ok d w" and held: "holds_log T l w"
  shows "storage_ok d w' \<and> (\<forall>q. beside_log d q \<longrightarrow> fs_lookup q w' = fs_lookup q w) \<and>
    (holds_log L l w' \<or> r \<noteq> Inr () \<and> (same_tree L w L w' \<or> empty_tree L w'))"
  using run unfolding ReplaceDirectory_def
proof (cases rule: io_then_cases)
  case (failed e)
  from on_errorD(1) [OF failed(1)] obtain e' where "fs_remove_all B w = (Inl e', w')" ..
  from backup_gone [OF this [unfolded B_def] ok] failed(2) show ?thesis by (simp add: L_def)
next
  case (ok u w1)
  have b1: "fs_remove_all B w = (Inr u, w1)" by (rule on_errorD(2) [OF ok(1)])
  from backup_gone [OF b1 [unfolded B_def] assms(5), of l] remove_backup [OF b1 [unfolded B_def] assms(5)] held
  have w1: "storage_ok d w1" "holds_log (d @ CHR ''/'' # ''log.tmp'') l w1" "empty_tree (d @ CHR ''/'' # ''log.bak'') w1"
    and side: "\<forall>q. beside_log d q \<longrightarrow> fs_lookup q w1 = fs_lookup q w" and tree: "same_tree L w L w1"
    by (simp_all add: L_def T_def)
  from ok(2) show ?thesis
  proof (cases rule: io_then_cases)
    case (failed e)
    from swap_effect [OF failed(1) [unfolded L_def B_def T_def] w1] side failed(2) tree
    show ?thesis by (auto simp: L_def intro: same_tree_trans)
  next
    case (ok u2 w2)
    from swap_effect [OF ok(1) [unfolded L_def B_def T_def] w1] side
    have w2: "storage_ok d w2" "\<forall>q. beside_log d q \<longrightarrow> fs_lookup q w2 = fs_lookup q w" "holds_log L l w2"
      by (simp_all add: L_def)
    from ok(2) show ?thesis
    proof (cases rule: io_then_cases)
      case (failed e)
      with sync_effect_eq(4) [OF failed(1)] w2 show ?thesis by simp
    next
      case (ok u3 w3)
      have w3: "w3 = w2" by (rule sync_effect_eq(4) [OF ok(1)])
      from ok(2) [unfolded w3] show ?thesis
      proof (cases rule: io_then_cases)
        case (failed e)
        with same_table [OF sync_effect_eq(3) [OF failed(1)]] w2 show ?thesis by simp
      next
        case (ok u4 w4)
        note w4 = same_table [OF sync_effect_eq(3) [OF ok(1)]]
        obtain r5 w5 where r5: "fs_remove_all B w4 = (r5, w5)" by (cases "fs_remove_all B w4")
        from backup_gone [OF r5 [unfolded B_def], of l] w2 w4
        have w5: "storage_ok d w5" "\<forall>q. beside_log d q \<longrightarrow> fs_lookup q w5 = fs_lookup q w" "holds_log L l w5"
          by (simp_all add: L_def)
        have "fs_restart w' = fs_restart w5" using ok(2) r5 by (cases r5) auto
        from same_table [OF this] w5 show ?thesis by simp
      qed
    qed
  qed
qed

section \<open>Publishing the meta file\<close>

text \<open>Removing one path that is not a directory with content.\<close>

lemma remove_effect:
  assumes run: "fs_remove p w = (r, w')" and ok: "storage_ok d w" and ne: "p \<noteq> []"
  shows "storage_ok d w' \<and> (\<forall>q. q \<noteq> p \<longrightarrow> fs_lookup q w' = fs_lookup q w) \<and>
    (if r = Inr () then fs_lookup p w' = None else fs_lookup p w' = fs_lookup p w)"
  using run
proof (cases rule: fs_remove_cases)
  case ok
  have none: "fs_lookup q w = None" if "under p q" for q
    using that ok(3) fs_wf_below [OF storage_okD(2) [OF assms(2)] _ ne] by blast
  have "storage_ok d (fs_restart w')" unfolding ok(2)
    by (rule storage_ok_drop) (use assms(2) none in auto)
  moreover have "fs_lookup q (fs_restart w') = (if q = p then None else fs_lookup q w)" for q
    unfolding ok(2) by (simp add: fs_lookup_drop)
  ultimately show ?thesis using ok(1) by simp
next
  case (failed e)
  with storage_ok_via [OF failed(2)] lookup_via [OF failed(2)] ok show ?thesis by simp
qed

lemma rename_meta:
  fixes d defines "M \<equiv> d @ CHR ''/'' # ''meta.bin''" and "N \<equiv> d @ CHR ''/'' # ''meta.bin.tmp''"
  assumes run: "fs_rename N M w = (r, w')" and ok: "storage_ok d w"
  shows "storage_ok d w' \<and> (\<forall>q. q \<noteq> M \<longrightarrow> q \<noteq> N \<longrightarrow> fs_lookup q w' = fs_lookup q w) \<and>
    fs_lookup M w' = fs_lookup (if r = Inr () then N else M) w"
  using run
proof (cases rule: fs_rename_cases)
  case (failed e)
  with storage_ok_via [OF failed(2)] lookup_via [OF failed(2)] ok show ?thesis by simp
next
  case ok
  note wf = storage_okD(2) [OF assms(4)]
  have none: "fs_lookup q w = None" if "under M q \<or> under N q" for q
    using that fs_wf_below [OF wf storage_okD(5) [OF assms(4)]] fs_wf_below [OF wf storage_okD(6) [OF assms(4)]]
    by (auto simp: M_def N_def)
  then have free: "\<And>q. under M q \<Longrightarrow> fs_lookup q (fs_restart w) = None" by simp
  have "storage_ok d (fs_restart w')" unfolding ok(2) M_def N_def
    by (rule storage_ok_move) (use assms(4) ok(3) none storage_okD(6) [OF assms(4)] in \<open>auto simp: M_def N_def\<close>)
  moreover have "fs_lookup q (fs_restart w') = (if q = M then fs_lookup N w else if q = N then None else fs_lookup q w)" for q
  proof -
    have MN: "N \<noteq> M" "\<not> under M N" "\<not> under N M"
      using sibling_paths(1) [of "''meta.bin''" "''meta.bin.tmp''" d] sibling_paths(1) [of "''meta.bin.tmp''" "''meta.bin''" d]
      by (simp_all add: M_def N_def)
    have "fs_lookup (N @ drop (length M) q) w = None" if "under M q"
      using that none [of "N @ drop (length M) q"] by (auto simp: under_iff)
    with MN none [of q] show ?thesis unfolding ok(2) by (simp add: fs_lookup_move [OF free])
  qed
  ultimately show ?thesis using ok(1) by simp
qed

lemma ReplaceFile_effect:
  fixes d defines "M \<equiv> d @ CHR ''/'' # ''meta.bin''" and "N \<equiv> d @ CHR ''/'' # ''meta.bin.tmp''"
  assumes run: "ReplaceFile fp N M w = (r, w')" and ok: "storage_ok d w"
  shows "storage_ok d w' \<and> (\<forall>q. q \<noteq> M \<longrightarrow> q \<noteq> N \<longrightarrow> fs_lookup q w' = fs_lookup q w) \<and>
    (fs_lookup M w' = fs_lookup N w \<or> r \<noteq> Inr () \<and> (fs_lookup M w' = fs_lookup M w \<or> fs_lookup M w' = None))"
  using run unfolding ReplaceFile_def
proof (cases rule: io_then_cases)
  case (failed e)
  then obtain e' where "fs_remove M w = (Inl e', w')"
    using on_errorD(1) by (fastforce split: if_splits)
  from remove_effect [OF this ok] failed(2) show ?thesis by (simp add: M_def)
next
  case (ok u w1)
  have w1: "storage_ok d w1 \<and> (\<forall>q. q \<noteq> M \<longrightarrow> fs_lookup q w1 = fs_lookup q w) \<and> fs_lookup M w1 = None"
  proof (cases "fs_exists M w")
    case True
    have "fs_remove M w = (Inr u, w1)" by (rule on_errorD(2) [OF ok(1) [unfolded if_P [OF True]]])
    from remove_effect [OF this assms(4)] show ?thesis by (simp add: M_def)
  next
    case False
    then show ?thesis using ok(1) assms(4) by (simp add: fs_exists_def)
  qed
  have MN: "N \<noteq> M" by (simp add: M_def N_def)
  from ok(2) show ?thesis
  proof (cases rule: io_then_cases)
    case (failed e)
    from on_errorD(1) [OF failed(1)] obtain e' where "fs_rename N M w1 = (Inl e', w')" ..
    from rename_meta [OF this [unfolded M_def N_def]] w1 failed(2) show ?thesis by (simp add: M_def N_def)
  next
    case (ok u2 w2)
    have "fs_rename N M w1 = (Inr u2, w2)" by (rule on_errorD(2) [OF ok(1)])
    from rename_meta [OF this [unfolded M_def N_def]] w1 MN
    have w2: "storage_ok d w2" "\<forall>q. q \<noteq> M \<longrightarrow> q \<noteq> N \<longrightarrow> fs_lookup q w2 = fs_lookup q w" "fs_lookup M w2 = fs_lookup N w"
      by (simp_all add: M_def N_def)
    from ok(2) show ?thesis
    proof (cases rule: io_then_cases)
      case (failed e)
      with sync_effect_eq(4) [OF failed(1)] w2 show ?thesis by simp
    next
      case (ok u3 w3)
      with sync_effect_eq(4) [OF ok(1)] have "fs_restart w' = fs_restart w2" using sync_effect_eq(3) by auto
      from same_table [OF this] w2 show ?thesis by simp
    qed
  qed
qed

end
