(* ===== verification/StorageRecovery.thy ===== *)
theory StorageRecovery
  imports StorageSave
begin

text \<open>
  What a restarted node loads after a save that succeeded, failed or was cut short. \<open>disk_holds\<close>
  relates the disk to the abstract content of the storage: nothing, or one saved state.
\<close>

section \<open>The outcomes of a save\<close>

lemma beside_log_names:
  assumes "n \<in> {''meta.bin'', ''meta.bin.tmp'', ''raft_state.bin''}"
  shows "beside_log d (d @ CHR ''/'' # n)"
proof -
  have "CHR ''/'' \<notin> set n" "n \<notin> {''log'', ''log.tmp'', ''log.bak''}" using assms by auto
  then show ?thesis by (auto simp: beside_log_def sibling_paths)
qed

lemma log_tree_names:
  assumes "q = d @ CHR ''/'' # ''log'' \<or> under (d @ CHR ''/'' # ''log'') q"
  shows "CHR ''/'' \<notin> set n \<Longrightarrow> n \<noteq> ''log'' \<Longrightarrow> q \<noteq> d @ CHR ''/'' # n" and "outside d q"
proof -
  have ne: "q \<noteq> d @ CHR ''/'' # n" if "CHR ''/'' \<notin> set n" "n \<noteq> ''log''" for n
    using assms that sibling_paths(1) [of "''log''" n d] by auto
  then show "CHR ''/'' \<notin> set n \<Longrightarrow> n \<noteq> ''log'' \<Longrightarrow> q \<noteq> d @ CHR ''/'' # n" .
  have "under d q" using assms by (auto simp: under_iff)
  moreover have "\<not> under (d @ CHR ''/'' # ''log.tmp'') q"
    using assms log_names(2) [of "''log''" "''log.tmp''" q d] by auto
  ultimately show "outside d q" using ne [of "''log.tmp''"] ne [of "''meta.bin.tmp''"] by (simp add: outside_def)
qed

text \<open>
  The five states of the disk after a save: untouched, log directory missing, new log with the old
  meta file, new log without a meta file, and everything new.
\<close>

lemma Save_effect:
  fixes d defines "L \<equiv> d @ CHR ''/'' # ''log''" and "M \<equiv> d @ CHR ''/'' # ''meta.bin''"
    and "G \<equiv> d @ CHR ''/'' # ''raft_state.bin''"
  assumes run: "Storage_Save fp d s w = (r, w')" and ok: "storage_ok d w" and con: "consecutive (ps_log s)"
  shows "storage_ok d w' \<and> (fs_lookup G w' = fs_lookup G w \<or> fs_lookup G w' = None) \<and>
    (fs_lookup M w' = Some (FFile (meta_bytes s)) \<and> holds_log L (ps_log s) w' \<or>
     r \<noteq> Inr () \<and> fs_lookup G w' = fs_lookup G w \<and>
       (fs_lookup M w' = fs_lookup M w \<and>
          (same_tree L w L w' \<or> empty_tree L w' \<or> holds_log L (ps_log s) w') \<or>
        fs_lookup M w' = None \<and> holds_log L (ps_log s) w'))"
proof -
  note pd = storage_okD(1) [OF ok]
  have side: "beside_log d M" "beside_log d G" "beside_log d (d @ CHR ''/'' # ''meta.bin.tmp'')"
    unfolding M_def G_def by (rule beside_log_names; simp)+
  have out: "outside d M" "outside d G" using sibling_paths(1) [of "''log.tmp''" _ d] by (simp_all add: outside_def M_def G_def)
  have lt: "q \<noteq> M \<and> q \<noteq> G \<and> q \<noteq> d @ CHR ''/'' # ''meta.bin.tmp'' \<and> q \<noteq> d @ CHR ''/'' # ''raft_state.bin.tmp'' \<and> outside d q"
    if "q = L \<or> under L q" for q
    using log_tree_names [of q d] that by (simp add: M_def G_def L_def)
  from run show ?thesis unfolding Storage_Save_def storage_paths [OF pd]
  proof (cases rule: io_then_cases)
    case (failed e)
    from save_prepare_effect [OF failed(1) ok con] failed(2) out lt show ?thesis
      by (simp add: prepares_def same_tree_refl_iff L_def)
  next
    case (ok u w1)
    from save_prepare_effect [OF ok(1) assms(5) con]
    have w1: "storage_ok d w1" "fs_lookup M w1 = fs_lookup M w" "fs_lookup G w1 = fs_lookup G w" "same_tree L w L w1"
      "holds_log (d @ CHR ''/'' # ''log.tmp'') (ps_log s) w1"
      "fs_lookup (d @ CHR ''/'' # ''meta.bin.tmp'') w1 = Some (FFile (meta_bytes s))"
      using out lt by (simp_all add: prepares_def same_tree_refl_iff)
    from ok(2) show ?thesis
    proof (cases rule: io_then_cases)
      case (failed e)
      from ReplaceDirectory_effect [OF failed(1) w1(1,5)] w1 failed(2) side show ?thesis
        by (auto simp: L_def intro: same_tree_trans)
    next
      case (ok u2 w2)
      from ReplaceDirectory_effect [OF ok(1) w1(1,5)] w1 side
      have w2: "storage_ok d w2" "fs_lookup M w2 = fs_lookup M w" "fs_lookup G w2 = fs_lookup G w"
        "holds_log L (ps_log s) w2" "fs_lookup (d @ CHR ''/'' # ''meta.bin.tmp'') w2 = Some (FFile (meta_bytes s))"
        by (simp_all add: L_def)
      from ok(2) show ?thesis
      proof (cases rule: io_then_cases)
        case (failed e)
        note st = ReplaceFile_effect [OF failed(1) w2(1)]
        have "holds_log L (ps_log s) w'" using st lt w2(4) holds_log_cong [of L w' w2] by (auto simp: M_def)
        with st w2 failed(2) show ?thesis by (auto simp: M_def G_def)
      next
        case (ok u3 w3)
        note st = ReplaceFile_effect [OF ok(1) w2(1)]
        have w3: "storage_ok d w3" "fs_lookup M w3 = Some (FFile (meta_bytes s))" "holds_log L (ps_log s) w3"
          "fs_lookup G w3 = fs_lookup G w"
          using st lt w2 holds_log_cong [of L w3 w2] by (auto simp: M_def G_def)
        define w4 where "w4 = snd (fs_remove G w3)"
        have st4: "storage_ok d w4 \<and> (\<forall>q. q \<noteq> G \<longrightarrow> fs_lookup q w4 = fs_lookup q w3) \<and>
            (fs_lookup G w4 = fs_lookup G w3 \<or> fs_lookup G w4 = None)"
          using remove_effect [of G w3 "fst (fs_remove G w3)" w4 d] w3(1) by (auto simp: w4_def G_def split: if_splits)
        have "w' = snd (fs_remove (d @ CHR ''/'' # ''raft_state.bin.tmp'') w4)"
          using ok(2) by (simp add: w4_def G_def)
        then have st5: "storage_ok d w' \<and> (\<forall>q. q \<noteq> d @ CHR ''/'' # ''raft_state.bin.tmp'' \<longrightarrow> fs_lookup q w' = fs_lookup q w4)"
          using remove_effect [of "d @ CHR ''/'' # ''raft_state.bin.tmp''" w4 _ w' d] st4 by (metis append_is_Nil_conv list.distinct(1) prod.collapse)
        have "holds_log L (ps_log s) w'" using st4 st5 lt w3(3) holds_log_cong [of L w' w3] by auto
        with st4 st5 w3 show ?thesis by (simp add: M_def G_def)
      qed
    qed
  qed
qed

section \<open>The content of the storage\<close>

fun disk_holds :: "string \<Rightarrow> PersistentRaftState option \<Rightarrow> fs \<Rightarrow> bool" where
  "disk_holds d None w \<longleftrightarrow> storage_ok d w \<and> fs_lookup (meta_path_of d) w = None \<and>
     fs_lookup (legacy_path_of d) w = None"
| "disk_holds d (Some s) w \<longleftrightarrow> storage_ok d w \<and> storable s \<and>
     fs_lookup (meta_path_of d) w = Some (FFile (meta_bytes s)) \<and> holds_log (log_dir_of d) (ps_log s) w"

text \<open>What \<open>Load\<close> gives for a content: the state with its indexes clamped to the log, and whether there was one.\<close>

fun recovered :: "PersistentRaftState option \<Rightarrow> PersistentRaftState \<times> bool" where
  "recovered None = (initial_state, False)"
| "recovered (Some s) = (ClampRecoveredHardState s, True)"

lemma storableD:
  assumes "storable s"
  shows "consecutive (ps_log s)" "\<forall>r \<in> set (ps_log s). storable_record r"
  using assms by (simp_all add: storable_def)

lemma Load_disk_holds: "disk_holds d c w \<Longrightarrow> Storage_Load d w = (Inr (recovered c), w)"
proof (cases c)
  case None
  then show "disk_holds d c w \<Longrightarrow> ?thesis" by (simp add: Storage_Load_def fs_exists_def)
next
  case (Some s)
  assume a: "disk_holds d c w"
  with Some have s: "storage_ok d w" "storable s" "fs_lookup (meta_path_of d) w = Some (FFile (meta_bytes s))"
    "holds_log (log_dir_of d) (ps_log s) w" by simp_all
  note con = storableD(1) [OF s(2)]
  have upd: "s\<lparr>ps_log := if ps_log s = [] then [] else ps_log s\<rparr> = s" by simp
  from Load_held [OF storage_okD(2,1) [OF s(1)] s(3,2) disjI2 [OF s(4)] storableD [OF s(2)]] Some
  show ?thesis unfolding bounded_log_self [OF con] upd by simp
qed

lemma disk_holds_restart [simp]: "disk_holds d c (fs_restart w) = disk_holds d c w"
  by (cases c) (simp_all add: holds_log_def)

text \<open>A save that reports success, under whatever faults it survived.\<close>

lemma Save_legacy:
  assumes "Storage_Save fp d s w = (r, w')" and "storage_ok d w" and "storable s"
    and "fs_lookup (legacy_path_of d) w = None"
  shows "fs_lookup (legacy_path_of d) w' = None"
  using Save_effect [OF assms(1,2) storableD(1) [OF assms(3)]] assms(4) storage_paths [OF storage_okD(1) [OF assms(2)]]
  by auto

lemma Save_ok:
  assumes "Storage_Save fp d s w = (Inr (), w')" and "storage_ok d w" and "storable s"
  shows "disk_holds d (Some s) w'"
  using Save_effect [OF assms(1,2) storableD(1) [OF assms(3)]] assms(3) storage_paths [OF storage_okD(1) [OF assms(2)]]
  by simp

text \<open>Everything that can be loaded after a save that did not report success.\<close>

definition torn_results :: "PersistentRaftState option \<Rightarrow> PersistentRaftState \<Rightarrow> (string + PersistentRaftState \<times> bool) set" where
  "torn_results c s = {Inr (recovered c), Inr (recovered (Some s)), Inr (recovered None)} \<union>
     {x. \<exists>s0. c = Some s0 \<and> ps_log s0 \<noteq> [] \<and>
        ((\<exists>e. x = Inl e) \<or> length (bounded_log s0 (ps_log s)) = length (ps_log s0) \<and>
           x = Inr (ClampRecoveredHardState (s0\<lparr>ps_log := bounded_log s0 (ps_log s)\<rparr>), True))}"

lemma Load_no_log:
  assumes ok: "storage_ok d w" and s0: "storable s0"
    and M: "fs_lookup (meta_path_of d) w = Some (FFile (meta_bytes s0))"
    and gone: "empty_tree (log_dir_of d) w"
  shows "fst (Storage_Load d w) \<in> torn_results (Some s0) s"
proof (cases "ps_log s0 = []")
  case True
  then have upd: "s0\<lparr>ps_log := if ps_log s0 = [] then [] else bounded_log s0 []\<rparr> = s0" by (cases s0) simp
  have "fst (Storage_Load d w) = Inr (ClampRecoveredHardState s0, True)"
    using Load_held [OF storage_okD(2,1) [OF ok] M s0, of "[]"] True unfolding upd by (auto simp: consecutive_def)
  then show ?thesis by (simp add: torn_results_def)
next
  case False
  have ld: "LoadSegments (log_dir_of d) a b cn w =
      ((if cn = 0 then Inr [] else Inl (''log dir does not exist: '' @ log_dir_of d)), w)" for a b cn
    using gone by (simp add: LoadSegments_def fs_exists_def empty_tree_iff)
  have "ReadMeta (meta_path_of d) w = Inr (meta_of s0)"
    using M parse_meta_written [OF s0] by (simp add: ReadMeta_def fs_read_def)
  moreover have "m_count (meta_of s0) \<noteq> 0"
    using False log_count_word [of "ps_log s0"] s0 by (auto simp: meta_of_def storable_def)
  ultimately have "\<exists>e. fst (Storage_Load d w) = Inl e"
    using M ld by (simp add: Storage_Load_def LoadSegmented_def fs_exists_def Let_def)
  with False show ?thesis by (auto simp: torn_results_def)
qed

lemma Load_new_log:
  assumes ok: "storage_ok d w" and s0: "storable s0" and s: "storable s"
    and M: "fs_lookup (meta_path_of d) w = Some (FFile (meta_bytes s0))"
    and log: "holds_log (log_dir_of d) (ps_log s) w"
  shows "fst (Storage_Load d w) \<in> torn_results (Some s0) s"
proof -
  from Load_held [OF storage_okD(2,1) [OF ok] M s0 disjI2 [OF log] storableD [OF s]]
  obtain e where "Storage_Load d w = (if length (bounded_log s0 (ps_log s)) = length (ps_log s0) \<or> ps_log s0 = []
    then Inr (ClampRecoveredHardState (s0\<lparr>ps_log := if ps_log s0 = [] then [] else bounded_log s0 (ps_log s)\<rparr>), True)
    else Inl e, w)" by blast
  moreover have "s0\<lparr>ps_log := []\<rparr> = s0" if "ps_log s0 = []" using that by (cases s0) simp
  ultimately show ?thesis by (cases "ps_log s0 = []") (auto simp: torn_results_def)
qed

lemma Save_torn:
  assumes run: "Storage_Save fp d s w = (r, w')" and old: "disk_holds d c w" and s: "storable s"
    and leg: "fs_lookup (legacy_path_of d) w = None"
  shows "fst (Storage_Load d (fs_restart w')) \<in> torn_results c s"
proof -
  have ok: "storage_ok d w" using old by (cases c) simp_all
  note p = storage_paths [OF storage_okD(1) [OF ok]]
  note eff = Save_effect [OF run ok storableD(1) [OF s], folded p]
  then have ok': "storage_ok d (fs_restart w')" by simp
  have hit: "fst (Storage_Load d (fs_restart w')) \<in> torn_results c s" if "disk_holds d x w'" "x \<in> {c, None, Some s}" for x
    using Load_disk_holds [of d x "fs_restart w'"] that by (auto simp: torn_results_def)
  from eff consider
    (all_new) "fs_lookup (meta_path_of d) w' = Some (FFile (meta_bytes s))" "holds_log (log_dir_of d) (ps_log s) w'"
    | (lost) "fs_lookup (meta_path_of d) w' = None" "fs_lookup (legacy_path_of d) w' = None"
    | (kept) "fs_lookup (meta_path_of d) w' = fs_lookup (meta_path_of d) w" "fs_lookup (legacy_path_of d) w' = None"
        "same_tree (log_dir_of d) w (log_dir_of d) w' \<or> empty_tree (log_dir_of d) w' \<or>
         holds_log (log_dir_of d) (ps_log s) w'"
    using leg by (elim conjE disjE) simp_all
  then show ?thesis
  proof cases
    case all_new
    with ok' s have "disk_holds d (Some s) w'" by simp
    then show ?thesis by (rule hit) simp
  next
    case lost
    with ok' have "disk_holds d None w'" by simp
    then show ?thesis by (rule hit) simp
  next
    case kept
    show ?thesis
    proof (cases c)
      case None
      with kept old ok' have "disk_holds d None w'" by simp
      then show ?thesis by (rule hit) simp
    next
      case (Some s0)
      note s0 = old [unfolded Some disk_holds.simps]
      have M: "fs_lookup (meta_path_of d) (fs_restart w') = Some (FFile (meta_bytes s0))" using kept s0 by simp
      have same: "disk_holds d c w'" if "same_tree (log_dir_of d) w (log_dir_of d) w'"
      proof -
        have "holds_log (log_dir_of d) (ps_log s0) w' = holds_log (log_dir_of d) (ps_log s0) w"
          by (rule holds_log_cong) (use that in \<open>auto simp: same_tree_refl_iff\<close>)
        with s0 M ok' Some show ?thesis by simp
      qed
      from kept(3) have "same_tree (log_dir_of d) w (log_dir_of d) w' \<or> empty_tree (log_dir_of d) (fs_restart w') \<or>
         holds_log (log_dir_of d) (ps_log s) (fs_restart w')" by simp
      then show ?thesis
        using hit [OF same] Load_no_log [OF ok' _ M] Load_new_log [OF ok' _ s M] s0 Some by blast
    qed
  qed
qed

end
