(* ===== verification/StorageQuiet.thy ===== *)
theory StorageQuiet
  imports StorageRecovery
begin

text \<open>
  Without faults a save succeeds. A run can also be followed up to any point: a prefix of the fault
  list that lets every operation pass does not change what the operations do, so that a crash can be
  placed exactly.
\<close>

section \<open>Operations without faults\<close>

lemma quiet_ops:
  assumes "fs_quiet w"
  shows "fs_quiet (snd (fs_create_directories p w))" "fs_quiet (snd (fs_remove_all p w))"
    "fs_quiet (snd (fs_remove p w))" "fs_quiet (snd (fs_rename p q w))" "fs_quiet (snd (fs_write p c w))"
    "fs_quiet (snd (SyncFile p w))" "fs_quiet (snd (SyncDirectory p w))" "fs_quiet (snd (sync_parent p w))"
  using assms
  by (simp_all add: fs_create_directories_def fs_no_file_iff fs_remove_all_def fs_remove_def fs_rename_def fs_write_def
      SyncFile_def SyncDirectory_def sync_parent_def Let_def split: if_splits) (simp_all add: fs_quiet_def)

lemma quiet_sync:
  assumes "fs_quiet w"
  shows "fs_exists p w \<Longrightarrow> SyncFile p w = (Inr (), w)" "fs_is_dir p w \<Longrightarrow> SyncDirectory p w = (Inr (), w)"
    "p = [] \<or> fs_is_dir p w \<Longrightarrow> sync_parent p w = (Inr (), w)"
  using assms by (auto simp: SyncFile_def SyncDirectory_def sync_parent_def)

lemma write_segment_quiet:
  assumes "fs_quiet w" and T: "T = d @ CHR ''/'' # ''log.tmp''" and "fs_is_dir T w"
    and "\<not> fs_is_dir (segment_path T seg) w" and "\<forall>r \<in> set seg. storable_record r"
  shows "write_segment kNone T fin seg w = (Inr (), fs_put (segment_path T seg) (FFile (segment_bytes seg)) w)"
proof -
  let ?p = "segment_path T seg"
  have fit: "takeWhile (\<lambda>r. length (lr_command r) < 2 ^ 32) seg = seg"
    using assms(5) storable_size(2) by (simp add: takeWhile_eq_all_conv)
  have ap: "path_append T (SegmentFileName (lr_index (hd seg))) = ?p" unfolding T by (rule segment_path_append)
  have "fs_write ?p (concat (map write_entry seg)) w = (Inr (), fs_put ?p (FFile (segment_bytes seg)) w)"
    unfolding segment_bytes_def
    by (rule fs_write_quiet) (use assms in \<open>simp_all add: segment_path_facts\<close>)
  moreover have "SyncFile ?p (fs_put ?p (FFile (segment_bytes seg)) w) = (Inr (), fs_put ?p (FFile (segment_bytes seg)) w)"
    by (rule quiet_sync) (use assms(1) in \<open>simp_all add: fs_exists_def\<close>)
  ultimately show ?thesis
    unfolding write_segment_def Let_def ap fit by (simp add: FlushAndSyncSegmentFile_def)
qed

lemma write_all_segments_quiet:
  assumes "fs_quiet w" and T: "T = d @ CHR ''/'' # ''log.tmp''" and "fs_is_dir T w"
    and "\<forall>seg \<in> set segs. \<not> fs_is_dir (segment_path T seg) w"
    and "\<forall>r \<in> set (concat segs). storable_record r"
  shows "\<exists>w'. write_all_segments kNone T segs w = (Inr (), w') \<and> fs_quiet w' \<and> fs_is_dir T w'"
  using assms
proof (induction segs arbitrary: w)
  case (Cons seg segs)
  let ?w1 = "fs_put (segment_path T seg) (FFile (segment_bytes seg)) w"
  have "write_segment kNone T (segs = []) seg w = (Inr (), ?w1)"
    using Cons.prems by (intro write_segment_quiet [where d = d]) auto
  moreover have "fs_is_dir T ?w1"
    using Cons.prems(3) segment_path_facts(3) [of T seg] by (auto simp: fs_is_dir_def)
  moreover have "\<forall>sg \<in> set segs. \<not> fs_is_dir (segment_path T sg) ?w1" using Cons.prems(4) by (auto simp: fs_is_dir_def)
  ultimately show ?case using Cons.IH [of ?w1] Cons.prems by simp
qed simp

lemma save_prepare_quiet:
  assumes q: "fs_quiet w" and ok: "storage_ok d w" and s: "storable s"
  shows "\<exists>w'. save_prepare kNone d s w = (Inr (), w') \<and> fs_quiet w'"
proof -
  let ?T = "d @ CHR ''/'' # ''log.tmp''" and ?N = "d @ CHR ''/'' # ''meta.bin.tmp''"
  let ?mk = "\<lambda>p. fold (\<lambda>a. fs_put a FDir) (ancestors p)"
  note o = storage_okD [OF ok]
  note anc = ancestors_child [of "''log.tmp''" d]
  define w2 where "w2 = fs_drop (\<lambda>q. q = ?T \<or> under ?T q) (?mk d w)"
  have d1: "fs_create_directories d w = (Inr (), ?mk d w)" by (rule fs_create_directories_quiet [OF q o(4)])
  have d2: "fs_remove_all ?T (?mk d w) = (Inr (), w2)" unfolding w2_def by (rule fs_remove_all_quiet) (simp add: q)
  have l2: "fs_lookup q w2 = (if q = ?T \<or> under ?T q then None else if q \<in> set (ancestors d) then Some FDir else fs_lookup q w)" for q
    by (simp add: w2_def fs_lookup_drop fold_put_lookup)
  define w3 where "w3 = ?mk ?T w2"
  have q3: "fs_quiet w3" using q by (simp add: w3_def w2_def)
  have d3: "fs_create_directories ?T w2 = (Inr (), w3)" unfolding w3_def
    by (rule fs_create_directories_quiet) (use q in \<open>simp_all add: w2_def [symmetric] l2 anc\<close>, simp add: w2_def)
  have l3: "fs_lookup q w3 = (if q \<in> set (ancestors ?T) then Some FDir else fs_lookup q w2)" for q
    by (simp add: w3_def fold_put_lookup)
  have "fs_is_dir ?T w3" by (simp add: fs_is_dir_def l3 anc)
  moreover have "\<not> fs_is_dir (segment_path ?T seg) w3" for seg
    using segment_path_facts(3) [of ?T seg] under_not_ancestor [of ?T] by (simp add: fs_is_dir_def l3 l2)
  ultimately obtain w4 where w4: "write_all_segments kNone ?T (segments_of (ps_log s)) w3 = (Inr (), w4)"
    "fs_quiet w4" "fs_is_dir ?T w4"
    using write_all_segments_quiet [OF q3 refl, of d "segments_of (ps_log s)"] storableD(2) [OF s]
    by (auto simp flip: set_concat)
  then have d4: "WriteSegments kNone ?T (ps_log s) w3 = (Inr (), w4)"
    by (simp add: WriteSegments_def segments_of_def quiet_sync)
  have ok3: "storage_ok d w3"
    using create_prepares [OF d3] remove_tmp_prepares [OF d2] create_prepares [OF d1 ok] prepares_ok by blast
  from write_all_segments_effect [OF w4(1) refl ok3 segments_keys(1) [OF storableD(1) [OF s]]]
  have ok4: "storage_ok d w4" by simp
  have dir: "fs_is_dir d w4"
    using fs_wf_above [OF storage_okD(2) [OF ok4], of ?T d] w4(3) o(3) by (simp add: fs_is_dir_def)
  have "fs_write ?N (meta_bytes s) w4 = (Inr (), fs_put ?N (FFile (meta_bytes s)) w4)"
    by (rule fs_write_quiet) (use w4(2) dir storage_okD(6) [OF ok4] in \<open>simp_all add: split_last_component\<close>)
  then have "WriteMeta kNone ?N s w4 = (Inr (), fs_put ?N (FFile (meta_bytes s)) w4)"
    using quiet_sync(1) [of "fs_put ?N (FFile (meta_bytes s)) w4" ?N] w4(2)
    by (simp add: WriteMeta_def InjectFailureIfRequested_def fs_exists_def)
  then show ?thesis using d1 d2 d3 d4 w4(2) by (simp add: save_prepare_def storage_paths [OF o(1)])
qed

lemma rename_log_quiet:
  assumes q: "fs_quiet w" and ok: "storage_ok d w" and ex: "fs_exists (d @ CHR ''/'' # a) w"
    and free: "empty_tree (d @ CHR ''/'' # b) w" and ns: "CHR ''/'' \<notin> set a" "CHR ''/'' \<notin> set b"
  shows "fs_rename (d @ CHR ''/'' # a) (d @ CHR ''/'' # b) w
    = (Inr (), fs_move (d @ CHR ''/'' # a) (d @ CHR ''/'' # b) w)"
proof (rule fs_rename_quiet [OF q ex])
  show "fs_lookup (d @ CHR ''/'' # b) w = None" "\<And>q. under (d @ CHR ''/'' # b) q \<Longrightarrow> fs_lookup q w = None"
    using free by (auto simp: empty_tree_iff)
  show "\<not> under (d @ CHR ''/'' # a) (d @ CHR ''/'' # b)" using ns by (simp add: sibling_paths)
  have "fs_is_dir d w"
    using fs_wf_above [OF storage_okD(2) [OF ok], of "d @ CHR ''/'' # a" d] ex storage_okD(3) [OF ok]
    by (simp add: fs_exists_def fs_is_dir_def)
  then show "parent_path (d @ CHR ''/'' # b) = [] \<or> fs_is_dir (parent_path (d @ CHR ''/'' # b)) w"
    using ns by (simp add: split_last_component)
qed

lemma data_dir: "storage_ok d w \<Longrightarrow> fs_lookup (d @ CHR ''/'' # n) w \<noteq> None \<Longrightarrow> fs_is_dir d w"
  using fs_wf_above [OF storage_okD(2), of d w "d @ CHR ''/'' # n" d] storage_okD(3) [of d w]
  by (simp add: fs_is_dir_def)

lemma swap_quiet:
  fixes d defines "L \<equiv> d @ CHR ''/'' # ''log''" and "T \<equiv> d @ CHR ''/'' # ''log.tmp''"
    and "B \<equiv> d @ CHR ''/'' # ''log.bak''"
  assumes q: "fs_quiet w" and ok: "storage_ok d w" and held: "holds_log T l w" and none: "empty_tree B w"
  shows "\<exists>w'. swap_directories kNone T L B w = (Inr (), w') \<and> fs_quiet w'"
proof -
  define x where "x = (if fs_exists L w
    then on_error (\<lambda>ec. ''rename old log dir to backup failed: '' @ ec) (fs_rename L B w) else (Inr (), w))"
  have "\<exists>w1. x = (Inr (), w1) \<and> fs_quiet w1"
    using rename_log_quiet [OF q ok _ none [unfolded B_def], of "''log''"] q
    by (cases "fs_exists L w") (simp_all add: x_def L_def B_def)
  then obtain w1 where w1: "x = (Inr (), w1)" "fs_quiet w1" by blast
  from swap_aside [OF w1(1) [unfolded x_def L_def B_def] ok held [unfolded T_def] none [unfolded B_def]]
  have s1: "storage_ok d w1" "empty_tree L w1" "holds_log T l w1" by (simp_all add: L_def T_def)
  have "fs_exists T w1" using s1(3) by (simp add: holds_log_def fs_exists_def)
  with rename_log_quiet [OF w1(2) s1(1), of "''log.tmp''" "''log''"] s1(2)
  have "fs_rename T L w1 = (Inr (), fs_move T L w1)" by (simp add: T_def L_def)
  then have "swap_directories kNone T L B w = (Inr (), fs_move T L w1)"
    unfolding swap_directories_def x_def [symmetric] w1(1) by (simp add: InjectFailureIfRequested_def)
  with w1(2) show ?thesis by simp
qed

lemma ReplaceDirectory_quiet:
  fixes d defines "L \<equiv> d @ CHR ''/'' # ''log''" and "T \<equiv> d @ CHR ''/'' # ''log.tmp''"
    and "B \<equiv> d @ CHR ''/'' # ''log.bak''"
  assumes q: "fs_quiet w" and ok: "storage_ok d w" and held: "holds_log T l w"
  shows "\<exists>w'. ReplaceDirectory kNone T L B w = (Inr (), w') \<and> fs_quiet w'"
proof -
  define w1 where "w1 = fs_drop (\<lambda>q. q = B \<or> under B q) w"
  have r1: "fs_remove_all B w = (Inr (), w1)" unfolding w1_def by (rule fs_remove_all_quiet [OF q])
  have q1: "fs_quiet w1" using q by (simp add: w1_def)
  from backup_gone [OF r1 [unfolded B_def] ok, of l] remove_backup [OF r1 [unfolded B_def] ok] held
  have s1: "storage_ok d w1" "holds_log T l w1" "empty_tree B w1" by (simp_all add: T_def B_def)
  from swap_quiet [OF q1 s1(1) s1(2) [unfolded T_def] s1(3) [unfolded B_def]]
  obtain w2 where w2: "swap_directories kNone T L B w1 = (Inr (), w2)" "fs_quiet w2"
    by (auto simp: L_def T_def B_def)
  from swap_effect [OF w2(1) [unfolded L_def T_def B_def] s1(1) s1(2) [unfolded T_def] s1(3) [unfolded B_def]]
  have s2: "storage_ok d w2" "fs_is_dir d w2" using data_dir [of d w2 "''log''"] by (auto simp: holds_log_def)
  have par: "parent_path L = d" by (simp add: L_def split_last_component)
  have "sync_parent (parent_path L) w2 = (Inr (), w2)" using s2 w2(2) by (simp add: quiet_sync par)
  moreover have "fs_remove_all B w2 = (Inr (), fs_drop (\<lambda>q. q = B \<or> under B q) w2)"
    by (rule fs_remove_all_quiet [OF w2(2)])
  moreover have "fs_quiet (snd (sync_parent (parent_path L) (fs_drop (\<lambda>q. q = B \<or> under B q) w2)))"
    by (rule quiet_ops(8)) (simp add: w2(2))
  ultimately show ?thesis using r1 w2(1)
    by (simp add: ReplaceDirectory_def InjectFailureIfRequested_def)
qed

lemma ReplaceFile_quiet:
  fixes d defines "M \<equiv> d @ CHR ''/'' # ''meta.bin''" and "N \<equiv> d @ CHR ''/'' # ''meta.bin.tmp''"
  assumes q: "fs_quiet w" and ok: "storage_ok d w" and ex: "fs_exists N w"
  shows "\<exists>w'. ReplaceFile kNone N M w = (Inr (), w') \<and> fs_quiet w'"
proof -
  define w1 where "w1 = (if fs_exists M w then fs_drop (\<lambda>q. q = M) w else w)"
  have nd: "\<not> fs_is_dir M w" using storage_okD(5) [OF ok] by (simp add: M_def)
  have r1: "fs_exists M w \<Longrightarrow> fs_remove M w = (Inr (), w1)" using fs_remove_quiet [OF q nd] by (simp add: w1_def)
  have q1: "fs_quiet w1" using q by (simp add: w1_def)
  have l1: "fs_lookup x w1 = (if x = M then None else fs_lookup x w)" for x
    by (auto simp: w1_def fs_lookup_drop fs_exists_def)
  have ok1: "storage_ok d w1"
    using r1 remove_effect [OF _ ok, of M "Inr ()" w1] ok by (cases "fs_exists M w") (auto simp: w1_def M_def)
  have "\<not> fs_is_dir M w1" by (simp add: fs_is_dir_def l1)
  then have empty: "empty_tree M w1"
    using fs_wf_below [OF storage_okD(2) [OF ok1], of M] l1 by (auto simp: empty_tree_iff M_def)
  have ren: "fs_rename N M w1 = (Inr (), fs_move N M w1)"
    unfolding N_def M_def
    by (rule rename_log_quiet [OF q1 ok1]) (use ex empty l1 in \<open>simp_all add: fs_exists_def M_def N_def\<close>)
  have "fs_is_dir d (fs_move N M w1)"
  proof -
    from rename_meta [OF ren [unfolded M_def N_def] ok1]
    have "storage_ok d (fs_move N M w1)" "fs_lookup M (fs_move N M w1) = fs_lookup N w1" by (simp_all add: M_def N_def)
    then show ?thesis using data_dir [of d "fs_move N M w1" "''meta.bin''"] ex l1
      by (simp add: fs_exists_def M_def N_def)
  qed
  moreover have "parent_path M = d" by (simp add: M_def split_last_component)
  ultimately have "ReplaceFile kNone N M w = (Inr (), fs_move N M w1)"
    using r1 q1 ren by (cases "fs_exists M w") (simp_all add: ReplaceFile_def InjectFailureIfRequested_def quiet_sync w1_def)
  with q1 show ?thesis by simp
qed

lemma Save_quiet:
  assumes q: "fs_quiet w" and ok: "storage_ok d w" and s: "storable s"
  shows "\<exists>w'. Storage_Save kNone d s w = (Inr (), w')"
proof -
  note p = storage_paths [OF storage_okD(1) [OF ok]]
  from save_prepare_quiet [OF q ok s] obtain w1 where w1: "save_prepare kNone d s w = (Inr (), w1)" "fs_quiet w1" by blast
  from save_prepare_effect [OF w1(1) ok storableD(1) [OF s]]
  have s1: "storage_ok d w1" "holds_log (d @ CHR ''/'' # ''log.tmp'') (ps_log s) w1"
    "fs_lookup (d @ CHR ''/'' # ''meta.bin.tmp'') w1 = Some (FFile (meta_bytes s))" by (simp_all add: prepares_def)
  from ReplaceDirectory_quiet [OF w1(2) s1(1,2)] obtain w2 where w2:
    "ReplaceDirectory kNone (d @ CHR ''/'' # ''log.tmp'') (d @ CHR ''/'' # ''log'') (d @ CHR ''/'' # ''log.bak'') w1 = (Inr (), w2)"
    "fs_quiet w2" by blast
  from ReplaceDirectory_effect [OF w2(1) s1(1,2)] beside_log_names [of "''meta.bin.tmp''" d] s1(3)
  have s2: "storage_ok d w2" "fs_exists (d @ CHR ''/'' # ''meta.bin.tmp'') w2" by (simp_all add: fs_exists_def)
  from ReplaceFile_quiet [OF w2(2) s2] obtain w3 where
    "ReplaceFile kNone (d @ CHR ''/'' # ''meta.bin.tmp'') (d @ CHR ''/'' # ''meta.bin'') w2 = (Inr (), w3)" by blast
  with w1 w2 show ?thesis by (simp add: Storage_Save_def p)
qed

section \<open>Crashes at a chosen point\<close>

text \<open>
  \<open>calm_io f\<close>: on a world without faults, the run of \<open>f\<close> is the same when enough entries of the fault list
  let it pass, and it leaves the rest of the list to what follows.
\<close>

definition calm_io :: "(fs \<Rightarrow> 'a \<times> fs) \<Rightarrow> bool" where
  "calm_io f \<longleftrightarrow> (\<forall>w. fs_quiet w \<longrightarrow> fs_quiet (snd (f w)) \<and>
     (\<exists>k. \<forall>r. f (w\<lparr>fs_faults := replicate k NoFault @ r\<rparr>) = (fst (f w), (snd (f w))\<lparr>fs_faults := r\<rparr>)))"

lemma calm_ioI:
  assumes "\<And>w. fs_quiet w \<Longrightarrow> fs_quiet (snd (f w))"
    and "\<And>w. fs_quiet w \<Longrightarrow> \<exists>k. \<forall>r. f (w\<lparr>fs_faults := replicate k NoFault @ r\<rparr>) = (fst (f w), (snd (f w))\<lparr>fs_faults := r\<rparr>)"
  shows "calm_io f"
  using assms unfolding calm_io_def by blast

lemma calmE:
  assumes "calm_io f" and "fs_quiet w"
  obtains k where "\<And>r. f (w\<lparr>fs_faults := replicate k NoFault @ r\<rparr>) = (fst (f w), (snd (f w))\<lparr>fs_faults := r\<rparr>)"
    and "fs_quiet (snd (f w))"
  using assms unfolding calm_io_def by blast

named_theorems calm_rules

lemma calm_pure [calm_rules]: "calm_io (\<lambda>w. (x, w))"
  by (rule calm_ioI) (auto intro: exI [of _ 0])

lemma calm_case [calm_rules]:
  assumes "calm_io f" and "\<And>e. calm_io (g e)" and "\<And>a. calm_io (h a)"
  shows "calm_io (\<lambda>w. case f w of (Inl e, w1) \<Rightarrow> g e w1 | (Inr a, w1) \<Rightarrow> h a w1)"
proof (rule calm_ioI)
  fix w assume q: "fs_quiet w"
  from calmE [OF assms(1) q] obtain k where
    k: "\<And>r. f (w\<lparr>fs_faults := replicate k NoFault @ r\<rparr>) = (fst (f w), (snd (f w))\<lparr>fs_faults := r\<rparr>)"
    and qf: "fs_quiet (snd (f w))" by blast
  define c where "c = (case fst (f w) of Inl e \<Rightarrow> g e | Inr a \<Rightarrow> h a)"
  have cc: "calm_io c" using assms(2,3) by (simp add: c_def split: sum.split)
  have eq: "(case (fst (f w), v) of (Inl e, w1) \<Rightarrow> g e w1 | (Inr a, w1) \<Rightarrow> h a w1) = c v" for v
    by (simp add: c_def split: sum.split)
  then have fw: "(case f w of (Inl e, w1) \<Rightarrow> g e w1 | (Inr a, w1) \<Rightarrow> h a w1) = c (snd (f w))"
    by (metis prod.collapse)
  from calmE [OF cc qf] obtain k2 where
    k2: "\<And>r. c ((snd (f w))\<lparr>fs_faults := replicate k2 NoFault @ r\<rparr>)
      = (fst (c (snd (f w))), (snd (c (snd (f w))))\<lparr>fs_faults := r\<rparr>)"
    and qc: "fs_quiet (snd (c (snd (f w))))" by blast
  show "fs_quiet (snd (case f w of (Inl e, w1) \<Rightarrow> g e w1 | (Inr a, w1) \<Rightarrow> h a w1))" using qc by (simp add: fw)
  show "\<exists>k. \<forall>r. (case f (w\<lparr>fs_faults := replicate k NoFault @ r\<rparr>) of (Inl e, w1) \<Rightarrow> g e w1 | (Inr a, w1) \<Rightarrow> h a w1)
    = (fst (case f w of (Inl e, w1) \<Rightarrow> g e w1 | (Inr a, w1) \<Rightarrow> h a w1),
       (snd (case f w of (Inl e, w1) \<Rightarrow> g e w1 | (Inr a, w1) \<Rightarrow> h a w1))\<lparr>fs_faults := r\<rparr>)"
    by (intro exI [of _ "k + k2"] allI) (simp only: replicate_add append_assoc k eq fw k2)
qed

lemma calm_io_then [calm_rules]: "calm_io f \<Longrightarrow> (\<And>a. calm_io (g a)) \<Longrightarrow> calm_io (\<lambda>w. io_then (f w) g)"
  unfolding io_then_def by (rule calm_case) (auto intro: calm_pure)

lemma calm_on_error [calm_rules]: "calm_io f \<Longrightarrow> calm_io (\<lambda>w. on_error g (f w))"
  unfolding on_error_def by (rule calm_case) (auto intro: calm_pure)

lemma calm_snd [calm_rules]: "calm_io f \<Longrightarrow> calm_io (\<lambda>w. (x, snd (f w)))"
  unfolding calm_io_def by (metis prod.sel)

lemma calm_if:
  assumes "\<And>w r. b (w\<lparr>fs_faults := r\<rparr>) = b w" and "calm_io f" and "calm_io g"
  shows "calm_io (\<lambda>w. if b w then f w else g w)"
  using assms(2,3) unfolding calm_io_def by (simp add: assms(1))

lemma faults_irrelevant [simp]:
  "fs_lookup q (w\<lparr>fs_faults := r\<rparr>) = fs_lookup q w" "fs_exists q (w\<lparr>fs_faults := r\<rparr>) = fs_exists q w"
  "fs_is_dir q (w\<lparr>fs_faults := r\<rparr>) = fs_is_dir q w"
  "fs_put q e (w\<lparr>fs_faults := r\<rparr>) = (fs_put q e w)\<lparr>fs_faults := r\<rparr>"
  "fs_drop P (w\<lparr>fs_faults := r\<rparr>) = (fs_drop P w)\<lparr>fs_faults := r\<rparr>"
  by (simp_all add: fs_lookup_def fs_exists_def fs_is_dir_def fs_put_def fs_drop_def)

lemma fold_put_faults [simp]:
  "fold (\<lambda>a. fs_put a FDir) as (w\<lparr>fs_faults := r\<rparr>) = (fold (\<lambda>a. fs_put a FDir) as w)\<lparr>fs_faults := r\<rparr>"
  by (induction as arbitrary: w) simp_all

lemma fs_io_pass [simp]: "fs_quiet w \<Longrightarrow> fs_io (w\<lparr>fs_faults := NoFault # r\<rparr>) = (None, w\<lparr>fs_faults := r\<rparr>)"
  by (simp add: fs_quiet_def fs_io_def)

lemma calm_exists [calm_rules]:
  "calm_io f \<Longrightarrow> calm_io g \<Longrightarrow> calm_io (\<lambda>w. if fs_exists p w then f w else g w)"
  by (rule calm_if) simp_all

lemma calm_restore [calm_rules]:
  "calm_io f \<Longrightarrow> calm_io (\<lambda>w. (x, if fs_exists p w \<and> \<not> fs_exists q w then snd (f w) else w))"
  using calm_if [of "\<lambda>w. fs_exists p w \<and> \<not> fs_exists q w" "\<lambda>w. (x, snd (f w))" "\<lambda>w. (x, w)"]
  by (simp add: calm_snd calm_pure if_distrib cong: if_cong)

lemma calm_ops [calm_rules]:
  "calm_io (fs_create_directories p)" "calm_io (fs_remove_all p)" "calm_io (fs_remove p)" "calm_io (fs_rename p q)"
  "calm_io (SyncFile p)" "calm_io (SyncDirectory p)"
  by (auto intro!: calm_ioI quiet_ops exI [of _ 1] simp: fs_create_directories_def fs_no_file_iff fs_remove_all_def
      fs_remove_def fs_rename_def SyncFile_def SyncDirectory_def)

lemma calm_sync_parent [calm_rules]: "calm_io (sync_parent p)"
  using calm_ops(6) [of p] by (cases "p = []") (simp_all add: sync_parent_def [abs_def] calm_pure)

lemma calm_write [calm_rules]: "calm_io (fs_write p c)"
proof (rule calm_ioI)
  fix w assume q: "fs_quiet w"
  then show "fs_quiet (snd (fs_write p c w))" by (rule quiet_ops)
  show "\<exists>k. \<forall>r. fs_write p c (w\<lparr>fs_faults := replicate k NoFault @ r\<rparr>)
    = (fst (fs_write p c w), (snd (fs_write p c w))\<lparr>fs_faults := r\<rparr>)"
  proof (cases "fs_is_dir p w \<or> parent_path p \<noteq> [] \<and> \<not> fs_is_dir (parent_path p) w")
    case True
    with q show ?thesis by (intro exI [of _ 1]) (simp add: fs_write_def)
  next
    case False
    have "replicate 2 NoFault @ r = NoFault # NoFault # r" for r by (simp add: numeral_2_eq_2)
    with False q show ?thesis by (intro exI [of _ 2]) (auto simp: fs_write_def)
  qed
qed

lemma calm_inject [calm_rules]: "calm_io (\<lambda>w. InjectFailureIfRequested fp k a b c e g w)"
  unfolding InjectFailureIfRequested_def by (cases "fp = k") (simp_all add: calm_pure)

lemma calm_segment [calm_rules]: "calm_io (write_segment kNone T fin seg)"
  unfolding write_segment_def [abs_def] Let_def FlushAndSyncSegmentFile_def
  by (cases "length (takeWhile (\<lambda>r. length (lr_command r) < 2 ^ 32) seg) < length seg")
    (simp_all add: calm_rules)

lemma calm_segments [calm_rules]: "calm_io (write_all_segments kNone T segs)"
  by (induction segs) (simp_all add: calm_rules fun_eq_iff [symmetric] cong del: if_weak_cong)

lemma calm_prepare: "calm_io (save_prepare kNone d s)"
  unfolding save_prepare_def [abs_def] WriteSegments_def WriteMeta_def by (intro calm_rules)

lemma calm_publish_log: "calm_io (ReplaceDirectory kNone a b c)"
  unfolding ReplaceDirectory_def [abs_def] swap_directories_def by (intro calm_rules)

text \<open>
  A save from a given world can be stopped after the log directory is published and before the meta
  file is touched, or after the old meta file is removed and before the new one has its name.
\<close>

lemma Save_stopped:
  assumes q: "fs_quiet w" and ok: "storage_ok d w" and s: "storable s"
  shows "\<exists>k w2. holds_log (log_dir_of d) (ps_log s) w2 \<and> storage_ok d w2 \<and> fs_quiet w2 \<and>
    fs_lookup (meta_path_of d) w2 = fs_lookup (meta_path_of d) w \<and>
    fs_lookup (legacy_path_of d) w2 = fs_lookup (legacy_path_of d) w \<and>
    (\<forall>r. Storage_Save kNone d s (w\<lparr>fs_faults := replicate k NoFault @ r\<rparr>) =
       io_then (ReplaceFile kNone (meta_tmp_path_of d) (meta_path_of d) (w2\<lparr>fs_faults := r\<rparr>)) (\<lambda>_ w.
         (Inr (), snd (fs_remove (path_append d ''raft_state.bin.tmp'') (snd (fs_remove (legacy_path_of d) w))))))"
proof -
  note p = storage_paths [OF storage_okD(1) [OF ok]]
  from save_prepare_quiet [OF q ok s] obtain w1 where w1: "save_prepare kNone d s w = (Inr (), w1)" "fs_quiet w1" by blast
  from save_prepare_effect [OF w1(1) ok storableD(1) [OF s]]
  have s1: "storage_ok d w1" "holds_log (d @ CHR ''/'' # ''log.tmp'') (ps_log s) w1"
    and same: "\<And>q. outside d q \<Longrightarrow> fs_lookup q w1 = fs_lookup q w" by (simp_all add: prepares_def)
  from ReplaceDirectory_quiet [OF w1(2) s1] obtain w2 where w2:
    "ReplaceDirectory kNone (log_tmp_dir_of d) (log_dir_of d) (log_backup_dir_of d) w1 = (Inr (), w2)" "fs_quiet w2"
    by (auto simp: p)
  note eff = ReplaceDirectory_effect [OF w2(1) [unfolded p] s1]
  from calmE [OF calm_prepare q, of d s] obtain k1 where
    k1: "\<And>r. save_prepare kNone d s (w\<lparr>fs_faults := replicate k1 NoFault @ r\<rparr>) = (Inr (), w1\<lparr>fs_faults := r\<rparr>)"
    by (metis w1(1) fst_conv snd_conv)
  from calmE [OF calm_publish_log w1(2), of "log_tmp_dir_of d" "log_dir_of d" "log_backup_dir_of d"] obtain k2 where
    k2: "\<And>r. ReplaceDirectory kNone (log_tmp_dir_of d) (log_dir_of d) (log_backup_dir_of d)
        (w1\<lparr>fs_faults := replicate k2 NoFault @ r\<rparr>) = (Inr (), w2\<lparr>fs_faults := r\<rparr>)"
    by (metis w2(1) fst_conv snd_conv)
  have "Storage_Save kNone d s (w\<lparr>fs_faults := replicate (k1 + k2) NoFault @ r\<rparr>) =
       io_then (ReplaceFile kNone (meta_tmp_path_of d) (meta_path_of d) (w2\<lparr>fs_faults := r\<rparr>)) (\<lambda>_ w.
         (Inr (), snd (fs_remove (path_append d ''raft_state.bin.tmp'') (snd (fs_remove (legacy_path_of d) w)))))" for r
    by (simp add: Storage_Save_def replicate_add k1 k2)
  moreover have "outside d (d @ CHR ''/'' # n)" "beside_log d (d @ CHR ''/'' # n)"
    if "n = ''meta.bin'' \<or> n = ''raft_state.bin''" for n
    using that beside_log_names [of n d] sibling_paths(1) [of "''log.tmp''" n d] by (auto simp: outside_def)
  ultimately show ?thesis using eff same w2(2) by (intro exI [of _ "k1 + k2"] exI [of _ w2]) (simp add: p)
qed

lemma crash_points:
  assumes q: "fs_quiet w" and M: "fs_lookup M w = Some (FFile c)"
  shows "\<exists>e. ReplaceFile kNone N M (w\<lparr>fs_faults := [Crash 0]\<rparr>) = (Inl e, w\<lparr>fs_faults := [], fs_crashed := True\<rparr>)"
    and "\<exists>e. ReplaceFile kNone N M (w\<lparr>fs_faults := [NoFault, Crash 0]\<rparr>)
      = (Inl e, (fs_drop (\<lambda>q. q = M) w)\<lparr>fs_faults := [], fs_crashed := True\<rparr>)"
proof -
  have nc: "\<not> fs_crashed w" using q by (simp add: fs_quiet_def)
  have ex: "fs_exists M w" "\<not> fs_is_dir M w" using M by (simp_all add: fs_exists_def fs_is_dir_def)
  have "fs_remove M (w\<lparr>fs_faults := [Crash 0]\<rparr>) = (Inl ec_message, w\<lparr>fs_faults := [], fs_crashed := True\<rparr>)"
    using nc by (simp add: fs_remove_def fs_io_def)
  then show "\<exists>e. ReplaceFile kNone N M (w\<lparr>fs_faults := [Crash 0]\<rparr>) = (Inl e, w\<lparr>fs_faults := [], fs_crashed := True\<rparr>)"
    using ex by (simp add: ReplaceFile_def)
  have "fs_remove M (w\<lparr>fs_faults := [NoFault, Crash 0]\<rparr>) = (Inr (), (fs_drop (\<lambda>q. q = M) w)\<lparr>fs_faults := [Crash 0]\<rparr>)"
    using q ex by (simp add: fs_remove_def)
  moreover have "fs_rename N M ((fs_drop (\<lambda>q. q = M) w)\<lparr>fs_faults := [Crash 0]\<rparr>)
      = (Inl ec_message, (fs_drop (\<lambda>q. q = M) w)\<lparr>fs_faults := [], fs_crashed := True\<rparr>)"
    using nc by (simp add: fs_rename_def fs_io_def fs_drop_def Let_def)
  ultimately show "\<exists>e. ReplaceFile kNone N M (w\<lparr>fs_faults := [NoFault, Crash 0]\<rparr>)
      = (Inl e, (fs_drop (\<lambda>q. q = M) w)\<lparr>fs_faults := [], fs_crashed := True\<rparr>)"
    using ex by (simp add: ReplaceFile_def)
qed

lemma Save_crash:
  assumes q: "fs_quiet w" and old: "disk_holds d (Some s0) w" and s: "storable s"
    and leg: "fs_lookup (legacy_path_of d) w = None"
  shows "\<exists>faults. fst (Storage_Load d (fs_restart (snd (Storage_Save kNone d s (w\<lparr>fs_faults := faults\<rparr>)))))
      = Inr (initial_state, False)"
    and "ps_log s0 \<noteq> [] \<Longrightarrow> \<exists>faults e. fst (Storage_Load d (fs_restart (snd (Storage_Save kNone d s (w\<lparr>fs_faults := faults\<rparr>)))))
      = (if length (bounded_log s0 (ps_log s)) = length (ps_log s0)
         then Inr (ClampRecoveredHardState (s0\<lparr>ps_log := bounded_log s0 (ps_log s)\<rparr>), True) else Inl e)"
proof -
  let ?M = "meta_path_of d" and ?N = "meta_tmp_path_of d"
  have ok: "storage_ok d w" and s0: "storable s0" and M: "fs_lookup ?M w = Some (FFile (meta_bytes s0))"
    using old by simp_all
  from Save_stopped [OF q ok s] obtain k w2 where w2: "holds_log (log_dir_of d) (ps_log s) w2" "storage_ok d w2"
      "fs_quiet w2" "fs_lookup ?M w2 = Some (FFile (meta_bytes s0))" "fs_lookup (legacy_path_of d) w2 = None"
    and run: "\<And>r. Storage_Save kNone d s (w\<lparr>fs_faults := replicate k NoFault @ r\<rparr>) =
       io_then (ReplaceFile kNone ?N ?M (w2\<lparr>fs_faults := r\<rparr>)) (\<lambda>_ w.
         (Inr (), snd (fs_remove (path_append d ''raft_state.bin.tmp'') (snd (fs_remove (legacy_path_of d) w)))))"
    unfolding M leg by blast
  from crash_points [OF w2(3,4), of ?N] obtain e1 e2 where
    c1: "ReplaceFile kNone ?N ?M (w2\<lparr>fs_faults := [Crash 0]\<rparr>) = (Inl e1, w2\<lparr>fs_faults := [], fs_crashed := True\<rparr>)" and
    c2: "ReplaceFile kNone ?N ?M (w2\<lparr>fs_faults := [NoFault, Crash 0]\<rparr>)
      = (Inl e2, (fs_drop (\<lambda>q. q = ?M) w2)\<lparr>fs_faults := [], fs_crashed := True\<rparr>)" by blast
  have "fst (Storage_Load d (fs_drop (\<lambda>q. q = ?M) w2)) = Inr (initial_state, False)"
    using w2(5) by (simp add: Storage_Load_def fs_exists_def fs_lookup_drop)
  moreover have "fs_restart ((fs_drop (\<lambda>q. q = ?M) w2)\<lparr>fs_faults := [], fs_crashed := True\<rparr>) = fs_drop (\<lambda>q. q = ?M) w2"
    using w2(3) by (simp add: fs_restart_def fs_drop_def fs_quiet_def)
  ultimately show "\<exists>faults. fst (Storage_Load d (fs_restart (snd (Storage_Save kNone d s (w\<lparr>fs_faults := faults\<rparr>)))))
      = Inr (initial_state, False)"
    by (intro exI [of _ "replicate k NoFault @ [NoFault, Crash 0]"]) (simp add: run c2)
  assume ne: "ps_log s0 \<noteq> []"
  have "fs_restart (w2\<lparr>fs_faults := [], fs_crashed := True\<rparr>) = w2"
    using w2(3) by (simp add: fs_restart_def fs_quiet_def)
  moreover from Load_held [OF storage_okD(2,1) [OF w2(2)] w2(4) s0 disjI2 [OF w2(1)] storableD [OF s]]
  obtain e where "Storage_Load d w2 = (if length (bounded_log s0 (ps_log s)) = length (ps_log s0)
     then Inr (ClampRecoveredHardState (s0\<lparr>ps_log := bounded_log s0 (ps_log s)\<rparr>), True) else Inl e, w2)"
    by (simp only: ne simp_thms if_False) blast
  ultimately show "\<exists>faults e. fst (Storage_Load d (fs_restart (snd (Storage_Save kNone d s (w\<lparr>fs_faults := faults\<rparr>)))))
      = (if length (bounded_log s0 (ps_log s)) = length (ps_log s0)
         then Inr (ClampRecoveredHardState (s0\<lparr>ps_log := bounded_log s0 (ps_log s)\<rparr>), True) else Inl e)"
    by (intro exI [of _ "replicate k NoFault @ [Crash 0]"] exI [of _ e]) (simp add: run c1)
qed

end
