(* ===== verification/NodeCore.thy ===== *)
theory NodeCore
  imports RaftLog
begin

text \<open>
  The operations of \<^verbatim>\<open>RaftNode\<close> that the message handlers are built from (\<^verbatim>\<open>raft_node.cpp\<close>): timers,
  metrics, persistence of the hard state and the log, role changes and the local append. Every
  function here runs with the node's mutex held, so one call is one atomic state change.
\<close>

section \<open>Timers\<close>

definition cancel_election_timer :: "timer_state \<Rightarrow> timer_state" where
  "cancel_election_timer t =
     (let t1 = t\<lparr>election_timer_generation := election_timer_generation t + 1\<rparr> in
      case election_timer_id t1 of
        None \<Rightarrow> t1
      | Some tid \<Rightarrow> t1\<lparr>scheduler := snd (Timer_Cancel tid (scheduler t1)),
                      election_timer_id := None\<rparr>)"

text \<open>
  \<^verbatim>\<open>uniform_int_distribution\<close> draws from the closed interval of the two bounds; the draw itself is
  the next value of the generator, which the environment supplies.
\<close>

definition RandomElectionTimeoutLocked :: "NodeConfig \<Rightarrow> timer_state \<Rightarrow> int \<times> timer_state" where
  "RandomElectionTimeoutLocked cfg t =
     (let min_ms = election_timeout_min cfg; max_ms = election_timeout_max cfg
      in (min_ms + rng_draws t (rng_pos t) mod (max_ms - min_ms + 1), t\<lparr>rng_pos := Suc (rng_pos t)\<rparr>))"

definition reset_election_timer ::
    "NodeConfig \<Rightarrow> bool \<Rightarrow> Role \<Rightarrow> timer_state \<Rightarrow> timer_state" where
  "reset_election_timer cfg run rl t =
     (let t1 = cancel_election_timer t in
      if \<not> run \<or> rl = kLeader then t1
      else let (timeout, t2) = RandomElectionTimeoutLocked cfg t1;
               (tid, s) = ScheduleAfter (clock t2) timeout
                  (ElectionTimeoutTask (election_timer_generation t2)) (scheduler t2)
           in t2\<lparr>scheduler := s, election_timer_id := Some tid\<rparr>)"

definition cancel_heartbeat_timer :: "timer_state \<Rightarrow> timer_state" where
  "cancel_heartbeat_timer t =
     (case heartbeat_timer_id t of
        None \<Rightarrow> t
      | Some tid \<Rightarrow> t\<lparr>scheduler := snd (Timer_Cancel tid (scheduler t)),
                     heartbeat_timer_id := None\<rparr>)"

definition reset_heartbeat_timer :: "NodeConfig \<Rightarrow> Role \<Rightarrow> timer_state \<Rightarrow> timer_state" where
  "reset_heartbeat_timer cfg rl t =
     (let t1 = cancel_heartbeat_timer t in
      if rl \<noteq> kLeader then t1
      else let (tid, s) = ScheduleAfter (clock t1) (heartbeat_interval cfg) HeartbeatTask (scheduler t1)
           in t1\<lparr>scheduler := s, heartbeat_timer_id := Some tid\<rparr>)"

definition cancel_snapshot_timer :: "timer_state \<Rightarrow> timer_state" where
  "cancel_snapshot_timer t =
     (case snapshot_timer_id t of
        None \<Rightarrow> t
      | Some tid \<Rightarrow> t\<lparr>scheduler := snd (Timer_Cancel tid (scheduler t)),
                     snapshot_timer_id := None\<rparr>)"

definition reset_snapshot_timer :: "snapshotConfig \<Rightarrow> timer_state \<Rightarrow> timer_state" where
  "reset_snapshot_timer scfg t =
     (let t1 = cancel_snapshot_timer t in
      if \<not> snap_enabled scfg \<or> snapshot_interval scfg \<le> 0 then t1
      else let (tid, s) = ScheduleAfter (clock t1) (snapshot_interval scfg) SnapshotTimerTask
                            (scheduler t1)
           in t1\<lparr>scheduler := s, snapshot_timer_id := Some tid\<rparr>)"

definition CancelElectionTimerLocked :: "('w, 'm) raft_node \<Rightarrow> ('w, 'm) raft_node" where
  [node_defs]: "CancelElectionTimerLocked n = n\<lparr>timers := cancel_election_timer (timers n)\<rparr>"

definition ResetElectionTimerLocked :: "('w, 'm) raft_node \<Rightarrow> ('w, 'm) raft_node" where
  [node_defs]: "ResetElectionTimerLocked n =
     n\<lparr>timers := reset_election_timer (config n) (running n) (role n) (timers n)\<rparr>"

definition ResetHeartbeatTimerLocked :: "('w, 'm) raft_node \<Rightarrow> ('w, 'm) raft_node" where
  [node_defs]: "ResetHeartbeatTimerLocked n =
     n\<lparr>timers := reset_heartbeat_timer (config n) (role n) (timers n)\<rparr>"

definition ResetSnapshotTimerLocked :: "('w, 'm) raft_node \<Rightarrow> ('w, 'm) raft_node" where
  [node_defs]: "ResetSnapshotTimerLocked n =
     n\<lparr>timers := reset_snapshot_timer (snapshot_config n) (timers n)\<rparr>"

section \<open>Metrics\<close>

definition RpcKindName :: "RpcKind \<Rightarrow> string" where
  "RpcKindName kind = (case kind of
      kRequestVote \<Rightarrow> ''request_vote'' | kAppendEntries \<Rightarrow> ''append_entries''
    | kInstallSnapshot \<Rightarrow> ''install_snapshot'' | kKvPut \<Rightarrow> ''kv_put'' | kKvDelete \<Rightarrow> ''kv_delete''
    | kKvGet \<Rightarrow> ''kv_get'' | kKvStatus \<Rightarrow> ''kv_status'' | kKvHealth \<Rightarrow> ''kv_health''
    | kKvMetrics \<Rightarrow> ''kv_metrics'')"

definition RpcKind_index :: "RpcKind \<Rightarrow> nat" where
  "RpcKind_index kind = (case kind of
      kRequestVote \<Rightarrow> 0 | kAppendEntries \<Rightarrow> 1 | kInstallSnapshot \<Rightarrow> 2 | kKvPut \<Rightarrow> 3
    | kKvDelete \<Rightarrow> 4 | kKvGet \<Rightarrow> 5 | kKvStatus \<Rightarrow> 6 | kKvHealth \<Rightarrow> 7 | kKvMetrics \<Rightarrow> 8)"

definition BuildRpcMetricStateTemplate :: "RpcMetricState list" where
  "BuildRpcMetricStateTemplate =
     map (\<lambda>kind. \<lparr>metric_name = RpcKindName kind, success_count = 0, failure_count = 0,
                 total_latency_us = 0, max_latency_us = 0\<rparr>)
       [kRequestVote, kAppendEntries, kInstallSnapshot, kKvPut, kKvDelete, kKvGet, kKvStatus,
        kKvHealth, kKvMetrics]"

definition metrics_init :: metrics_state where
  "metrics_init = \<lparr>propose_success_count = 0, propose_failure_count = 0, election_count = 0,
     leader_change_count = 0, snapshot_success_count = 0, snapshot_failure_count = 0,
     storage_persist_failure_count = 0, rpc_metrics = BuildRpcMetricStateTemplate\<rparr>"

definition MaybeRecordLeaderChangeLocked :: "int \<Rightarrow> int \<Rightarrow> ('w, 'm) raft_node \<Rightarrow> ('w, 'm) raft_node" where
  [node_defs]: "MaybeRecordLeaderChangeLocked old_leader_id new_leader_id n =
     n\<lparr>metrics := (if old_leader_id = new_leader_id \<or> new_leader_id < 0 then metrics n
        else (metrics n)\<lparr>leader_change_count := leader_change_count (metrics n) + 1\<rparr>)\<rparr>"

definition RecordProposeResult :: "bool \<Rightarrow> ('w, 'm) raft_node \<Rightarrow> ('w, 'm) raft_node" where
  [node_defs]: "RecordProposeResult success n =
     n\<lparr>metrics := (if success
        then (metrics n)\<lparr>propose_success_count := propose_success_count (metrics n) + 1\<rparr>
        else (metrics n)\<lparr>propose_failure_count := propose_failure_count (metrics n) + 1\<rparr>)\<rparr>"

definition RecordElectionStarted :: "('w, 'm) raft_node \<Rightarrow> ('w, 'm) raft_node" where
  [node_defs]: "RecordElectionStarted n =
     n\<lparr>metrics := (metrics n)\<lparr>election_count := election_count (metrics n) + 1\<rparr>\<rparr>"

text \<open>Latencies are counted in microseconds; a negative difference counts as zero.\<close>

definition RecordRpcLatency :: "RpcKind \<Rightarrow> bool \<Rightarrow> int \<Rightarrow> ('w, 'm) raft_node \<Rightarrow> ('w, 'm) raft_node" where
  [node_defs]: "RecordRpcLatency kind success latency n =
     n\<lparr>metrics := (metrics n)\<lparr>rpc_metrics :=
        (let i = RpcKind_index kind; m = rpc_metrics (metrics n) ! i;
             latency_us = word_of_int (max 0 latency) :: u64;
             m1 = (if success then m\<lparr>success_count := success_count m + 1\<rparr>
                   else m\<lparr>failure_count := failure_count m + 1\<rparr>)
         in (rpc_metrics (metrics n))[i :=
              m1\<lparr>total_latency_us := total_latency_us m1 + latency_us,
                 max_latency_us := max (max_latency_us m1) latency_us\<rparr>])\<rparr>\<rparr>"

definition RecordSnapshotOutcome :: "bool \<Rightarrow> ('w, 'm) raft_node \<Rightarrow> ('w, 'm) raft_node" where
  [node_defs]: "RecordSnapshotOutcome success n =
     n\<lparr>metrics := (if success
        then (metrics n)\<lparr>snapshot_success_count := snapshot_success_count (metrics n) + 1\<rparr>
        else (metrics n)\<lparr>snapshot_failure_count := snapshot_failure_count (metrics n) + 1\<rparr>)\<rparr>"

definition RecordStoragePersistFailure :: "('w, 'm) raft_node \<Rightarrow> ('w, 'm) raft_node" where
  [node_defs]: "RecordStoragePersistFailure n =
     n\<lparr>metrics := (metrics n)\<lparr>storage_persist_failure_count :=
        storage_persist_failure_count (metrics n) + 1\<rparr>\<rparr>"

section \<open>Persistence\<close>

definition persistent_state :: "('w, 'm) raft_node \<Rightarrow> PersistentRaftState" where
  "persistent_state n = \<lparr>ps_current_term = current_term n, ps_voted_for = voted_for n,
     ps_commit_index = commit_index n, ps_last_applied = last_applied n, ps_log = log n\<rparr>"

text \<open>
  \<^verbatim>\<open>PersistStateLocked\<close> returns the error text, \<open>None\<close> when the save succeeded. \<^verbatim>\<open>storage_\<close> is
  created by the constructor and never reset, so its null test is always false.
\<close>

definition PersistStateLocked ::
    "('w, 'm) interfaces \<Rightarrow> ('w, 'm) raft_node \<Rightarrow> string option \<times> ('w, 'm) raft_node" where
  "PersistStateLocked I n =
     (case storage_Save I (persistent_state n) (disk n) of
        (Inr _, w) \<Rightarrow> (None, n\<lparr>disk := w\<rparr>)
      | (Inl reason, w) \<Rightarrow>
          (Some (if reason = [] then ''persist raft state failed'' else reason),
           RecordStoragePersistFailure (n\<lparr>disk := w\<rparr>)))"

section \<open>Replicator objects\<close>

definition kInitialRetryBackoff :: int where "kInitialRetryBackoff = 20"

definition Replicator_init :: "PeerConfig \<Rightarrow> Replicator" where
  "Replicator_init peer = \<lparr>rep_peer = peer, append_inflight = False, snapshot_inflight = False,
     next_retry_time = 0, retry_backoff = kInitialRetryBackoff, append_rpc_started = 0,
     append_rpc_finished = 0, snapshot_rpc_started = 0, snapshot_rpc_finished = 0,
     transport_failures = 0\<rparr>"

definition GetOrCreateReplicatorLocked :: "PeerConfig \<Rightarrow> ('w, 'm) raft_node \<Rightarrow> ('w, 'm) raft_node" where
  "GetOrCreateReplicatorLocked peer n =
     (case replicators n (peer_id peer) of
        Some _ \<Rightarrow> n
      | None \<Rightarrow> n\<lparr>replicators := (replicators n)(peer_id peer \<mapsto> Replicator_init peer)\<rparr>)"

section \<open>Role changes\<close>

text \<open>The result is whether the hard state, where it changed, reached the storage.\<close>

definition BecomeFollowerLocked ::
    "('w, 'm) interfaces \<Rightarrow> u64 \<Rightarrow> int \<Rightarrow> ('w, 'm) raft_node \<Rightarrow> bool \<times> ('w, 'm) raft_node" where
  "BecomeFollowerLocked I new_term new_leader n =
     (let old_leader_id = leader_id n;
          hard_state_changed = new_term > current_term n;
          n1 = (if hard_state_changed then n\<lparr>current_term := new_term, voted_for := - 1\<rparr> else n);
          n2 = n1\<lparr>role := kFollower, leader_id := new_leader\<rparr>;
          n3 = MaybeRecordLeaderChangeLocked old_leader_id new_leader n2;
          n4 = n3\<lparr>timers := cancel_heartbeat_timer (timers n3)\<rparr>;
          n5 = ResetElectionTimerLocked n4
      in if hard_state_changed
         then (case PersistStateLocked I n5 of (err, n6) \<Rightarrow> (err = None, n6))
         else (True, n5))"

fun init_peer_progress :: "u64 \<Rightarrow> PeerConfig list \<Rightarrow> ('w, 'm) raft_node \<Rightarrow> ('w, 'm) raft_node" where
  "init_peer_progress last_log_index [] n = n"
| "init_peer_progress last_log_index (peer # rest) n =
     init_peer_progress last_log_index rest
       (GetOrCreateReplicatorLocked peer
         (n\<lparr>next_index := (next_index n)(peer_id peer \<mapsto> SafeAddOne last_log_index),
            match_index := (match_index n)(peer_id peer \<mapsto> 0)\<rparr>))"

definition BecomeLeaderLocked :: "('w, 'm) raft_node \<Rightarrow> ('w, 'm) raft_node" where
  "BecomeLeaderLocked n =
     (let old_leader_id = leader_id n;
          n1 = n\<lparr>role := kLeader, leader_id := node_id n\<rparr>;
          n2 = MaybeRecordLeaderChangeLocked old_leader_id (node_id n) n1;
          n3 = CancelElectionTimerLocked n2;
          last_log_index = LastLogIndexLocked n3;
          n4 = n3\<lparr>next_index := [node_id n \<mapsto> SafeAddOne last_log_index],
                  match_index := [node_id n \<mapsto> last_log_index]\<rparr>
      in ResetHeartbeatTimerLocked (init_peer_progress last_log_index (peers n4) n4))"

section \<open>The local append\<close>

text \<open>Returns the new index, or \<open>0\<close> when the record could not be persisted.\<close>

definition AppendLocalLogUnlocked ::
    "('w, 'm) interfaces \<Rightarrow> string \<Rightarrow> ('w, 'm) raft_node \<Rightarrow> u64 \<times> ('w, 'm) raft_node" where
  "AppendLocalLogUnlocked I command_data n =
     (let new_index = SafeAddOne (LastLogIndexLocked n);
          n1 = n\<lparr>log := log n @ [\<lparr>lr_index = new_index, lr_term = current_term n,
                                   lr_command = command_data\<rparr>],
                 match_index := (match_index n)(node_id n \<mapsto> new_index),
                 next_index := (next_index n)(node_id n \<mapsto> SafeAddOne new_index)\<rparr>
      in case PersistStateLocked I n1 of
           (None, n2) \<Rightarrow> (new_index, n2)
         | (Some _, n2) \<Rightarrow>
             (let n3 = n2\<lparr>log := butlast (log n2)\<rparr>
              in (0, n3\<lparr>match_index := (match_index n3)(node_id n3 \<mapsto> LastLogIndexLocked n3),
                        next_index := (next_index n3)(node_id n3 \<mapsto>
                           SafeAddOne (LastLogIndexLocked n3))\<rparr>)))"

section \<open>Commit index\<close>

definition replicated_count :: "u64 \<Rightarrow> ('w, 'm) raft_node \<Rightarrow> nat" where
  "replicated_count i n = 1 + length (filter
     (\<lambda>peer. case match_index n (peer_id peer) of None \<Rightarrow> False | Some m \<Rightarrow> m \<ge> i) (peers n))"

definition majority :: "('w, 'm) raft_node \<Rightarrow> nat" where
  "majority n = (length (peers n) + 1) div 2 + 1"

text \<open>
  The loop of \<^verbatim>\<open>AdvanceCommitIndexUnlocked\<close> runs \<open>index\<close> downwards from the last log index while it is
  above \<open>commit_index\<close>; the result is the first index that passes all tests.
\<close>

function commit_candidate :: "u64 \<Rightarrow> ('w, 'm) raft_node \<Rightarrow> u64 option" where
  "commit_candidate i n =
     (if \<not> i > commit_index n then None
      else if HasLogAtIndexLocked i n \<and> TermAtIndexLocked i n = current_term n
              \<and> replicated_count i n \<ge> majority n
      then Some i
      else commit_candidate (i - 1) n)"
  by pat_completeness auto
termination
proof (relation "measure (\<lambda>(i, _). unat i)")
  fix i :: u64 and n :: "('w, 'm) raft_node"
  assume "\<not> \<not> i > commit_index n"
  then have "0 < unat i" by (simp add: u64_simps)
  then have "unat (i - 1) < unat i" by (metis measure_unat unat_0 less_irrefl)
  then show "((i - 1, n), i, n) \<in> measure (\<lambda>(i, _). unat i)" by simp
qed simp

declare commit_candidate.simps [simp del]

text \<open>A failed save leaves the advanced commit index in place, as the code only logs it.\<close>

definition AdvanceCommitIndexUnlocked ::
    "('w, 'm) interfaces \<Rightarrow> ('w, 'm) raft_node \<Rightarrow> ('w, 'm) raft_node" where
  "AdvanceCommitIndexUnlocked I n =
     (if role n \<noteq> kLeader \<or> log n = [] then n
      else case commit_candidate (LastLogIndexLocked n) n of
             None \<Rightarrow> n
           | Some i \<Rightarrow> snd (PersistStateLocked I (n\<lparr>commit_index := i\<rparr>)))"

section \<open>Scheduling a snapshot\<close>

text \<open>Both storage objects exist after construction, so only the configuration can disable it.\<close>

definition MaybeScheduleSnapshotLocked :: "bool \<Rightarrow> ('w, 'm) raft_node \<Rightarrow> ('w, 'm) raft_node" where
  [node_defs]: "MaybeScheduleSnapshotLocked force_by_timer n =
     n\<lparr>snapshot_worker :=
       (if \<not> snap_enabled (snapshot_config n) then snapshot_worker n
        else if last_applied n \<le> last_snapshot_index n then snapshot_worker n
        else if \<not> force_by_timer \<and>
                last_applied n - last_snapshot_index n < log_threshold (snapshot_config n)
        then snapshot_worker n
        else if snapshot_pending (snapshot_worker n) \<or> snapshot_in_progress (snapshot_worker n)
        then snapshot_worker n
        else (snapshot_worker n)\<lparr>pending_snapshot_index := last_applied n,
               pending_snapshot_term := TermAtIndexLocked (last_applied n) n,
               snapshot_pending := True\<rparr>)\<rparr>"

section \<open>Frame conditions\<close>

text \<open>What each building block leaves alone. Persisting touches the disk and the failure counter
  only; a role change touches neither the log nor the commit and apply boundaries.\<close>

lemma Persist_frame [simp]:
  shows "config (snd (PersistStateLocked I n)) = config n"
    "snapshot_config (snd (PersistStateLocked I n)) = snapshot_config n"
    "role (snd (PersistStateLocked I n)) = role n"
    "current_term (snd (PersistStateLocked I n)) = current_term n"
    "voted_for (snd (PersistStateLocked I n)) = voted_for n"
    "leader_id (snd (PersistStateLocked I n)) = leader_id n"
    "log (snd (PersistStateLocked I n)) = log n"
    "commit_index (snd (PersistStateLocked I n)) = commit_index n"
    "last_applied (snd (PersistStateLocked I n)) = last_applied n"
    "last_snapshot_index (snd (PersistStateLocked I n)) = last_snapshot_index n"
    "last_snapshot_term (snd (PersistStateLocked I n)) = last_snapshot_term n"
    "next_index (snd (PersistStateLocked I n)) = next_index n"
    "match_index (snd (PersistStateLocked I n)) = match_index n"
    "replicators (snd (PersistStateLocked I n)) = replicators n"
    "running (snd (PersistStateLocked I n)) = running n"
    "state_machine (snd (PersistStateLocked I n)) = state_machine n"
    "timers (snd (PersistStateLocked I n)) = timers n"
    "snapshot_worker (snd (PersistStateLocked I n)) = snapshot_worker n"
  by (simp_all add: PersistStateLocked_def node_defs split: prod.splits sum.splits)

lemma Persist_disk [simp]:
  "disk (snd (PersistStateLocked I n)) = snd (storage_Save I (persistent_state n) (disk n))"
  by (simp add: PersistStateLocked_def node_defs split: prod.splits sum.splits)

lemma Persist_ok_iff:
  "fst (PersistStateLocked I n) = None \<longleftrightarrow>
   (\<exists>u. fst (storage_Save I (persistent_state n) (disk n)) = Inr u)"
  by (auto simp: PersistStateLocked_def split: prod.splits sum.splits)

lemma GetOrCreate_frame [simp]:
  shows "config (GetOrCreateReplicatorLocked p n) = config n"
    "snapshot_config (GetOrCreateReplicatorLocked p n) = snapshot_config n"
    "role (GetOrCreateReplicatorLocked p n) = role n"
    "current_term (GetOrCreateReplicatorLocked p n) = current_term n"
    "voted_for (GetOrCreateReplicatorLocked p n) = voted_for n"
    "leader_id (GetOrCreateReplicatorLocked p n) = leader_id n"
    "log (GetOrCreateReplicatorLocked p n) = log n"
    "commit_index (GetOrCreateReplicatorLocked p n) = commit_index n"
    "last_applied (GetOrCreateReplicatorLocked p n) = last_applied n"
    "last_snapshot_index (GetOrCreateReplicatorLocked p n) = last_snapshot_index n"
    "last_snapshot_term (GetOrCreateReplicatorLocked p n) = last_snapshot_term n"
    "next_index (GetOrCreateReplicatorLocked p n) = next_index n"
    "match_index (GetOrCreateReplicatorLocked p n) = match_index n"
    "running (GetOrCreateReplicatorLocked p n) = running n"
    "state_machine (GetOrCreateReplicatorLocked p n) = state_machine n"
    "timers (GetOrCreateReplicatorLocked p n) = timers n"
    "snapshot_worker (GetOrCreateReplicatorLocked p n) = snapshot_worker n"
    "metrics (GetOrCreateReplicatorLocked p n) = metrics n"
    "disk (GetOrCreateReplicatorLocked p n) = disk n"
  by (simp_all add: GetOrCreateReplicatorLocked_def split: option.splits)

lemma init_peer_progress_frame [simp]:
  shows "config (init_peer_progress l ps n) = config n"
    "snapshot_config (init_peer_progress l ps n) = snapshot_config n"
    "role (init_peer_progress l ps n) = role n"
    "current_term (init_peer_progress l ps n) = current_term n"
    "voted_for (init_peer_progress l ps n) = voted_for n"
    "leader_id (init_peer_progress l ps n) = leader_id n"
    "log (init_peer_progress l ps n) = log n"
    "commit_index (init_peer_progress l ps n) = commit_index n"
    "last_applied (init_peer_progress l ps n) = last_applied n"
    "last_snapshot_index (init_peer_progress l ps n) = last_snapshot_index n"
    "last_snapshot_term (init_peer_progress l ps n) = last_snapshot_term n"
    "running (init_peer_progress l ps n) = running n"
    "state_machine (init_peer_progress l ps n) = state_machine n"
    "timers (init_peer_progress l ps n) = timers n"
    "snapshot_worker (init_peer_progress l ps n) = snapshot_worker n"
    "metrics (init_peer_progress l ps n) = metrics n"
    "disk (init_peer_progress l ps n) = disk n"
  by (induction ps arbitrary: n) simp_all

lemma BecomeFollower_frame [simp]:
  shows "config (snd (BecomeFollowerLocked I t l n)) = config n"
    "snapshot_config (snd (BecomeFollowerLocked I t l n)) = snapshot_config n"
    "log (snd (BecomeFollowerLocked I t l n)) = log n"
    "commit_index (snd (BecomeFollowerLocked I t l n)) = commit_index n"
    "last_applied (snd (BecomeFollowerLocked I t l n)) = last_applied n"
    "last_snapshot_index (snd (BecomeFollowerLocked I t l n)) = last_snapshot_index n"
    "last_snapshot_term (snd (BecomeFollowerLocked I t l n)) = last_snapshot_term n"
    "next_index (snd (BecomeFollowerLocked I t l n)) = next_index n"
    "match_index (snd (BecomeFollowerLocked I t l n)) = match_index n"
    "replicators (snd (BecomeFollowerLocked I t l n)) = replicators n"
    "running (snd (BecomeFollowerLocked I t l n)) = running n"
    "state_machine (snd (BecomeFollowerLocked I t l n)) = state_machine n"
    "snapshot_worker (snd (BecomeFollowerLocked I t l n)) = snapshot_worker n"
  by (simp_all add: BecomeFollowerLocked_def node_defs Let_def split_def)

lemma BecomeFollower_fields [simp]:
  shows "role (snd (BecomeFollowerLocked I t l n)) = kFollower"
    and "leader_id (snd (BecomeFollowerLocked I t l n)) = l"
    and "current_term (snd (BecomeFollowerLocked I t l n)) = max (current_term n) t"
    and "voted_for (snd (BecomeFollowerLocked I t l n))
       = (if t > current_term n then - 1 else voted_for n)"
  by (auto simp: BecomeFollowerLocked_def node_defs Let_def max_def split_def)

lemma BecomeLeader_frame [simp]:
  shows "config (BecomeLeaderLocked n) = config n"
    "snapshot_config (BecomeLeaderLocked n) = snapshot_config n"
    "current_term (BecomeLeaderLocked n) = current_term n"
    "voted_for (BecomeLeaderLocked n) = voted_for n"
    "log (BecomeLeaderLocked n) = log n"
    "commit_index (BecomeLeaderLocked n) = commit_index n"
    "last_applied (BecomeLeaderLocked n) = last_applied n"
    "last_snapshot_index (BecomeLeaderLocked n) = last_snapshot_index n"
    "last_snapshot_term (BecomeLeaderLocked n) = last_snapshot_term n"
    "running (BecomeLeaderLocked n) = running n"
    "state_machine (BecomeLeaderLocked n) = state_machine n"
    "snapshot_worker (BecomeLeaderLocked n) = snapshot_worker n"
    "disk (BecomeLeaderLocked n) = disk n"
  by (simp_all add: BecomeLeaderLocked_def node_defs Let_def)

lemma BecomeLeader_fields [simp]:
  "role (BecomeLeaderLocked n) = kLeader" "leader_id (BecomeLeaderLocked n) = node_id n"
  by (simp_all add: BecomeLeaderLocked_def node_defs Let_def)

lemma Advance_frame [simp]:
  shows "config (AdvanceCommitIndexUnlocked I n) = config n"
    "snapshot_config (AdvanceCommitIndexUnlocked I n) = snapshot_config n"
    "role (AdvanceCommitIndexUnlocked I n) = role n"
    "current_term (AdvanceCommitIndexUnlocked I n) = current_term n"
    "voted_for (AdvanceCommitIndexUnlocked I n) = voted_for n"
    "leader_id (AdvanceCommitIndexUnlocked I n) = leader_id n"
    "log (AdvanceCommitIndexUnlocked I n) = log n"
    "last_applied (AdvanceCommitIndexUnlocked I n) = last_applied n"
    "last_snapshot_index (AdvanceCommitIndexUnlocked I n) = last_snapshot_index n"
    "last_snapshot_term (AdvanceCommitIndexUnlocked I n) = last_snapshot_term n"
    "next_index (AdvanceCommitIndexUnlocked I n) = next_index n"
    "match_index (AdvanceCommitIndexUnlocked I n) = match_index n"
    "replicators (AdvanceCommitIndexUnlocked I n) = replicators n"
    "running (AdvanceCommitIndexUnlocked I n) = running n"
    "state_machine (AdvanceCommitIndexUnlocked I n) = state_machine n"
    "timers (AdvanceCommitIndexUnlocked I n) = timers n"
    "snapshot_worker (AdvanceCommitIndexUnlocked I n) = snapshot_worker n"
  by (simp_all add: AdvanceCommitIndexUnlocked_def split: option.splits)

lemma Append_frame [simp]:
  shows "config (snd (AppendLocalLogUnlocked I c n)) = config n"
    "snapshot_config (snd (AppendLocalLogUnlocked I c n)) = snapshot_config n"
    "role (snd (AppendLocalLogUnlocked I c n)) = role n"
    "current_term (snd (AppendLocalLogUnlocked I c n)) = current_term n"
    "voted_for (snd (AppendLocalLogUnlocked I c n)) = voted_for n"
    "leader_id (snd (AppendLocalLogUnlocked I c n)) = leader_id n"
    "commit_index (snd (AppendLocalLogUnlocked I c n)) = commit_index n"
    "last_applied (snd (AppendLocalLogUnlocked I c n)) = last_applied n"
    "last_snapshot_index (snd (AppendLocalLogUnlocked I c n)) = last_snapshot_index n"
    "last_snapshot_term (snd (AppendLocalLogUnlocked I c n)) = last_snapshot_term n"
    "replicators (snd (AppendLocalLogUnlocked I c n)) = replicators n"
    "running (snd (AppendLocalLogUnlocked I c n)) = running n"
    "state_machine (snd (AppendLocalLogUnlocked I c n)) = state_machine n"
    "timers (snd (AppendLocalLogUnlocked I c n)) = timers n"
    "snapshot_worker (snd (AppendLocalLogUnlocked I c n)) = snapshot_worker n"
  by (simp_all add: AppendLocalLogUnlocked_def Let_def split_def split: option.splits)

section \<open>What the building blocks establish\<close>

lemma word_le_minus_one: "j < i \<Longrightarrow> j \<le> i - (1 :: u64)"
  using unat_minus_one [of j i] by (simp add: u64_simps)

lemma word_minus_one_less: "j < i \<Longrightarrow> i - (1 :: u64) < i"
  using unat_minus_one [of j i] by (simp add: u64_simps)

definition commit_test :: "u64 \<Rightarrow> ('w, 'm) raft_node \<Rightarrow> bool" where
  "commit_test i n \<longleftrightarrow> HasLogAtIndexLocked i n \<and> TermAtIndexLocked i n = current_term n \<and>
     majority n \<le> replicated_count i n"

lemma commit_candidate_Some:
  assumes "commit_candidate start n = Some i"
  shows "commit_index n < i \<and> i \<le> start \<and> commit_test i n \<and>
    (\<forall>j. i < j \<and> j \<le> start \<longrightarrow> \<not> commit_test j n)"
  using assms
proof (induction start n rule: commit_candidate.induct)
  case (1 s n)
  show ?case
  proof (cases "commit_index n < s \<and> commit_test s n")
    case True
    with "1.prems" have "i = s" by (simp add: commit_candidate.simps [of s] commit_test_def)
    with True show ?thesis by auto
  next
    case False
    with "1.prems" have gt: "commit_index n < s" and rec: "commit_candidate (s - 1) n = Some i"
      and nt: "\<not> commit_test s n"
      by (auto simp: commit_candidate.simps [of s] commit_test_def split: if_splits)
    from gt have pred: "s - 1 < s" by (rule word_minus_one_less)
    from "1.IH" gt nt rec have IH: "commit_index n < i \<and> i \<le> s - 1 \<and> commit_test i n \<and>
      (\<forall>j. i < j \<and> j \<le> s - 1 \<longrightarrow> \<not> commit_test j n)"
      by (auto simp: commit_test_def)
    moreover have "j = s \<or> j \<le> s - 1" if "j \<le> s" for j
      using that word_le_minus_one [of j s] by (metis order_le_less)
    ultimately show ?thesis using nt pred by (metis order_less_imp_le order_trans)
  qed
qed

lemma commit_candidate_None:
  assumes "commit_candidate start n = None" and "commit_index n < j" and "j \<le> start"
  shows "\<not> commit_test j n"
  using assms
proof (induction start n rule: commit_candidate.induct)
  case (1 s n)
  from "1.prems"(2,3) have gt: "commit_index n < s" by simp
  with "1.prems"(1) have nt: "\<not> commit_test s n" and rec: "commit_candidate (s - 1) n = None"
    by (auto simp: commit_candidate.simps [of s] commit_test_def split: if_splits)
  show ?case
  proof (cases "j = s")
    case True
    with nt show ?thesis by simp
  next
    case False
    with "1.prems"(3) have "j \<le> s - 1" using word_le_minus_one [of j s] by simp
    with "1.IH" gt nt rec "1.prems"(2) show ?thesis by (auto simp: commit_test_def)
  qed
qed

text \<open>
  The commit rule of the leader, as one equation: the new commit index is the largest index of
  the current term above the old one that a majority is known to hold, if there is any.
\<close>

lemma Advance_spec:
  assumes "role n = kLeader" and "log n \<noteq> []"
  shows "commit_index (AdvanceCommitIndexUnlocked I n) = i \<longleftrightarrow>
    (if \<exists>j. commit_index n < j \<and> j \<le> LastLogIndexLocked n \<and> commit_test j n
     then commit_index n < i \<and> i \<le> LastLogIndexLocked n \<and> commit_test i n \<and>
       (\<forall>j. i < j \<and> j \<le> LastLogIndexLocked n \<longrightarrow> \<not> commit_test j n)
     else i = commit_index n)"
proof (cases "commit_candidate (LastLogIndexLocked n) n")
  case None
  note none = commit_candidate_None [OF None]
  from None assms have "commit_index (AdvanceCommitIndexUnlocked I n) = commit_index n"
    by (simp add: AdvanceCommitIndexUnlocked_def)
  with none show ?thesis by auto
next
  case (Some k)
  note spec = commit_candidate_Some [OF Some]
  from Some assms have "commit_index (AdvanceCommitIndexUnlocked I n) = k"
    by (simp add: AdvanceCommitIndexUnlocked_def)
  with spec show ?thesis by (metis linorder_neqE)
qed

lemma Advance_commit_mono: "commit_index n \<le> commit_index (AdvanceCommitIndexUnlocked I n)"
proof (cases "commit_candidate (LastLogIndexLocked n) n")
  case (Some k)
  with commit_candidate_Some [OF Some] show ?thesis
    by (simp add: AdvanceCommitIndexUnlocked_def less_imp_le)
qed (simp add: AdvanceCommitIndexUnlocked_def)

lemma Advance_commit_le_last:
  "commit_index n \<le> LastLogIndexLocked n \<Longrightarrow>
   commit_index (AdvanceCommitIndexUnlocked I n) \<le> LastLogIndexLocked n"
  using commit_candidate_Some [of "LastLogIndexLocked n" n]
  by (auto simp: AdvanceCommitIndexUnlocked_def split: option.splits)

lemma Append_result:
  "fst (AppendLocalLogUnlocked I c n) =
     (if fst (PersistStateLocked I (n\<lparr>log := log n @ [\<lparr>lr_index = SafeAddOne (LastLogIndexLocked n),
          lr_term = current_term n, lr_command = c\<rparr>],
        match_index := (match_index n)(node_id n \<mapsto> SafeAddOne (LastLogIndexLocked n)),
        next_index := (next_index n)(node_id n \<mapsto> SafeAddOne (SafeAddOne (LastLogIndexLocked n)))\<rparr>)) = None
      then SafeAddOne (LastLogIndexLocked n) else 0)"
  by (simp add: AppendLocalLogUnlocked_def Let_def split_def split: option.splits)

lemma Append_log:
  "log (snd (AppendLocalLogUnlocked I c n)) =
     (if fst (AppendLocalLogUnlocked I c n) = 0 then log n
      else log n @ [\<lparr>lr_index = SafeAddOne (LastLogIndexLocked n), lr_term = current_term n,
                     lr_command = c\<rparr>])"
  by (simp add: AppendLocalLogUnlocked_def Let_def split_def split: option.splits)

lemma log_wf_Append:
  assumes wf: "log_wf n" and room: "LastLogIndexLocked n < - 1"
  shows "log_wf (snd (AppendLocalLogUnlocked I c n))"
proof -
  note lw = log_wfD [OF wf]
  have "unat (SafeAddOne (LastLogIndexLocked n)) = Suc (unat (lr_index (last (log n))))"
    using SafeAddOne_eq_Suc [OF room] lw(1) by (simp add: LastLogIndexLocked_def)
  then have "consecutive (log n @ [\<lparr>lr_index = SafeAddOne (LastLogIndexLocked n),
      lr_term = current_term n, lr_command = c\<rparr>])"
    using lw by (intro consecutive_snoc) auto
  with lw show ?thesis by (simp add: log_wf_def Append_log hd_append)
qed

end
