(* ===== verification/Apply.thy ===== *)
theory Apply
  imports NodeCore
begin

text \<open>
  \<^verbatim>\<open>RaftNode::ApplyCommittedEntries\<close> (\<^verbatim>\<open>raft_node.cpp\<close>, lines 2192 to 2275): the loop that hands
  committed log records to the state machine, one per iteration, and persists the new apply
  boundary after each. \<open>apply_one\<close> is the loop's body; the loop itself is total, because every
  iteration that continues brings \<open>last_applied\<close> one step closer to \<open>commit_index\<close>.
\<close>

section \<open>Definitions\<close>

definition apply_diagnostics :: "string \<Rightarrow> u64 \<Rightarrow> ('w, 'm) raft_node \<Rightarrow> string" where
  "apply_diagnostics what apply_index n =
     what @ '', apply_index='' @ string_of_u64 apply_index
     @ '', commit_index='' @ string_of_u64 (commit_index n)
     @ '', last_applied='' @ string_of_u64 (last_applied n)
     @ '', last_snapshot_index='' @ string_of_u64 (last_snapshot_index n)
     @ '', first_log_index='' @ string_of_u64 (FirstLogIndexLocked n)
     @ '', last_log_index='' @ string_of_u64 (LastLogIndexLocked n)"

text \<open>The part of an iteration before the state machine is called: the record to apply.\<close>

definition apply_fetch ::
    "('w, 'm) raft_node \<Rightarrow> (ApplyResult + u64 \<times> string) \<times> ('w, 'm) raft_node" where
  "apply_fetch n0 =
     (let n = (if last_applied n0 < last_snapshot_index n0
               then n0\<lparr>last_applied := last_snapshot_index n0\<rparr> else n0) in
      if last_applied n \<ge> commit_index n
      then (Inl \<lparr>apply_Ok = True, apply_message = ''nothing to apply''\<rparr>, n)
      else let apply_index = last_applied n + 1 in
        if \<not> HasLogAtIndexLocked apply_index n
        then (Inl \<lparr>apply_Ok = False,
                   apply_message = apply_diagnostics ''apply index out of range'' apply_index n\<rparr>, n)
        else case LogAtIndexLocked apply_index n of
               None \<Rightarrow> (Inl \<lparr>apply_Ok = False,
                   apply_message = apply_diagnostics ''apply log record is missing'' apply_index n\<rparr>, n)
             | Some record \<Rightarrow> (Inr (apply_index, lr_command record), n))"

text \<open>The part after a successful call: record and persist the new boundary.\<close>

definition apply_finish ::
    "('w, 'm) interfaces \<Rightarrow> u64 \<Rightarrow> ('w, 'm) raft_node \<Rightarrow> ApplyResult option \<times> ('w, 'm) raft_node" where
  "apply_finish I apply_index n =
     (let (err, n1) = (if last_applied n < apply_index
                       then PersistStateLocked I (n\<lparr>last_applied := apply_index\<rparr>) else (None, n))
      in case err of
           Some persist_error \<Rightarrow> (Some \<lparr>apply_Ok = False, apply_message = persist_error\<rparr>, n1)
         | None \<Rightarrow> (None, MaybeScheduleSnapshotLocked False n1))"

definition apply_one ::
    "('w, 'm) interfaces \<Rightarrow> ('w, 'm) raft_node \<Rightarrow> ApplyResult option \<times> ('w, 'm) raft_node" where
  "apply_one I n =
     (case apply_fetch n of
        (Inl result, n1) \<Rightarrow> (Some result, n1)
      | (Inr (apply_index, command_data), n1) \<Rightarrow>
          (let (result, m) = sm_Apply I apply_index command_data (state_machine n1);
               n2 = n1\<lparr>state_machine := m\<rparr>
           in if \<not> apply_Ok result then (Some result, n2) else apply_finish I apply_index n2))"

lemma apply_fetch_Inr:
  assumes "apply_fetch n = (Inr (ai, c), n1)"
  shows "n1 = n\<lparr>last_applied := max (last_applied n) (last_snapshot_index n)\<rparr>"
    and "last_applied n1 < commit_index n" and "ai = last_applied n1 + 1"
    and "\<exists>r. LogAtIndexLocked ai n = Some r \<and> lr_command r = c"
proof -
  let ?n1 = "n\<lparr>last_applied := max (last_applied n) (last_snapshot_index n)\<rparr>"
  have n1: "(if last_applied n < last_snapshot_index n
      then n\<lparr>last_applied := last_snapshot_index n\<rparr> else n) = ?n1"
    by (simp add: max_def not_less)
  have la: "LogAtIndexLocked i ?n1 = LogAtIndexLocked i n" for i
    by (simp add: LogAtIndexLocked_def HasLogAtIndexLocked_def LogOffsetLocked_def)
  show "n1 = ?n1" "last_applied n1 < commit_index n" "ai = last_applied n1 + 1"
    "\<exists>r. LogAtIndexLocked ai n = Some r \<and> lr_command r = c"
    using assms unfolding apply_fetch_def n1 Let_def
    by (auto simp: la not_le simp del: max_less_iff_conj less_max_iff_disj split: if_splits option.splits)
qed

lemma apply_one_None:
  assumes "apply_one I n = (None, n')"
  shows "commit_index n' = commit_index n"
    and "unat (last_applied n') = Suc (max (unat (last_applied n)) (unat (last_snapshot_index n)))"
    and "last_applied n' \<le> commit_index n"
proof -
  obtain ai c n1 where f: "apply_fetch n = (Inr (ai, c), n1)"
    using assms by (auto simp: apply_one_def split: prod.splits sum.splits)
  note F = apply_fetch_Inr [OF f]
  let ?n2 = "n1\<lparr>state_machine := snd (sm_Apply I ai c (state_machine n1))\<rparr>"
  have fin: "apply_finish I ai ?n2 = (None, n')"
    using assms f by (auto simp: apply_one_def Let_def split_def split: if_splits)
  have ai: "unat ai = Suc (unat (last_applied n1))"
    using unat_add_one [OF F(2)] F(3) by simp
  then have "last_applied n1 < ai" by (simp add: u64_simps)
  with fin have n': "last_applied n' = ai" "commit_index n' = commit_index n1"
    by (auto simp: apply_finish_def node_defs Let_def split_def split: option.splits)
  from F(1) have ci: "commit_index n1 = commit_index n" by simp
  with n' show "commit_index n' = commit_index n" by simp
  show "unat (last_applied n') = Suc (max (unat (last_applied n)) (unat (last_snapshot_index n)))"
    using n' ai F(1) by (simp add: max_def u64_simps)
  show "last_applied n' \<le> commit_index n"
    using n' ai F(2) by (simp add: u64_simps)
qed

function ApplyCommittedEntries ::
    "('w, 'm) interfaces \<Rightarrow> ('w, 'm) raft_node \<Rightarrow> ApplyResult \<times> ('w, 'm) raft_node" where
  "ApplyCommittedEntries I n =
     (case apply_one I n of
        (Some result, n') \<Rightarrow> (result, n')
      | (None, n') \<Rightarrow> ApplyCommittedEntries I n')"
  by pat_completeness auto
termination
proof (relation "measure (\<lambda>(I, n). unat (commit_index n) - unat (last_applied n))")
  fix I :: "('w, 'm) interfaces" and n n' :: "('w, 'm) raft_node" and r
  assume "(r, n') = apply_one I n" and "r = None"
  then have step: "apply_one I n = (None, n')" by simp
  from apply_one_None [OF step]
  show "((I, n'), I, n) \<in> measure (\<lambda>(I, n). unat (commit_index n) - unat (last_applied n))"
    by (simp add: u64_simps)
qed simp

declare ApplyCommittedEntries.simps [simp del]

section \<open>What a run of the loop does\<close>

lemma apply_fetch_frame:
  "snd (apply_fetch n) = n\<lparr>last_applied := max (last_applied n) (last_snapshot_index n)\<rparr>"
proof -
  have "(if last_applied n < last_snapshot_index n
      then n\<lparr>last_applied := last_snapshot_index n\<rparr> else n)
    = n\<lparr>last_applied := max (last_applied n) (last_snapshot_index n)\<rparr>"
    by (simp add: max_def not_less)
  then show ?thesis by (simp add: apply_fetch_def Let_def split: option.split)
qed

lemma apply_finish_frame:
  shows "config (snd (apply_finish I i n)) = config n"
    "snapshot_config (snd (apply_finish I i n)) = snapshot_config n"
    "role (snd (apply_finish I i n)) = role n"
    "current_term (snd (apply_finish I i n)) = current_term n"
    "voted_for (snd (apply_finish I i n)) = voted_for n"
    "leader_id (snd (apply_finish I i n)) = leader_id n"
    "log (snd (apply_finish I i n)) = log n"
    "commit_index (snd (apply_finish I i n)) = commit_index n"
    "last_snapshot_index (snd (apply_finish I i n)) = last_snapshot_index n"
    "last_snapshot_term (snd (apply_finish I i n)) = last_snapshot_term n"
    "next_index (snd (apply_finish I i n)) = next_index n"
    "match_index (snd (apply_finish I i n)) = match_index n"
    "replicators (snd (apply_finish I i n)) = replicators n"
    "running (snd (apply_finish I i n)) = running n"
    "timers (snd (apply_finish I i n)) = timers n"
    "state_machine (snd (apply_finish I i n)) = state_machine n"
  by (simp_all add: apply_finish_def node_defs Let_def split_def split: option.split)

lemma apply_one_cases:
  "snd (apply_one I n) =
     (let n1 = snd (apply_fetch n) in
      case fst (apply_fetch n) of
        Inl _ \<Rightarrow> n1
      | Inr (i, c) \<Rightarrow>
          (let n2 = n1\<lparr>state_machine := snd (sm_Apply I i c (state_machine n1))\<rparr>
           in if apply_Ok (fst (sm_Apply I i c (state_machine n1)))
              then snd (apply_finish I i n2) else n2))"
  by (simp add: apply_one_def Let_def split_def split: sum.split)

lemma apply_one_frame:
  shows "config (snd (apply_one I n)) = config n"
    "snapshot_config (snd (apply_one I n)) = snapshot_config n"
    "role (snd (apply_one I n)) = role n"
    "current_term (snd (apply_one I n)) = current_term n"
    "voted_for (snd (apply_one I n)) = voted_for n"
    "leader_id (snd (apply_one I n)) = leader_id n"
    "log (snd (apply_one I n)) = log n"
    "commit_index (snd (apply_one I n)) = commit_index n"
    "last_snapshot_index (snd (apply_one I n)) = last_snapshot_index n"
    "last_snapshot_term (snd (apply_one I n)) = last_snapshot_term n"
    "next_index (snd (apply_one I n)) = next_index n"
    "match_index (snd (apply_one I n)) = match_index n"
    "replicators (snd (apply_one I n)) = replicators n"
    "running (snd (apply_one I n)) = running n"
    "timers (snd (apply_one I n)) = timers n"
  by (simp_all add: apply_one_cases apply_fetch_frame apply_finish_frame Let_def split: sum.split prod.split)

text \<open>Induction over the iterations: a property of nodes that one iteration keeps is kept by the loop.\<close>

lemma Apply_keeps:
  assumes "P n" and "\<And>n. P n \<Longrightarrow> P (snd (apply_one I n))"
  shows "P (snd (ApplyCommittedEntries I n))"
  using assms
proof (induction I n rule: ApplyCommittedEntries.induct)
  case (1 I n)
  note P' = "1.prems"(2) [OF "1.prems"(1)]
  show ?case
  proof (cases "fst (apply_one I n)")
    case None
    then have "apply_one I n = (None, snd (apply_one I n))" by (simp add: prod_eq_iff)
    with "1.IH" [OF this [symmetric]] "1.prems"(2) P' None show ?thesis
      by (subst ApplyCommittedEntries.simps) (simp add: split_def)
  next
    case (Some r)
    with P' show ?thesis by (subst ApplyCommittedEntries.simps) (simp add: split_def)
  qed
qed

lemma Apply_frame [simp]:
  shows "config (snd (ApplyCommittedEntries I n)) = config n"
    "snapshot_config (snd (ApplyCommittedEntries I n)) = snapshot_config n"
    "role (snd (ApplyCommittedEntries I n)) = role n"
    "current_term (snd (ApplyCommittedEntries I n)) = current_term n"
    "voted_for (snd (ApplyCommittedEntries I n)) = voted_for n"
    "leader_id (snd (ApplyCommittedEntries I n)) = leader_id n"
    "log (snd (ApplyCommittedEntries I n)) = log n"
    "commit_index (snd (ApplyCommittedEntries I n)) = commit_index n"
    "last_snapshot_index (snd (ApplyCommittedEntries I n)) = last_snapshot_index n"
    "last_snapshot_term (snd (ApplyCommittedEntries I n)) = last_snapshot_term n"
    "next_index (snd (ApplyCommittedEntries I n)) = next_index n"
    "match_index (snd (ApplyCommittedEntries I n)) = match_index n"
    "replicators (snd (ApplyCommittedEntries I n)) = replicators n"
    "running (snd (ApplyCommittedEntries I n)) = running n"
    "timers (snd (ApplyCommittedEntries I n)) = timers n"
  by (rule Apply_keeps [where P = "\<lambda>x. _ x = _ n"]; simp add: apply_one_frame)+

text \<open>
  The abstract specification of the loop: the committed records above the apply boundary, in log
  order, each handed to the state machine once, until one is refused.
\<close>

definition unapplied :: "('w, 'm) raft_node \<Rightarrow> LogRecord list" where
  "unapplied n = filter (\<lambda>r. last_applied n < lr_index r \<and> lr_index r \<le> commit_index n) (log n)"

fun apply_run ::
    "(u64 \<Rightarrow> string \<Rightarrow> 'm \<Rightarrow> ApplyResult \<times> 'm) \<Rightarrow> LogRecord list \<Rightarrow> 'm
      \<Rightarrow> ApplyResult option \<times> nat \<times> 'm" where
  "apply_run ap [] m = (None, 0, m)"
| "apply_run ap (r # rs) m =
     (let (res, m') = ap (lr_index r) (lr_command r) m
      in if apply_Ok res
         then (let (e, k, m'') = apply_run ap rs m' in (e, Suc k, m''))
         else (Some res, 0, m'))"

lemma unapplied_nil: "commit_index n \<le> last_applied n \<Longrightarrow> unapplied n = []"
  by (auto simp: unapplied_def filter_empty_conv)

lemma unapplied_Cons:
  assumes wf: "log_wf n" and si: "last_snapshot_index n \<le> last_applied n"
    and lt: "last_applied n < commit_index n" and ci: "commit_index n \<le> LastLogIndexLocked n"
  shows "\<exists>r. LogAtIndexLocked (last_applied n + 1) n = Some r \<and> lr_index r = last_applied n + 1 \<and>
    unapplied n = r # unapplied (n\<lparr>last_applied := last_applied n + 1\<rparr>)"
proof -
  let ?i = "last_applied n + 1" and ?l = "log n"
  let ?k = "unat ?i - unat (last_snapshot_index n)"
  have i: "unat ?i = Suc (unat (last_applied n))" by (rule unat_add_one [OF lt])
  then have rng: "last_snapshot_index n \<le> ?i" "?i \<le> LastLogIndexLocked n"
    using si lt ci by (auto simp: u64_simps)
  note k = log_wf_nth [OF wf rng] and cons = consecutive_nth [OF log_wfD(2) [OF wf]]
  have hd: "lr_index (hd ?l) = last_snapshot_index n" by (rule log_wfD(3) [OF wf])
  have lo: "filter (\<lambda>r. last_applied n < lr_index r \<and> lr_index r \<le> commit_index n) (take ?k ?l) = []"
  proof -
    have "lr_index r \<le> last_applied n" if r: "r \<in> set (take ?k ?l)" for r
    proof -
      from r obtain j where "j < length (take ?k ?l)" "r = take ?k ?l ! j" by (metis in_set_conv_nth)
      then have "j < ?k" "j < length ?l" "r = ?l ! j" by auto
      with cons [of j] hd i show ?thesis by (simp add: u64_simps)
    qed
    then show ?thesis by (auto simp: filter_empty_conv not_less)
  qed
  have hi: "(last_applied n < lr_index r) = (?i < lr_index r)" if r: "r \<in> set (drop (Suc ?k) ?l)" for r
  proof -
    from r obtain j where "j < length (drop (Suc ?k) ?l)" "r = drop (Suc ?k) ?l ! j"
      by (metis in_set_conv_nth)
    then have "Suc ?k + j < length ?l" "r = ?l ! (Suc ?k + j)" by auto
    with cons [of "Suc ?k + j"] hd i rng(1) show ?thesis by (simp add: u64_simps)
  qed
  have split: "?l = take ?k ?l @ ?l ! ?k # drop (Suc ?k) ?l" using k(2) by (rule id_take_nth_drop)
  have here: "last_applied n < ?i" "?i \<le> commit_index n" using i lt by (auto simp: u64_simps)
  have lo': "filter (\<lambda>r. ?i < lr_index r \<and> lr_index r \<le> commit_index n) (take ?k ?l) = []"
    using lo here(1) by (auto simp: filter_empty_conv)
  have tl: "filter (\<lambda>r. last_applied n < lr_index r \<and> lr_index r \<le> commit_index n) (drop (Suc ?k) ?l)
      = filter (\<lambda>r. ?i < lr_index r \<and> lr_index r \<le> commit_index n) (drop (Suc ?k) ?l)"
    using hi by (auto intro: filter_cong)
  have "unapplied n = ?l ! ?k # filter (\<lambda>r. ?i < lr_index r \<and> lr_index r \<le> commit_index n) (drop (Suc ?k) ?l)"
    unfolding unapplied_def by (subst split) (simp only: filter_append lo tl filter.simps k(3) here
        simp_thms if_True append_Nil)
  moreover have "unapplied (n\<lparr>last_applied := ?i\<rparr>)
      = filter (\<lambda>r. ?i < lr_index r \<and> lr_index r \<le> commit_index n) (drop (Suc ?k) ?l)"
  proof -
    have "unapplied (n\<lparr>last_applied := ?i\<rparr>) = filter (\<lambda>r. ?i < lr_index r \<and> lr_index r \<le> commit_index n) ?l"
      by (simp add: unapplied_def)
    also have "\<dots> = filter (\<lambda>r. ?i < lr_index r \<and> lr_index r \<le> commit_index n) (drop (Suc ?k) ?l)"
      by (subst split) (simp only: filter_append lo' filter.simps k(3) less_irrefl simp_thms if_False
          append_Nil)
    finally show ?thesis .
  qed
  ultimately show ?thesis using k by auto
qed

text \<open>A storage that never refuses a save; the refinement below assumes it, the loop's error exit
  is stated separately.\<close>

definition saves_ok :: "('w, 'm) interfaces \<Rightarrow> bool" where
  "saves_ok I \<longleftrightarrow> (\<forall>s w. fst (storage_Save I s w) = Inr ())"

lemma saves_ok_Persist: "saves_ok I \<Longrightarrow> fst (PersistStateLocked I n) = None"
  by (simp add: saves_ok_def Persist_ok_iff)

definition applicable :: "('w, 'm) raft_node \<Rightarrow> bool" where
  "applicable n \<longleftrightarrow> log_wf n \<and> last_snapshot_index n \<le> last_applied n \<and>
     last_applied n \<le> commit_index n \<and> commit_index n \<le> LastLogIndexLocked n"

lemma LogAt_cong:
  "log n' = log n \<Longrightarrow> LogAtIndexLocked i n' = LogAtIndexLocked i n"
  by (simp add: LogAtIndexLocked_def HasLogAtIndexLocked_def LogOffsetLocked_def)

lemma HasLog_cong: "log n' = log n \<Longrightarrow> HasLogAtIndexLocked i n' = HasLogAtIndexLocked i n"
  by (simp add: HasLogAtIndexLocked_def)

lemma LastLog_cong:
  "log n' = log n \<Longrightarrow> log n \<noteq> [] \<Longrightarrow> LastLogIndexLocked n' = LastLogIndexLocked n"
  by (simp add: LastLogIndexLocked_def)

lemma apply_fetch_step:
  assumes ap: "applicable n" and lt: "last_applied n < commit_index n"
    and r: "LogAtIndexLocked (last_applied n + 1) n = Some r"
  shows "apply_fetch n = (Inr (last_applied n + 1, lr_command r), n)"
proof -
  have "\<not> last_applied n < last_snapshot_index n" using ap by (simp add: applicable_def not_less)
  moreover from r have "HasLogAtIndexLocked (last_applied n + 1) n"
    by (simp add: LogAtIndexLocked_def split: if_splits)
  ultimately show ?thesis using lt r by (simp add: apply_fetch_def)
qed

lemma apply_fetch_done:
  assumes "applicable n" and "last_applied n = commit_index n"
  shows "apply_fetch n = (Inl \<lparr>apply_Ok = True, apply_message = ''nothing to apply''\<rparr>, n)"
  using assms by (simp add: apply_fetch_def applicable_def not_less [symmetric])

lemma apply_one_step:
  assumes ok: "saves_ok I" and ap: "applicable n" and ne: "unapplied n = r # rs"
    and res: "sm_Apply I (lr_index r) (lr_command r) (state_machine n) = (res, m)"
  shows "apply_Ok res \<Longrightarrow> fst (apply_one I n) = None"
    and "apply_Ok res \<Longrightarrow> applicable (snd (apply_one I n))"
    and "apply_Ok res \<Longrightarrow> unapplied (snd (apply_one I n)) = rs"
    and "apply_Ok res \<Longrightarrow> unat (last_applied (snd (apply_one I n))) = Suc (unat (last_applied n))"
    and "\<not> apply_Ok res \<Longrightarrow> apply_one I n = (Some res, n\<lparr>state_machine := m\<rparr>)"
    and "state_machine (snd (apply_one I n)) = m"
proof -
  have lt: "last_applied n < commit_index n" using ne unapplied_nil [of n] by (auto simp: not_le [symmetric])
  from ap have wf: "log_wf n" and bounds: "last_snapshot_index n \<le> last_applied n"
    "commit_index n \<le> LastLogIndexLocked n" by (auto simp: applicable_def)
  from unapplied_Cons [OF wf bounds(1) lt bounds(2)] ne
  have r: "LogAtIndexLocked (last_applied n + 1) n = Some r" and ri: "lr_index r = last_applied n + 1"
    and rs: "rs = unapplied (n\<lparr>last_applied := last_applied n + 1\<rparr>)" by auto
  note f = apply_fetch_step [OF ap lt r]
  have i: "unat (last_applied n + 1) = Suc (unat (last_applied n))" by (rule unat_add_one [OF lt])
  then have gt: "last_applied n < last_applied n + 1" by (simp add: u64_simps)
  let ?n2 = "n\<lparr>state_machine := m\<rparr>"
  show "\<not> apply_Ok res \<Longrightarrow> apply_one I n = (Some res, n\<lparr>state_machine := m\<rparr>)"
    using f res ri by (simp add: apply_one_def)
  have one: "apply_one I n = apply_finish I (last_applied n + 1) ?n2" if "apply_Ok res"
    using f res ri that by (simp add: apply_one_def)
  have fin: "fst (apply_finish I (last_applied n + 1) ?n2) = None"
    "last_applied (snd (apply_finish I (last_applied n + 1) ?n2)) = last_applied n + 1"
    using gt saves_ok_Persist [OF ok]
    by (simp_all add: apply_finish_def node_defs Let_def split_def split: option.split)
  show "apply_Ok res \<Longrightarrow> fst (apply_one I n) = None" using fin one by simp
  show "apply_Ok res \<Longrightarrow> unat (last_applied (snd (apply_one I n))) = Suc (unat (last_applied n))"
    using fin one i by simp
  show "apply_Ok res \<Longrightarrow> unapplied (snd (apply_one I n)) = rs"
    using fin one by (simp add: rs unapplied_def apply_finish_frame)
  show "apply_Ok res \<Longrightarrow> applicable (snd (apply_one I n))"
    using one fin ap i lt
    by (simp add: applicable_def log_wf_def apply_finish_frame LastLogIndexLocked_def)
      (auto simp: u64_simps)
  show "state_machine (snd (apply_one I n)) = m"
    using one f res ri by (cases "apply_Ok res") (simp_all add: apply_finish_frame apply_one_def)
qed

text \<open>The loop refines \<open>apply_run\<close>: result, machine and boundary are those of the specification.\<close>

lemma Apply_refines_run:
  assumes "saves_ok I" and "applicable n"
  shows "state_machine (snd (ApplyCommittedEntries I n)) = snd (snd (apply_run (sm_Apply I) (unapplied n) (state_machine n)))
    \<and> unat (last_applied (snd (ApplyCommittedEntries I n)))
        = unat (last_applied n) + fst (snd (apply_run (sm_Apply I) (unapplied n) (state_machine n)))
    \<and> fst (ApplyCommittedEntries I n) =
       (case fst (apply_run (sm_Apply I) (unapplied n) (state_machine n)) of
          None \<Rightarrow> \<lparr>apply_Ok = True, apply_message = ''nothing to apply''\<rparr> | Some res \<Rightarrow> res)
    \<and> (fst (apply_run (sm_Apply I) (unapplied n) (state_machine n)) = None
       \<longrightarrow> last_applied (snd (ApplyCommittedEntries I n)) = commit_index n)"
  using assms
proof (induction I n rule: ApplyCommittedEntries.induct)
  case (1 I n)
  note ok = "1.prems"(1) and ap = "1.prems"(2)
  show ?case
  proof (cases "unapplied n")
    case Nil
    then have "last_applied n = commit_index n"
      using ap unapplied_Cons [of n] by (force simp: applicable_def)
    then have "ApplyCommittedEntries I n = (\<lparr>apply_Ok = True, apply_message = ''nothing to apply''\<rparr>, n)"
      using apply_fetch_done [OF ap] by (simp add: ApplyCommittedEntries.simps [of I n] apply_one_def)
    with Nil \<open>last_applied n = commit_index n\<close> show ?thesis by simp
  next
    case (Cons r rs)
    obtain res m where res: "sm_Apply I (lr_index r) (lr_command r) (state_machine n) = (res, m)"
      by fastforce
    note st = apply_one_step [OF ok ap Cons res]
    show ?thesis
    proof (cases "apply_Ok res")
      case True
      let ?n' = "snd (apply_one I n)"
      have step: "apply_one I n = (None, ?n')" using st(1) [OF True] by (simp add: prod_eq_iff)
      then have loop: "ApplyCommittedEntries I n = ApplyCommittedEntries I ?n'"
        using st(1) [OF True] by (subst ApplyCommittedEntries.simps) (simp add: split_def)
      have ci: "commit_index ?n' = commit_index n" by (rule apply_one_frame)
      have run: "apply_run (sm_Apply I) (unapplied n) (state_machine n) =
          (let (e, k, m'') = apply_run (sm_Apply I) (unapplied ?n') (state_machine ?n') in (e, Suc k, m''))"
        using Cons res True st(3) [OF True] st(6) by simp
      from "1.IH" [OF step [symmetric] refl ok st(2) [OF True]] st(4) [OF True]
      show ?thesis unfolding loop run by (simp add: Let_def split_def ci)
    next
      case False
      then have "ApplyCommittedEntries I n = (res, n\<lparr>state_machine := m\<rparr>)"
        using st(5) by (subst ApplyCommittedEntries.simps) simp
      with False Cons res show ?thesis by simp
    qed
  qed
qed

end
