(* ===== verification/Vote.thy ===== *)
theory Vote
  imports Apply
begin

text \<open>
  Elections (\<^verbatim>\<open>raft_node.cpp\<close>, lines 614 to 796 and 1281 to 1327): the vote handler, the timeout that
  starts an election, the callback that counts one peer's answer, and the transition to leader.
  The counter and the flag that the callbacks of one election share are the record \<open>election\<close>.
\<close>

section \<open>Granting a vote\<close>

definition OnRequestVote ::
    "('w, 'm) interfaces \<Rightarrow> VoteRequest \<Rightarrow> ('w, 'm) raft_node \<Rightarrow> VoteResponse \<times> ('w, 'm) raft_node" where
  "OnRequestVote I request n =
     (let response = \<lparr>vs_term = current_term n, vote_granted = False\<rparr> in
      if vq_term request < current_term n then (response, n)
      else
        let (followed, n1) = (if vq_term request > current_term n
                              then BecomeFollowerLocked I (vq_term request) (- 1) n else (True, n))
        in if \<not> followed then (response\<lparr>vs_term := current_term n1\<rparr>, n1)
           else
             let up_to_date = IsCandidateLogUpToDateLocked (vq_last_log_index request)
                                (vq_last_log_term request) n1;
                 can_vote = (voted_for n1 = - 1 \<or> voted_for n1 = candidate_id request)
             in if can_vote \<and> up_to_date
                then case PersistStateLocked I (n1\<lparr>voted_for := candidate_id request\<rparr>) of
                       (None, n2) \<Rightarrow>
                         (let n3 = ResetElectionTimerLocked n2
                          in (response\<lparr>vote_granted := True, vs_term := current_term n3\<rparr>, n3))
                     | (Some _, n2) \<Rightarrow>
                         (let n3 = n2\<lparr>voted_for := voted_for n1\<rparr>
                          in (response\<lparr>vs_term := current_term n3\<rparr>, n3))
                else (response\<lparr>vs_term := current_term n1\<rparr>, n1))"

section \<open>Running an election\<close>

record election =
  el_term :: u64
  el_last_log_index :: u64
  el_last_log_term :: u64
  el_quorum :: int
  el_votes :: int
  el_won :: bool

text \<open>
  \<open>StartElectionLocked\<close> is \<^verbatim>\<open>StartElection\<close> up to the point where the votes are requested. The increment
  of the term is the machine's, so it wraps at \<open>2 ^ 64\<close>.
\<close>

definition StartElectionLocked ::
    "('w, 'm) interfaces \<Rightarrow> ('w, 'm) raft_node \<Rightarrow> election option \<times> ('w, 'm) raft_node" where
  "StartElectionLocked I n0 =
     (let n = RecordElectionStarted n0 in
      if \<not> running n \<or> role n = kLeader then (None, n)
      else
        let n1 = n\<lparr>role := kCandidate, current_term := current_term n + 1, voted_for := node_id n,
                   leader_id := - 1\<rparr>
        in case PersistStateLocked I n1 of
             (Some _, n2) \<Rightarrow>
               (None, ResetElectionTimerLocked (n2\<lparr>role := role n, current_term := current_term n,
                         voted_for := voted_for n, leader_id := leader_id n\<rparr>))
           | (None, n2) \<Rightarrow>
               (Some \<lparr>el_term = current_term n2, el_last_log_index = LastLogIndexLocked n2,
                      el_last_log_term = LastLogTermLocked n2,
                      el_quorum = int (majority n2), el_votes = 1, el_won = False\<rparr>,
                ResetElectionTimerLocked n2))"

definition OnElectionTimeout_guard :: "u64 \<Rightarrow> ('w, 'm) raft_node \<Rightarrow> bool \<times> ('w, 'm) raft_node" where
  "OnElectionTimeout_guard timer_generation n =
     (if \<not> running n \<or> timer_generation \<noteq> election_timer_generation (timers n) \<or> role n = kLeader
      then (False, n)
      else (True, n\<lparr>timers := (timers n)\<lparr>election_timer_id := None\<rparr>\<rparr>))"

definition OnElectionTimeout ::
    "('w, 'm) interfaces \<Rightarrow> u64 \<Rightarrow> ('w, 'm) raft_node \<Rightarrow> election option \<times> ('w, 'm) raft_node" where
  "OnElectionTimeout I timer_generation n =
     (let (go, n1) = OnElectionTimeout_guard timer_generation n
      in if go then StartElectionLocked I n1 else (None, n1))"

definition election_request :: "election \<Rightarrow> ('w, 'm) raft_node \<Rightarrow> VoteRequest" where
  "election_request e n = \<lparr>vq_term = el_term e, candidate_id = node_id n,
     vq_last_log_index = el_last_log_index e, vq_last_log_term = el_last_log_term e\<rparr>"

text \<open>
  The stub's answer is supplied by the transport: \<open>None\<close> stands for a failed call. There is a
  client for every configured peer and for no other id.
\<close>

definition RequestVoteRpc ::
    "VoteResponse option \<Rightarrow> int \<Rightarrow> int \<Rightarrow> ('w, 'm) raft_node \<Rightarrow> VoteResponse option \<times> ('w, 'm) raft_node" where
  "RequestVoteRpc answer latency pid n =
     (if pid \<notin> peer_id ` set (peers n) then (None, n)
      else (answer, RecordRpcLatency kRequestVote (answer \<noteq> None) latency n))"

text \<open>The callback of one peer after its answer arrived; the last component asks for
  \<^verbatim>\<open>OnElectionWon\<close>.\<close>

definition vote_reply ::
    "('w, 'm) interfaces \<Rightarrow> election \<Rightarrow> VoteResponse \<Rightarrow> ('w, 'm) raft_node
      \<Rightarrow> bool \<times> election \<times> ('w, 'm) raft_node" where
  "vote_reply I e response n =
     (if \<not> running n then (False, e, n)
      else if vs_term response > current_term n
      then (False, e, snd (BecomeFollowerLocked I (vs_term response) (- 1) n))
      else if role n \<noteq> kCandidate \<or> current_term n \<noteq> el_term e then (False, e, n)
      else if \<not> vote_granted response then (False, e, n)
      else let total = el_votes e + 1; e1 = e\<lparr>el_votes := total\<rparr>
           in if total \<ge> el_quorum e1 \<and> \<not> el_won e1
              then (True, e1\<lparr>el_won := True\<rparr>, n) else (False, e1, n))"

text \<open>The locked part of \<^verbatim>\<open>OnElectionWon\<close>; the result says whether the node became leader.\<close>

definition OnElectionWonLocked :: "u64 \<Rightarrow> ('w, 'm) raft_node \<Rightarrow> bool \<times> ('w, 'm) raft_node" where
  "OnElectionWonLocked term n =
     (if \<not> running n \<or> role n \<noteq> kCandidate \<or> current_term n \<noteq> term then (False, n)
      else (True, BecomeLeaderLocked n))"

definition OnSnapshotTimer :: "('w, 'm) raft_node \<Rightarrow> ('w, 'm) raft_node" where
  [node_defs]: "OnSnapshotTimer n =
     (if \<not> running n then n
      else let n1 = MaybeScheduleSnapshotLocked True n
           in if running n1 then ResetSnapshotTimerLocked n1 else n1)"

section \<open>Terms and votes only move forward\<close>

text \<open>
  \<open>vote_le\<close> orders the hard state of a node in time: the term grows, and within a term a vote,
  once cast, is final. It is a preorder that every operation of the node respects.
\<close>

definition vote_le :: "('w, 'm) raft_node \<Rightarrow> ('w, 'm) raft_node \<Rightarrow> bool" where
  "vote_le n n' \<longleftrightarrow> current_term n < current_term n' \<or>
     (current_term n = current_term n' \<and> (voted_for n = - 1 \<or> voted_for n' = voted_for n))"

lemma vote_le_refl [simp]: "vote_le n n"
  by (simp add: vote_le_def)

lemma vote_le_trans: "vote_le a b \<Longrightarrow> vote_le b c \<Longrightarrow> vote_le a c"
  by (auto simp: vote_le_def)

lemma vote_le_same: "current_term n' = current_term n \<Longrightarrow> voted_for n' = voted_for n \<Longrightarrow> vote_le n n'"
  by (simp add: vote_le_def)

lemma vote_le_BecomeFollower: "vote_le n (snd (BecomeFollowerLocked I t l n))"
  by (auto simp: vote_le_def max_def)

lemma vote_le_final:
  assumes "vote_le n n'" and "current_term n = t" and "voted_for n = c" and "c \<noteq> - 1"
    and "current_term n' = t"
  shows "voted_for n' = c"
  using assms by (auto simp: vote_le_def)

lemma OnRequestVote_frame [simp]:
  shows "config (snd (OnRequestVote I q n)) = config n"
    "log (snd (OnRequestVote I q n)) = log n"
    "commit_index (snd (OnRequestVote I q n)) = commit_index n"
    "last_applied (snd (OnRequestVote I q n)) = last_applied n"
    "last_snapshot_index (snd (OnRequestVote I q n)) = last_snapshot_index n"
    "last_snapshot_term (snd (OnRequestVote I q n)) = last_snapshot_term n"
    "running (snd (OnRequestVote I q n)) = running n"
    "state_machine (snd (OnRequestVote I q n)) = state_machine n"
  by (simp_all add: OnRequestVote_def node_defs Let_def split_def split: option.split)

lemma vote_le_OnRequestVote: "vote_le n (snd (OnRequestVote I q n))"
  by (auto simp: OnRequestVote_def vote_le_def max_def node_defs Let_def split_def split: option.split)

text \<open>A vote is granted in the request's own term, to the requesting candidate, and only after the
  storage accepted it.\<close>

lemma OnRequestVote_granted:
  assumes "vote_granted (fst (OnRequestVote I q n))"
  shows "current_term (snd (OnRequestVote I q n)) = vq_term q"
    and "voted_for (snd (OnRequestVote I q n)) = candidate_id q"
    and "vs_term (fst (OnRequestVote I q n)) = vq_term q"
    and "current_term n \<le> vq_term q"
    and "IsCandidateLogUpToDateLocked (vq_last_log_index q) (vq_last_log_term q) n"
proof -
  have up: "IsCandidateLogUpToDateLocked i t (snd (BecomeFollowerLocked I u l n))
      = IsCandidateLogUpToDateLocked i t n" for i t u l
    by (simp add: IsCandidateLogUpToDateLocked_def LastLogTermLocked_def LastLogIndexLocked_def)
  show "current_term (snd (OnRequestVote I q n)) = vq_term q"
    "voted_for (snd (OnRequestVote I q n)) = candidate_id q"
    "vs_term (fst (OnRequestVote I q n)) = vq_term q"
    "current_term n \<le> vq_term q"
    "IsCandidateLogUpToDateLocked (vq_last_log_index q) (vq_last_log_term q) n"
    using assms
    by (auto simp: OnRequestVote_def node_defs Let_def split_def max_def up split: option.splits if_splits)
qed

lemma UpToDate_BecomeFollower [simp]:
  "IsCandidateLogUpToDateLocked i t (snd (BecomeFollowerLocked I u l n)) = IsCandidateLogUpToDateLocked i t n"
  by (simp add: IsCandidateLogUpToDateLocked_def LastLogTermLocked_def LastLogIndexLocked_def)

text \<open>The node as the vote handler has it when it comes to record the vote.\<close>

definition voting_node ::
    "('w, 'm) interfaces \<Rightarrow> VoteRequest \<Rightarrow> ('w, 'm) raft_node \<Rightarrow> ('w, 'm) raft_node" where
  "voting_node I q n = (if current_term n < vq_term q
     then snd (BecomeFollowerLocked I (vq_term q) (- 1) n) else n)\<lparr>voted_for := candidate_id q\<rparr>"

lemma OnRequestVote_granted_iff:
  "vote_granted (fst (OnRequestVote I q n)) \<longleftrightarrow>
     current_term n \<le> vq_term q \<and>
     IsCandidateLogUpToDateLocked (vq_last_log_index q) (vq_last_log_term q) n \<and>
     (current_term n < vq_term q \<or> voted_for n = - 1 \<or> voted_for n = candidate_id q) \<and>
     (vq_term q \<le> current_term n \<or> fst (BecomeFollowerLocked I (vq_term q) (- 1) n)) \<and>
     fst (PersistStateLocked I (voting_node I q n)) = None"
proof (cases "vq_term q < current_term n")
  case True
  then have "\<not> current_term n \<le> vq_term q" by simp
  with True show ?thesis by (simp add: OnRequestVote_def)
next
  case False
  then have le: "current_term n \<le> vq_term q" by simp
  show ?thesis
  proof (cases "current_term n < vq_term q")
    case True
    then have "\<not> vq_term q \<le> current_term n" by simp
    with True False le show ?thesis
      by (simp add: OnRequestVote_def voting_node_def Let_def split_def split: option.split)
  next
    case eq: False
    then have "vq_term q \<le> current_term n" by simp
    with False eq le show ?thesis
      by (auto simp: OnRequestVote_def voting_node_def Let_def split_def split: option.split)
  qed
qed

lemma OnRequestVote_granted_disk:
  assumes "vote_granted (fst (OnRequestVote I q n))"
  shows "storage_Save I (persistent_state (voting_node I q n)) (disk (voting_node I q n))
    = (Inr (), disk (snd (OnRequestVote I q n)))"
proof -
  have ok: "fst (PersistStateLocked I (voting_node I q n)) = None"
    using assms by (simp add: OnRequestVote_granted_iff)
  then have "fst (storage_Save I (persistent_state (voting_node I q n)) (disk (voting_node I q n))) = Inr ()"
    by (simp add: Persist_ok_iff)
  moreover have "snd (OnRequestVote I q n)
      = ResetElectionTimerLocked (snd (PersistStateLocked I (voting_node I q n)))"
    using assms
    by (auto simp: OnRequestVote_def voting_node_def Let_def split_def split: option.splits if_splits)
  ultimately show ?thesis by (simp add: node_defs prod_eq_iff)
qed

lemma voting_node_persistent:
  "current_term n \<le> vq_term q \<Longrightarrow> ps_current_term (persistent_state (voting_node I q n)) = vq_term q"
  "ps_voted_for (persistent_state (voting_node I q n)) = candidate_id q"
  "ps_log (persistent_state (voting_node I q n)) = log n"
  by (auto simp: voting_node_def persistent_state_def max_def)

lemma OnRequestVote_role:
  "role (snd (OnRequestVote I q n)) =
     (if vq_term q > current_term n then kFollower else role n)"
  by (auto simp: OnRequestVote_def node_defs Let_def split_def split: option.split)

lemma StartElection_frame [simp]:
  shows "config (snd (StartElectionLocked I n)) = config n"
    "log (snd (StartElectionLocked I n)) = log n"
    "commit_index (snd (StartElectionLocked I n)) = commit_index n"
    "last_applied (snd (StartElectionLocked I n)) = last_applied n"
    "last_snapshot_index (snd (StartElectionLocked I n)) = last_snapshot_index n"
    "last_snapshot_term (snd (StartElectionLocked I n)) = last_snapshot_term n"
    "running (snd (StartElectionLocked I n)) = running n"
    "state_machine (snd (StartElectionLocked I n)) = state_machine n"
  by (simp_all add: StartElectionLocked_def node_defs Let_def split_def split: option.split)

lemma StartElection_Some:
  assumes "StartElectionLocked I n = (Some e, n')"
  shows "current_term n' = current_term n + 1" and "voted_for n' = node_id n"
    and "role n' = kCandidate" and "el_term e = current_term n + 1" and "el_votes e = 1"
    and "\<not> el_won e" and "el_quorum e = int (majority n)"
    and "role n \<noteq> kLeader" and "running n"
    and "el_last_log_index e = LastLogIndexLocked n" and "el_last_log_term e = LastLogTermLocked n"
  using assms
  by (auto simp: StartElectionLocked_def node_defs Let_def split_def majority_def LastLogIndexLocked_def
      LastLogTermLocked_def split: option.splits if_splits)

lemma StartElection_None:
  assumes "StartElectionLocked I n = (None, n')"
  shows "current_term n' = current_term n" and "voted_for n' = voted_for n" and "role n' = role n"
  using assms
  by (auto simp: StartElectionLocked_def node_defs Let_def split_def split: option.splits if_splits)

lemma vote_le_StartElection:
  assumes "current_term n \<noteq> - 1"
  shows "vote_le n (snd (StartElectionLocked I n))"
proof (cases "StartElectionLocked I n")
  case (Pair eo n')
  have "current_term n < current_term n + 1"
    using assms unat_SafeAddOne [of "current_term n"] unat_le_u64_max [of "current_term n"]
    by (metis SafeAddOne_def le_SafeAddOne order_le_less add_cancel_right_right one_neq_zero)
  with Pair StartElection_Some [of I n _ n'] StartElection_None [of I n n'] show ?thesis
    by (cases eo) (auto simp: vote_le_def)
qed

lemma vote_le_vote_reply: "vote_le n (snd (snd (vote_reply I e r n)))"
  by (auto simp: vote_reply_def Let_def vote_le_BecomeFollower)

lemma vote_reply_count:
  "el_votes (fst (snd (vote_reply I e r n))) =
     (if running n \<and> vs_term r \<le> current_term n \<and> role n = kCandidate \<and> current_term n = el_term e
         \<and> vote_granted r then el_votes e + 1 else el_votes e)"
  by (auto simp: vote_reply_def Let_def not_less)

lemma vote_reply_won:
  assumes "fst (vote_reply I e r n)"
  shows "el_quorum e \<le> el_votes (fst (snd (vote_reply I e r n)))" and "\<not> el_won e"
    and "el_won (fst (snd (vote_reply I e r n)))" and "vote_granted r"
  using assms by (auto simp: vote_reply_def Let_def split: if_splits)

lemma vote_le_OnElectionWon: "vote_le n (snd (OnElectionWonLocked t n))"
  by (auto simp: OnElectionWonLocked_def vote_le_def)

end
