(* ===== verification/AppendEntries.thy ===== *)
theory AppendEntries
  imports Vote
begin

text \<open>
  The follower's side of log replication: \<^verbatim>\<open>RaftNode::OnAppendEntries\<close> (\<^verbatim>\<open>raft_node.cpp\<close>, lines 1329 to
  1491). The loop over the request's entries carries the copy of the old log that a failed save
  restores, the flag \<^verbatim>\<open>log_changed\<close> and the running \<^verbatim>\<open>match_index\<close>. The handler is compared with a
  reference merge of two record lists, and is shown to keep the log well formed for every request.
\<close>

section \<open>Definitions\<close>

record append_state =
  old_log :: "LogRecord list option"
  log_changed :: bool
  run_match :: u64

definition record_of_entry :: "LogEntry \<Rightarrow> LogRecord" where
  "record_of_entry e = \<lparr>lr_index = le_index e, lr_term = le_term e, lr_command = le_command e\<rparr>"

text \<open>\<open>push_entry\<close> is the tail of the loop's body, reached unless the entry is already present.\<close>

definition push_entry ::
    "LogEntry \<Rightarrow> append_state \<Rightarrow> ('w, 'm) raft_node \<Rightarrow> append_state \<times> ('w, 'm) raft_node" where
  "push_entry e st n =
     (st\<lparr>old_log := (case old_log st of None \<Rightarrow> Some (log n) | Some l \<Rightarrow> Some l),
         log_changed := True, run_match := le_index e\<rparr>,
      n\<lparr>log := log n @ [record_of_entry e]\<rparr>)"

text \<open>One entry: \<open>Inl probe\<close> leaves the handler because of a gap, with the index to hint at.\<close>

definition append_entry ::
    "LogEntry \<Rightarrow> append_state \<Rightarrow> ('w, 'm) raft_node \<Rightarrow> (u64 + append_state) \<times> ('w, 'm) raft_node" where
  "append_entry e st n =
     (if le_index e \<le> last_snapshot_index n
      then (Inr (st\<lparr>run_match := max (run_match st) (le_index e)\<rparr>), n)
      else if le_index e > SafeAddOne (LastLogIndexLocked n)
      then (Inl (le_index e - 1), n)
      else if HasLogAtIndexLocked (le_index e) n
      then let offset = LogOffsetLocked (le_index e) n in
           if lr_term (log n ! offset) \<noteq> le_term e
           then let st1 = st\<lparr>old_log := (case old_log st of None \<Rightarrow> Some (log n) | Some l \<Rightarrow> Some l),
                             log_changed := True\<rparr>;
                    (st2, n2) = push_entry e st1 (n\<lparr>log := take offset (log n)\<rparr>)
                in (Inr st2, n2)
           else (Inr (st\<lparr>run_match := le_index e\<rparr>), n)
      else let (st2, n2) = push_entry e st n in (Inr st2, n2))"

fun append_loop ::
    "LogEntry list \<Rightarrow> append_state \<Rightarrow> ('w, 'm) raft_node \<Rightarrow> (u64 + append_state) \<times> ('w, 'm) raft_node" where
  "append_loop [] st n = (Inr st, n)"
| "append_loop (e # es) st n =
     (case append_entry e st n of
        (Inl probe, n1) \<Rightarrow> (Inl probe, n1)
      | (Inr st1, n1) \<Rightarrow> append_loop es st1 n1)"

text \<open>The handler's last part: the commit index. The middle component is \<^verbatim>\<open>should_apply\<close>.\<close>

definition append_commit ::
    "('w, 'm) interfaces \<Rightarrow> AppendEntriesRequest \<Rightarrow> u64 \<Rightarrow> AppendEntriesResponse \<Rightarrow> ('w, 'm) raft_node
      \<Rightarrow> AppendEntriesResponse \<times> bool \<times> ('w, 'm) raft_node" where
  "append_commit I request match response n =
     (let new_commit = min (leader_commit request) (LastLogIndexLocked n);
          finish = (\<lambda>ok m. response\<lparr>as_term := current_term m, as_success := ok,
                      as_match_index := match, as_last_log_index := LastLogIndexLocked m\<rparr>)
      in if leader_commit request > commit_index n \<and> new_commit > commit_index n
         then case PersistStateLocked I (n\<lparr>commit_index := new_commit\<rparr>) of
                (Some _, n1) \<Rightarrow>
                  (let n2 = n1\<lparr>commit_index := commit_index n\<rparr> in (finish False n2, False, n2))
              | (None, n1) \<Rightarrow> (finish True n1, True, n1)
         else (finish True n, False, n))"

text \<open>The part between the consistency check and the commit index: merge and persist the entries.\<close>

definition append_merge ::
    "('w, 'm) interfaces \<Rightarrow> AppendEntriesRequest \<Rightarrow> AppendEntriesResponse \<Rightarrow> ('w, 'm) raft_node
      \<Rightarrow> AppendEntriesResponse \<times> bool \<times> ('w, 'm) raft_node" where
  "append_merge I request response n =
     (case append_loop (entries request)
             \<lparr>old_log = None, log_changed = False, run_match = prev_log_index request\<rparr> n of
        (Inl probe, n1) \<Rightarrow>
          (SetAppendEntriesConflictHintLocked probe n1 (response\<lparr>as_term := current_term n1\<rparr>), False, n1)
      | (Inr st, n1) \<Rightarrow>
          if log_changed st
          then case PersistStateLocked I n1 of
                 (Some _, n2) \<Rightarrow>
                   (let n3 = (case old_log st of None \<Rightarrow> n2 | Some l \<Rightarrow> n2\<lparr>log := l\<rparr>)
                    in (response\<lparr>as_term := current_term n3, as_success := False,
                          as_match_index := run_match st,
                          as_last_log_index := LastLogIndexLocked n3\<rparr>, False, n3))
               | (None, n2) \<Rightarrow> append_commit I request (run_match st) response n2
          else append_commit I request (run_match st) response n1)"

text \<open>The consistency check on the record before the entries.\<close>

definition prev_ok :: "AppendEntriesRequest \<Rightarrow> ('w, 'm) raft_node \<Rightarrow> bool" where
  "prev_ok request n \<longleftrightarrow> \<not> prev_log_index request < last_snapshot_index n \<and>
     HasLogAtIndexLocked (prev_log_index request) n \<and>
     TermAtIndexLocked (prev_log_index request) n = prev_log_term request"

definition append_follow ::
    "('w, 'm) interfaces \<Rightarrow> AppendEntriesRequest \<Rightarrow> ('w, 'm) raft_node \<Rightarrow> bool \<times> ('w, 'm) raft_node" where
  "append_follow I request n =
     (if aq_term request > current_term n \<or> role n \<noteq> kFollower \<or> leader_id n \<noteq> aq_leader_id request
      then BecomeFollowerLocked I (aq_term request) (aq_leader_id request) n
      else (True, ResetElectionTimerLocked (n\<lparr>leader_id := aq_leader_id request\<rparr>)))"

definition OnAppendEntriesLocked ::
    "('w, 'm) interfaces \<Rightarrow> AppendEntriesRequest \<Rightarrow> ('w, 'm) raft_node
      \<Rightarrow> AppendEntriesResponse \<times> bool \<times> ('w, 'm) raft_node" where
  "OnAppendEntriesLocked I request n =
     (let response = \<lparr>as_term = current_term n, as_success = False,
            as_match_index = last_snapshot_index n, as_last_log_index = LastLogIndexLocked n,
            conflict_index = 0, conflict_term = 0\<rparr>
      in if aq_term request < current_term n then (response, False, n)
         else let (followed, n1) = append_follow I request n
              in if \<not> followed
                 then (response\<lparr>as_term := current_term n1,
                               as_last_log_index := LastLogIndexLocked n1\<rparr>, False, n1)
                 else if \<not> prev_ok request n1
                 then (SetAppendEntriesConflictHintLocked (prev_log_index request) n1
                         (response\<lparr>as_term := current_term n1\<rparr>), False, n1)
                 else append_merge I request response n1)"

definition OnAppendEntries ::
    "('w, 'm) interfaces \<Rightarrow> AppendEntriesRequest \<Rightarrow> ('w, 'm) raft_node
      \<Rightarrow> AppendEntriesResponse \<times> ('w, 'm) raft_node" where
  "OnAppendEntries I request n =
     (let (response, should_apply, n1) = OnAppendEntriesLocked I request n
      in (response, if should_apply then snd (ApplyCommittedEntries I n1) else n1))"

section \<open>Any request keeps the log well formed\<close>

definition log_frame :: "('w, 'm) raft_node \<Rightarrow> ('w, 'm) raft_node \<Rightarrow> bool" where
  "log_frame n n' \<longleftrightarrow> (\<exists>l. n' = n\<lparr>log := l\<rparr>)"

lemma log_frame_refl: "log_frame n n"
  unfolding log_frame_def by (rule exI [of _ "log n"]) simp

lemma log_frame_upd: "log_frame n (n\<lparr>log := l\<rparr>)"
  unfolding log_frame_def by blast

lemma log_frame_trans: "log_frame a b \<Longrightarrow> log_frame b c \<Longrightarrow> log_frame a c"
  unfolding log_frame_def by auto

lemma log_frame_fields:
  assumes "log_frame n n'"
  shows "config n' = config n"
    "snapshot_config n' = snapshot_config n"
    "role n' = role n"
    "current_term n' = current_term n"
    "voted_for n' = voted_for n"
    "leader_id n' = leader_id n"
    "commit_index n' = commit_index n"
    "last_applied n' = last_applied n"
    "last_snapshot_index n' = last_snapshot_index n"
    "last_snapshot_term n' = last_snapshot_term n"
    "next_index n' = next_index n"
    "match_index n' = match_index n"
    "replicators n' = replicators n"
    "running n' = running n"
    "state_machine n' = state_machine n"
    "disk n' = disk n"
    "timers n' = timers n"
    "metrics n' = metrics n"
    "snapshot_worker n' = snapshot_worker n"
  using assms by (auto simp: log_frame_def)

lemma append_entry_frame: "log_frame n (snd (append_entry e st n))"
  by (simp add: append_entry_def push_entry_def Let_def log_frame_refl log_frame_upd)

lemma append_loop_frame: "log_frame n (snd (append_loop es st n))"
proof (induction es arbitrary: st n)
  case Nil
  show ?case by (simp add: log_frame_refl)
next
  case (Cons e es)
  obtain x n1 where e: "append_entry e st n = (x, n1)" by fastforce
  with append_entry_frame [of n e st] have n1: "log_frame n n1" by simp
  with e Cons.IH [of n1] show ?case by (cases x) (auto intro: log_frame_trans)
qed

lemma log_wf_take_push:
  assumes wf: "log_wf n" and k: "0 < k" "k \<le> length (log n)"
    and i: "unat (lr_index r) = unat (last_snapshot_index n) + k"
  shows "log_wf (n\<lparr>log := take k (log n) @ [r]\<rparr>)"
proof -
  note lw = log_wfD [OF wf]
  have ne: "take k (log n) \<noteq> []" using k lw(1) by simp
  have tk: "consecutive (take k (log n))" by (rule consecutive_take [OF lw(2)])
  have "unat (lr_index (last (take k (log n)))) = unat (last_snapshot_index n) + (k - 1)"
    using consecutive_last [OF tk ne] k lw(3) by (simp add: hd_take_pos)
  with i k have "consecutive (take k (log n) @ [r])"
    by (intro consecutive_snoc [OF tk ne]) simp
  with lw ne k show ?thesis by (simp add: log_wf_def hd_append hd_take_pos)
qed

lemma log_wf_push_entry:
  assumes wf: "log_wf n" and new: "last_snapshot_index n < le_index e"
    and le: "le_index e \<le> SafeAddOne (LastLogIndexLocked n)"
  shows "log_wf (snd (append_entry e st n))"
proof -
  have le': "\<not> le_index e \<le> last_snapshot_index n" "\<not> le_index e > SafeAddOne (LastLogIndexLocked n)"
    using new le by auto
  show ?thesis
  proof (cases "HasLogAtIndexLocked (le_index e) n")
    case True
    note off = HasLog_offset [OF log_wfD(2) [OF wf] True]
    have "log_wf (n\<lparr>log := take (LogOffsetLocked (le_index e) n) (log n) @ [record_of_entry e]\<rparr>)"
      using off new log_wfD(3) [OF wf]
      by (intro log_wf_take_push [OF wf]) (auto simp: record_of_entry_def u64_simps)
    with True le' wf show ?thesis
      by (simp add: append_entry_def push_entry_def Let_def)
  next
    case False
    then have gt: "LastLogIndexLocked n < le_index e" using wf new by (auto simp: log_wf_HasLog)
    then have "unat (le_index e) = Suc (unat (LastLogIndexLocked n))"
      using le SafeAddOne_eq_Suc [OF gt] by (simp add: u64_simps)
    then have "log_wf (n\<lparr>log := take (length (log n)) (log n) @ [record_of_entry e]\<rparr>)"
      using log_wf_last [OF wf] log_wfD(1) [OF wf]
      by (intro log_wf_take_push [OF wf]) (auto simp: record_of_entry_def Suc_le_eq)
    with False le' wf show ?thesis by (simp add: append_entry_def push_entry_def Let_def)
  qed
qed

lemma log_wf_append_entry:
  assumes "log_wf n"
  shows "log_wf (snd (append_entry e st n))"
proof (cases "last_snapshot_index n < le_index e \<and> le_index e \<le> SafeAddOne (LastLogIndexLocked n)")
  case True
  with assms show ?thesis by (simp add: log_wf_push_entry)
next
  case False
  with assms show ?thesis by (auto simp: append_entry_def not_less not_le)
qed

lemma log_wf_append_loop: "log_wf n \<Longrightarrow> log_wf (snd (append_loop es st n))"
proof (induction es arbitrary: st n)
  case (Cons e es)
  note one = log_wf_append_entry [OF Cons.prems, of e st]
  obtain x n1 where e: "append_entry e st n = (x, n1)" by fastforce
  with one Cons.IH [of n1] show ?case by (cases x) auto
qed simp

text \<open>The saved copy is the log as it was on entry, so a failed save restores exactly that.\<close>

definition rollback_to :: "LogRecord list \<Rightarrow> append_state \<Rightarrow> ('w, 'm) raft_node \<Rightarrow> bool" where
  "rollback_to l st n \<longleftrightarrow>
     (if log_changed st then old_log st = Some l else old_log st = None \<and> log n = l)"

lemma rollback_append_entry:
  assumes "rollback_to l st n" and "append_entry e st n = (Inr st', n')"
  shows "rollback_to l st' n'"
  using assms
  by (auto simp: append_entry_def push_entry_def rollback_to_def Let_def split: if_splits)

lemma rollback_append_loop:
  "rollback_to l st n \<Longrightarrow> append_loop es st n = (Inr st', n') \<Longrightarrow> rollback_to l st' n'"
proof (induction es arbitrary: st n)
  case (Cons e es)
  then obtain st1 n1 where e: "append_entry e st n = (Inr st1, n1)"
    and r: "append_loop es st1 n1 = (Inr st', n')" by (auto split: prod.splits sum.splits)
  from rollback_append_entry [OF Cons.prems(1) e] r show ?case by (rule Cons.IH)
qed simp

lemma append_commit_frame:
  shows "config (snd (snd (append_commit I q m r n))) = config n"
    "current_term (snd (snd (append_commit I q m r n))) = current_term n"
    "voted_for (snd (snd (append_commit I q m r n))) = voted_for n"
    "role (snd (snd (append_commit I q m r n))) = role n"
    "log (snd (snd (append_commit I q m r n))) = log n"
    "last_applied (snd (snd (append_commit I q m r n))) = last_applied n"
    "last_snapshot_index (snd (snd (append_commit I q m r n))) = last_snapshot_index n"
    "last_snapshot_term (snd (snd (append_commit I q m r n))) = last_snapshot_term n"
    "running (snd (snd (append_commit I q m r n))) = running n"
    "state_machine (snd (snd (append_commit I q m r n))) = state_machine n"
  by (simp_all add: append_commit_def Let_def split_def split: option.split)

lemma append_merge_frame:
  shows "config (snd (snd (append_merge I q r n))) = config n"
    "current_term (snd (snd (append_merge I q r n))) = current_term n"
    "voted_for (snd (snd (append_merge I q r n))) = voted_for n"
    "role (snd (snd (append_merge I q r n))) = role n"
    "last_applied (snd (snd (append_merge I q r n))) = last_applied n"
    "last_snapshot_index (snd (snd (append_merge I q r n))) = last_snapshot_index n"
    "last_snapshot_term (snd (snd (append_merge I q r n))) = last_snapshot_term n"
    "running (snd (snd (append_merge I q r n))) = running n"
    "state_machine (snd (snd (append_merge I q r n))) = state_machine n"
  using log_frame_fields [OF append_loop_frame [of n "entries q" "\<lparr>old_log = None, log_changed = False, run_match = prev_log_index q\<rparr>"]]
  by (simp_all add: append_merge_def append_commit_frame Let_def split_def split: sum.split option.split)

lemma append_follow_frame [simp]:
  shows "config (snd (append_follow I q n)) = config n"
    "log (snd (append_follow I q n)) = log n"
    "commit_index (snd (append_follow I q n)) = commit_index n"
    "last_applied (snd (append_follow I q n)) = last_applied n"
    "last_snapshot_index (snd (append_follow I q n)) = last_snapshot_index n"
    "last_snapshot_term (snd (append_follow I q n)) = last_snapshot_term n"
    "running (snd (append_follow I q n)) = running n"
    "state_machine (snd (append_follow I q n)) = state_machine n"
  by (simp_all add: append_follow_def node_defs)

lemma append_follow_fields:
  "role (snd (append_follow I q n)) = kFollower"
  "leader_id (snd (append_follow I q n)) = aq_leader_id q"
  "current_term n \<le> aq_term q \<Longrightarrow> current_term (snd (append_follow I q n)) = aq_term q \<or>
     current_term (snd (append_follow I q n)) = current_term n"
  "vote_le n (snd (append_follow I q n))"
  by (auto simp: append_follow_def node_defs max_def vote_le_def)

lemma log_wf_append_merge:
  assumes "log_wf n"
  shows "log_wf (snd (snd (append_merge I q r n)))"
proof -
  let ?st = "\<lparr>old_log = None, log_changed = False, run_match = prev_log_index q\<rparr>"
  obtain x n1 where l: "append_loop (entries q) ?st n = (x, n1)" by fastforce
  have wf1: "log_wf n1" using log_wf_append_loop [OF assms, of "entries q" ?st] l by simp
  note fr = log_frame_fields [OF append_loop_frame [of n "entries q" ?st], unfolded l snd_conv]
  show ?thesis
  proof (cases x)
    case (Inl p)
    with l wf1 show ?thesis by (simp add: append_merge_def)
  next
    case (Inr st)
    have "rollback_to (log n) ?st n" by (simp add: rollback_to_def)
    with l Inr have "rollback_to (log n) st n1" by (metis rollback_append_loop)
    then have old: "log_changed st \<Longrightarrow> old_log st = Some (log n)" by (simp add: rollback_to_def)
    have "log_wf (snd (snd (append_commit I q m r n')))" if "log_wf n'" for m n'
      using that by (simp add: log_wf_def append_commit_frame)
    moreover have "log_wf (snd (PersistStateLocked I n1))" using wf1 by (simp add: log_wf_def)
    moreover have "log_wf ((snd (PersistStateLocked I n1))\<lparr>log := log n\<rparr>)"
      using assms by (simp add: log_wf_def fr)
    ultimately show ?thesis using l Inr wf1 old
      by (simp add: append_merge_def Let_def split_def split: option.split)
  qed
qed

lemma log_wf_OnAppendEntriesLocked:
  assumes "log_wf n"
  shows "log_wf (snd (snd (OnAppendEntriesLocked I q n)))"
proof -
  have "log_wf (snd (append_follow I q n))" using assms by (simp add: log_wf_def)
  with assms show ?thesis
    by (simp add: OnAppendEntriesLocked_def Let_def split_def log_wf_append_merge)
qed

lemma log_wf_OnAppendEntries:
  "log_wf n \<Longrightarrow> log_wf (snd (OnAppendEntries I q n))"
  using log_wf_OnAppendEntriesLocked [of n I q]
  by (simp add: OnAppendEntries_def Let_def split_def log_wf_def)

section \<open>The reference merge\<close>

text \<open>
  What the handler should do to the records after the matching point: keep the records that agree
  with the request, and from the first disagreement on take the request's entries.
\<close>

fun merge_records :: "LogRecord list \<Rightarrow> LogRecord list \<Rightarrow> LogRecord list" where
  "merge_records ls [] = ls"
| "merge_records [] es = es"
| "merge_records (l # ls) (e # es) =
     (if lr_term l = lr_term e then l # merge_records ls es else e # es)"

lemma merge_records_Nil [simp]: "merge_records [] es = es"
  by (cases es) auto

definition entries_after :: "u64 \<Rightarrow> LogEntry list \<Rightarrow> bool" where
  "entries_after i es \<longleftrightarrow> (\<forall>k < length es. unat (le_index (es ! k)) = unat i + Suc k)"

lemma entries_after_Cons:
  "entries_after i (e # es) \<longleftrightarrow> unat (le_index e) = Suc (unat i) \<and> entries_after (le_index e) es"
  unfolding entries_after_def by (force simp: nth_Cons' less_Suc_eq_0_disj all_conj_distrib)

lemma entries_after_Nil [simp]: "entries_after i []"
  by (simp add: entries_after_def)

lemma append_loop_merge:
  assumes "log_wf n" and "entries_after i es"
    and "last_snapshot_index n \<le> i" and "i \<le> LastLogIndexLocked n" and "run_match st = i"
  shows "\<exists>st'. append_loop es st n = (Inr st', n\<lparr>log :=
      take (Suc (unat i - unat (last_snapshot_index n))) (log n)
      @ merge_records (drop (Suc (unat i - unat (last_snapshot_index n))) (log n))
          (map record_of_entry es)\<rparr>) \<and>
    run_match st' = (if es = [] then i else le_index (last es))"
  using assms
proof (induction es arbitrary: st n i)
  case Nil
  then show ?case by simp
next
  case (Cons e es)
  let ?s = "last_snapshot_index n" and ?k = "Suc (unat i - unat (last_snapshot_index n))"
  have ei: "unat (le_index e) = Suc (unat i)" and es: "entries_after (le_index e) es"
    using Cons.prems(2) by (simp_all add: entries_after_Cons)
  have k: "unat (le_index e) - unat ?s = ?k" "0 < ?k" "unat (le_index e) = unat ?s + ?k"
    using ei Cons.prems(3) by (auto simp: u64_simps)
  have new: "?s < le_index e" using ei Cons.prems(3) by (simp add: u64_simps)
  then have old: "\<not> le_index e \<le> ?s" by simp
  have gt: "i < le_index e" using ei by (simp add: u64_simps)
  have nogap: "\<not> SafeAddOne (LastLogIndexLocked n) < le_index e"
    using SafeAddOne_mono [OF Cons.prems(4)] SafeAddOne_eq_Suc [OF gt] ei by (simp add: u64_simps)
  note lw = log_wfD [OF Cons.prems(1)]
  show ?case
  proof (cases "HasLogAtIndexLocked (le_index e) n")
    case True
    then have up: "le_index e \<le> LastLogIndexLocked n" using log_wf_HasLog [OF Cons.prems(1)] by simp
    note nth = log_wf_nth [OF Cons.prems(1) less_imp_le [OF new] up, unfolded k]
    have off: "LogOffsetLocked (le_index e) n = ?k"
      using HasLog_offset(3) [OF lw(2) True] lw(3) k by simp
    have dropk: "drop ?k (log n) = log n ! ?k # drop (Suc ?k) (log n)"
      using nth(2) by (simp add: Cons_nth_drop_Suc)
    show ?thesis
    proof (cases "lr_term (log n ! ?k) = le_term e")
      case same: True
      have step: "append_entry e st n = (Inr (st\<lparr>run_match := le_index e\<rparr>), n)"
        using True same off new nogap by (simp add: append_entry_def)
      from Cons.IH [OF Cons.prems(1) es less_imp_le [OF new] up, of "st\<lparr>run_match := le_index e\<rparr>"] k
      obtain st' where st': "append_loop es (st\<lparr>run_match := le_index e\<rparr>) n = (Inr st', n\<lparr>log :=
          take (Suc ?k) (log n) @ merge_records (drop (Suc ?k) (log n)) (map record_of_entry es)\<rparr>)"
        "run_match st' = (if es = [] then le_index e else le_index (last es))" by auto
      have "take ?k (log n) @ merge_records (drop ?k (log n)) (map record_of_entry (e # es))
          = take (Suc ?k) (log n) @ merge_records (drop (Suc ?k) (log n)) (map record_of_entry es)"
        using dropk same nth(2) by (simp add: record_of_entry_def take_Suc_conv_app_nth)
      with st' step show ?thesis by auto
    next
      case diff: False
      let ?n1 = "n\<lparr>log := take ?k (log n) @ [record_of_entry e]\<rparr>"
      have "\<exists>st1. append_entry e st n = (Inr st1, ?n1) \<and> run_match st1 = le_index e"
        using True diff off old nogap by (simp add: append_entry_def push_entry_def)
      then obtain st1 where step: "append_entry e st n = (Inr st1, ?n1)"
        and m: "run_match st1 = le_index e" by blast
      have wf1: "log_wf ?n1"
        using log_wf_push_entry [OF Cons.prems(1) new, of st] nogap step by simp
      have last1: "LastLogIndexLocked ?n1 = le_index e"
        by (simp add: LastLogIndexLocked_def record_of_entry_def)
      from Cons.IH [OF wf1 es, of st1] m less_imp_le [OF new] last1 k nth(2)
      obtain st' where "append_loop es st1 ?n1 = (Inr st', n\<lparr>log :=
          take ?k (log n) @ record_of_entry e # map record_of_entry es\<rparr>)"
        "run_match st' = (if es = [] then le_index e else le_index (last es))" by auto
      with step diff dropk show ?thesis by (auto simp: record_of_entry_def)
    qed
  next
    case False
    then have "LastLogIndexLocked n < le_index e"
      using new by (auto simp: log_wf_HasLog [OF Cons.prems(1)])
    with Cons.prems(4) ei have li: "LastLogIndexLocked n = i" by (simp add: u64_simps word_unat_eq_iff)
    have len: "?k = length (log n)"
      using log_wf_last [OF Cons.prems(1)] lw(1) li by (simp add: Suc_diff_le)
    let ?n1 = "n\<lparr>log := log n @ [record_of_entry e]\<rparr>"
    have "\<exists>st1. append_entry e st n = (Inr st1, ?n1) \<and> run_match st1 = le_index e"
      using False old nogap by (simp add: append_entry_def push_entry_def)
    then obtain st1 where step: "append_entry e st n = (Inr st1, ?n1)"
      and m: "run_match st1 = le_index e" by blast
    have wf1: "log_wf ?n1"
      using log_wf_push_entry [OF Cons.prems(1) new, of st] nogap step by simp
    have last1: "LastLogIndexLocked ?n1 = le_index e"
      by (simp add: LastLogIndexLocked_def record_of_entry_def)
    from Cons.IH [OF wf1 es, of st1] m less_imp_le [OF new] last1 k len
    obtain st' where "append_loop es st1 ?n1 = (Inr st', n\<lparr>log :=
        log n @ record_of_entry e # map record_of_entry es\<rparr>)"
      "run_match st' = (if es = [] then le_index e else le_index (last es))" by auto
    with step len show ?thesis by auto
  qed
qed

lemma merge_records_term:
  "j < length es \<Longrightarrow> j < length (merge_records ls es) \<and> lr_term (merge_records ls es ! j) = lr_term (es ! j)"
proof (induction ls es arbitrary: j rule: merge_records.induct)
  case (3 l ls e es)
  then show ?case by (cases j) auto
qed auto

lemma merge_records_take:
  assumes "c \<le> length ls" and "\<And>j. j < c \<Longrightarrow> j < length es \<Longrightarrow> lr_term (ls ! j) = lr_term (es ! j)"
  shows "take c (merge_records ls es) = take c ls"
  using assms
proof (induction ls es arbitrary: c rule: merge_records.induct)
  case (3 l ls e es)
  show ?case
  proof (cases c)
    case (Suc d)
    from "3.prems"(2) [of 0] Suc have eq: "lr_term l = lr_term e" by simp
    have "take d (merge_records ls es) = take d ls"
    proof (rule "3.IH" [OF eq])
      show "d \<le> length ls" using "3.prems"(1) Suc by simp
      fix j assume "j < d" "j < length es"
      with "3.prems"(2) [of "Suc j"] Suc show "lr_term (ls ! j) = lr_term (es ! j)" by simp
    qed
    with Suc eq show ?thesis by simp
  qed simp
qed auto

text \<open>The merged log of a request, as a function of the log before it.\<close>

definition merged_log :: "AppendEntriesRequest \<Rightarrow> ('w, 'm) raft_node \<Rightarrow> LogRecord list" where
  "merged_log q n =
     (let k = Suc (unat (prev_log_index q) - unat (last_snapshot_index n))
      in take k (log n) @ merge_records (drop k (log n)) (map record_of_entry (entries q)))"

lemma append_merge_cases:
  assumes wf: "log_wf n" and ea: "entries_after (prev_log_index q) (entries q)" and ok: "prev_ok q n"
    and r: "\<not> as_success r"
  shows "let (r', ap, n') = append_merge I q r n; m = merged_log q n in
    (as_success r' \<and> log n' = m \<and> as_match_index r' = (if entries q = [] then prev_log_index q else le_index (last (entries q)))
      \<and> commit_index n' = max (commit_index n) (min (leader_commit q) (lr_index (last m)))
      \<and> (ap \<longleftrightarrow> commit_index n < commit_index n'))
    \<or> (\<not> as_success r' \<and> (log n' = log n \<or> log n' = m) \<and> commit_index n' = commit_index n \<and> \<not> ap)"
proof -
  let ?st = "\<lparr>old_log = None, log_changed = False, run_match = prev_log_index q\<rparr>"
  from ok have b: "last_snapshot_index n \<le> prev_log_index q" "prev_log_index q \<le> LastLogIndexLocked n"
    using log_wf_HasLog [OF wf] by (auto simp: prev_ok_def)
  from append_loop_merge [OF wf ea b, of ?st]
  obtain st where l: "append_loop (entries q) ?st n = (Inr st, n\<lparr>log := merged_log q n\<rparr>)"
    and m: "run_match st = (if entries q = [] then prev_log_index q else le_index (last (entries q)))"
    by (auto simp: merged_log_def Let_def)
  have rb: "rollback_to (log n) st (n\<lparr>log := merged_log q n\<rparr>)"
    by (rule rollback_append_loop [OF _ l]) (simp add: rollback_to_def)
  have wfm: "log_wf (n\<lparr>log := merged_log q n\<rparr>)"
    using log_wf_append_loop [OF wf, of "entries q" ?st] l by simp
  then have ne: "merged_log q n \<noteq> []" using log_wfD(1) by fastforce
  have commit: "let (r', ap, n') = append_commit I q (run_match st) r n1 in
      (as_success r' \<and> log n' = merged_log q n \<and> as_match_index r' = run_match st
        \<and> commit_index n' = max (commit_index n) (min (leader_commit q) (lr_index (last (merged_log q n))))
        \<and> (ap \<longleftrightarrow> commit_index n < commit_index n'))
      \<or> (\<not> as_success r' \<and> log n' = merged_log q n \<and> commit_index n' = commit_index n \<and> \<not> ap)"
    if "log n1 = merged_log q n" "commit_index n1 = commit_index n" for n1
    using that ne
    by (auto simp: append_commit_def LastLogIndexLocked_def Let_def split_def max_def min_def not_less
        split: option.split)
  show ?thesis
  proof (cases "log_changed st")
    case True
    with rb have old: "old_log st = Some (log n)" by (simp add: rollback_to_def)
    show ?thesis
    proof (cases "fst (PersistStateLocked I (n\<lparr>log := merged_log q n\<rparr>))")
      case None
      let ?n1 = "snd (PersistStateLocked I (n\<lparr>log := merged_log q n\<rparr>))"
      have "append_merge I q r n = append_commit I q (run_match st) r ?n1"
        using True l None by (simp add: append_merge_def Let_def split_def)
      with commit [of ?n1] m show ?thesis by (simp only: Let_def split_def Persist_frame) auto
    next
      case (Some e)
      with True l old show ?thesis by (simp add: append_merge_def Let_def split_def)
    qed
  next
    case False
    let ?n1 = "n\<lparr>log := merged_log q n\<rparr>"
    have "append_merge I q r n = append_commit I q (run_match st) r ?n1"
      using False l by (simp add: append_merge_def Let_def split_def)
    with commit [of ?n1] m show ?thesis by (simp only: Let_def split_def) auto
  qed
qed

lemma merged_log_cong:
  "log n' = log n \<Longrightarrow> last_snapshot_index n' = last_snapshot_index n \<Longrightarrow> merged_log q n' = merged_log q n"
  by (simp add: merged_log_def)

lemma prev_ok_cong:
  "log n' = log n \<Longrightarrow> last_snapshot_index n' = last_snapshot_index n \<Longrightarrow>
   last_snapshot_term n' = last_snapshot_term n \<Longrightarrow> prev_ok q n' = prev_ok q n"
  by (simp add: prev_ok_def HasLogAtIndexLocked_def TermAtIndexLocked_def LogAtIndexLocked_def LogOffsetLocked_def)

lemma OnAppendEntriesLocked_cases:
  assumes wf: "log_wf n" and ea: "entries_after (prev_log_index q) (entries q)"
  shows "let (r, ap, n') = OnAppendEntriesLocked I q n; m = merged_log q n in
    (as_success r \<and> current_term n \<le> aq_term q \<and> prev_ok q n \<and> log n' = m
      \<and> as_match_index r = (if entries q = [] then prev_log_index q else le_index (last (entries q)))
      \<and> commit_index n' = max (commit_index n) (min (leader_commit q) (lr_index (last m)))
      \<and> (ap \<longleftrightarrow> commit_index n < commit_index n'))
    \<or> (\<not> as_success r \<and> (log n' = log n \<or> prev_ok q n \<and> log n' = m)
      \<and> commit_index n' = commit_index n \<and> \<not> ap)"
proof -
  let ?n1 = "snd (append_follow I q n)"
  let ?r = "\<lparr>as_term = current_term n, as_success = False, as_match_index = last_snapshot_index n,
    as_last_log_index = LastLogIndexLocked n, conflict_index = 0, conflict_term = 0\<rparr>"
  have wf1: "log_wf ?n1" using wf by (simp add: log_wf_def)
  have eqs: "merged_log q ?n1 = merged_log q n" "prev_ok q ?n1 = prev_ok q n"
    by (rule merged_log_cong, simp_all, rule prev_ok_cong, simp_all)
  have hint: "\<not> as_success (SetAppendEntriesConflictHintLocked i m (?r\<lparr>as_term := t\<rparr>))"
    for i t m
    by (simp add: SetAppendEntriesConflictHintLocked_def Let_def)
  show ?thesis
  proof (cases "current_term n \<le> aq_term q \<and> fst (append_follow I q n) \<and> prev_ok q n")
    case True
    then have "\<not> aq_term q < current_term n" by auto
    with True have "OnAppendEntriesLocked I q n = append_merge I q ?r ?n1"
      using eqs by (simp add: OnAppendEntriesLocked_def Let_def split_def)
    with append_merge_cases [OF wf1 ea, of ?r I] True eqs show ?thesis
      by (simp add: Let_def split_def)
  next
    case False
    then have "\<not> as_success (fst (OnAppendEntriesLocked I q n)) \<and> \<not> fst (snd (OnAppendEntriesLocked I q n))
        \<and> snd (snd (OnAppendEntriesLocked I q n)) \<in> {n, ?n1}"
      using eqs hint [of "prev_log_index q" ?n1]
      by (cases "aq_term q < current_term n"; cases "fst (append_follow I q n)"; cases "prev_ok q n")
        (simp_all add: OnAppendEntriesLocked_def Let_def split_def not_less)
    then show ?thesis by (auto simp: Let_def split_def)
  qed
qed

lemma vote_le_OnAppendEntriesLocked: "vote_le n (snd (snd (OnAppendEntriesLocked I q n)))"
proof -
  have "vote_le n (snd (snd (append_merge I q r (snd (append_follow I q n)))))" for r
    using append_follow_fields(4) by (simp add: vote_le_def append_merge_frame)
  then show ?thesis
    by (simp add: OnAppendEntriesLocked_def Let_def split_def append_follow_fields(4))
qed

lemma OnAppendEntriesLocked_role:
  "role (snd (snd (OnAppendEntriesLocked I q n))) =
     (if aq_term q < current_term n then role n else kFollower)"
  by (simp add: OnAppendEntriesLocked_def Let_def split_def append_merge_frame append_follow_fields)

lemma OnAppendEntriesLocked_frame:
  shows "config (snd (snd (OnAppendEntriesLocked I q n))) = config n"
    "last_applied (snd (snd (OnAppendEntriesLocked I q n))) = last_applied n"
    "last_snapshot_index (snd (snd (OnAppendEntriesLocked I q n))) = last_snapshot_index n"
    "last_snapshot_term (snd (snd (OnAppendEntriesLocked I q n))) = last_snapshot_term n"
    "running (snd (snd (OnAppendEntriesLocked I q n))) = running n"
    "state_machine (snd (snd (OnAppendEntriesLocked I q n))) = state_machine n"
  by (simp_all add: OnAppendEntriesLocked_def Let_def split_def append_merge_frame)

text \<open>After a successful call every entry of the request is in the follower's log, by index and term.\<close>

lemma merged_log_holds_entries:
  assumes wf: "log_wf n" and ea: "entries_after (prev_log_index q) (entries q)" and ok: "prev_ok q n"
    and wf': "log_wf n'" and l: "log n' = merged_log q n"
    and si: "last_snapshot_index n' = last_snapshot_index n" and e: "e \<in> set (entries q)"
  shows "\<exists>r. LogAtIndexLocked (le_index e) n' = Some r \<and> lr_term r = le_term e"
proof -
  let ?k = "Suc (unat (prev_log_index q) - unat (last_snapshot_index n))"
  from ok have b: "last_snapshot_index n \<le> prev_log_index q" "prev_log_index q \<le> LastLogIndexLocked n"
    using log_wf_HasLog [OF wf] by (auto simp: prev_ok_def)
  from e obtain j where j: "j < length (entries q)" "entries q ! j = e" by (auto simp: in_set_conv_nth)
  with ea have idx: "unat (le_index e) = unat (prev_log_index q) + Suc j" by (auto simp: entries_after_def)
  have len: "length (take ?k (log n)) = ?k" using log_wf_last [OF wf] b log_wfD(1) [OF wf]
    by (cases "log n") (auto simp: u64_simps)
  let ?m = "merge_records (drop ?k (log n)) (map record_of_entry (entries q))"
  from merge_records_term [of j "map record_of_entry (entries q)" "drop ?k (log n)"] j
  have m: "j < length ?m" "lr_term (?m ! j) = le_term e" by (auto simp: record_of_entry_def)
  from l have log': "log n' = take ?k (log n) @ ?m" by (simp add: merged_log_def)
  then have pos: "?k + j < length (log n')" "log n' ! (?k + j) = ?m ! j"
    using len m by (simp_all add: nth_append)
  have "unat (lr_index (log n' ! (?k + j))) = unat (le_index e)"
    using consecutive_nth [OF log_wfD(2) [OF wf'] pos(1)] log_wfD(3) [OF wf'] si idx b
    by (simp add: u64_simps)
  then have "lr_index (log n' ! (?k + j)) = le_index e" by (simp add: word_unat_eq_iff)
  with LogAtIndexLocked_eq [OF log_wfD(2) [OF wf'] pos(1)] pos(2) m show ?thesis by auto
qed

text \<open>
  A request is compatible with a bound when none of its entries at or below the bound disagrees
  with a record the follower holds; a leader whose log contains every committed entry sends only
  requests compatible with the follower's commit index.
\<close>

definition compatible_upto :: "u64 \<Rightarrow> AppendEntriesRequest \<Rightarrow> ('w, 'm) raft_node \<Rightarrow> bool" where
  "compatible_upto c q n \<longleftrightarrow> (\<forall>e \<in> set (entries q). \<forall>r.
     le_index e \<le> c \<longrightarrow> LogAtIndexLocked (le_index e) n = Some r \<longrightarrow> lr_term r = le_term e)"

lemma merged_log_keeps:
  assumes wf: "log_wf n" and ea: "entries_after (prev_log_index q) (entries q)" and ok: "prev_ok q n"
    and c: "c \<le> LastLogIndexLocked n" "compatible_upto c q n" "last_snapshot_index n \<le> c"
  shows "take (Suc (unat c - unat (last_snapshot_index n))) (merged_log q n)
       = take (Suc (unat c - unat (last_snapshot_index n))) (log n)"
proof -
  let ?s = "last_snapshot_index n"
  let ?k = "Suc (unat (prev_log_index q) - unat ?s)" and ?c = "Suc (unat c - unat ?s)"
  from ok have b: "?s \<le> prev_log_index q" "prev_log_index q \<le> LastLogIndexLocked n"
    using log_wf_HasLog [OF wf] by (auto simp: prev_ok_def)
  have len: "?k \<le> length (log n)" "?c \<le> length (log n)"
    using log_wf_last [OF wf] b c(1) log_wfD(1) [OF wf] by (cases "log n"; auto simp: u64_simps)+
  show ?thesis
  proof (cases "?c \<le> ?k")
    case True
    with len show ?thesis by (simp add: merged_log_def min_absorb1)
  next
    case False
    have "take (?c - ?k) (merge_records (drop ?k (log n)) (map record_of_entry (entries q)))
        = take (?c - ?k) (drop ?k (log n))"
    proof (rule merge_records_take)
      show "?c - ?k \<le> length (drop ?k (log n))" using len by simp
      fix j assume j: "j < ?c - ?k" "j < length (map record_of_entry (entries q))"
      let ?e = "entries q ! j"
      from j ea have idx: "unat (le_index ?e) = unat (prev_log_index q) + Suc j"
        by (simp add: entries_after_def)
      with j b have le: "le_index ?e \<le> c" and lo: "?s \<le> le_index ?e" by (auto simp: u64_simps)
      from le c(1) have "le_index ?e \<le> LastLogIndexLocked n" by simp
      note nth = log_wf_nth [OF wf lo this]
      have pos: "unat (le_index ?e) - unat ?s = ?k + j" using idx b by (simp add: u64_simps)
      from c(2) nth(1) le j(2) have "lr_term (log n ! (?k + j)) = le_term ?e"
        unfolding compatible_upto_def pos by auto
      then show "lr_term (drop ?k (log n) ! j) = lr_term (map record_of_entry (entries q) ! j)"
        using j len by (simp add: record_of_entry_def)
    qed
    moreover have "take ?c (log n) = take ?k (log n) @ take (?c - ?k) (drop ?k (log n))"
      using False by (metis le_add_diff_inverse nat_le_linear take_add)
    ultimately show ?thesis using len False by (simp add: merged_log_def min_absorb1)
  qed
qed

end
