(* ===== verification/Snapshotting.thy ===== *)
theory Snapshotting
  imports AppendEntries
begin

text \<open>
  Snapshots in the node (\<^verbatim>\<open>raft_node.cpp\<close>): the receiver of a snapshot (\<^verbatim>\<open>OnInstallSnapshot\<close>, lines 1493
  to 1628), one round of the background worker (\<^verbatim>\<open>SnapshotWorkerLoop\<close>, 2412 to 2502) and recovery from
  the newest loadable snapshot (\<^verbatim>\<open>LoadLatestSnapshotOnStartup\<close>, 2333 to 2410).

  These functions release the node's mutex in the middle. Each locked section is one definition,
  and the composed functions take a function \<open>env\<close>, applied wherever the mutex is free, that
  stands for what the other threads do to the node in between; \<open>env = id\<close> is the undisturbed run.
\<close>

section \<open>Receiving a snapshot\<close>

definition install_reply :: "string \<Rightarrow> InstallSnapshotResponse \<Rightarrow> InstallSnapshotResponse" where
  "install_reply msg r = r\<lparr>is_message := msg\<rparr>"

text \<open>First locked section: \<open>Inl\<close> is a final answer, \<open>Inr\<close> the answer so far.\<close>

definition install_begin ::
    "('w, 'm) interfaces \<Rightarrow> InstallSnapshotRequest \<Rightarrow> ('w, 'm) raft_node
      \<Rightarrow> (InstallSnapshotResponse + InstallSnapshotResponse) \<times> ('w, 'm) raft_node" where
  "install_begin I request n =
     (let response = \<lparr>is_term = current_term n, is_success = False,
                      is_last_log_index = LastLogIndexLocked n, is_message = []\<rparr>
      in if \<not> snap_enabled (snapshot_config n)
         then (Inl (install_reply ''snapshot is disabled'' response), n)
         else if iq_term request < current_term n
         then (Inl (install_reply ''stale term'' response), n)
         else
           let (followed, n1) =
                 (if iq_term request > current_term n \<or> role n \<noteq> kFollower
                     \<or> leader_id n \<noteq> iq_leader_id request
                  then BecomeFollowerLocked I (iq_term request) (iq_leader_id request) n
                  else (True, ResetElectionTimerLocked (n\<lparr>leader_id := iq_leader_id request\<rparr>)))
           in if \<not> followed
              then (Inl (install_reply ''persist higher term failed''
                      (response\<lparr>is_term := current_term n1\<rparr>)), n1)
              else if iq_last_included_index request \<le> last_snapshot_index n1
              then (Inl (install_reply ''snapshot already installed''
                      (response\<lparr>is_term := current_term n1, is_success := True,
                                is_last_log_index := LastLogIndexLocked n1\<rparr>)), n1)
              else (Inr response, n1))"

definition install_temp_path :: "('w, 'm) raft_node \<Rightarrow> string" where
  "install_temp_path n = path_append (cfg_snapshot_dir (snapshot_config n))
     (''install_snapshot_node_'' @ string_of_int (node_id n) @ ''.bin.tmp'')"

text \<open>The unlocked part that writes the received bytes and hands the file to snapshot storage.\<close>

definition install_store ::
    "('w, 'm) interfaces \<Rightarrow> InstallSnapshotRequest \<Rightarrow> ('w, 'm) raft_node
      \<Rightarrow> (string + SnapshotMeta) \<times> ('w, 'm) raft_node" where
  "install_store I request n =
     (case create_dirs I (cfg_snapshot_dir (snapshot_config n)) (disk n) of
        (Inl ec, w) \<Rightarrow> (Inl (''create snapshot directory failed: '' @ ec), n\<lparr>disk := w\<rparr>)
      | (Inr _, w) \<Rightarrow>
          (case write_file I (install_temp_path n) (snapshot_data request) w of
             (Inl phase, w1) \<Rightarrow> (Inl (phase @ '' install snapshot temp file failed''), n\<lparr>disk := w1\<rparr>)
           | (Inr _, w1) \<Rightarrow>
               (case ss_SaveSnapshotFile I (install_temp_path n) (iq_last_included_index request)
                       (iq_last_included_term request) w1 of
                  (Inl e, w2) \<Rightarrow>
                    (Inl (''persist installed snapshot failed: '' @ e),
                     n\<lparr>disk := remove_file I (install_temp_path n) w2\<rparr>)
                | (Inr meta, w2) \<Rightarrow> (Inr meta, n\<lparr>disk := w2\<rparr>))))"

text \<open>The section under \<^verbatim>\<open>apply_mu_\<close>: the state machine is replaced first, then the node is brought up
  to date under its own mutex.\<close>

definition install_load ::
    "('w, 'm) interfaces \<Rightarrow> SnapshotMeta \<Rightarrow> ('w, 'm) raft_node \<Rightarrow> SnapshotResult \<times> ('w, 'm) raft_node" where
  "install_load I meta n =
     (let (result, m) = sm_LoadSnapshot I (sm_snapshot_path meta) (disk n) (state_machine n)
      in (result, n\<lparr>state_machine := m\<rparr>))"

definition install_finish ::
    "('w, 'm) interfaces \<Rightarrow> InstallSnapshotRequest \<Rightarrow> InstallSnapshotResponse \<Rightarrow> ('w, 'm) raft_node
      \<Rightarrow> InstallSnapshotResponse \<times> ('w, 'm) raft_node" where
  "install_finish I request response n =
     (if iq_term request < current_term n
      then (install_reply ''term changed while installing snapshot''
              (response\<lparr>is_term := current_term n\<rparr>), n)
      else
        let n1 = CompactLogPrefixLocked (iq_last_included_index request)
                   (iq_last_included_term request) n;
            n2 = n1\<lparr>commit_index := max (commit_index n1) (iq_last_included_index request)\<rparr>;
            n3 = n2\<lparr>last_applied := max (last_applied n2) (iq_last_included_index request)\<rparr>
        in case PersistStateLocked I n3 of
             (Some e, n4) \<Rightarrow>
               (install_reply (''persist installed snapshot raft state failed: '' @ e)
                  (response\<lparr>is_term := current_term n4,
                            is_last_log_index := LastLogIndexLocked n4\<rparr>), n4)
           | (None, n4) \<Rightarrow>
               (install_reply ''snapshot installed''
                  (response\<lparr>is_term := current_term n4, is_success := True,
                            is_last_log_index := LastLogIndexLocked n4\<rparr>), n4))"

definition prune_after ::
    "('w, 'm) interfaces \<Rightarrow> ('w, 'm) raft_node \<Rightarrow> ('w, 'm) raft_node" where
  [node_defs]: "prune_after I n =
     n\<lparr>disk := snd (ss_PruneSnapshots I (max_snapshot_count (snapshot_config n)) (disk n))\<rparr>"

text \<open>Pruning is skipped on every error path, because each of them returns before it.\<close>

definition OnInstallSnapshot ::
    "('w, 'm) interfaces \<Rightarrow> (('w, 'm) raft_node \<Rightarrow> ('w, 'm) raft_node) \<Rightarrow> InstallSnapshotRequest
      \<Rightarrow> ('w, 'm) raft_node \<Rightarrow> InstallSnapshotResponse \<times> ('w, 'm) raft_node" where
  "OnInstallSnapshot I env request n =
     (case install_begin I request n of
        (Inl response, n1) \<Rightarrow> (response, n1)
      | (Inr response, n1) \<Rightarrow>
          (case install_store I request (env n1) of
             (Inl msg, n2) \<Rightarrow> (install_reply msg response, n2)
           | (Inr meta, n2) \<Rightarrow>
               (let (load_result, n3) = install_load I meta (env n2) in
                if \<not> SnapshotResult_Ok load_result
                then (install_reply (''load installed snapshot failed: '' @ sr_message load_result)
                        response, n3)
                else let (r, n4) = install_finish I request response (env n3)
                     in (r, if is_success r then prune_after I n4 else n4))))"

section \<open>The snapshot worker\<close>

definition StartSnapshotWorker :: "('w, 'm) raft_node \<Rightarrow> ('w, 'm) raft_node" where
  [node_defs]: "StartSnapshotWorker n =
     n\<lparr>snapshot_worker := (snapshot_worker n)\<lparr>snapshot_worker_stop := False\<rparr>\<rparr>"

definition StopSnapshotWorker :: "('w, 'm) raft_node \<Rightarrow> ('w, 'm) raft_node" where
  [node_defs]: "StopSnapshotWorker n =
     n\<lparr>snapshot_worker := (snapshot_worker n)\<lparr>snapshot_worker_stop := True, snapshot_pending := False\<rparr>\<rparr>"

definition worker_temp_path :: "('w, 'm) raft_node \<Rightarrow> string" where
  "worker_temp_path n = path_append (cfg_snapshot_dir (snapshot_config n))
     (''snapshot_work_node_'' @ string_of_int (node_id n) @ ''.bin'')"

text \<open>Take the request off the slot; \<open>None\<close>: the worker leaves its loop (stop) or keeps waiting.\<close>

definition worker_take :: "('w, 'm) raft_node \<Rightarrow> unit option \<times> ('w, 'm) raft_node" where
  "worker_take n =
     (let s = snapshot_worker n in
      if snapshot_worker_stop s \<or> \<not> snapshot_pending s then (None, n)
      else (Some (), n\<lparr>snapshot_worker := s\<lparr>snapshot_pending := False, snapshot_in_progress := True\<rparr>\<rparr>))"

text \<open>Under \<^verbatim>\<open>apply_mu_\<close>: the boundary is read again, so that it describes the state being saved.\<close>

definition worker_capture ::
    "('w, 'm) interfaces \<Rightarrow> ('w, 'm) raft_node \<Rightarrow> (SnapshotResult \<times> u64 \<times> u64) \<times> ('w, 'm) raft_node" where
  "worker_capture I n =
     (let snapshot_index = last_applied n;
          snapshot_term = TermAtIndexLocked snapshot_index n;
          (result, w) = sm_SaveSnapshot I (worker_temp_path n) (state_machine n) (disk n)
      in ((result, snapshot_index, snapshot_term), n\<lparr>disk := w\<rparr>))"

definition worker_compact ::
    "('w, 'm) interfaces \<Rightarrow> u64 \<Rightarrow> u64 \<Rightarrow> ('w, 'm) raft_node \<Rightarrow> ('w, 'm) raft_node" where
  "worker_compact I snapshot_index snapshot_term n =
     (if snapshot_index > last_snapshot_index n
      then snd (PersistStateLocked I (CompactLogPrefixLocked snapshot_index snapshot_term n))
      else n)"

definition worker_done :: "('w, 'm) raft_node \<Rightarrow> ('w, 'm) raft_node" where
  [node_defs]: "worker_done n = MaybeScheduleSnapshotLocked False
     (n\<lparr>snapshot_worker := (snapshot_worker n)\<lparr>snapshot_in_progress := False\<rparr>\<rparr>)"

definition SnapshotWorkerLoop_round ::
    "('w, 'm) interfaces \<Rightarrow> (('w, 'm) raft_node \<Rightarrow> ('w, 'm) raft_node) \<Rightarrow> ('w, 'm) raft_node
      \<Rightarrow> ('w, 'm) raft_node" where
  "SnapshotWorkerLoop_round I env n =
     (case worker_take n of
        (None, n1) \<Rightarrow> n1
      | (Some _, n1) \<Rightarrow>
          (let ((result, snapshot_index, snapshot_term), n2) = worker_capture I (env n1);
               n3 = env n2;
               n4 = (if \<not> SnapshotResult_Ok result then RecordSnapshotOutcome False n3
                     else case ss_SaveSnapshotFile I (worker_temp_path n3) snapshot_index
                                 snapshot_term (disk n3) of
                            (Inl _, w) \<Rightarrow> RecordSnapshotOutcome False (n3\<lparr>disk := w\<rparr>)
                          | (Inr _, w) \<Rightarrow>
                              RecordSnapshotOutcome True (prune_after I (env
                                (worker_compact I snapshot_index snapshot_term (env (n3\<lparr>disk := w\<rparr>))))))
           in worker_done (env n4)))"

section \<open>Recovery from the newest snapshot\<close>

fun load_first_snapshot ::
    "('w, 'm) interfaces \<Rightarrow> SnapshotMeta list \<Rightarrow> ('w, 'm) raft_node
      \<Rightarrow> (string + SnapshotMeta option) \<times> ('w, 'm) raft_node" where
  "load_first_snapshot I [] n = (Inr None, n)"
| "load_first_snapshot I (meta # rest) n =
     (let (result, n1) = install_load I meta n in
      if \<not> SnapshotResult_Ok result then load_first_snapshot I rest n1
      else
        let n2 = CompactLogPrefixLocked (last_included_index meta) (last_included_term meta) n1;
            n3 = n2\<lparr>commit_index := max (commit_index n2) (last_included_index meta)\<rparr>;
            n4 = n3\<lparr>last_applied := last_included_index meta\<rparr>
        in case PersistStateLocked I n4 of
             (Some e, n5) \<Rightarrow> (Inl e, n5)
           | (None, n5) \<Rightarrow> (Inr (Some meta), n5))"

definition LoadLatestSnapshotOnStartup ::
    "('w, 'm) interfaces \<Rightarrow> ('w, 'm) raft_node \<Rightarrow> (string + SnapshotMeta option) \<times> ('w, 'm) raft_node" where
  "LoadLatestSnapshotOnStartup I n =
     (if \<not> snap_enabled (snapshot_config n) \<or> \<not> load_on_startup (snapshot_config n)
      then (Inr None, n)
      else case ss_ListSnapshots I (disk n) of
             (Inl e, w) \<Rightarrow> (Inl e, n\<lparr>disk := w\<rparr>)
           | (Inr result, w) \<Rightarrow> load_first_snapshot I (snapshots result) (n\<lparr>disk := w\<rparr>))"

section \<open>The log stays well formed and the vote is kept\<close>

text \<open>What a section of this theory may do to the hard state and the log.\<close>

definition keeps_node :: "(('w, 'm) raft_node \<Rightarrow> ('w, 'm) raft_node) \<Rightarrow> bool" where
  "keeps_node f \<longleftrightarrow> (\<forall>n. (log_wf n \<longrightarrow> log_wf (f n)) \<and> vote_le n (f n) \<and> commit_index n \<le> commit_index (f n))"

lemma keeps_nodeI:
  assumes "\<And>n. log_wf n \<Longrightarrow> log_wf (f n)" and "\<And>n. vote_le n (f n)"
    and "\<And>n. commit_index n \<le> commit_index (f n)"
  shows "keeps_node f"
  using assms by (simp add: keeps_node_def)

lemma keeps_node_id: "keeps_node (\<lambda>n. n)"
  by (simp add: keeps_node_def)

lemma keeps_node_comp: "keeps_node f \<Longrightarrow> keeps_node g \<Longrightarrow> keeps_node (\<lambda>n. g (f n))"
  unfolding keeps_node_def by (meson order_trans vote_le_trans)

lemma keeps_node_frame:
  assumes "\<And>n. log (f n) = log n" "\<And>n. last_snapshot_index (f n) = last_snapshot_index n"
    "\<And>n. last_snapshot_term (f n) = last_snapshot_term n" "\<And>n. vote_le n (f n)"
    "\<And>n. commit_index (f n) = commit_index n"
  shows "keeps_node f"
  using assms by (simp add: keeps_node_def log_wf_def)

lemma Compact_frame [simp]:
  shows "config (CompactLogPrefixLocked i t n) = config n"
    "snapshot_config (CompactLogPrefixLocked i t n) = snapshot_config n"
    "role (CompactLogPrefixLocked i t n) = role n"
    "current_term (CompactLogPrefixLocked i t n) = current_term n"
    "voted_for (CompactLogPrefixLocked i t n) = voted_for n"
    "running (CompactLogPrefixLocked i t n) = running n"
    "state_machine (CompactLogPrefixLocked i t n) = state_machine n"
    "disk (CompactLogPrefixLocked i t n) = disk n"
  by (simp_all add: CompactLogPrefixLocked_def RestoreLogAfterSnapshotLocked_def Let_def)

lemma Compact_mono:
  "commit_index n \<le> commit_index (CompactLogPrefixLocked i t n)"
  "last_applied n \<le> last_applied (CompactLogPrefixLocked i t n)"
  by (auto simp: CompactLogPrefixLocked_def RestoreLogAfterSnapshotLocked_def Let_def)

lemma keeps_install_begin: "keeps_node (\<lambda>n. snd (install_begin I q n))"
  by (rule keeps_node_frame)
    (simp_all add: install_begin_def Let_def split_def node_defs vote_le_BecomeFollower vote_le_same)

lemma install_store_disk: "\<exists>w. snd (install_store I q n) = n\<lparr>disk := w\<rparr>"
proof -
  have "snd (install_store I q n) = n\<lparr>disk := disk (snd (install_store I q n))\<rparr>"
    by (simp add: install_store_def split_def split: sum.split)
  then show ?thesis by blast
qed

lemma disk_only:
  assumes "\<And>n. \<exists>w. f n = n\<lparr>disk := w\<rparr>"
  shows "keeps_node f"
proof (rule keeps_node_frame)
  fix n
  obtain w where "f n = n\<lparr>disk := w\<rparr>" using assms by blast
  then show "log (f n) = log n" "last_snapshot_index (f n) = last_snapshot_index n"
    "last_snapshot_term (f n) = last_snapshot_term n" "vote_le n (f n)"
    "commit_index (f n) = commit_index n" by (simp_all add: vote_le_same)
qed

lemma keeps_install_store: "keeps_node (\<lambda>n. snd (install_store I q n))"
  by (rule disk_only, rule install_store_disk)

lemma keeps_install_load: "keeps_node (\<lambda>n. snd (install_load I meta n))"
  by (rule keeps_node_frame) (simp_all add: install_load_def Let_def split_def vote_le_same)

lemma keeps_prune_after: "keeps_node (prune_after I)"
  by (rule keeps_node_frame) (simp_all add: prune_after_def vote_le_same)

lemma keeps_install_finish: "keeps_node (\<lambda>n. snd (install_finish I q r n))"
proof (rule keeps_nodeI)
  fix n :: "('a, 'b) raft_node"
  note simps = install_finish_def Let_def split_def
  show "log_wf n \<Longrightarrow> log_wf (snd (install_finish I q r n))"
    using log_wf_Compact [of n "iq_last_included_index q" "iq_last_included_term q"]
    by (simp add: simps log_wf_def split: option.split)
  show "vote_le n (snd (install_finish I q r n))"
    by (simp add: simps vote_le_same split: option.split)
  show "commit_index n \<le> commit_index (snd (install_finish I q r n))"
    using Compact_mono(1) [of n "iq_last_included_index q" "iq_last_included_term q"]
    by (auto simp: simps max_def split: option.split)
qed

lemma keeps_OnInstallSnapshot:
  assumes env: "keeps_node env"
  shows "keeps_node (\<lambda>n. snd (OnInstallSnapshot I env q n))"
proof -
  have all: "(log_wf n \<longrightarrow> log_wf n') \<and> vote_le n n' \<and> commit_index n \<le> commit_index n'"
    if "n' = snd (OnInstallSnapshot I env q n)" for n n'
  proof -
    let ?ok = "\<lambda>n n'. (log_wf n \<longrightarrow> log_wf n') \<and> vote_le n n' \<and> commit_index n \<le> commit_index n'"
    have tr: "?ok a c" if "?ok a b" "?ok b c" for a b c
      using that by (meson order_trans vote_le_trans)
    have k: "?ok a (f a)" if "keeps_node f" for f a using that by (simp add: keeps_node_def)
    let ?n1 = "snd (install_begin I q n)"
    let ?n2 = "snd (install_store I q (env ?n1))"
    have a1: "?ok n ?n1" by (rule k [OF keeps_install_begin])
    have a2: "?ok n ?n2" by (rule tr [OF tr [OF a1 k [OF env]] k [OF keeps_install_store]])
    have a3: "?ok n (snd (install_load I meta (env ?n2)))" for meta
      by (rule tr [OF tr [OF a2 k [OF env]] k [OF keeps_install_load]])
    have a4: "?ok n (snd (install_finish I q r (env (snd (install_load I meta (env ?n2))))))" for r meta
      by (rule tr [OF tr [OF a3 k [OF env]] k [OF keeps_install_finish]])
    have a5: "?ok n (prune_after I (snd (install_finish I q r (env (snd (install_load I meta (env ?n2)))))))"
      for r meta by (rule tr [OF a4 k [OF keeps_prune_after]])
    show ?thesis unfolding that OnInstallSnapshot_def
      using a1 a2 a3 a4 a5 by (simp add: Let_def split_def split: sum.split)
  qed
  then show ?thesis by (simp add: keeps_node_def)
qed

text \<open>An installed snapshot: the machine is the loaded one, the boundaries cover the snapshot.\<close>

lemma install_finish_success:
  assumes "is_success (fst (install_finish I q r n))" and "\<not> is_success r"
  shows "iq_last_included_index q \<le> last_applied (snd (install_finish I q r n))"
    and "iq_last_included_index q \<le> commit_index (snd (install_finish I q r n))"
    and "state_machine (snd (install_finish I q r n)) = state_machine n"
    and "last_applied (snd (install_finish I q r n))
      = max (max (last_applied n) (iq_last_included_index q))
          (last_applied (CompactLogPrefixLocked (iq_last_included_index q) (iq_last_included_term q) n))"
  using assms Compact_mono(2) [of n "iq_last_included_index q" "iq_last_included_term q"]
  by (auto simp: install_finish_def install_reply_def Let_def split_def max_def
      split: option.splits if_splits)

section \<open>The worker compacts only what is in its snapshot\<close>

lemma TermAt_boundary:
  assumes wf: "log_wf n" and b: "last_snapshot_index n \<le> i" "i \<le> LastLogIndexLocked n"
  shows "boundary_matches i (TermAtIndexLocked i n) n"
proof -
  note nth = log_wf_nth [OF wf b]
  then have "TermAtIndexLocked i n = lr_term (log n ! (unat i - unat (last_snapshot_index n)))"
    by (simp add: TermAtIndexLocked_eq [OF wf])
  with nth(2,3) show ?thesis unfolding boundary_matches_def by auto
qed

lemma keeps_worker_compact: "keeps_node (worker_compact I i t)"
proof (rule keeps_nodeI)
  fix n :: "('a, 'b) raft_node"
  show "log_wf n \<Longrightarrow> log_wf (worker_compact I i t n)"
    using log_wf_Compact [of n i t] by (simp add: worker_compact_def log_wf_def)
  show "vote_le n (worker_compact I i t n)" by (simp add: worker_compact_def vote_le_same)
  show "commit_index n \<le> commit_index (worker_compact I i t n)"
    using Compact_mono(1) [of n i t] by (simp add: worker_compact_def)
qed

lemma worker_compact_keeps_suffix:
  assumes wf: "log_wf n" and b: "boundary_matches i t n" and j: "i < j"
  shows "LogAtIndexLocked j (worker_compact I i t n) = LogAtIndexLocked j n"
proof (cases "last_snapshot_index n < i")
  case True
  have "LogAtIndexLocked j (snd (PersistStateLocked I m)) = LogAtIndexLocked j m" for m :: "('a, 'b) raft_node"
    by (rule LogAt_cong) simp
  with True Compact_keeps_suffix [OF wf b j] show ?thesis by (simp add: worker_compact_def)
qed (simp add: worker_compact_def)

section \<open>Recovery\<close>

lemma load_first_snapshot_result:
  assumes "load_first_snapshot I metas n = (Inr (Some meta), n')"
  shows "meta \<in> set metas \<and> last_applied n' = last_included_index meta
    \<and> last_included_index meta \<le> commit_index n'"
  using assms
  by (induction metas arbitrary: n)
    (auto simp: Let_def split_def prod_eq_iff split: if_splits option.splits)

lemma log_wf_load_first_snapshot:
  "log_wf n \<Longrightarrow> log_wf (snd (load_first_snapshot I metas n))"
proof (induction metas arbitrary: n)
  case (Cons meta metas)
  let ?n1 = "snd (install_load I meta n)"
  have wf1: "log_wf ?n1" using Cons.prems keeps_install_load [of I meta] by (simp add: keeps_node_def)
  have "log_wf (CompactLogPrefixLocked (last_included_index meta) (last_included_term meta) ?n1)"
    by (rule log_wf_Compact [OF wf1])
  with wf1 Cons.IH [OF wf1] show ?case
    by (simp add: Let_def split_def log_wf_def split: option.split)
qed simp

section \<open>An undisturbed round of the worker\<close>

text \<open>The part of a node that the log, the snapshot boundary and the state machine are in.\<close>

definition log_state :: "('w, 'm) raft_node \<Rightarrow> LogRecord list \<times> u64 \<times> u64 \<times> u64 \<times> u64 \<times> 'm" where
  "log_state n = (log n, last_snapshot_index n, last_snapshot_term n, commit_index n, last_applied n, state_machine n)"

lemma log_state_eqD:
  assumes "log_state a = log_state b"
  shows "log a = log b" "last_snapshot_index a = last_snapshot_index b"
    "last_snapshot_term a = last_snapshot_term b" "commit_index a = commit_index b"
    "last_applied a = last_applied b" "state_machine a = state_machine b"
    "TermAtIndexLocked i a = TermAtIndexLocked i b" "LogAtIndexLocked i a = LogAtIndexLocked i b"
    "log_wf a = log_wf b"
  using assms
  by (simp_all add: log_state_def TermAtIndexLocked_def LogAtIndexLocked_def HasLogAtIndexLocked_def
      LogOffsetLocked_def log_wf_def)

lemma log_state_steps [simp]:
  "log_state (n\<lparr>disk := w\<rparr>) = log_state n" "log_state (RecordSnapshotOutcome b n) = log_state n"
  "log_state (prune_after I n) = log_state n" "log_state (worker_done n) = log_state n"
  "log_state (snd (worker_take n)) = log_state n" "log_state (snd (worker_capture I n)) = log_state n"
  "log_state (snd (PersistStateLocked I n)) = log_state n"
  by (simp_all add: log_state_def node_defs worker_take_def worker_capture_def Let_def split_def)

lemma Compact_log_state:
  assumes "log_wf a" and "log_state a = log_state b"
  shows "log_state (CompactLogPrefixLocked i t a) = log_state (CompactLogPrefixLocked i t b)"
proof -
  note e = log_state_eqD [OF assms(2)]
  have wb: "log_wf b" using assms(1) e(9) by simp
  have bm: "boundary_matches i t a = boundary_matches i t b" using e(1) by (simp add: boundary_matches_def)
  show ?thesis
  proof (cases "i \<le> last_snapshot_index a")
    case True
    with assms wb e(2) show ?thesis by (simp add: CompactLogPrefixLocked_stale)
  next
    case False
    then have "last_snapshot_index a < i" "last_snapshot_index b < i" using e(2) by simp_all
    with assms(1) wb bm e show ?thesis by (simp add: CompactLogPrefixLocked_new log_state_def)
  qed
qed

lemma worker_compact_log_state:
  assumes "log_wf a" and "log_state a = log_state b"
  shows "log_state (worker_compact I i t a) = log_state (worker_compact I i t b)"
  using Compact_log_state [OF assms] log_state_eqD(2) [OF assms(2)] assms(2)
  by (simp add: worker_compact_def)

lemma worker_round_cases:
  assumes "log_wf n"
  shows "log_state (SnapshotWorkerLoop_round I (\<lambda>n. n) n) \<in> {log_state n,
     log_state (worker_compact I (last_applied n) (TermAtIndexLocked (last_applied n) n) n)}"
proof -
  let ?n1 = "snd (worker_take n)"
  let ?n2 = "snd (worker_capture I ?n1)"
  note e = log_state_eqD [of ?n1 n, simplified]
  have cap: "snd (fst (worker_capture I ?n1)) = (last_applied n, TermAtIndexLocked (last_applied n) n)"
    by (simp add: worker_capture_def Let_def split_def e)
  have s: "log_state (?n2\<lparr>disk := w\<rparr>) = log_state n" for w by simp
  then have "log_wf (?n2\<lparr>disk := w\<rparr>)" for w using assms log_state_eqD(9) by blast
  from worker_compact_log_state [OF this s]
  have c: "log_state (worker_compact I i t (?n2\<lparr>disk := w\<rparr>)) = log_state (worker_compact I i t n)" for i t w .
  show ?thesis
    unfolding SnapshotWorkerLoop_round_def
    by (simp add: Let_def split_def cap c split: option.split sum.split)
qed

lemma worker_round_keeps:
  fixes I :: "('w, 'm) interfaces" and n :: "('w, 'm) raft_node"
  assumes ap: "applicable n"
  defines "n' \<equiv> SnapshotWorkerLoop_round I (\<lambda>n. n) n"
  shows "log_wf n'" and "state_machine n' = state_machine n" and "commit_index n' = commit_index n"
    and "last_applied n' = last_applied n"
    and "last_snapshot_index n' = last_snapshot_index n \<or> last_snapshot_index n' = last_applied n"
    and "last_applied n < j \<Longrightarrow> LogAtIndexLocked j n' = LogAtIndexLocked j n"
proof -
  from ap have wf: "log_wf n" and b: "last_snapshot_index n \<le> last_applied n"
    "last_applied n \<le> commit_index n" "commit_index n \<le> LastLogIndexLocked n"
    by (auto simp: applicable_def)
  let ?t = "TermAtIndexLocked (last_applied n) n"
  let ?c = "worker_compact I (last_applied n) ?t n"
  have bm: "boundary_matches (last_applied n) ?t n" using b by (intro TermAt_boundary [OF wf]) auto
  have wc: "log_wf ?c" using wf keeps_worker_compact [of I] by (simp add: keeps_node_def)
  have c: "state_machine ?c = state_machine n" "commit_index ?c = commit_index n"
    "last_applied ?c = last_applied n"
    "last_snapshot_index ?c = last_snapshot_index n \<or> last_snapshot_index ?c = last_applied n"
    using b CompactLogPrefixLocked_new [OF wf]
    by (auto simp: worker_compact_def max_def)
  note suf = worker_compact_keeps_suffix [OF wf bm]
  from worker_round_cases [OF wf, of I] consider "log_state n' = log_state n" | "log_state n' = log_state ?c"
    by (auto simp: n'_def)
  then have "log_wf n' \<and> state_machine n' = state_machine n \<and> commit_index n' = commit_index n \<and>
    last_applied n' = last_applied n \<and>
    (last_snapshot_index n' = last_snapshot_index n \<or> last_snapshot_index n' = last_applied n) \<and>
    (last_applied n < j \<longrightarrow> LogAtIndexLocked j n' = LogAtIndexLocked j n)"
  proof cases
    case 1
    from log_state_eqD [OF this] wf show ?thesis by simp
  next
    case 2
    from log_state_eqD [OF this] wc c suf show ?thesis by simp
  qed
  then show "log_wf n'" "state_machine n' = state_machine n" "commit_index n' = commit_index n"
    "last_applied n' = last_applied n"
    "last_snapshot_index n' = last_snapshot_index n \<or> last_snapshot_index n' = last_applied n"
    "last_applied n < j \<Longrightarrow> LogAtIndexLocked j n' = LogAtIndexLocked j n" by auto
qed

section \<open>A snapshot that was received\<close>

text \<open>Without interference, a successful answer means that the snapshot was there already or is installed now.\<close>

lemma install_success:
  fixes I :: "('w, 'm) interfaces" and n :: "('w, 'm) raft_node"
  assumes ok: "is_success (fst (OnInstallSnapshot I (\<lambda>n. n) q n))"
    and new: "last_snapshot_index n < iq_last_included_index q"
  defines "n' \<equiv> snd (OnInstallSnapshot I (\<lambda>n. n) q n)"
  shows "\<exists>path w. state_machine n' = snd (sm_LoadSnapshot I path w (state_machine n)) \<and>
    SnapshotResult_Ok (fst (sm_LoadSnapshot I path w (state_machine n))) \<and>
    iq_last_included_index q \<le> last_applied n' \<and> last_applied n \<le> last_applied n'"
proof -
  have lsi: "last_snapshot_index (snd (install_begin I q n)) = last_snapshot_index n"
    "state_machine (snd (install_begin I q n)) = state_machine n"
    "last_applied (snd (install_begin I q n)) = last_applied n"
    by (simp_all add: install_begin_def Let_def split_def node_defs)
  have nl: "\<not> is_success r" if "fst (install_begin I q n) = Inl r" for r
    using that new by (auto simp: install_begin_def install_reply_def Let_def split_def node_defs split: if_splits)
  have nr: "\<not> is_success r" if "fst (install_begin I q n) = Inr r" for r
    using that by (auto simp: install_begin_def install_reply_def Let_def split_def split: if_splits)
  from ok nl obtain r where r: "fst (install_begin I q n) = Inr r"
    by (cases "fst (install_begin I q n)") (auto simp: OnInstallSnapshot_def split_def)
  let ?n1 = "snd (install_begin I q n)"
  from install_store_disk [of I q ?n1] obtain w where w: "snd (install_store I q ?n1) = ?n1\<lparr>disk := w\<rparr>" by blast
  from ok r nr [OF r] obtain meta where meta: "fst (install_store I q ?n1) = Inr meta"
    by (cases "fst (install_store I q ?n1)") (auto simp: OnInstallSnapshot_def split_def install_reply_def)
  let ?l = "install_load I meta (?n1\<lparr>disk := w\<rparr>)"
  let ?f = "install_finish I q r (snd ?l)"
  have lo: "SnapshotResult_Ok (fst ?l)" and fi: "is_success (fst ?f)" and n': "n' = prune_after I (snd ?f)"
    using ok r meta w nr [OF r]
    by (auto simp: n'_def OnInstallSnapshot_def split_def Let_def install_reply_def split: if_splits)
  note fin = install_finish_success [OF fi nr [OF r]]
  have ld: "state_machine (snd ?l) = snd (sm_LoadSnapshot I (sm_snapshot_path meta) w (state_machine n))"
    "fst ?l = fst (sm_LoadSnapshot I (sm_snapshot_path meta) w (state_machine n))"
    "last_applied (snd ?l) = last_applied n"
    using lsi by (simp_all add: install_load_def Let_def split_def)
  have pr: "state_machine n' = state_machine (snd ?f)" "last_applied n' = last_applied (snd ?f)"
    using n' by (simp_all add: node_defs)
  have "last_applied n \<le> last_applied n'" using fin(4) pr(2) ld(3) by (simp add: le_max_iff_disj)
  with fin(1,3) pr ld lo show ?thesis by auto
qed

end
