(* ===== verification/Replication.thy ===== *)
theory Replication
  imports Snapshotting
begin

text \<open>
  The leader's side of replication: class \<^verbatim>\<open>Replicator\<close> (\<^verbatim>\<open>replication/replicator.cpp\<close>) and
  \<^verbatim>\<open>RaftNode::SendInstallSnapshotToPeer\<close> (\<^verbatim>\<open>raft_node.cpp\<close>, lines 1179 to 1279). A replicator builds one
  batch for its peer, sends it without holding the node's mutex, and moves \<open>next_index\<close> and
  \<open>match_index\<close> according to the answer.

  The network is the record \<open>transport\<close>: a call takes the request and the sender's node and returns
  the peer's answer (\<open>None\<close> for a failed call) together with the sender's node as the other threads
  left it when the call returned. The lemmas at the end show which requests are sent: consecutive
  records of the leader's own log behind a matching boundary, within the batch limits.
\<close>

section \<open>The network\<close>

record ('w, 'm) transport =
  call_AppendEntries :: "int \<Rightarrow> AppendEntriesRequest \<Rightarrow> ('w, 'm) raft_node
    \<Rightarrow> AppendEntriesResponse option \<times> ('w, 'm) raft_node"
  call_InstallSnapshot :: "int \<Rightarrow> InstallSnapshotRequest \<Rightarrow> ('w, 'm) raft_node
    \<Rightarrow> InstallSnapshotResponse option \<times> ('w, 'm) raft_node"
  during_sleep :: "('w, 'm) raft_node \<Rightarrow> ('w, 'm) raft_node"

abbreviation now :: "('w, 'm) raft_node \<Rightarrow> int" where
  "now n \<equiv> clock (timers n)"

definition has_client :: "int \<Rightarrow> ('w, 'm) raft_node \<Rightarrow> bool" where
  "has_client pid n \<longleftrightarrow> pid \<in> peer_id ` set (peers n)"

definition AppendEntriesRpc ::
    "('w, 'm) transport \<Rightarrow> int \<Rightarrow> AppendEntriesRequest \<Rightarrow> ('w, 'm) raft_node
      \<Rightarrow> AppendEntriesResponse option \<times> ('w, 'm) raft_node" where
  "AppendEntriesRpc tr pid request n =
     (if \<not> has_client pid n then (None, n)
      else let (answer, n1) = call_AppendEntries tr pid request n
           in (answer, RecordRpcLatency kAppendEntries (answer \<noteq> None) (1000 * (now n1 - now n)) n1))"

definition InstallSnapshotRpc ::
    "('w, 'm) transport \<Rightarrow> int \<Rightarrow> InstallSnapshotRequest \<Rightarrow> ('w, 'm) raft_node
      \<Rightarrow> InstallSnapshotResponse option \<times> ('w, 'm) raft_node" where
  "InstallSnapshotRpc tr pid request n =
     (if \<not> has_client pid n then (None, n)
      else let (answer, n1) = call_InstallSnapshot tr pid request n
           in (answer, RecordRpcLatency kInstallSnapshot (answer \<noteq> None) (1000 * (now n1 - now n)) n1))"

section \<open>Runtime state of a replicator\<close>

definition kMaxAppendEntriesPerRpc :: nat where "kMaxAppendEntriesPerRpc = 256"
definition kMaxAppendEntriesBytes :: nat where "kMaxAppendEntriesBytes = 512 * 1024"
definition kMaxRetryBackoff :: int where "kMaxRetryBackoff = 500"

definition HasInflightRpc :: "Replicator \<Rightarrow> bool" where
  "HasInflightRpc r \<longleftrightarrow> append_inflight r \<or> snapshot_inflight r"

definition IsBackoffActiveLocked :: "int \<Rightarrow> Replicator \<Rightarrow> bool" where
  "IsBackoffActiveLocked t r \<longleftrightarrow> next_retry_time r \<noteq> 0 \<and> t < next_retry_time r"

definition ResetBackoffLocked :: "Replicator \<Rightarrow> Replicator" where
  "ResetBackoffLocked r = r\<lparr>retry_backoff := kInitialRetryBackoff, next_retry_time := 0\<rparr>"

definition RecordTransportFailureLocked :: "int \<Rightarrow> Replicator \<Rightarrow> Replicator" where
  "RecordTransportFailureLocked t r =
     r\<lparr>transport_failures := transport_failures r + 1, next_retry_time := t + retry_backoff r,
       retry_backoff := min kMaxRetryBackoff (retry_backoff r * 2)\<rparr>"

definition FinishAppendRpcLocked :: "Replicator \<Rightarrow> Replicator" where
  "FinishAppendRpcLocked r =
     r\<lparr>append_inflight := False, append_rpc_finished := append_rpc_finished r + 1\<rparr>"

definition FinishSnapshotRpcLocked :: "Replicator \<Rightarrow> Replicator" where
  "FinishSnapshotRpcLocked r =
     r\<lparr>snapshot_inflight := False, snapshot_rpc_finished := snapshot_rpc_finished r + 1\<rparr>"

definition Replicator_DebugString :: "Replicator \<Rightarrow> string" where
  "Replicator_DebugString r =
     (let flag = (\<lambda>b. if b then ''1'' else ''0'') in
      ''peer='' @ string_of_int (peer_id (rep_peer r))
      @ '', append_inflight='' @ flag (append_inflight r)
      @ '', snapshot_inflight='' @ flag (snapshot_inflight r)
      @ '', backoff_ms='' @ string_of_int (retry_backoff r)
      @ '', append_rpc_started='' @ string_of_u64 (append_rpc_started r)
      @ '', append_rpc_finished='' @ string_of_u64 (append_rpc_finished r)
      @ '', snapshot_rpc_started='' @ string_of_u64 (snapshot_rpc_started r)
      @ '', snapshot_rpc_finished='' @ string_of_u64 (snapshot_rpc_finished r)
      @ '', transport_failures='' @ string_of_u64 (transport_failures r))"

text \<open>Update of the replicator object of a peer; the node keeps the objects for good once created.\<close>

definition upd_replicator ::
    "int \<Rightarrow> (Replicator \<Rightarrow> Replicator) \<Rightarrow> ('w, 'm) raft_node \<Rightarrow> ('w, 'm) raft_node" where
  [node_defs]: "upd_replicator pid f n =
     n\<lparr>replicators := (case replicators n pid of None \<Rightarrow> replicators n
                      | Some r \<Rightarrow> (replicators n)(pid \<mapsto> f r))\<rparr>"

section \<open>Building a batch\<close>

definition IsTargetMatched :: "int \<Rightarrow> u64 \<Rightarrow> ('w, 'm) raft_node \<Rightarrow> bool" where
  "IsTargetMatched pid target_index n =
     (if target_index = 0 then False
      else case match_index n pid of None \<Rightarrow> False | Some m \<Rightarrow> m \<ge> target_index)"

definition entry_of_record :: "LogRecord \<Rightarrow> LogEntry" where
  "entry_of_record r = \<lparr>le_index = lr_index r, le_term = lr_term r, le_command = lr_command r\<rparr>"

text \<open>\<open>room\<close> is the number of entries that still fit, \<^verbatim>\<open>kMaxAppendEntriesPerRpc - entry_count\<close>.\<close>

fun build_entries :: "nat \<Rightarrow> nat \<Rightarrow> nat \<Rightarrow> u64 \<Rightarrow> ('w, 'm) raft_node \<Rightarrow> LogEntry list" where
  "build_entries 0 entry_count bytes_count index n = []"
| "build_entries (Suc room) entry_count bytes_count index n =
     (if \<not> index \<le> LastLogIndexLocked n then []
      else case LogAtIndexLocked index n of
             None \<Rightarrow> []
           | Some record \<Rightarrow>
               (let next_bytes = bytes_count + length (lr_command record) in
                if entry_count > 0 \<and> next_bytes > kMaxAppendEntriesBytes then []
                else entry_of_record record
                     # build_entries room (Suc entry_count) next_bytes (index + 1) n))"

datatype batch = BatchNone | BatchSnapshot | BatchAppend AppendEntriesRequest

definition BuildAppendEntriesRequest ::
    "int \<Rightarrow> u64 \<Rightarrow> ('w, 'm) raft_node \<Rightarrow> batch \<times> ('w, 'm) raft_node" where
  "BuildAppendEntriesRequest pid leader_term n =
     (if \<not> running n \<or> role n \<noteq> kLeader \<or> current_term n \<noteq> leader_term then (BatchNone, n)
      else
        let stored = (case next_index n pid of None \<Rightarrow> 0 | Some i \<Rightarrow> i);
            ni = (if stored = 0 then SafeAddOne (LastLogIndexLocked n) else stored);
            n1 = n\<lparr>next_index := (next_index n)(pid \<mapsto> ni)\<rparr>
        in if ni \<le> FirstLogIndexLocked n1 then (BatchSnapshot, n1)
           else
             let prev = ni - 1; pt = TermAtIndexLocked prev n1
             in if pt = 0 \<and> prev \<noteq> 0 then (BatchSnapshot, n1)
                else (BatchAppend \<lparr>aq_term = leader_term, aq_leader_id = node_id n1,
                        prev_log_index = prev, prev_log_term = pt,
                        entries = build_entries kMaxAppendEntriesPerRpc 0 0 ni n1,
                        leader_commit = commit_index n1\<rparr>, n1))"

section \<open>The answer\<close>

text \<open>The reverse search for the leader's last record of the conflicting term.\<close>

fun last_of_term :: "u64 \<Rightarrow> LogRecord list \<Rightarrow> u64" where
  "last_of_term t [] = 0"
| "last_of_term t (r # rs) = (if lr_term r = t then SafeAddOne (lr_index r) else last_of_term t rs)"

definition hinted_next :: "AppendEntriesResponse \<Rightarrow> ('w, 'm) raft_node \<Rightarrow> u64" where
  "hinted_next response n =
     (let h = (if conflict_term response \<noteq> 0
               then let s = last_of_term (conflict_term response) (rev (log n))
                    in if s = 0 then conflict_index response else s
               else if conflict_index response \<noteq> 0 then conflict_index response
               else SafeAddOne (as_last_log_index response));
          leader_last_next = SafeAddOne (LastLogIndexLocked n)
      in if h > leader_last_next then leader_last_next else h)"

text \<open>Result: whether the target is matched, whether the commit index moved, the node.\<close>

definition HandleAppendEntriesResponse ::
    "('w, 'm) interfaces \<Rightarrow> int \<Rightarrow> u64 \<Rightarrow> u64 \<Rightarrow> AppendEntriesResponse \<Rightarrow> ('w, 'm) raft_node
      \<Rightarrow> bool \<times> bool \<times> ('w, 'm) raft_node" where
  "HandleAppendEntriesResponse I pid leader_term target_index response n =
     (if \<not> running n then (False, False, n)
      else if as_term response > current_term n
      then (False, False, snd (BecomeFollowerLocked I (as_term response) (- 1) n))
      else if role n \<noteq> kLeader \<or> current_term n \<noteq> leader_term then (False, False, n)
      else
        let stored = (case next_index n pid of None \<Rightarrow> 0 | Some i \<Rightarrow> i) in
        if as_success response
        then
          let matched = (case match_index n pid of None \<Rightarrow> 0 | Some m \<Rightarrow> m);
              m = max matched (as_match_index response);
              n1 = n\<lparr>match_index := (match_index n)(pid \<mapsto> m),
                     next_index := (next_index n)(pid \<mapsto>
                        max stored (SafeAddOne (as_match_index response)))\<rparr>;
              n2 = AdvanceCommitIndexUnlocked I n1
          in (target_index = 0 \<or> m \<ge> target_index, commit_index n2 > commit_index n1, n2)
        else
          let h = hinted_next response n;
              ni = (if h > 0 then h else if stored > 1 then stored - 1 else 1)
          in (False, False, n\<lparr>next_index := (next_index n)(pid \<mapsto> ni)\<rparr>))"

section \<open>Sending a snapshot\<close>

text \<open>The newest listed snapshot is sent when the exact boundary of the log is not listed.\<close>

definition choose_snapshot :: "u64 \<Rightarrow> u64 \<Rightarrow> SnapshotMeta list \<Rightarrow> SnapshotMeta option" where
  "choose_snapshot idx trm metas =
     (case find (\<lambda>c. last_included_index c = idx \<and> last_included_term c = trm) metas of
        Some c \<Rightarrow> Some c
      | None \<Rightarrow> (case metas of [] \<Rightarrow> None | c # _ \<Rightarrow> Some c))"

definition snapshot_answer ::
    "('w, 'm) interfaces \<Rightarrow> int \<Rightarrow> u64 \<Rightarrow> SnapshotMeta \<Rightarrow> InstallSnapshotResponse \<Rightarrow> ('w, 'm) raft_node
      \<Rightarrow> bool \<times> ('w, 'm) raft_node" where
  "snapshot_answer I pid term meta response n =
     (if is_term response > current_term n
      then (False, snd (BecomeFollowerLocked I (is_term response) (- 1) n))
      else if \<not> running n \<or> role n \<noteq> kLeader \<or> current_term n \<noteq> term then (False, n)
      else if \<not> is_success response
      then let h = SafeAddOne (is_last_log_index response)
           in (False, if h > 0 then n\<lparr>next_index := (next_index n)(pid \<mapsto> h)\<rparr> else n)
      else
        let m = (case match_index n pid of None \<Rightarrow> 0 | Some m \<Rightarrow> m);
            ni = (case next_index n pid of None \<Rightarrow> 0 | Some i \<Rightarrow> i)
        in (True, n\<lparr>match_index := (match_index n)(pid \<mapsto> max m (last_included_index meta)),
                    next_index := (next_index n)(pid \<mapsto>
                       max ni (SafeAddOne (last_included_index meta)))\<rparr>))"

definition SendInstallSnapshotToPeer ::
    "('w, 'm) interfaces \<Rightarrow> ('w, 'm) transport \<Rightarrow> int \<Rightarrow> u64 \<Rightarrow> ('w, 'm) raft_node
      \<Rightarrow> bool \<times> ('w, 'm) raft_node" where
  "SendInstallSnapshotToPeer I tr pid term n =
     (if \<not> running n \<or> role n \<noteq> kLeader \<or> current_term n \<noteq> term then (False, n)
      else if last_snapshot_index n = 0 then (False, n)
      else case ss_ListSnapshots I (disk n) of
        (Inl _, w) \<Rightarrow> (False, n\<lparr>disk := w\<rparr>)
      | (Inr listed, w) \<Rightarrow>
          (let n1 = n\<lparr>disk := w\<rparr> in
           case choose_snapshot (last_snapshot_index n) (last_snapshot_term n) (snapshots listed) of
             None \<Rightarrow> (False, n1)
           | Some meta \<Rightarrow>
               (case read_file I (sm_snapshot_path meta) w of
                  None \<Rightarrow> (False, n1)
                | Some data \<Rightarrow>
                    (case InstallSnapshotRpc tr pid
                            \<lparr>iq_term = term, iq_leader_id = node_id n1,
                             iq_last_included_index = last_included_index meta,
                             iq_last_included_term = last_included_term meta,
                             snapshot_data = data\<rparr> n1 of
                       (None, n2) \<Rightarrow> (False, n2)
                     | (Some response, n2) \<Rightarrow> snapshot_answer I pid term meta response n2))))"

section \<open>One replication attempt\<close>

text \<open>The part under the replicator's own mutex: what to do next, with the inflight flag set.\<close>

datatype plan = PlanReturn bool | PlanSnapshot | PlanAppend AppendEntriesRequest

definition replicate_plan ::
    "int \<Rightarrow> u64 \<Rightarrow> u64 \<Rightarrow> ('w, 'm) raft_node \<Rightarrow> plan \<times> ('w, 'm) raft_node" where
  "replicate_plan pid leader_term target_index n =
     (if IsTargetMatched pid target_index n then (PlanReturn True, n)
      else case replicators n pid of
        None \<Rightarrow> (PlanReturn False, n)
      | Some r \<Rightarrow>
          if HasInflightRpc r \<or> IsBackoffActiveLocked (now n) r then (PlanReturn False, n)
          else case BuildAppendEntriesRequest pid leader_term n of
            (BatchNone, n1) \<Rightarrow> (PlanReturn False, n1)
          | (BatchSnapshot, n1) \<Rightarrow>
              (PlanSnapshot, upd_replicator pid
                 (\<lambda>r. r\<lparr>snapshot_inflight := True, snapshot_rpc_started := snapshot_rpc_started r + 1\<rparr>) n1)
          | (BatchAppend request, n1) \<Rightarrow>
              (PlanAppend request, upd_replicator pid
                 (\<lambda>r. r\<lparr>append_inflight := True, append_rpc_started := append_rpc_started r + 1\<rparr>) n1))"

text \<open>The result is the return value, the value written to \<^verbatim>\<open>should_apply\<close>, and the node.\<close>

definition ReplicateOnce ::
    "('w, 'm) interfaces \<Rightarrow> ('w, 'm) transport \<Rightarrow> int \<Rightarrow> u64 \<Rightarrow> u64 \<Rightarrow> ('w, 'm) raft_node
      \<Rightarrow> bool \<times> bool \<times> ('w, 'm) raft_node" where
  "ReplicateOnce I tr pid leader_term target_index n =
     (case replicate_plan pid leader_term target_index n of
        (PlanReturn b, n1) \<Rightarrow> (b, False, n1)
      | (PlanSnapshot, n1) \<Rightarrow>
          (let (ok, n2) = SendInstallSnapshotToPeer I tr pid leader_term n1;
               n3 = upd_replicator pid FinishSnapshotRpcLocked n2;
               n4 = upd_replicator pid (if ok then ResetBackoffLocked
                                        else RecordTransportFailureLocked (now n3)) n3
           in (if target_index = 0 then ok else ok \<and> IsTargetMatched pid target_index n4, False, n4))
      | (PlanAppend request, n1) \<Rightarrow>
          (case AppendEntriesRpc tr pid request n1 of
             (None, n2) \<Rightarrow>
               (False, False, upd_replicator pid
                  (\<lambda>r. RecordTransportFailureLocked (now n2) (FinishAppendRpcLocked r)) n2)
           | (Some response, n2) \<Rightarrow>
               (let (matched, ap, n3) =
                      HandleAppendEntriesResponse I pid leader_term target_index response n2;
                    n4 = upd_replicator pid FinishAppendRpcLocked n3
                in (matched, ap, upd_replicator pid
                      (if as_success response then ResetBackoffLocked
                       else (\<lambda>r. r\<lparr>next_retry_time := now n4\<rparr>)) n4))))"

section \<open>What a leader sends\<close>

text \<open>The records from a log index on.\<close>

definition log_from :: "u64 \<Rightarrow> ('w, 'm) raft_node \<Rightarrow> LogRecord list" where
  "log_from i n = drop (unat i - unat (last_snapshot_index n)) (log n)"

lemma log_from_Cons:
  assumes wf: "log_wf n" and b: "last_snapshot_index n \<le> i" "i \<le> LastLogIndexLocked n"
  shows "\<exists>r. LogAtIndexLocked i n = Some r \<and> lr_index r = i \<and>
    log_from i n = r # drop (Suc (unat i - unat (last_snapshot_index n))) (log n)"
  using log_wf_nth [OF wf b] by (simp add: log_from_def Cons_nth_drop_Suc)

lemma build_entries_prefix:
  assumes "log_wf n" and "LastLogIndexLocked n < - 1" and "last_snapshot_index n \<le> i"
  shows "\<exists>k. build_entries room cnt bytes i n = map entry_of_record (take k (log_from i n))
    \<and> k \<le> room \<and> k \<le> length (log_from i n) \<and>
    (0 < room \<and> cnt = 0 \<and> i \<le> LastLogIndexLocked n \<longrightarrow> 0 < k)"
  using assms
proof (induction room arbitrary: cnt bytes i)
  case 0
  show ?case by (intro exI [of _ 0]) simp
next
  case (Suc room)
  show ?case
  proof (cases "i \<le> LastLogIndexLocked n")
    case False
    then show ?thesis by (intro exI [of _ 0]) simp
  next
    case True
    from log_from_Cons [OF Suc.prems(1,3) True] obtain r where r: "LogAtIndexLocked i n = Some r"
      "log_from i n = r # drop (Suc (unat i - unat (last_snapshot_index n))) (log n)" by blast
    let ?nb = "bytes + length (lr_command r)"
    show ?thesis
    proof (cases "cnt > 0 \<and> ?nb > kMaxAppendEntriesBytes")
      case stop: True
      with True r show ?thesis by (intro exI [of _ 0]) (simp add: Let_def)
    next
      case False
      from True Suc.prems(2) have "i < - 1" by simp
      then have i1: "unat (i + 1) = Suc (unat i)" by (rule unat_add_one)
      have b: "last_snapshot_index n \<le> i + 1" using Suc.prems(3) i1 by (simp add: u64_simps)
      have tl: "log_from (i + 1) n = drop (Suc (unat i - unat (last_snapshot_index n))) (log n)"
        using i1 Suc.prems(3) by (simp add: log_from_def u64_simps Suc_diff_le)
      from Suc.IH [OF Suc.prems(1,2) b, of "Suc cnt" ?nb] obtain k where
        k: "build_entries room (Suc cnt) ?nb (i + 1) n = map entry_of_record (take k (log_from (i + 1) n))"
          "k \<le> room" "k \<le> length (log_from (i + 1) n)" by blast
      have "build_entries (Suc room) cnt bytes i n = map entry_of_record (take (Suc k) (log_from i n))"
        using True False r k(1) tl by (simp add: Let_def)
      with k r(2) tl show ?thesis by (intro exI [of _ "Suc k"]) simp
    qed
  qed
qed

lemma log_from_nth:
  assumes wf: "log_wf n" and b: "last_snapshot_index n \<le> i" and j: "j < length (log_from i n)"
  shows "unat (lr_index (log_from i n ! j)) = unat i + j"
  using consecutive_nth [OF log_wfD(2) [OF wf]] log_wfD(3) [OF wf] b j
  by (simp add: log_from_def u64_simps)

text \<open>
  A batch is a run of the leader's own records that starts right after its boundary record, with
  the term the leader has there; it carries the leader's term, id and commit index.
\<close>

lemma Build_request:
  assumes wf: "log_wf n" and room: "LastLogIndexLocked n < - 1"
    and b: "BuildAppendEntriesRequest pid t n = (BatchAppend q, n')"
  shows "role n = kLeader" and "current_term n = t" and "aq_term q = t" and "aq_leader_id q = node_id n"
    and "leader_commit q = commit_index n"
    and "last_snapshot_index n \<le> prev_log_index q"
    and "prev_log_index q \<noteq> 0 \<Longrightarrow> prev_log_index q \<le> LastLogIndexLocked n"
    and "prev_log_term q = TermAtIndexLocked (prev_log_index q) n"
    and "\<exists>k. entries q = map entry_of_record (take k (log_from (prev_log_index q + 1) n))
      \<and> k \<le> kMaxAppendEntriesPerRpc \<and> (prev_log_index q < LastLogIndexLocked n \<longrightarrow> 0 < k)"
    and "entries_after (prev_log_index q) (entries q)"
    and "next_index n' pid = Some (prev_log_index q + 1)"
proof -
  let ?st = "case next_index n pid of None \<Rightarrow> 0 | Some i \<Rightarrow> i"
  let ?ni = "if ?st = 0 then SafeAddOne (LastLogIndexLocked n) else ?st"
  let ?n1 = "n\<lparr>next_index := (next_index n)(pid \<mapsto> ?ni)\<rparr>"
  have same: "FirstLogIndexLocked ?n1 = FirstLogIndexLocked n"
    "\<And>i. TermAtIndexLocked i ?n1 = TermAtIndexLocked i n" "log_from i ?n1 = log_from i n"
    "LastLogIndexLocked ?n1 = LastLogIndexLocked n" for i
    by (simp_all add: FirstLogIndexLocked_def TermAtIndexLocked_def LogAtIndexLocked_def
        HasLogAtIndexLocked_def LogOffsetLocked_def log_from_def LastLogIndexLocked_def)
  have wf1: "log_wf ?n1" using wf by (simp add: log_wf_def)
  have sp: "role n = kLeader" "current_term n = t" "\<not> ?ni \<le> FirstLogIndexLocked n"
    "\<not> (TermAtIndexLocked (?ni - 1) n = 0 \<and> ?ni - 1 \<noteq> 0)"
    "q = \<lparr>aq_term = t, aq_leader_id = node_id n, prev_log_index = ?ni - 1,
       prev_log_term = TermAtIndexLocked (?ni - 1) n,
       entries = build_entries kMaxAppendEntriesPerRpc 0 0 ?ni ?n1, leader_commit = commit_index n\<rparr>"
    "n' = ?n1"
    using b unfolding BuildAppendEntriesRequest_def Let_def same
    by (auto split: if_splits)
  from sp(3) have gt: "last_snapshot_index n < ?ni" using log_wf_first [OF wf] by simp
  note pm = unat_minus_one [OF gt]
  have ni: "prev_log_index q + 1 = ?ni" using sp(5) by simp
  have lo: "last_snapshot_index n \<le> prev_log_index q"
    using sp(5) gt pm by (auto simp: u64_simps)
  from sp show "role n = kLeader" "current_term n = t" "aq_term q = t" "aq_leader_id q = node_id n"
    "leader_commit q = commit_index n" "prev_log_term q = TermAtIndexLocked (prev_log_index q) n"
    "last_snapshot_index n \<le> prev_log_index q" using lo by auto
  show "next_index n' pid = Some (prev_log_index q + 1)" using sp(6) ni by simp
  show "prev_log_index q \<le> LastLogIndexLocked n" if "prev_log_index q \<noteq> 0"
  proof (rule ccontr)
    assume "\<not> prev_log_index q \<le> LastLogIndexLocked n"
    then have "\<not> HasLogAtIndexLocked (prev_log_index q) n" by (simp add: log_wf_HasLog [OF wf])
    then have "TermAtIndexLocked (prev_log_index q) n = 0"
      by (simp add: TermAtIndexLocked_eq [OF wf] LogAtIndexLocked_def)
    with sp(4,5) that show False by simp
  qed
  obtain k where k: "entries q = map entry_of_record (take k (log_from (prev_log_index q + 1) n))"
    "k \<le> kMaxAppendEntriesPerRpc" "k \<le> length (log_from ?ni n)"
    "?ni \<le> LastLogIndexLocked n \<longrightarrow> 0 < k"
    using build_entries_prefix [of ?n1 ?ni kMaxAppendEntriesPerRpc 0 0] wf1 room gt sp(5) ni
    by (auto simp: same kMaxAppendEntriesPerRpc_def less_imp_le)
  have "prev_log_index q < LastLogIndexLocked n \<longrightarrow> ?ni \<le> LastLogIndexLocked n"
    using ni unat_add_one [of "prev_log_index q" "LastLogIndexLocked n"] by (auto simp: u64_simps)
  with k show "\<exists>k. entries q = map entry_of_record (take k (log_from (prev_log_index q + 1) n))
      \<and> k \<le> kMaxAppendEntriesPerRpc \<and> (prev_log_index q < LastLogIndexLocked n \<longrightarrow> 0 < k)" by blast
  have "unat ?ni = Suc (unat (prev_log_index q))" using pm gt sp(5) by (simp add: u64_simps)
  then show "entries_after (prev_log_index q) (entries q)"
    using k log_from_nth [OF wf less_imp_le [OF gt]] ni
    by (auto simp: entries_after_def entry_of_record_def)
qed

section \<open>Progress of the indexes\<close>

lemma hinted_next_le: "hinted_next r n \<le> SafeAddOne (LastLogIndexLocked n)"
  by (auto simp: hinted_next_def Let_def)

lemma first_index_of_term_le:
  assumes "consecutive l" and "k < length l" and "lr_term (l ! k) = t"
  shows "first_index_of_term t l \<le> lr_index (l ! k)"
proof -
  have "\<exists>j \<le> k. first_index_of_term t l = lr_index (l ! j)"
    using assms(2,3)
  proof (induction l arbitrary: k)
    case (Cons a l)
    show ?case
    proof (cases "lr_term a = t")
      case True
      then show ?thesis by (intro exI [of _ 0]) simp
    next
      case False
      with Cons.prems obtain k' where k': "k = Suc k'" by (cases k) auto
      with Cons.prems Cons.IH [of k'] False show ?thesis by (auto intro: exI [of _ "Suc _"])
    qed
  qed simp
  then obtain j where "j \<le> k" "first_index_of_term t l = lr_index (l ! j)" by blast
  with consecutive_nth [OF assms(1), of j] consecutive_nth [OF assms(1), of k] assms(2)
  show ?thesis by (simp add: u64_simps)
qed

lemma SetHint_conflict_index_le:
  assumes wf: "log_wf n" and has: "HasLogAtIndexLocked probe n"
  shows "conflict_index (SetAppendEntriesConflictHintLocked probe n r) \<le> probe"
    and "as_success (SetAppendEntriesConflictHintLocked probe n r) = as_success r"
proof -
  have b: "last_snapshot_index n \<le> probe" "probe \<le> LastLogIndexLocked n"
    using has by (simp_all add: log_wf_HasLog [OF wf])
  note nth = log_wf_nth [OF wf b]
  let ?k = "unat probe - unat (last_snapshot_index n)"
  have t: "TermAtIndexLocked probe n = lr_term (log n ! ?k)"
    using nth(1) by (simp add: TermAtIndexLocked_eq [OF wf])
  with first_index_of_term_le [OF log_wfD(2) [OF wf] nth(2) refl] nth(3)
  have "FirstIndexOfTermLocked (TermAtIndexLocked probe n) n \<le> probe"
    by (simp add: FirstIndexOfTermLocked_def)
  moreover have "\<not> probe < last_snapshot_index n" using b(1) by simp
  ultimately show "conflict_index (SetAppendEntriesConflictHintLocked probe n r) \<le> probe"
    using has by (simp add: SetAppendEntriesConflictHintLocked_def Let_def)
  show "as_success (SetAppendEntriesConflictHintLocked probe n r) = as_success r"
    by (simp add: SetAppendEntriesConflictHintLocked_def Let_def)
qed

lemma Handle_frame:
  "config (snd (snd (HandleAppendEntriesResponse I pid t tgt r n))) = config n"
  "log (snd (snd (HandleAppendEntriesResponse I pid t tgt r n))) = log n"
  "last_applied (snd (snd (HandleAppendEntriesResponse I pid t tgt r n))) = last_applied n"
  "last_snapshot_index (snd (snd (HandleAppendEntriesResponse I pid t tgt r n))) = last_snapshot_index n"
  "last_snapshot_term (snd (snd (HandleAppendEntriesResponse I pid t tgt r n))) = last_snapshot_term n"
  "running (snd (snd (HandleAppendEntriesResponse I pid t tgt r n))) = running n"
  "state_machine (snd (snd (HandleAppendEntriesResponse I pid t tgt r n))) = state_machine n"
  by (simp_all add: HandleAppendEntriesResponse_def Let_def)

lemma vote_le_Handle: "vote_le n (snd (snd (HandleAppendEntriesResponse I pid t tgt r n)))"
  by (auto simp: HandleAppendEntriesResponse_def Let_def vote_le_BecomeFollower intro: vote_le_same)

lemma Handle_commit_mono:
  "commit_index n \<le> commit_index (snd (snd (HandleAppendEntriesResponse I pid t tgt r n)))"
  using Advance_commit_mono [of "n\<lparr>match_index := mi, next_index := ni\<rparr>" I for mi ni]
  by (simp add: HandleAppendEntriesResponse_def Let_def)

lemma Handle_role:
  "role (snd (snd (HandleAppendEntriesResponse I pid t tgt r n))) =
     (if running n \<and> as_term r > current_term n then kFollower else role n)"
  by (simp add: HandleAppendEntriesResponse_def Let_def)

section \<open>Retry backoff\<close>

definition backoff_ok :: "Replicator \<Rightarrow> bool" where
  "backoff_ok r \<longleftrightarrow> kInitialRetryBackoff \<le> retry_backoff r \<and> retry_backoff r \<le> kMaxRetryBackoff"

lemmas backoff_defs = backoff_ok_def kInitialRetryBackoff_def kMaxRetryBackoff_def

lemma backoff_ok_steps:
  "backoff_ok (Replicator_init p)" "backoff_ok (ResetBackoffLocked r)"
  "backoff_ok r \<Longrightarrow> backoff_ok (RecordTransportFailureLocked t r)"
  "backoff_ok r \<Longrightarrow> backoff_ok (FinishAppendRpcLocked r)"
  "backoff_ok r \<Longrightarrow> backoff_ok (FinishSnapshotRpcLocked r)"
  by (auto simp: backoff_defs Replicator_init_def ResetBackoffLocked_def RecordTransportFailureLocked_def
      FinishAppendRpcLocked_def FinishSnapshotRpcLocked_def)

lemma backoff_run:
  "retry_backoff (fold RecordTransportFailureLocked ts r) =
    min kMaxRetryBackoff (retry_backoff r * 2 ^ length ts)" if "0 < retry_backoff r" "retry_backoff r \<le> kMaxRetryBackoff"
  using that
proof (induction ts arbitrary: r)
  case Nil
  then show ?case by simp
next
  case (Cons t ts)
  let ?r = "RecordTransportFailureLocked t r"
  have b: "retry_backoff ?r = min 500 (retry_backoff r * 2)"
    by (simp add: RecordTransportFailureLocked_def kMaxRetryBackoff_def)
  have "0 < retry_backoff ?r" "retry_backoff ?r \<le> kMaxRetryBackoff"
    using Cons.prems b by (simp_all add: kMaxRetryBackoff_def)
  from Cons.IH [OF this] have "retry_backoff (fold RecordTransportFailureLocked (t # ts) r) =
      min 500 (min 500 (retry_backoff r * 2) * 2 ^ length ts)" by (simp add: b kMaxRetryBackoff_def)
  also have "\<dots> = min 500 (min (500 * 2 ^ length ts) (retry_backoff r * 2 * 2 ^ length ts))"
    by (simp add: min_mult_distrib_right)
  also have "\<dots> = min 500 (retry_backoff r * 2 * 2 ^ length ts)"
  proof -
    have "(500 :: int) \<le> 500 * 2 ^ length ts" by simp
    then show ?thesis by linarith
  qed
  finally show ?case by (simp add: kMaxRetryBackoff_def algebra_simps)
qed

end
