(* ===== verification/Proposals.thy ===== *)
theory Proposals
  imports Replication
begin

text \<open>
  Client proposals and what a new leader does (\<^verbatim>\<open>raft_node.cpp\<close>): validation of commands (lines 1907 to
  1996), waiting for a majority (\<^verbatim>\<open>ReplicateLogEntryToMajority\<close>, 2023 to 2139), \<^verbatim>\<open>Propose\<close> (1777 to 1905),
  the leader's no-op (2533 to 2568), heartbeats (798 to 851) and \<^verbatim>\<open>OnElectionWon\<close> (769 to 796).

  The waiting loop runs until a deadline of twenty RPC deadlines and sleeps twenty milliseconds
  per round, so \<open>rpc_deadline + 1\<close> rounds are enough; the model gives the loop that much fuel, and
  \<open>replicate_loop_returns\<close> shows that it never runs out of it while the clock is monotonic.
\<close>

section \<open>Validation\<close>

text \<open>\<open>Some reason\<close> is a refusal, \<open>None\<close> the return value true.\<close>

definition ValidateKeyUnlocked :: "KvRequestLimits \<Rightarrow> string \<Rightarrow> string option" where
  "ValidateKeyUnlocked limits key =
     (if key = [] then Some ''key must not be empty''
      else if CHR ''|'' \<in> set key
      then Some (''key must not contain '' @ [CHR 0x27, CHR ''|'', CHR 0x27])
      else if length key > max_key_bytes limits then Some ''key size exceeds limit''
      else None)"

definition ValidateValueUnlocked :: "KvRequestLimits \<Rightarrow> string \<Rightarrow> string option" where
  "ValidateValueUnlocked limits val =
     (if CHR ''|'' \<in> set val
      then Some (''value must not contain '' @ [CHR 0x27, CHR ''|'', CHR 0x27])
      else if length val > max_value_bytes limits then Some ''value size exceeds limit''
      else None)"

definition ValidateCommandUnlocked :: "KvRequestLimits \<Rightarrow> Command \<Rightarrow> string option" where
  "ValidateCommandUnlocked limits command =
     (if \<not> IsValid command then Some ''invalid command''
      else case ValidateKeyUnlocked limits (cmd_key command) of
        Some reason \<Rightarrow> Some reason
      | None \<Rightarrow>
          (case (if cmd_type command = kSet then ValidateValueUnlocked limits (cmd_value command)
                 else None) of
             Some reason \<Rightarrow> Some reason
           | None \<Rightarrow>
               (let serialized = Serialize command in
                if serialized = [] then Some ''command serialization result is empty''
                else if length serialized > max_command_bytes limits
                then Some ''command size exceeds limit''
                else None)))"

section \<open>Waiting for a majority\<close>

datatype ReplicationOutcome = kReplicated | kTimeout | kLostLeadership | kLogUnavailable

definition leads :: "u64 \<Rightarrow> ('w, 'm) raft_node \<Rightarrow> bool" where
  "leads term n \<longleftrightarrow> running n \<and> role n = kLeader \<and> current_term n = term"

fun create_replicators :: "PeerConfig list \<Rightarrow> ('w, 'm) raft_node \<Rightarrow> ('w, 'm) raft_node" where
  "create_replicators [] n = n"
| "create_replicators (p # ps) n = create_replicators ps (GetOrCreateReplicatorLocked p n)"

text \<open>The loop over the peers inside one round; \<open>None\<close> when the round ends without a decision.\<close>

fun replicate_peers ::
    "('w, 'm) interfaces \<Rightarrow> ('w, 'm) transport \<Rightarrow> u64 \<Rightarrow> u64 \<Rightarrow> PeerConfig list \<Rightarrow> ('w, 'm) raft_node
      \<Rightarrow> ReplicationOutcome option \<times> ('w, 'm) raft_node" where
  "replicate_peers I tr term log_index [] n = (None, n)"
| "replicate_peers I tr term log_index (peer # rest) n =
     (if \<not> leads term n then (Some kLostLeadership, n)
      else if (case match_index n (peer_id peer) of None \<Rightarrow> False | Some m \<Rightarrow> m \<ge> log_index)
      then replicate_peers I tr term log_index rest n
      else
        let n1 = GetOrCreateReplicatorLocked peer n;
            (matched, should_apply, n2) = ReplicateOnce I tr (peer_id peer) term log_index n1;
            n3 = (if should_apply then snd (ApplyCommittedEntries I n2) else n2)
        in if \<not> leads term n3 then (Some kLostLeadership, n3)
           else if replicated_count log_index n3 \<ge> majority n3 then (Some kReplicated, n3)
           else replicate_peers I tr term log_index rest n3)"

definition replicate_round ::
    "('w, 'm) interfaces \<Rightarrow> ('w, 'm) transport \<Rightarrow> u64 \<Rightarrow> ('w, 'm) raft_node
      \<Rightarrow> ReplicationOutcome option \<times> ('w, 'm) raft_node" where
  "replicate_round I tr log_index n =
     (if \<not> running n \<or> role n \<noteq> kLeader then (Some kLostLeadership, n)
      else if \<not> HasLogAtIndexLocked log_index n
      then (Some (if log_index \<le> last_snapshot_index n then kReplicated else kLogUnavailable), n)
      else
        let term = current_term n; n1 = create_replicators (peers n) n
        in if majority n1 \<le> 1 then (Some kReplicated, n1)
           else if replicated_count log_index n1 \<ge> majority n1 then (Some kReplicated, n1)
           else replicate_peers I tr term log_index (peers n1) n1)"

definition sleep_ms :: "('w, 'm) transport \<Rightarrow> int \<Rightarrow> ('w, 'm) raft_node \<Rightarrow> ('w, 'm) raft_node" where
  "sleep_ms tr d n =
     (let n1 = during_sleep tr n in n1\<lparr>timers := (timers n1)\<lparr>clock := clock (timers n1) + d\<rparr>\<rparr>)"

fun replicate_loop ::
    "nat \<Rightarrow> ('w, 'm) interfaces \<Rightarrow> ('w, 'm) transport \<Rightarrow> int \<Rightarrow> u64 \<Rightarrow> ('w, 'm) raft_node
      \<Rightarrow> (ReplicationOutcome \<times> ('w, 'm) raft_node) option" where
  "replicate_loop 0 I tr deadline_ms log_index n = None"
| "replicate_loop (Suc fuel) I tr deadline_ms log_index n =
     (if \<not> now n < deadline_ms then Some (kTimeout, n)
      else case replicate_round I tr log_index n of
             (Some outcome, n1) \<Rightarrow> Some (outcome, n1)
           | (None, n1) \<Rightarrow> replicate_loop fuel I tr deadline_ms log_index (sleep_ms tr 20 n1))"

definition ReplicateLogEntryToMajority ::
    "('w, 'm) interfaces \<Rightarrow> ('w, 'm) transport \<Rightarrow> u64 \<Rightarrow> ('w, 'm) raft_node
      \<Rightarrow> (ReplicationOutcome \<times> ('w, 'm) raft_node) option" where
  "ReplicateLogEntryToMajority I tr log_index n =
     replicate_loop (nat (rpc_deadline (config n)) + 1) I tr
       (now n + rpc_deadline (config n) * 20) log_index n"

section \<open>Proposals\<close>

text \<open>First locked section of \<^verbatim>\<open>Propose\<close>: \<open>Inl\<close> is a refusal.\<close>

definition propose_begin ::
    "('w, 'm) interfaces \<Rightarrow> Command \<Rightarrow> ('w, 'm) raft_node
      \<Rightarrow> (ProposeResult + ProposeResult) \<times> ('w, 'm) raft_node" where
  "propose_begin I command n =
     (let result = ProposeResult_init in
      if \<not> running n
      then (Inl (result\<lparr>pr_status := Propose_kNodeStopping, pr_leader_id := leader_id n,
              pr_term := current_term n, pr_message := ''node is stopping''\<rparr>), RecordProposeResult False n)
      else if role n \<noteq> kLeader
      then (Inl (result\<lparr>pr_status := Propose_kNotLeader, pr_leader_id := leader_id n,
              pr_term := current_term n, pr_message := ''node is not the leader''\<rparr>),
            RecordProposeResult False n)
      else case ValidateCommandUnlocked (kv_limits (config n)) command of
        Some reason \<Rightarrow>
          (Inl (result\<lparr>pr_status := Propose_kInvalidCommand, pr_leader_id := node_id n,
              pr_term := current_term n, pr_message := reason\<rparr>), RecordProposeResult False n)
      | None \<Rightarrow>
          (let command_data = Serialize command in
           if command_data = []
           then (Inl (result\<lparr>pr_status := Propose_kInvalidCommand, pr_leader_id := node_id n,
                   pr_term := current_term n, pr_message := ''failed to serialize command''\<rparr>),
                 RecordProposeResult False n)
           else
             let (log_index, n1) = AppendLocalLogUnlocked I command_data n
             in if log_index = 0
                then (Inl (result\<lparr>pr_status := Propose_kReplicationFailed, pr_leader_id := node_id n1,
                        pr_term := current_term n1,
                        pr_message := ''failed to append and persist local log entry''\<rparr>),
                      RecordProposeResult False n1)
                else (Inr (result\<lparr>pr_leader_id := node_id n1, pr_term := current_term n,
                        pr_log_index := log_index, pr_message := ''log appended locally''\<rparr>), n1)))"

text \<open>The rest of \<^verbatim>\<open>Propose\<close>, after the wait.\<close>

definition propose_finish ::
    "('w, 'm) interfaces \<Rightarrow> ProposeResult \<Rightarrow> ReplicationOutcome \<Rightarrow> ('w, 'm) raft_node
      \<Rightarrow> ProposeResult \<times> ('w, 'm) raft_node" where
  "propose_finish I result replicated n =
     (if replicated \<noteq> kReplicated
      then
        let r = result\<lparr>pr_leader_id := leader_id n, pr_term := current_term n\<rparr>;
            r1 = (if replicated = kTimeout
                  then r\<lparr>pr_status := Propose_kTimeout,
                         pr_message := ''timed out waiting for majority replication''\<rparr>
                  else if replicated = kLostLeadership
                  then r\<lparr>pr_status := Propose_kNotLeader, pr_message :=
                         ''lost leadership before the log entry reached a majority''\<rparr>
                  else r\<lparr>pr_status := Propose_kReplicationFailed,
                         pr_message := ''failed to replicate log entry to majority''\<rparr>)
        in (r1, RecordProposeResult False n)
      else
        let n1 = AdvanceCommitIndexUnlocked I n;
            (apply_result, n2) = ApplyCommittedEntries I n1
        in if \<not> apply_Ok apply_result
           then (result\<lparr>pr_status := Propose_kApplyFailed, pr_message := apply_message apply_result\<rparr>,
                 RecordProposeResult False n2)
           else if last_applied n2 < pr_log_index result
           then (result\<lparr>pr_status := Propose_kApplyFailed,
                        pr_message := ''log committed but not applied''\<rparr>, RecordProposeResult False n2)
           else (result\<lparr>pr_status := Propose_kOk, pr_message := ''command committed and applied''\<rparr>,
                 RecordProposeResult True n2))"

definition Propose ::
    "('w, 'm) interfaces \<Rightarrow> ('w, 'm) transport \<Rightarrow> Command \<Rightarrow> ('w, 'm) raft_node
      \<Rightarrow> (ProposeResult \<times> ('w, 'm) raft_node) option" where
  "Propose I tr command n =
     (case propose_begin I command n of
        (Inl result, n1) \<Rightarrow> Some (result, n1)
      | (Inr result, n1) \<Rightarrow>
          (case ReplicateLogEntryToMajority I tr (pr_log_index result) n1 of
             None \<Rightarrow> None
           | Some (replicated, n2) \<Rightarrow> Some (propose_finish I result replicated n2)))"

definition ProposeNoOpEntry ::
    "('w, 'm) interfaces \<Rightarrow> ('w, 'm) transport \<Rightarrow> ('w, 'm) raft_node
      \<Rightarrow> (bool \<times> ('w, 'm) raft_node) option" where
  "ProposeNoOpEntry I tr n =
     (if \<not> running n \<or> role n \<noteq> kLeader then Some (False, n)
      else
        let (log_index, n1) = AppendLocalLogUnlocked I kInternalNoOpCommand n
        in if log_index = 0 then Some (False, n1)
           else case ReplicateLogEntryToMajority I tr log_index n1 of
                  None \<Rightarrow> None
                | Some (replicated, n2) \<Rightarrow>
                    if replicated \<noteq> kReplicated then Some (False, n2)
                    else let (result, n3) = ApplyCommittedEntries I (AdvanceCommitIndexUnlocked I n2)
                         in Some (apply_Ok result, n3))"

section \<open>Heartbeats\<close>

text \<open>
  \<^verbatim>\<open>SendHeartbeats\<close> creates the replicators and hands one task per peer to the pool: the result is
  the list of these tasks, each a peer and the term it was created in.
\<close>

definition SendHeartbeats ::
    "('w, 'm) raft_node \<Rightarrow> (PeerConfig \<times> u64) list \<times> ('w, 'm) raft_node" where
  "SendHeartbeats n =
     (if \<not> running n \<or> role n \<noteq> kLeader then ([], n)
      else (map (\<lambda>p. (p, current_term n)) (peers n), create_replicators (peers n) n))"

definition heartbeat_task ::
    "('w, 'm) interfaces \<Rightarrow> ('w, 'm) transport \<Rightarrow> PeerConfig \<times> u64 \<Rightarrow> ('w, 'm) raft_node
      \<Rightarrow> ('w, 'm) raft_node" where
  "heartbeat_task I tr task n =
     (case task of (peer, term) \<Rightarrow>
        if \<not> leads term n then n
        else
          let n1 = GetOrCreateReplicatorLocked peer n;
              (matched, should_apply, n2) = ReplicateOnce I tr (peer_id peer) term 0 n1
          in if should_apply then snd (ApplyCommittedEntries I n2) else n2)"

text \<open>The callback of the heartbeat timer: send, then arm the timer again while still leader.\<close>

definition heartbeat_callback ::
    "('w, 'm) raft_node \<Rightarrow> (PeerConfig \<times> u64) list \<times> ('w, 'm) raft_node" where
  "heartbeat_callback n =
     (let (work, n1) = SendHeartbeats n
      in (work, if running n1 \<and> role n1 = kLeader then ResetHeartbeatTimerLocked n1 else n1))"

definition OnElectionWon ::
    "('w, 'm) interfaces \<Rightarrow> ('w, 'm) transport \<Rightarrow> u64 \<Rightarrow> ('w, 'm) raft_node
      \<Rightarrow> ((PeerConfig \<times> u64) list \<times> ('w, 'm) raft_node) option" where
  "OnElectionWon I tr term n =
     (case OnElectionWonLocked term n of
        (False, n1) \<Rightarrow> Some ([], n1)
      | (True, n1) \<Rightarrow>
          (case ProposeNoOpEntry I tr n1 of
             None \<Rightarrow> None
           | Some (_, n2) \<Rightarrow> Some (SendHeartbeats n2)))"

section \<open>The wait ends\<close>

text \<open>What the wait relies on of its environment: \<^verbatim>\<open>steady_clock\<close> never runs backwards.\<close>

definition clock_monotone :: "('w, 'm) transport \<Rightarrow> bool" where
  "clock_monotone tr \<longleftrightarrow>
     (\<forall>pid q n. now n \<le> now (snd (call_AppendEntries tr pid q n))) \<and>
     (\<forall>pid q n. now n \<le> now (snd (call_InstallSnapshot tr pid q n))) \<and>
     (\<forall>n. now n \<le> now (during_sleep tr n))"

lemma clock_timers [simp]:
  shows "clock (cancel_election_timer t) = clock t"
    "clock (cancel_heartbeat_timer t) = clock t"
    "clock (reset_election_timer cfg b r t) = clock t"
    "clock (reset_heartbeat_timer cfg r t) = clock t"
  by (simp_all add: cancel_election_timer_def cancel_heartbeat_timer_def reset_election_timer_def
      reset_heartbeat_timer_def RandomElectionTimeoutLocked_def Let_def split_def split: option.split)

lemma now_BecomeFollower [simp]: "now (snd (BecomeFollowerLocked I t l n)) = now n"
  by (simp add: BecomeFollowerLocked_def node_defs Let_def split_def)

lemma now_Handle [simp]: "now (snd (snd (HandleAppendEntriesResponse I pid t tgt r n))) = now n"
  by (simp add: HandleAppendEntriesResponse_def Let_def)

lemma now_Build [simp]: "now (snd (BuildAppendEntriesRequest pid t n)) = now n"
  by (simp add: BuildAppendEntriesRequest_def Let_def)

lemma now_plan [simp]: "now (snd (replicate_plan pid t tgt n)) = now n"
proof -
  obtain b n1 where "BuildAppendEntriesRequest pid t n = (b, n1)" by fastforce
  with now_Build [of pid t n] show ?thesis
    by (cases b) (simp_all add: replicate_plan_def node_defs split: option.split)
qed

lemma now_AppendRpc:
  "clock_monotone tr \<Longrightarrow> now n \<le> now (snd (AppendEntriesRpc tr pid q n))"
  by (simp add: AppendEntriesRpc_def clock_monotone_def node_defs Let_def split_def)

lemma now_SendInstall:
  assumes "clock_monotone tr"
  shows "now n \<le> now (snd (SendInstallSnapshotToPeer I tr pid t n))"
proof -
  have rpc: "now m \<le> now (snd (InstallSnapshotRpc tr pid q m))" for q m
    using assms by (simp add: InstallSnapshotRpc_def clock_monotone_def node_defs Let_def split_def)
  have ans: "now (snd (snapshot_answer I pid t meta r m)) = now m" for meta r m
    by (simp add: snapshot_answer_def Let_def)
  have rpc': "now n \<le> now (snd (InstallSnapshotRpc tr pid q (n\<lparr>disk := w\<rparr>)))" for q w
    using rpc [of "n\<lparr>disk := w\<rparr>"] by simp
  show ?thesis
    by (simp add: SendInstallSnapshotToPeer_def Let_def split_def ans rpc'
        split: sum.split option.split)
qed

lemma now_ReplicateOnce:
  assumes "clock_monotone tr"
  shows "now n \<le> now (snd (snd (ReplicateOnce I tr pid t tgt n)))"
proof -
  obtain pl n1 where p: "replicate_plan pid t tgt n = (pl, n1)" by fastforce
  then have n1: "now n1 = now n" using now_plan [of pid t tgt n] by simp
  have upd: "now (upd_replicator pid f m) = now m" for f m by (simp add: node_defs)
  show ?thesis
  proof (cases pl)
    case (PlanReturn b)
    with p n1 show ?thesis by (simp add: ReplicateOnce_def)
  next
    case PlanSnapshot
    with p n1 now_SendInstall [OF assms, of n1 I pid t] show ?thesis
      by (simp add: ReplicateOnce_def Let_def split_def upd)
  next
    case (PlanAppend q)
    with p n1 now_AppendRpc [OF assms, of n1 pid q] show ?thesis
      by (simp add: ReplicateOnce_def Let_def split_def upd split: option.split)
  qed
qed

lemma now_Get [simp]: "now (GetOrCreateReplicatorLocked p n) = now n"
  by simp

lemma now_create [simp]: "now (create_replicators ps n) = now n"
  by (induction ps arbitrary: n) simp_all

lemma now_replicate_peers:
  assumes "clock_monotone tr"
  shows "now n \<le> now (snd (replicate_peers I tr t li ps n))"
proof (induction ps arbitrary: n)
  case (Cons p ps)
  let ?r = "ReplicateOnce I tr (peer_id p) t li (GetOrCreateReplicatorLocked p n)"
  define n3 where "n3 = (if fst (snd ?r) then snd (ApplyCommittedEntries I (snd (snd ?r))) else snd (snd ?r))"
  have le: "now n \<le> now n3"
    using now_ReplicateOnce [OF assms, of "GetOrCreateReplicatorLocked p n" I "peer_id p" t li]
    by (simp add: n3_def)
  from Cons.IH [of n3] le have le': "now n \<le> now (snd (replicate_peers I tr t li ps n3))" by linarith
  have "replicate_peers I tr t li (p # ps) n =
      (if \<not> leads t n then (Some kLostLeadership, n)
       else if (case match_index n (peer_id p) of None \<Rightarrow> False | Some m \<Rightarrow> m \<ge> li)
       then replicate_peers I tr t li ps n
       else if \<not> leads t n3 then (Some kLostLeadership, n3)
       else if replicated_count li n3 \<ge> majority n3 then (Some kReplicated, n3)
       else replicate_peers I tr t li ps n3)"
    unfolding n3_def replicate_peers.simps Let_def split_def by (rule refl)
  with le le' Cons.IH [of n] show ?case by simp
qed simp

lemma now_replicate_round:
  assumes "clock_monotone tr"
  shows "now n \<le> now (snd (replicate_round I tr li n))"
  using now_replicate_peers [OF assms, of "create_replicators (peers n) n"]
  by (simp add: replicate_round_def Let_def)

lemma replicate_loop_returns:
  assumes "clock_monotone tr" and "deadline_ms - now n \<le> 20 * int fuel"
  shows "\<exists>o' n'. replicate_loop (Suc fuel) I tr deadline_ms li n = Some (o', n')"
  using assms(2)
proof (induction fuel arbitrary: n)
  case 0
  then show ?case by simp
next
  case (Suc fuel)
  obtain oo n1 where r: "replicate_round I tr li n = (oo, n1)" by fastforce
  show ?case
  proof (cases oo)
    case (Some x)
    with r show ?thesis by simp
  next
    case None
    let ?n2 = "sleep_ms tr 20 n1"
    have "now n1 \<le> now (during_sleep tr n1)" using assms(1) by (simp add: clock_monotone_def)
    then have "now n + 20 \<le> now ?n2"
      using now_replicate_round [OF assms(1), of n I li] r by (simp add: sleep_ms_def Let_def)
    with Suc.prems have "deadline_ms - now ?n2 \<le> 20 * int fuel" by simp
    from Suc.IH [OF this] obtain o' n' where
      "replicate_loop (Suc fuel) I tr deadline_ms li ?n2 = Some (o', n')" by blast
    with r None show ?thesis by (subst replicate_loop.simps) simp
  qed
qed

lemma ReplicateLogEntryToMajority_returns:
  assumes "clock_monotone tr"
  shows "\<exists>o' n'. ReplicateLogEntryToMajority I tr li n = Some (o', n')"
  using replicate_loop_returns [OF assms, of "now n + rpc_deadline (config n) * 20" n
      "nat (rpc_deadline (config n))" I li]
  by (simp add: ReplicateLogEntryToMajority_def)

lemma Propose_returns:
  assumes "clock_monotone tr"
  shows "\<exists>r n'. Propose I tr c n = Some (r, n')"
proof -
  obtain x n1 where b: "propose_begin I c n = (x, n1)" by fastforce
  show ?thesis
  proof (cases x)
    case (Inl r)
    with b show ?thesis by (simp add: Propose_def)
  next
    case (Inr r)
    from ReplicateLogEntryToMajority_returns [OF assms, of I "pr_log_index r" n1]
    obtain o' n2 where "ReplicateLogEntryToMajority I tr (pr_log_index r) n1 = Some (o', n2)" by blast
    with b Inr show ?thesis by (simp add: Propose_def)
  qed
qed

section \<open>What an answer to a client means\<close>

lemma Propose_ok_applied:
  assumes "Propose I tr c n = Some (r, n')" and "pr_status r = Propose_kOk"
  shows "pr_log_index r \<le> last_applied n'" and "role n = kLeader" and "running n"
    and "ValidateCommandUnlocked (kv_limits (config n)) c = None"
    and "pr_log_index r = SafeAddOne (LastLogIndexLocked n)" and "pr_term r = current_term n"
proof -
  obtain x n1 where b: "propose_begin I c n = (x, n1)" by fastforce
  have nl: "pr_status r1 \<noteq> Propose_kOk" if "x = Inl r1" for r1
    using b that by (auto simp: propose_begin_def Let_def split_def split: if_splits option.splits)
  then obtain r1 where x: "x = Inr r1" using assms b by (cases x) (auto simp: Propose_def)
  then have bg: "role n = kLeader" "running n"
    "ValidateCommandUnlocked (kv_limits (config n)) c = None"
    "pr_log_index r1 = SafeAddOne (LastLogIndexLocked n)" "pr_term r1 = current_term n"
    using b by (auto simp: propose_begin_def Let_def split_def Append_result ProposeResult_init_def
        split: if_splits option.splits)
  from assms(1) b x obtain rep n2 where fin: "propose_finish I r1 rep n2 = (r, n')"
    by (auto simp: Propose_def split: option.splits)
  with assms(2) have fr: "pr_log_index r1 \<le> last_applied n'" "pr_log_index r = pr_log_index r1"
    "pr_term r = pr_term r1"
    by (auto simp: propose_finish_def Let_def split_def node_defs split: if_splits)
  from bg fr show "pr_log_index r \<le> last_applied n'" "role n = kLeader" "running n"
    "ValidateCommandUnlocked (kv_limits (config n)) c = None"
    "pr_log_index r = SafeAddOne (LastLogIndexLocked n)" "pr_term r = current_term n" by simp_all
qed

lemma Validate_no_delimiter:
  assumes "ValidateCommandUnlocked lim c = None"
  shows "cmd_type c \<noteq> kUnknown" and "cmd_key c \<noteq> []" and "CHR ''|'' \<notin> set (cmd_key c)"
    and "cmd_type c = kSet \<Longrightarrow> CHR ''|'' \<notin> set (cmd_value c)"
    and "length (Serialize c) \<le> max_command_bytes lim"
  using assms
  by (auto simp: ValidateCommandUnlocked_def ValidateKeyUnlocked_def ValidateValueUnlocked_def
      IsValid_def Let_def split: if_splits option.splits CommandType.splits)

end
