(* ===== verification/Lifecycle.thy ===== *)
theory Lifecycle
  imports Proposals
begin

text \<open>
  Construction, start and stop of a node, its identity file and its status reports (\<^verbatim>\<open>raft_node.cpp\<close>,
  lines 41 to 512 and 1630 to 1710). The constructor is the recovery path: it loads the hard state
  and the log, clamps the commit boundary, loads the newest snapshot and replays the committed
  records. An exception is \<open>Inl\<close> with its text and the disk as the constructor left it.
\<close>

section \<open>Identity file\<close>

definition DefaultDataDir :: "int \<Rightarrow> string" where
  "DefaultDataDir nid = ''./raft_data/node_'' @ string_of_int nid"

definition DefaultSnapshotDir :: "int \<Rightarrow> string" where
  "DefaultSnapshotDir nid = ''./raft_snapshots/node_'' @ string_of_int nid"

definition blank :: "char \<Rightarrow> bool" where
  "blank c \<longleftrightarrow> c = CHR '' '' \<or> c = CHR 0x09 \<or> c = CHR 0x0D \<or> c = CHR 0x0A"

definition Trim :: "string \<Rightarrow> string" where
  "Trim text = rev (dropWhile blank (rev (dropWhile blank text)))"

text \<open>\<^verbatim>\<open>emplace\<close> keeps the first value of a key, as \<open>map_of\<close> does on the pairs in file order.\<close>

fun identity_lines :: "string list \<Rightarrow> string + (string \<times> string) list" where
  "identity_lines [] = Inr []"
| "identity_lines (raw # rest) =
     (let line = Trim raw in
      if line = [] then identity_lines rest
      else if CHR ''='' \<notin> set line then Inl (''invalid identity line: '' @ line)
      else case identity_lines rest of
             Inl e \<Rightarrow> Inl e
           | Inr vs \<Rightarrow> Inr ((Trim (takeWhile (\<lambda>c. c \<noteq> CHR ''='') line),
                           Trim (drop 1 (dropWhile (\<lambda>c. c \<noteq> CHR ''='') line))) # vs))"

definition ReadIdentityFile ::
    "('w, 'm) interfaces \<Rightarrow> string \<Rightarrow> 'w \<Rightarrow> string + (string \<times> string) list" where
  "ReadIdentityFile I path w =
     (case read_file I path w of
        None \<Rightarrow> Inl (''failed to open identity file: '' @ path)
      | Some content \<Rightarrow> identity_lines (Split content (CHR 0x0A)))"

text \<open>\<^verbatim>\<open>std::stoi\<close>: white space, an optional sign, digits; \<open>None\<close> where it throws.\<close>

definition stoi :: "string \<Rightarrow> int option" where
  "stoi text =
     (let s = dropWhile isspace text;
          neg = (s \<noteq> [] \<and> hd s = CHR ''-'');
          s1 = (if s \<noteq> [] \<and> (hd s = CHR ''-'' \<or> hd s = CHR ''+'') then tl s else s);
          ds = takeWhile is_digit s1;
          v = (if neg then - int (digits_value ds) else int (digits_value ds))
      in if ds = [] \<or> v < - (2 ^ 31) \<or> v \<ge> 2 ^ 31 then None else Some v)"

definition identity_path :: "NodeConfig \<Rightarrow> string" where
  "identity_path cfg = path_append (cfg_data_dir cfg) ''node_identity.txt''"

definition ValidateNodeIdentity ::
    "('w, 'm) interfaces \<Rightarrow> NodeConfig \<Rightarrow> 'w \<Rightarrow> (string + unit) \<times> 'w" where
  "ValidateNodeIdentity I cfg w0 =
     (case create_dirs I (cfg_data_dir cfg) w0 of
        (Inl ec, w) \<Rightarrow>
          (Inl (''failed to create data directory '' @ cfg_data_dir cfg @ '': '' @ ec), w)
      | (Inr _, w) \<Rightarrow>
          (let path = identity_path cfg in
           if file_exists I path w
           then
             (case ReadIdentityFile I path w of
                Inl e \<Rightarrow> Inl e
              | Inr values \<Rightarrow>
                  (case map_of values ''node_id'' of
                     None \<Rightarrow> Inl (''identity file missing node_id: '' @ path)
                   | Some text \<Rightarrow>
                       (case stoi text of
                          None \<Rightarrow> Inl ''stoi''
                        | Some stored \<Rightarrow>
                            if stored \<noteq> cfg_node_id cfg
                            then Inl (''data directory identity mismatch: data_dir='' @ cfg_data_dir cfg
                                   @ '', expected node_id='' @ string_of_int (cfg_node_id cfg)
                                   @ '', found node_id='' @ string_of_int stored)
                            else Inr ())), w)
           else
             case write_file I path (''node_id='' @ string_of_int (cfg_node_id cfg) @ [CHR 0x0A]
                    @ ''address='' @ cfg_address cfg @ [CHR 0x0A]) w of
               (Inl phase, w1) \<Rightarrow>
                 (Inl ((if phase = ''open'' then ''failed to create identity file: ''
                        else ''failed to write identity file: '') @ path), w1)
             | (Inr _, w1) \<Rightarrow> (Inr (), w1)))"

section \<open>Construction\<close>

definition bootstrap_record :: LogRecord where
  "bootstrap_record = \<lparr>lr_index = 0, lr_term = 0, lr_command = ''bootstrap''\<rparr>"

definition timers_init :: "(nat \<Rightarrow> int) \<Rightarrow> int \<Rightarrow> timer_state" where
  "timers_init draws t = \<lparr>scheduler = TimerScheduler_init, election_timer_id = None,
     election_timer_generation = 0, heartbeat_timer_id = None, snapshot_timer_id = None,
     rng_draws = draws, rng_pos = 0, clock = t\<rparr>"

definition worker_init :: snapshot_worker_state where
  "worker_init = \<lparr>snapshot_worker_stop = False, snapshot_pending = False,
     snapshot_in_progress = False, pending_snapshot_index = 0, pending_snapshot_term = 0\<rparr>"

text \<open>The members with their default initialisers, before the constructor's body.\<close>

definition blank_node ::
    "NodeConfig \<Rightarrow> snapshotConfig \<Rightarrow> timer_state \<Rightarrow> 'm \<Rightarrow> 'w \<Rightarrow> ('w, 'm) raft_node" where
  "blank_node cfg scfg t m w = \<lparr>config = cfg, snapshot_config = scfg, role = kFollower,
     current_term = 0, voted_for = - 1, leader_id = - 1, log = [], commit_index = 0,
     last_applied = 0, last_snapshot_index = 0, last_snapshot_term = 0, next_index = Map.empty,
     match_index = Map.empty, replicators = Map.empty, running = False, state_machine = m,
     disk = w, timers = t, metrics = metrics_init, snapshot_worker = worker_init\<rparr>"

text \<open>The branch of the constructor that adopts what \<^verbatim>\<open>Load\<close> returned.\<close>

definition adopt_state :: "PersistentRaftState \<Rightarrow> ('w, 'm) raft_node \<Rightarrow> ('w, 'm) raft_node" where
  "adopt_state ps n =
     (let n1 = n\<lparr>current_term := ps_current_term ps, voted_for := ps_voted_for ps,
                 commit_index := max (ps_commit_index ps) (ps_last_applied ps), last_applied := 0,
                 log := ps_log ps\<rparr>;
          n2 = (if log n1 = [] then n1\<lparr>log := [bootstrap_record]\<rparr>
                else if lr_index (hd (log n1)) > 0 \<and> lr_command (hd (log n1)) = kSnapshotMarkerCommand
                then n1\<lparr>last_snapshot_index := lr_index (hd (log n1)),
                        last_snapshot_term := lr_term (hd (log n1))\<rparr>
                else n1)
      in if commit_index n2 > LastLogIndexLocked n2
         then n2\<lparr>commit_index := LastLogIndexLocked n2\<rparr> else n2)"

definition replay_committed ::
    "('w, 'm) interfaces \<Rightarrow> ('w, 'm) raft_node \<Rightarrow> (string \<times> 'w) + ('w, 'm) raft_node" where
  "replay_committed I n =
     (if commit_index n > last_applied n
      then let (r, n1) = ApplyCommittedEntries I n
           in if apply_Ok r then Inr n1
              else Inl (''failed to replay committed log entries for node '' @ string_of_int (node_id n)
                     @ '': '' @ apply_message r
                     @ '', commit_index='' @ string_of_u64 (commit_index n1)
                     @ '', last_applied='' @ string_of_u64 (last_applied n1)
                     @ '', last_snapshot_index='' @ string_of_u64 (last_snapshot_index n1)
                     @ '', last_snapshot_term='' @ string_of_u64 (last_snapshot_term n1)
                     @ '', last_log_index='' @ string_of_u64 (LastLogIndexLocked n1), disk n1)
      else Inr n)"

text \<open>The directories default to ones named after the node.\<close>

definition effective_config :: "NodeConfig \<Rightarrow> NodeConfig" where
  "effective_config cfg =
     (if cfg_data_dir cfg = [] then cfg\<lparr>cfg_data_dir := DefaultDataDir (cfg_node_id cfg)\<rparr> else cfg)"

definition effective_snapshot_config :: "NodeConfig \<Rightarrow> snapshotConfig \<Rightarrow> snapshotConfig" where
  "effective_snapshot_config cfg scfg =
     (if cfg_snapshot_dir scfg = [] then scfg\<lparr>cfg_snapshot_dir := DefaultSnapshotDir (cfg_node_id cfg)\<rparr>
      else scfg)"

definition RaftNode_ctor ::
    "('w, 'm) interfaces \<Rightarrow> NodeConfig \<Rightarrow> snapshotConfig \<Rightarrow> timer_state \<Rightarrow> 'm \<Rightarrow> 'w
      \<Rightarrow> (string \<times> 'w) + ('w, 'm) raft_node" where
  "RaftNode_ctor I cfg0 scfg0 t m w0 =
     (let cfg = effective_config cfg0;
          scfg = effective_snapshot_config cfg scfg0;
          nid = string_of_int (cfg_node_id cfg)
      in case ValidateNodeIdentity I cfg w0 of
        (Inl e, w) \<Rightarrow> Inl (e, w)
      | (Inr _, w1) \<Rightarrow>
          (case storage_Load I w1 of
             (Inl e, w) \<Rightarrow> Inl (''failed to load raft state for node '' @ nid @ '': '' @ e, w)
           | (Inr (ps, has_state), w2) \<Rightarrow>
               (let b = blank_node cfg scfg t m w2;
                    n = (if has_state then adopt_state ps b else b\<lparr>log := [bootstrap_record]\<rparr>)
                in case LoadLatestSnapshotOnStartup I n of
                     (Inl e, n1) \<Rightarrow>
                       if e \<noteq> [] then Inl (''failed to load snapshot for node '' @ nid @ '': '' @ e, disk n1)
                       else replay_committed I n1
                   | (Inr _, n1) \<Rightarrow> replay_committed I n1)))"

section \<open>Start and stop\<close>

text \<open>
  \<open>server_ok\<close>: the gRPC server came up. When it did not, \<^verbatim>\<open>Start\<close> throws with the scheduler and the
  snapshot worker already running.
\<close>

definition Node_Start :: "bool \<Rightarrow> ('w, 'm) raft_node \<Rightarrow> (string + unit) \<times> ('w, 'm) raft_node" where
  "Node_Start server_ok n =
     (if running n then (Inr (), n)
      else
        let n1 = n\<lparr>running := True, timers := (timers n)\<lparr>scheduler := Timer_Start (scheduler (timers n))\<rparr>\<rparr>;
            n2 = StartSnapshotWorker n1
        in if \<not> server_ok
           then (Inl (''failed to start gRPC server at '' @ cfg_address (config n2)), n2\<lparr>running := False\<rparr>)
           else (Inr (), ResetSnapshotTimerLocked (ResetElectionTimerLocked n2)))"

definition Node_Stop :: "('w, 'm) interfaces \<Rightarrow> ('w, 'm) raft_node \<Rightarrow> ('w, 'm) raft_node" where
  "Node_Stop I n =
     (if \<not> running n then n
      else
        let n1 = CancelElectionTimerLocked (n\<lparr>running := False\<rparr>);
            n2 = n1\<lparr>timers := cancel_snapshot_timer (cancel_heartbeat_timer (timers n1))\<rparr>;
            n3 = StopSnapshotWorker n2;
            n4 = n3\<lparr>timers := (timers n3)\<lparr>scheduler := Timer_Stop (scheduler (timers n3))\<rparr>\<rparr>
        in snd (PersistStateLocked I n4))"

section \<open>Reports\<close>

definition RoleName :: "Role \<Rightarrow> string" where
  "RoleName r = (case r of kFollower \<Rightarrow> ''Follower'' | kCandidate \<Rightarrow> ''Candidate'' | kLeader \<Rightarrow> ''Leader'')"

record PeerReplicationStatus =
  prs_peer_id :: int
  prs_address :: string
  prs_match_index :: u64
  prs_next_index :: u64

record NodeStatusSnapshot =
  nss_node_id :: int
  nss_address :: string
  nss_role :: string
  nss_term :: u64
  nss_leader_id :: int
  nss_leader_address :: string
  nss_commit_index :: u64
  nss_last_applied :: u64
  nss_last_log_index :: u64
  nss_snapshot_index :: u64
  nss_peers :: "PeerReplicationStatus list"

definition AddressForNodeLocked :: "int \<Rightarrow> ('w, 'm) raft_node \<Rightarrow> string" where
  "AddressForNodeLocked nid n =
     (if nid = node_id n then cfg_address (config n)
      else case find (\<lambda>p. peer_id p = nid) (peers n) of Some p \<Rightarrow> peer_address p | None \<Rightarrow> [])"

definition GetStatusSnapshot :: "('w, 'm) raft_node \<Rightarrow> NodeStatusSnapshot" where
  "GetStatusSnapshot n = \<lparr>nss_node_id = node_id n, nss_address = cfg_address (config n),
     nss_role = RoleName (role n), nss_term = current_term n, nss_leader_id = leader_id n,
     nss_leader_address = AddressForNodeLocked (leader_id n) n, nss_commit_index = commit_index n,
     nss_last_applied = last_applied n, nss_last_log_index = LastLogIndexLocked n,
     nss_snapshot_index = last_snapshot_index n,
     nss_peers = map (\<lambda>p. \<lparr>prs_peer_id = peer_id p, prs_address = peer_address p,
        prs_match_index = (case match_index n (peer_id p) of None \<Rightarrow> 0 | Some i \<Rightarrow> i),
        prs_next_index = (case next_index n (peer_id p) of None \<Rightarrow> 0 | Some i \<Rightarrow> i)\<rparr>) (peers n)\<rparr>"

definition GetMetricsSnapshot :: "('w, 'm) raft_node \<Rightarrow> metrics_state" where
  "GetMetricsSnapshot n = metrics n"

fun peer_texts :: "PeerReplicationStatus list \<Rightarrow> string" where
  "peer_texts [] = []"
| "peer_texts (p # ps) =
     string_of_int (prs_peer_id p) @ ''(match='' @ string_of_u64 (prs_match_index p)
     @ '',next='' @ string_of_u64 (prs_next_index p) @ '')''
     @ (if ps = [] then [] else ''; '' @ peer_texts ps)"

text \<open>\<open>kv\<close> is the state machine's own report when it is the key-value machine.\<close>

definition Describe :: "('m \<Rightarrow> string option) \<Rightarrow> ('w, 'm) raft_node \<Rightarrow> string" where
  "Describe kv n =
     (let status = GetStatusSnapshot n in
      ''node='' @ string_of_int (nss_node_id status) @ '', role='' @ nss_role status
      @ '', term='' @ string_of_u64 (nss_term status)
      @ '', voted_for='' @ string_of_int (voted_for n)
      @ '', leader='' @ string_of_int (nss_leader_id status)
      @ '', leader_address='' @ nss_leader_address status
      @ '', last_log_index='' @ string_of_u64 (nss_last_log_index status)
      @ '', commit_index='' @ string_of_u64 (nss_commit_index status)
      @ '', last_applied='' @ string_of_u64 (nss_last_applied status)
      @ '', last_snapshot_index='' @ string_of_u64 (nss_snapshot_index status)
      @ (if nss_peers status = [] then [] else '', peers=['' @ peer_texts (nss_peers status) @ '']'')
      @ (case kv (state_machine n) of None \<Rightarrow> [] | Some text \<Rightarrow> '', kv='' @ text))"

section \<open>Recovery restores what was saved\<close>

text \<open>A persisted log that a node can have written: bootstrap record or snapshot marker first.\<close>

definition persisted_wf :: "PersistentRaftState \<Rightarrow> bool" where
  "persisted_wf ps \<longleftrightarrow> ps_log ps \<noteq> [] \<and> consecutive (ps_log ps) \<and>
     (if lr_index (hd (ps_log ps)) = 0 then lr_term (hd (ps_log ps)) = 0
      else lr_command (hd (ps_log ps)) = kSnapshotMarkerCommand)"

lemma adopt_state_fields [simp]:
  shows "current_term (adopt_state ps n) = ps_current_term ps"
    "voted_for (adopt_state ps n) = ps_voted_for ps"
    "role (adopt_state ps n) = role n" "config (adopt_state ps n) = config n"
    "snapshot_config (adopt_state ps n) = snapshot_config n"
    "last_applied (adopt_state ps n) = 0" "running (adopt_state ps n) = running n"
    "state_machine (adopt_state ps n) = state_machine n" "disk (adopt_state ps n) = disk n"
  by (simp_all add: adopt_state_def Let_def)

lemma adopt_state_wf:
  assumes wf: "persisted_wf ps" and b: "last_snapshot_index n = 0" "last_snapshot_term n = 0"
  shows "log_wf (adopt_state ps n)" and "log (adopt_state ps n) = ps_log ps"
    and "commit_index (adopt_state ps n) \<le> LastLogIndexLocked (adopt_state ps n)"
    and "commit_index (adopt_state ps n) =
      min (max (ps_commit_index ps) (ps_last_applied ps)) (lr_index (last (ps_log ps)))"
proof -
  from wf have p: "ps_log ps \<noteq> []" "consecutive (ps_log ps)"
    "lr_index (hd (ps_log ps)) = 0 \<Longrightarrow> lr_term (hd (ps_log ps)) = 0"
    "lr_index (hd (ps_log ps)) \<noteq> 0 \<Longrightarrow> lr_command (hd (ps_log ps)) = kSnapshotMarkerCommand"
    by (auto simp: persisted_wf_def split: if_splits)
  show "log (adopt_state ps n) = ps_log ps" using p by (simp add: adopt_state_def Let_def)
  show "log_wf (adopt_state ps n)"
    using p b by (cases "lr_index (hd (ps_log ps)) = 0")
      (auto simp: adopt_state_def log_wf_def Let_def word_greater_zero_iff)
  show "commit_index (adopt_state ps n) =
      min (max (ps_commit_index ps) (ps_last_applied ps)) (lr_index (last (ps_log ps)))"
    using p by (auto simp: adopt_state_def LastLogIndexLocked_def Let_def min_def max_def)
  then show "commit_index (adopt_state ps n) \<le> LastLogIndexLocked (adopt_state ps n)"
    using p by (simp add: LastLogIndexLocked_def adopt_state_def Let_def)
qed

lemma load_first_hard_state:
  "current_term (snd (load_first_snapshot I metas n)) = current_term n \<and>
   voted_for (snd (load_first_snapshot I metas n)) = voted_for n \<and>
   role (snd (load_first_snapshot I metas n)) = role n \<and>
   config (snd (load_first_snapshot I metas n)) = config n"
  by (induction metas arbitrary: n)
    (simp_all add: Let_def split_def install_load_def split: option.split)

lemma startup_hard_state:
  "current_term (snd (LoadLatestSnapshotOnStartup I n)) = current_term n"
  "voted_for (snd (LoadLatestSnapshotOnStartup I n)) = voted_for n"
  "role (snd (LoadLatestSnapshotOnStartup I n)) = role n"
  "config (snd (LoadLatestSnapshotOnStartup I n)) = config n"
  using load_first_hard_state [of I]
  by (auto simp: LoadLatestSnapshotOnStartup_def split_def split: sum.split)

lemma replay_hard_state:
  assumes "replay_committed I n = Inr n'"
  shows "current_term n' = current_term n" "voted_for n' = voted_for n" "role n' = role n"
    "config n' = config n"
  using assms by (auto simp: replay_committed_def split_def Let_def split: if_splits)

text \<open>A constructed node is a follower with exactly the term and the vote that were loaded.\<close>

lemma ctor_fields:
  assumes c: "RaftNode_ctor I cfg scfg t m w0 = Inr n"
    and v: "ValidateNodeIdentity I (effective_config cfg) w0 = (Inr (), w1)"
    and l: "storage_Load I w1 = (Inr (ps, b), w2)"
  shows "current_term n = (if b then ps_current_term ps else 0)" and "voted_for n = (if b then ps_voted_for ps else - 1)"
    and "role n = kFollower" and "config n = effective_config cfg"
proof -
  define n0 where "n0 = (let x = blank_node (effective_config cfg)
    (effective_snapshot_config (effective_config cfg) scfg) t m w2 in
    if b then adopt_state ps x else x\<lparr>log := [bootstrap_record]\<rparr>)"
  have "replay_committed I (snd (LoadLatestSnapshotOnStartup I n0)) = Inr n"
    using c by (simp add: RaftNode_ctor_def Let_def v l n0_def split_def split: sum.splits if_splits)
  note rp = replay_hard_state [OF this] startup_hard_state [of I n0]
  have "current_term n0 = (if b then ps_current_term ps else 0)" "voted_for n0 = (if b then ps_voted_for ps else - 1)"
    "role n0 = kFollower" "config n0 = effective_config cfg"
    by (simp_all add: n0_def blank_node_def Let_def)
  with rp show "current_term n = (if b then ps_current_term ps else 0)" "voted_for n = (if b then ps_voted_for ps else - 1)"
    "role n = kFollower" "config n = effective_config cfg" by simp_all
qed

lemmas ctor_hard_state = ctor_fields [where b = True, simplified]

lemma ctor_loads:
  assumes "RaftNode_ctor I cfg scfg t m w0 = Inr n"
  obtains w1 ps b w2 where "ValidateNodeIdentity I (effective_config cfg) w0 = (Inr (), w1)" "storage_Load I w1 = (Inr (ps, b), w2)"
proof -
  obtain r w1 where v: "ValidateNodeIdentity I (effective_config cfg) w0 = (r, w1)" by fastforce
  with assms have r: "r = Inr ()" by (cases r) (simp_all add: RaftNode_ctor_def Let_def)
  obtain l w2 where l: "storage_Load I w1 = (l, w2)" by fastforce
  with assms v r obtain ps h where "l = Inr (ps, h)" by (cases l) (auto simp: RaftNode_ctor_def Let_def)
  with that v r l show ?thesis by blast
qed

lemma ctor_config:
  assumes "RaftNode_ctor I cfg scfg t m w0 = Inr n"
  shows "config n = effective_config cfg \<and> role n = kFollower"
  using assms ctor_fields(3,4) [OF assms] by (elim ctor_loads) blast

end
