(* ===== verification/Cluster.thy ===== *)
theory Cluster
  imports Lifecycle
begin

text \<open>
  The cluster: one node per member, elections in progress, and the vote replies on the network. A
  step is one locked section of one node: the transitions are those of the handlers of
  \<open>Vote\<close> together with every other operation that changes a node. The network may delay, drop,
  repeat and reorder votes, and it may deliver any AppendEntries or InstallSnapshot message, so what
  is shown holds whatever these messages carry. The result is election safety: no two members
  ever become leader of the same term. Terms are 64-bit and the relation covers runs in which no
  member exhausts them. Members may crash and restart at any time from a disk that holds the term and the vote
  they had; \<open>Server\<close> shows that a disk does after a vote.
\<close>

section \<open>Quorums\<close>

locale quorum_system =
  fixes quorum :: "'a set \<Rightarrow> bool"
  assumes quorums_meet: "quorum A \<Longrightarrow> quorum B \<Longrightarrow> A \<inter> B \<noteq> {}"
begin

text \<open>If everybody supports at most one candidate, at most one candidate is supported by a quorum.\<close>

lemma unique_winner:
  assumes "quorum A" and "quorum B" and "\<And>p. p \<in> A \<Longrightarrow> supports p c" and "\<And>p. p \<in> B \<Longrightarrow> supports p d"
    and "\<And>p. supports p c \<Longrightarrow> supports p d \<Longrightarrow> c = d"
  shows "c = d"
  using assms quorums_meet [OF assms(1,2)] by blast

end

definition is_majority :: "int set \<Rightarrow> int set \<Rightarrow> bool" where
  "is_majority M A \<longleftrightarrow> finite M \<and> A \<subseteq> M \<and> card M div 2 + 1 \<le> card A"

interpretation maj: quorum_system "is_majority M" for M
proof
  fix A B
  assume A: "is_majority M A" and B: "is_majority M B"
  show "A \<inter> B \<noteq> {}"
  proof
    assume "A \<inter> B = {}"
    then have "card (A \<union> B) = card A + card B"
      using A B by (intro card_Un_disjoint) (auto simp: is_majority_def dest: finite_subset)
    moreover have "card (A \<union> B) \<le> card M"
      using A B by (intro card_mono) (auto simp: is_majority_def)
    ultimately show False using A B by (auto simp: is_majority_def)
  qed
qed

section \<open>Steps of one node outside elections\<close>

inductive local_step :: "('w, 'm) interfaces \<Rightarrow> ('w, 'm) raft_node \<Rightarrow> ('w, 'm) raft_node \<Rightarrow> bool"
  for I :: "('w, 'm) interfaces" where
  append_entries: "local_step I n (snd (snd (OnAppendEntriesLocked I q n)))"
| apply_entries: "local_step I n (snd (ApplyCommittedEntries I n))"
| install_begin: "local_step I n (snd (install_begin I iq n))"
| install_store: "local_step I n (snd (install_store I iq n))"
| install_load: "local_step I n (snd (install_load I meta n))"
| install_finish: "local_step I n (snd (install_finish I iq ir n))"
| append_answer: "local_step I n (snd (snd (HandleAppendEntriesResponse I pid t tgt ar n)))"
| snapshot_answer: "local_step I n (snd (snapshot_answer I pid t meta ir n))"
| build_request: "local_step I n (snd (BuildAppendEntriesRequest pid t n))"
| append_local: "local_step I n (snd (AppendLocalLogUnlocked I c n))"
| advance_commit: "local_step I n (AdvanceCommitIndexUnlocked I n)"
| worker_capture: "local_step I n (snd (worker_capture I n))"
| worker_compact: "local_step I n (worker_compact I i t n)"
| snapshot_timer: "local_step I n (OnSnapshotTimer n)"
| heartbeats: "local_step I n (snd (heartbeat_callback n))"
| replicator: "local_step I n (upd_replicator pid f n)"
| stop_node: "local_step I n (Node_Stop I n)"
| restart: "RaftNode_ctor I cfg scfg tm m w = Inr n' \<Longrightarrow> effective_config cfg = config n \<Longrightarrow>
    ValidateNodeIdentity I (effective_config cfg) w = (Inr (), w1) \<Longrightarrow> storage_Load I w1 = (Inr (ps, b), w2) \<Longrightarrow>
    current_term n = (if b then ps_current_term ps else 0) \<Longrightarrow> voted_for n = (if b then ps_voted_for ps else - 1) \<Longrightarrow>
    local_step I n n'"

inductive_cases local_stepE: "local_step I n n'"

text \<open>None of them changes the identity, takes back a vote, or makes a leader or a candidate.\<close>

definition calm :: "('w, 'm) raft_node \<Rightarrow> ('w, 'm) raft_node \<Rightarrow> bool" where
  "calm n n' \<longleftrightarrow> config n' = config n \<and> vote_le n n' \<and>
     (role n' \<noteq> kFollower \<longrightarrow> role n' = role n \<and> current_term n' = current_term n)"

lemma calmI:
  "config n' = config n \<Longrightarrow> vote_le n n' \<Longrightarrow>
   (role n' \<noteq> kFollower \<Longrightarrow> role n' = role n \<and> current_term n' = current_term n) \<Longrightarrow> calm n n'"
  by (simp add: calm_def)

lemma calm_same:
  "config n' = config n \<Longrightarrow> current_term n' = current_term n \<Longrightarrow> voted_for n' = voted_for n \<Longrightarrow>
   role n' = role n \<Longrightarrow> calm n n'"
  by (simp add: calm_def vote_le_same)

lemma calm_BecomeFollower: "calm n (snd (BecomeFollowerLocked I t l n))"
  by (rule calmI) (simp_all add: vote_le_BecomeFollower)

lemma create_replicators_frame [simp]:
  shows "config (create_replicators ps n) = config n"
    "current_term (create_replicators ps n) = current_term n"
    "voted_for (create_replicators ps n) = voted_for n"
    "role (create_replicators ps n) = role n"
    "running (create_replicators ps n) = running n"
  by (induction ps arbitrary: n) simp_all

lemma calm_append_entries: "calm n (snd (snd (OnAppendEntriesLocked I q n)))"
proof (rule calmI)
  assume "role (snd (snd (OnAppendEntriesLocked I q n))) \<noteq> kFollower"
  then have "aq_term q < current_term n" by (auto simp: OnAppendEntriesLocked_role split: if_splits)
  then show "role (snd (snd (OnAppendEntriesLocked I q n))) = role n \<and>
      current_term (snd (snd (OnAppendEntriesLocked I q n))) = current_term n"
    by (simp add: OnAppendEntriesLocked_def)
qed (simp_all add: OnAppendEntriesLocked_frame vote_le_OnAppendEntriesLocked)

lemma calm_install_begin: "calm n (snd (install_begin I q n))"
proof -
  have "snd (install_begin I q n) \<in> {n, snd (BecomeFollowerLocked I (iq_term q) (iq_leader_id q) n),
      ResetElectionTimerLocked (n\<lparr>leader_id := iq_leader_id q\<rparr>)}"
    by (simp add: install_begin_def Let_def split_def)
  moreover have "calm n (ResetElectionTimerLocked (n\<lparr>leader_id := iq_leader_id q\<rparr>))"
    by (rule calm_same) (simp_all add: node_defs)
  moreover have "calm n n" by (rule calm_same) simp_all
  ultimately show ?thesis using calm_BecomeFollower by auto
qed

lemma calm_install_store: "calm n (snd (install_store I q n))"
  using install_store_disk [of I q n] by (auto intro: calm_same)

lemma calm_install_finish: "calm n (snd (install_finish I q r n))"
  by (rule calm_same) (simp_all add: install_finish_def Let_def split_def split: option.split)

lemma calm_Handle: "calm n (snd (snd (HandleAppendEntriesResponse I pid t tgt r n)))"
  by (auto simp: HandleAppendEntriesResponse_def Let_def calm_BecomeFollower intro: calm_same)

lemma calm_snapshot_answer: "calm n (snd (snapshot_answer I pid t meta r n))"
  by (auto simp: snapshot_answer_def Let_def calm_BecomeFollower intro: calm_same)

lemma calm_simple:
  shows "calm n (snd (ApplyCommittedEntries I n))"
    "calm n (snd (install_load I meta n))"
    "calm n (snd (BuildAppendEntriesRequest pid t n))"
    "calm n (snd (AppendLocalLogUnlocked I c n))"
    "calm n (AdvanceCommitIndexUnlocked I n)"
    "calm n (snd (worker_capture I n))"
    "calm n (worker_compact I i t n)"
    "calm n (OnSnapshotTimer n)"
    "calm n (snd (heartbeat_callback n))"
    "calm n (upd_replicator pid f n)"
    "calm n (Node_Stop I n)"
  by (rule calm_same; simp add: install_load_def BuildAppendEntriesRequest_def worker_capture_def
      worker_compact_def heartbeat_callback_def SendHeartbeats_def Node_Stop_def node_defs Let_def split_def)+

lemma calm_restart:
  assumes "RaftNode_ctor I cfg scfg tm m w = Inr n'" and "effective_config cfg = config n"
    and "ValidateNodeIdentity I (effective_config cfg) w = (Inr (), w1)" and "storage_Load I w1 = (Inr (ps, b), w2)"
    and "current_term n = (if b then ps_current_term ps else 0)" and "voted_for n = (if b then ps_voted_for ps else - 1)"
  shows "calm n n'"
  using ctor_fields [OF assms(1,3,4)] assms(2,5,6) by (simp add: calm_def vote_le_same)

lemma calm_local_step: "local_step I n n' \<Longrightarrow> calm n n'"
  by (erule local_stepE)
    (simp_all add: calm_append_entries calm_install_begin calm_install_store calm_install_finish
      calm_Handle calm_snapshot_answer calm_simple calm_restart)

section \<open>The cluster\<close>

text \<open>
  \<open>elections c t\<close> is the record shared by the callbacks of the election that \<open>c\<close> runs in term
  \<open>t\<close>, \<open>answered c t\<close> the peers whose callback has run, \<open>replies\<close> the answers ever given, as
  (candidate, term, voter, answer), and \<open>led\<close> the history of leaders.
\<close>

record ('w, 'm) cluster =
  nodes :: "int \<Rightarrow> ('w, 'm) raft_node"
  elections :: "int \<Rightarrow> u64 \<Rightarrow> election option"
  answered :: "int \<Rightarrow> u64 \<Rightarrow> int set"
  replies :: "(int \<times> u64 \<times> int \<times> VoteResponse) set"
  led :: "(int \<times> u64) set"

abbreviation set_node :: "int \<Rightarrow> ('w, 'm) raft_node \<Rightarrow> ('w, 'm) cluster \<Rightarrow> ('w, 'm) cluster" where
  "set_node i n s \<equiv> s\<lparr>nodes := (nodes s)(i := n)\<rparr>"

inductive cluster_step ::
    "('w, 'm) interfaces \<Rightarrow> int set \<Rightarrow> ('w, 'm) cluster \<Rightarrow> ('w, 'm) cluster \<Rightarrow> bool"
  for I :: "('w, 'm) interfaces" and M :: "int set" where
  timeout_started:
    "c \<in> M \<Longrightarrow> current_term (nodes s c) \<noteq> - 1 \<Longrightarrow>
     OnElectionTimeout I gen (nodes s c) = (Some e, n') \<Longrightarrow>
     cluster_step I M s ((set_node c n' s)
       \<lparr>elections := (elections s)(c := (elections s c)(el_term e \<mapsto> e)),
        answered := (answered s)(c := (answered s c)(el_term e := {}))\<rparr>)"
| timeout_ignored:
    "c \<in> M \<Longrightarrow> OnElectionTimeout I gen (nodes s c) = (None, n') \<Longrightarrow>
     cluster_step I M s (set_node c n' s)"
| vote_request:
    "c \<in> M \<Longrightarrow> p \<in> M \<Longrightarrow> p \<noteq> c \<Longrightarrow> elections s c t = Some e \<Longrightarrow>
     OnRequestVote I (election_request e (nodes s c)) (nodes s p) = (r, n') \<Longrightarrow>
     cluster_step I M s ((set_node p n' s)\<lparr>replies := insert (c, t, p, r) (replies s)\<rparr>)"
| vote_answer:
    "c \<in> M \<Longrightarrow> (c, t, p, r) \<in> replies s \<Longrightarrow> elections s c t = Some e \<Longrightarrow> p \<notin> answered s c t \<Longrightarrow>
     vote_reply I e r (nodes s c) = (won, e', n') \<Longrightarrow>
     cluster_step I M s ((set_node c n' s)
       \<lparr>elections := (elections s)(c := (elections s c)(t \<mapsto> e')),
        answered := (answered s)(c := (answered s c)(t := insert p (answered s c t)))\<rparr>)"
| election_won:
    "c \<in> M \<Longrightarrow> elections s c t = Some e \<Longrightarrow> el_won e \<or> el_quorum e \<le> 1 \<Longrightarrow>
     OnElectionWonLocked t (nodes s c) = (True, n') \<Longrightarrow>
     cluster_step I M s ((set_node c n' s)\<lparr>led := insert (c, t) (led s)\<rparr>)"
| other:
    "i \<in> M \<Longrightarrow> local_step I (nodes s i) n' \<Longrightarrow> cluster_step I M s (set_node i n' s)"

text \<open>Initial states: followers of a common, finite membership, no election yet.\<close>

definition member_ok :: "int set \<Rightarrow> int \<Rightarrow> NodeConfig \<Rightarrow> bool" where
  "member_ok M i cfg \<longleftrightarrow> cfg_node_id cfg = i \<and> distinct (map peer_id (cfg_peers cfg)) \<and>
     set (map peer_id (cfg_peers cfg)) = M - {i}"

definition cluster_init :: "int set \<Rightarrow> ('w, 'm) cluster \<Rightarrow> bool" where
  "cluster_init M s \<longleftrightarrow> finite M \<and> - 1 \<notin> M \<and>
     (\<forall>i \<in> M. member_ok M i (config (nodes s i)) \<and> role (nodes s i) = kFollower) \<and>
     elections s = (\<lambda>_ _. None) \<and> answered s = (\<lambda>_ _. {}) \<and> replies s = {} \<and> led s = {}"

inductive reachable :: "('w, 'm) interfaces \<Rightarrow> int set \<Rightarrow> ('w, 'm) cluster \<Rightarrow> bool"
  for I :: "('w, 'm) interfaces" and M :: "int set" where
  reach_init: "cluster_init M s \<Longrightarrow> reachable I M s"
| reach_step: "reachable I M s \<Longrightarrow> cluster_step I M s s' \<Longrightarrow> reachable I M s'"

section \<open>The invariant\<close>

text \<open>\<open>voted s p t c\<close>: in term \<open>t\<close> the member \<open>p\<close> gave its vote to \<open>c\<close>.\<close>

definition voted :: "('w, 'm) cluster \<Rightarrow> int \<Rightarrow> u64 \<Rightarrow> int \<Rightarrow> bool" where
  "voted s p t c \<longleftrightarrow> (\<exists>r. (c, t, p, r) \<in> replies s \<and> vote_granted r) \<or>
     (p = c \<and> elections s c t \<noteq> None)"

definition vote_recorded :: "('w, 'm) raft_node \<Rightarrow> u64 \<Rightarrow> int \<Rightarrow> bool" where
  "vote_recorded n t c \<longleftrightarrow> t < current_term n \<or> (t = current_term n \<and> voted_for n = c)"

lemma vote_recorded_mono:
  assumes "vote_recorded n t c" and "vote_le n n'" and "c \<noteq> - 1"
  shows "vote_recorded n' t c"
  using assms by (auto simp: vote_recorded_def vote_le_def)

definition tally_ok :: "int set \<Rightarrow> ('w, 'm) cluster \<Rightarrow> int \<Rightarrow> u64 \<Rightarrow> election \<Rightarrow> bool" where
  "tally_ok M s c t e \<longleftrightarrow> el_term e = t \<and> el_quorum e = int (card M div 2 + 1) \<and>
     answered s c t \<subseteq> M - {c} \<and>
     el_votes e \<le> 1 + int (card {p \<in> answered s c t. voted s p t c}) \<and>
     (el_won e \<longrightarrow> el_quorum e \<le> el_votes e) \<and> 1 \<le> el_votes e"

definition election_inv :: "int set \<Rightarrow> ('w, 'm) cluster \<Rightarrow> bool" where
  "election_inv M s \<longleftrightarrow> finite M \<and> - 1 \<notin> M \<and>
     (\<forall>i \<in> M. member_ok M i (config (nodes s i))) \<and>
     (\<forall>c t p r. (c, t, p, r) \<in> replies s \<longrightarrow> p \<in> M - {c}) \<and>
     (\<forall>p t c. voted s p t c \<longrightarrow> p \<in> M \<and> c \<in> M \<and> vote_recorded (nodes s p) t c) \<and>
     (\<forall>p t c d. voted s p t c \<longrightarrow> voted s p t d \<longrightarrow> c = d) \<and>
     (\<forall>c t e. elections s c t = Some e \<longrightarrow> tally_ok M s c t e) \<and>
     (\<forall>c t. (c, t) \<in> led s \<longrightarrow> (\<exists>e. elections s c t = Some e \<and> el_quorum e \<le> el_votes e)) \<and>
     (\<forall>i \<in> M. role (nodes s i) = kLeader \<longrightarrow> (i, current_term (nodes s i)) \<in> led s)"

lemma election_invD:
  assumes "election_inv M s"
  shows "finite M" "- 1 \<notin> M" "\<And>i. i \<in> M \<Longrightarrow> member_ok M i (config (nodes s i))"
    "\<And>p t c. voted s p t c \<Longrightarrow> p \<in> M" "\<And>p t c. voted s p t c \<Longrightarrow> c \<in> M"
    "\<And>p t c. voted s p t c \<Longrightarrow> vote_recorded (nodes s p) t c"
    "\<And>p t c d. voted s p t c \<Longrightarrow> voted s p t d \<Longrightarrow> c = d"
    "\<And>c t e. elections s c t = Some e \<Longrightarrow> tally_ok M s c t e"
    "\<And>c t. (c, t) \<in> led s \<Longrightarrow> \<exists>e. elections s c t = Some e \<and> el_quorum e \<le> el_votes e"
    "\<And>i. i \<in> M \<Longrightarrow> role (nodes s i) = kLeader \<Longrightarrow> (i, current_term (nodes s i)) \<in> led s"
    "\<And>c t p r. (c, t, p, r) \<in> replies s \<Longrightarrow> p \<in> M - {c}"
  using assms unfolding election_inv_def by blast+

lemma majority_card:
  assumes "finite M" and "i \<in> M" and "member_ok M i (config n)"
  shows "majority n = card M div 2 + 1"
proof -
  have "length (peers n) = card (M - {i})"
    using assms(3) distinct_card [of "map peer_id (peers n)"] by (simp add: member_ok_def)
  with assms(1,2) have "length (peers n) + 1 = card M"
    by (metis Suc_eq_plus1 card_Suc_Diff1)
  then show ?thesis by (simp add: majority_def)
qed

text \<open>A winner has a majority of the members behind it.\<close>

lemma winner_majority:
  assumes inv: "election_inv M s" and e: "elections s c t = Some e" and w: "el_quorum e \<le> el_votes e"
  shows "is_majority M {p \<in> M. voted s p t c}"
proof -
  note D = election_invD [OF inv]
  have tl: "tally_ok M s c t e" by (rule D(8) [OF e])
  let ?A = "{p \<in> answered s c t. voted s p t c}"
  have self: "voted s c t c" using e by (simp add: voted_def)
  have sub: "insert c ?A \<subseteq> {p \<in> M. voted s p t c}"
    using tl self D(4) by (auto simp: tally_ok_def)
  have fin: "finite ?A" using tl D(1) by (auto simp: tally_ok_def intro: finite_subset)
  have "c \<notin> ?A" using tl by (auto simp: tally_ok_def)
  then have "card (insert c ?A) = 1 + card ?A" using fin by simp
  with tl w have "int (card M div 2 + 1) \<le> int (card (insert c ?A))" by (simp add: tally_ok_def)
  moreover have "card (insert c ?A) \<le> card {p \<in> M. voted s p t c}"
    using sub D(1) by (intro card_mono) auto
  ultimately show ?thesis using D(1) unfolding is_majority_def by auto
qed

lemma election_inv_safe:
  assumes inv: "election_inv M s" and "(c, t) \<in> led s" and "(d, t) \<in> led s"
  shows "c = d"
proof -
  note D = election_invD [OF inv]
  from D(9) [OF assms(2)] obtain e where "elections s c t = Some e" "el_quorum e \<le> el_votes e" by blast
  from winner_majority [OF inv this] have A: "is_majority M {p \<in> M. voted s p t c}" .
  from D(9) [OF assms(3)] obtain f where "elections s d t = Some f" "el_quorum f \<le> el_votes f" by blast
  from winner_majority [OF inv this] have B: "is_majority M {p \<in> M. voted s p t d}" .
  show ?thesis
    by (rule maj.unique_winner [OF A B, where supports = "\<lambda>p c. voted s p t c"]) (auto dest: D(7))
qed

section \<open>The invariant is kept\<close>

lemma election_invI:
  assumes "finite M" "- 1 \<notin> M" "\<And>i. i \<in> M \<Longrightarrow> member_ok M i (config (nodes s i))"
    "\<And>p t c. voted s p t c \<Longrightarrow> p \<in> M \<and> c \<in> M \<and> vote_recorded (nodes s p) t c"
    "\<And>p t c d. voted s p t c \<Longrightarrow> voted s p t d \<Longrightarrow> c = d"
    "\<And>c t e. elections s c t = Some e \<Longrightarrow> tally_ok M s c t e"
    "\<And>c t. (c, t) \<in> led s \<Longrightarrow> \<exists>e. elections s c t = Some e \<and> el_quorum e \<le> el_votes e"
    "\<And>i. i \<in> M \<Longrightarrow> role (nodes s i) = kLeader \<Longrightarrow> (i, current_term (nodes s i)) \<in> led s"
    "\<And>c t p r. (c, t, p, r) \<in> replies s \<Longrightarrow> p \<in> M - {c}"
  shows "election_inv M s"
  using assms unfolding election_inv_def by blast

lemma inv_calm:
  assumes inv: "election_inv M s" and i: "i \<in> M" and calm: "calm (nodes s i) n'"
  shows "election_inv M (set_node i n' s)"
proof -
  note D = election_invD [OF inv]
  let ?s = "set_node i n' s"
  have v: "voted ?s p t c = voted s p t c" for p t c by (simp add: voted_def)
  have rec: "vote_recorded (nodes ?s p) t c" if "voted s p t c" for p t c
  proof -
    have "c \<noteq> - 1" using D(2,5) that by metis
    with D(6) [OF that] calm show ?thesis by (auto simp: calm_def intro: vote_recorded_mono)
  qed
  show ?thesis
  proof (rule election_invI)
    show "tally_ok M ?s c t e" if "elections ?s c t = Some e" for c t e
      using D(8) [of c t e] that by (auto simp: tally_ok_def v)
    show "(j, current_term (nodes ?s j)) \<in> led ?s" if "j \<in> M" "role (nodes ?s j) = kLeader" for j
      using D(10) that calm i by (auto simp: calm_def split: if_splits)
    show "member_ok M j (config (nodes ?s j))" if "j \<in> M" for j
      using D(3) that calm i by (auto simp: calm_def)
    show "p \<in> M \<and> c \<in> M \<and> vote_recorded (nodes ?s p) t c" if "voted ?s p t c" for p t c
      using that rec D(4,5) by (auto simp: v)
    show "c = d" if "voted ?s p t c" "voted ?s p t d" for p t c d
      using that D(7) by (simp add: v)
    show "\<exists>e. elections ?s c t = Some e \<and> el_quorum e \<le> el_votes e" if "(c, t) \<in> led ?s" for c t
      using D(9) that by simp
    show "p \<in> M - {c}" if "(c, t, p, r) \<in> replies ?s" for c t p r
      using D(11) that by simp
  qed (use D(1,2) in auto)
qed

lemma OnElectionTimeout_cases:
  assumes "OnElectionTimeout I gen n = (eo, n')"
  shows "(\<exists>m. current_term m = current_term n \<and> voted_for m = voted_for n \<and> role m = role n \<and>
      config m = config n \<and> log m = log n \<and> last_snapshot_index m = last_snapshot_index n \<and>
      last_snapshot_term m = last_snapshot_term n \<and> StartElectionLocked I m = (eo, n'))
    \<or> (eo = None \<and> n' = n)"
  using assms
  by (auto simp: OnElectionTimeout_def OnElectionTimeout_guard_def Let_def split: if_splits)

lemma OnElectionTimeout_Some:
  assumes "OnElectionTimeout I gen n = (Some e, n')"
  shows "current_term n' = current_term n + 1" and "voted_for n' = node_id n" and "role n' = kCandidate"
    and "config n' = config n" and "el_term e = current_term n + 1" and "el_votes e = 1"
    and "\<not> el_won e" and "el_quorum e = int (majority n)"
proof -
  from OnElectionTimeout_cases [OF assms] obtain m where m: "current_term m = current_term n"
    "config m = config n" "StartElectionLocked I m = (Some e, n')" by auto
  note S = StartElection_Some [OF m(3)]
  have "config n' = config m" using StartElection_frame(1) [of I m] m(3) by simp
  with S m show "current_term n' = current_term n + 1" "voted_for n' = node_id n" "role n' = kCandidate"
    "config n' = config n" "el_term e = current_term n + 1" "el_votes e = 1" "\<not> el_won e"
    "el_quorum e = int (majority n)" by (simp_all add: majority_def)
qed

lemma calm_timeout_ignored:
  assumes "OnElectionTimeout I gen n = (None, n')"
  shows "calm n n'"
  using OnElectionTimeout_cases [OF assms]
proof
  assume "\<exists>m. current_term m = current_term n \<and> voted_for m = voted_for n \<and> role m = role n \<and>
      config m = config n \<and> log m = log n \<and> last_snapshot_index m = last_snapshot_index n \<and>
      last_snapshot_term m = last_snapshot_term n \<and> StartElectionLocked I m = (None, n')"
  then obtain m where m: "current_term m = current_term n" "voted_for m = voted_for n"
    "role m = role n" "config m = config n" "StartElectionLocked I m = (None, n')" by blast
  have "config n' = config m" using StartElection_frame(1) [of I m] m(5) by simp
  with m StartElection_None [OF m(5)] show ?thesis by (intro calm_same) simp_all
qed (auto intro: calm_same)

lemma calm_OnRequestVote: "calm n (snd (OnRequestVote I q n))"
proof (rule calmI)
  assume a: "role (snd (OnRequestVote I q n)) \<noteq> kFollower"
  then have "\<not> vq_term q > current_term n" by (auto simp: OnRequestVote_role split: if_splits)
  then show "role (snd (OnRequestVote I q n)) = role n \<and> current_term (snd (OnRequestVote I q n)) = current_term n"
    by (auto simp: OnRequestVote_def Let_def split_def node_defs split: option.split)
qed (simp_all add: vote_le_OnRequestVote)

lemma calm_vote_reply: "calm n (snd (snd (vote_reply I e r n)))"
  by (auto simp: vote_reply_def Let_def calm_BecomeFollower intro: calm_same)

lemma less_plus_one: "(t :: u64) \<noteq> - 1 \<Longrightarrow> t < t + 1"
  by (metis SafeAddOne_def add_cancel_right_right le_SafeAddOne one_neq_zero order_le_less)

lemma inv_timeout_started:
  assumes inv: "election_inv M s" and c: "c \<in> M" and nw: "current_term (nodes s c) \<noteq> - 1"
    and el: "OnElectionTimeout I gen (nodes s c) = (Some e, n')"
  shows "election_inv M ((set_node c n' s)
       \<lparr>elections := (elections s)(c := (elections s c)(el_term e \<mapsto> e)),
        answered := (answered s)(c := (answered s c)(el_term e := {}))\<rparr>)"
    (is "election_inv M ?s")
proof -
  note D = election_invD [OF inv] and E = OnElectionTimeout_Some [OF el]
  let ?n = "nodes s c" and ?t = "el_term e"
  have up: "current_term ?n < ?t" using less_plus_one [OF nw] E(5) by simp
  have fresh: "\<not> voted s c ?t d" for d
    using D(6) [of c ?t d] up by (auto simp: vote_recorded_def)
  then have none: "elections s c ?t = None" by (auto simp: voted_def)
  have v: "voted ?s p t d = (voted s p t d \<or> p = c \<and> d = c \<and> t = ?t)" for p t d
    by (auto simp: voted_def none)
  have id: "node_id ?n = c" using D(3) [OF c] by (simp add: member_ok_def)
  have vle: "vote_le ?n n'" using up E(1,5) by (simp add: vote_le_def)
  have rec: "vote_recorded (nodes ?s p) t d" if "voted s p t d" for p t d
  proof -
    have "d \<noteq> - 1" using D(2,5) that by metis
    with D(6) [OF that] vle show ?thesis by (auto intro: vote_recorded_mono)
  qed
  show ?thesis
  proof (rule election_invI)
    show "p \<in> M \<and> d \<in> M \<and> vote_recorded (nodes ?s p) t d" if a: "voted ?s p t d" for p t d
    proof (cases "voted s p t d")
      case True
      with rec D(4,5) show ?thesis by blast
    next
      case False
      with a v have "p = c" "d = c" "t = ?t" by blast+
      with c E(1,2,5) id show ?thesis by (simp add: vote_recorded_def)
    qed
    show "d1 = d2" if "voted ?s p t d1" "voted ?s p t d2" for p t d1 d2
      using that D(7) fresh by (auto simp: v)
    show "tally_ok M ?s d t f" if f: "elections ?s d t = Some f" for d t f
    proof (cases "d = c \<and> t = ?t")
      case True
      with f have "f = e" by simp
      with True E(5,6,7,8) majority_card [OF D(1) c D(3) [OF c]] show ?thesis
        by (simp add: tally_ok_def)
    next
      case False
      with f have "elections s d t = Some f" by (auto split: if_splits)
      from D(8) [OF this] False show ?thesis by (auto simp: tally_ok_def v)
    qed
    show "\<exists>f. elections ?s d t = Some f \<and> el_quorum f \<le> el_votes f" if "(d, t) \<in> led ?s" for d t
      using D(9) [of d t] that none by auto
    show "(j, current_term (nodes ?s j)) \<in> led ?s" if "j \<in> M" "role (nodes ?s j) = kLeader" for j
      using D(10) that E(3) by (auto split: if_splits)
    show "member_ok M j (config (nodes ?s j))" if "j \<in> M" for j
      using D(3) that E(4) c by auto
    show "p \<in> M - {d}" if "(d, t, p, r) \<in> replies ?s" for d t p r
      using D(11) that by simp
  qed (use D(1,2) in auto)
qed

lemma inv_vote_request:
  assumes inv: "election_inv M s" and c: "c \<in> M" and p: "p \<in> M" "p \<noteq> c"
    and e: "elections s c t = Some e"
    and r: "OnRequestVote I (election_request e (nodes s c)) (nodes s p) = (r, n')"
  shows "election_inv M ((set_node p n' s)\<lparr>replies := insert (c, t, p, r) (replies s)\<rparr>)"
    (is "election_inv M ?s")
proof -
  let ?q = "election_request e (nodes s c)" and ?mid = "set_node p n' s"
  have calm: "calm (nodes s p) n'" using calm_OnRequestVote [of "nodes s p" I ?q] r by simp
  have inv0: "election_inv M ?mid" by (rule inv_calm [OF inv p(1) calm])
  note D = election_invD [OF inv] and D0 = election_invD [OF inv0]
  have t: "el_term e = t" using D(8) [OF e] by (simp add: tally_ok_def)
  have id: "node_id (nodes s c) = c" using D(3) [OF c] by (simp add: member_ok_def)
  have q: "vq_term ?q = t" "candidate_id ?q = c" by (simp_all add: election_request_def t id)
  have granted: "current_term n' = t \<and> voted_for n' = c \<and> current_term (nodes s p) \<le> t" if "vote_granted r"
    using OnRequestVote_granted [of I ?q "nodes s p"] r that q by simp
  have v: "voted ?s p' t' d = (voted ?mid p' t' d \<or> vote_granted r \<and> p' = p \<and> t' = t \<and> d = c)" for p' t' d
    by (auto simp: voted_def)
  have uniq: "d = c" if "vote_granted r" "voted ?mid p t d" for d
    using D0(6) [OF that(2)] granted [OF that(1)] by (auto simp: vote_recorded_def)
  have fin: "finite (answered s d t')" if "elections s d t' = Some f" for d t' f
    using D(8) [OF that] D(1) by (auto simp: tally_ok_def intro: finite_subset)
  show ?thesis
  proof (rule election_invI)
    show "p' \<in> M \<and> d \<in> M \<and> vote_recorded (nodes ?s p') t' d" if a: "voted ?s p' t' d" for p' t' d
    proof (cases "voted ?mid p' t' d")
      case True
      from D0(4,5,6) [OF True] show ?thesis by simp
    next
      case False
      with a v have "vote_granted r" "p' = p" "t' = t" "d = c" by blast+
      with granted c p(1) show ?thesis by (simp add: vote_recorded_def)
    qed
    show "d1 = d2" if "voted ?s p' t' d1" "voted ?s p' t' d2" for p' t' d1 d2
      using that D0(7) uniq by (auto simp: v)
    show "tally_ok M ?s d t' f" if f: "elections ?s d t' = Some f" for d t' f
    proof -
      from f have f0: "elections ?mid d t' = Some f" by simp
      have "card {x \<in> answered ?mid d t'. voted ?mid x t' d} \<le> card {x \<in> answered ?s d t'. voted ?s x t' d}"
        using fin [of d t' f] f by (intro card_mono) (auto simp: v)
      with D0(8) [OF f0] show ?thesis by (auto simp: tally_ok_def)
    qed
    show "\<exists>f. elections ?s d t' = Some f \<and> el_quorum f \<le> el_votes f" if "(d, t') \<in> led ?s" for d t'
      using D0(9) that by simp
    show "(j, current_term (nodes ?s j)) \<in> led ?s" if "j \<in> M" "role (nodes ?s j) = kLeader" for j
      using D0(10) that by simp
    show "member_ok M j (config (nodes ?s j))" if "j \<in> M" for j
      using D0(3) that by simp
    show "x \<in> M - {d}" if "(d, t', x, y) \<in> replies ?s" for d t' x y
      using D0(11) that p by auto
  qed (use D(1,2) in auto)
qed

lemma inv_vote_answer:
  assumes inv: "election_inv M s" and c: "c \<in> M" and rp: "(c, t, p, r) \<in> replies s"
    and e: "elections s c t = Some e" and new: "p \<notin> answered s c t"
    and vr: "vote_reply I e r (nodes s c) = (won, e', n')"
  shows "election_inv M ((set_node c n' s)
       \<lparr>elections := (elections s)(c := (elections s c)(t \<mapsto> e')),
        answered := (answered s)(c := (answered s c)(t := insert p (answered s c t)))\<rparr>)"
    (is "election_inv M ?s")
proof -
  let ?mid = "set_node c n' s"
  have calm: "calm (nodes s c) n'" using calm_vote_reply [of "nodes s c" I e r] vr by simp
  have inv0: "election_inv M ?mid" by (rule inv_calm [OF inv c calm])
  note D = election_invD [OF inv] and D0 = election_invD [OF inv0]
  have v: "voted ?s x t' d = voted ?mid x t' d" for x t' d by (auto simp: voted_def e)
  have tl: "tally_ok M s c t e" by (rule D(8) [OF e])
  have e': "el_term e' = el_term e" "el_quorum e' = el_quorum e" "el_votes e \<le> el_votes e'"
    "el_votes e' \<le> el_votes e + (if vote_granted r then 1 else 0)"
    "el_won e' \<Longrightarrow> el_won e \<or> el_quorum e' \<le> el_votes e'"
    using vr by (auto simp: vote_reply_def Let_def split: if_splits)
  have fin: "finite (answered s c t)" using tl D(1) by (auto simp: tally_ok_def intro: finite_subset)
  have pM: "p \<in> M - {c}" by (rule D(11) [OF rp])
  have vp: "voted ?mid p t c" if "vote_granted r" using that rp by (auto simp: voted_def)
  let ?A = "{x \<in> answered s c t. voted ?mid x t c}" and ?B = "{x \<in> insert p (answered s c t). voted ?mid x t c}"
  have card: "card ?A + (if vote_granted r then 1 else 0) \<le> card ?B"
  proof (cases "vote_granted r")
    case True
    then have "?B = insert p ?A" using vp by auto
    with True new fin show ?thesis by simp
  next
    case False
    have "card ?A \<le> card ?B" using fin by (intro card_mono) auto
    with False show ?thesis by simp
  qed
  have A: "voted s x t c = voted ?mid x t c" for x by (simp add: voted_def)
  show ?thesis
  proof (rule election_invI)
    show "tally_ok M ?s d t' f" if f: "elections ?s d t' = Some f" for d t' f
    proof (cases "d = c \<and> t' = t")
      case True
      with f have fe: "f = e'" by simp
      have "el_votes e' \<le> 1 + int (card ?B)" "1 \<le> el_votes e'"
        using tl e'(3,4) card by (auto simp: tally_ok_def A split: if_splits)
      moreover have "answered ?s c t \<subseteq> M - {c}" using tl pM by (auto simp: tally_ok_def)
      moreover have "el_won e' \<longrightarrow> el_quorum e' \<le> el_votes e'"
        using tl e'(2,3,5) by (auto simp: tally_ok_def)
      ultimately show ?thesis using True fe tl e'(1,2) by (simp add: tally_ok_def v)
    next
      case False
      with f have "elections ?mid d t' = Some f" by (auto split: if_splits)
      from D0(8) [OF this] False show ?thesis by (auto simp: tally_ok_def v)
    qed
    show "x \<in> M \<and> d \<in> M \<and> vote_recorded (nodes ?s x) t' d" if "voted ?s x t' d" for x t' d
      using that D0(4,5,6) by (simp add: v)
    show "d1 = d2" if "voted ?s x t' d1" "voted ?s x t' d2" for x t' d1 d2
      using that D0(7) by (simp add: v)
    show "\<exists>f. elections ?s d t' = Some f \<and> el_quorum f \<le> el_votes f" if "(d, t') \<in> led ?s" for d t'
      using D0(9) [of d t'] that e e'(2,3) by auto
    show "(j, current_term (nodes ?s j)) \<in> led ?s" if "j \<in> M" "role (nodes ?s j) = kLeader" for j
      using D0(10) that by simp
    show "member_ok M j (config (nodes ?s j))" if "j \<in> M" for j
      using D0(3) that by simp
    show "x \<in> M - {d}" if "(d, t', x, y) \<in> replies ?s" for d t' x y
      using D0(11) that by simp
  qed (use D(1,2) in auto)
qed

lemma inv_election_won:
  assumes inv: "election_inv M s" and c: "c \<in> M" and e: "elections s c t = Some e"
    and w: "el_won e \<or> el_quorum e \<le> 1" and ow: "OnElectionWonLocked t (nodes s c) = (True, n')"
  shows "election_inv M ((set_node c n' s)\<lparr>led := insert (c, t) (led s)\<rparr>)" (is "election_inv M ?s")
proof -
  note D = election_invD [OF inv]
  have n': "config n' = config (nodes s c)" "current_term n' = t" "current_term (nodes s c) = t"
    "voted_for n' = voted_for (nodes s c)"
    using ow by (auto simp: OnElectionWonLocked_def split: if_splits)
  have q: "el_quorum e \<le> el_votes e" using D(8) [OF e] w by (auto simp: tally_ok_def)
  have v: "voted ?s x t' d = voted s x t' d" for x t' d by (simp add: voted_def)
  show ?thesis
  proof (rule election_invI)
    show "x \<in> M \<and> d \<in> M \<and> vote_recorded (nodes ?s x) t' d" if "voted ?s x t' d" for x t' d
      using that D(4,5,6) [of x t' d] n' by (auto simp: v vote_recorded_def)
    show "d1 = d2" if "voted ?s x t' d1" "voted ?s x t' d2" for x t' d1 d2
      using that D(7) by (simp add: v)
    show "tally_ok M ?s d t' f" if "elections ?s d t' = Some f" for d t' f
      using D(8) [of d t' f] that by (auto simp: tally_ok_def v)
    show "\<exists>f. elections ?s d t' = Some f \<and> el_quorum f \<le> el_votes f" if "(d, t') \<in> led ?s" for d t'
      using that D(9) e q by auto
    show "(j, current_term (nodes ?s j)) \<in> led ?s" if "j \<in> M" "role (nodes ?s j) = kLeader" for j
      using D(10) that n' by (auto split: if_splits)
    show "member_ok M j (config (nodes ?s j))" if "j \<in> M" for j
      using D(3) that n' c by auto
    show "x \<in> M - {d}" if "(d, t', x, y) \<in> replies ?s" for d t' x y
      using D(11) that by simp
  qed (use D(1,2) in auto)
qed

lemma election_inv_init: "cluster_init M s \<Longrightarrow> election_inv M s"
  by (rule election_invI) (auto simp: cluster_init_def voted_def)

lemma election_inv_step:
  assumes "election_inv M s" and "cluster_step I M s s'"
  shows "election_inv M s'"
  using assms(2,1)
proof (induction rule: cluster_step.induct)
  case (timeout_started c s gen e n')
  then show ?case by (intro inv_timeout_started)
next
  case (timeout_ignored c s gen n')
  then show ?case by (intro inv_calm calm_timeout_ignored)
next
  case (vote_request c p s t e r n')
  then show ?case by (intro inv_vote_request)
next
  case (vote_answer c t p r s e won e' n')
  then show ?case by (intro inv_vote_answer)
next
  case (election_won c s t e n')
  then show ?case by (intro inv_election_won)
next
  case (other i s n')
  then show ?case by (intro inv_calm calm_local_step)
qed

lemma election_inv_reachable: "reachable I M s \<Longrightarrow> election_inv M s"
  by (induction rule: reachable.induct) (auto intro: election_inv_init election_inv_step)

end
