(* ===== verification/KvStateMachine.thy ===== *)
theory KvStateMachine
  imports NodeTypes Codec FilePaths "HOL-Library.List_Lexorder" "HOL-Library.Char_ord"
    "HOL-Library.Multiset"
begin

text \<open>
  The replicated state machine (\<^verbatim>\<open>state_machine/state_machine.cpp\<close>): a map from key to value, changed
  by the commands of the log, written to and read from snapshot files. The map is an association
  list with distinct keys; its order is the unspecified iteration order of \<^verbatim>\<open>unordered_map\<close>. The
  contract that recovery relies on, and that this machine meets, is stated in the theory \<open>Recovery\<close>.
\<close>

section \<open>The map\<close>

type_synonym kv = "(string \<times> string) list"

definition kv_put :: "string \<Rightarrow> string \<Rightarrow> kv \<Rightarrow> kv" where
  "kv_put k v m = (k, v) # filter (\<lambda>(q, _). q \<noteq> k) m"

definition kv_erase :: "string \<Rightarrow> kv \<Rightarrow> kv" where
  "kv_erase k m = filter (\<lambda>(q, _). q \<noteq> k) m"

definition KvStateMachine_Apply :: "u64 \<Rightarrow> string \<Rightarrow> kv \<Rightarrow> ApplyResult \<times> kv" where
  "KvStateMachine_Apply index command_data m =
     (if command_data = kInternalNoOpCommand then (\<lparr>apply_Ok = True, apply_message = ''ok''\<rparr>, m)
      else case Deserialize command_data of
        None \<Rightarrow> (\<lparr>apply_Ok = False, apply_message = ''failed to deserialize command''\<rparr>, m)
      | Some cmd \<Rightarrow>
          if \<not> IsValid cmd then (\<lparr>apply_Ok = False, apply_message = ''invalid command''\<rparr>, m)
          else (case cmd_type cmd of
              kSet \<Rightarrow> (\<lparr>apply_Ok = True, apply_message = ''ok''\<rparr>, kv_put (cmd_key cmd) (cmd_value cmd) m)
            | kDelete \<Rightarrow> (\<lparr>apply_Ok = True, apply_message = ''ok''\<rparr>, kv_erase (cmd_key cmd) m)
            | kUnknown \<Rightarrow> (\<lparr>apply_Ok = False, apply_message = ''unknown command type''\<rparr>, m)))"

definition KvStateMachine_Get :: "string \<Rightarrow> kv \<Rightarrow> string option" where
  "KvStateMachine_Get key m = map_of m key"

definition sorted_items :: "kv \<Rightarrow> kv" where
  "sorted_items m = sort_key fst m"

fun item_texts :: "kv \<Rightarrow> string" where
  "item_texts [] = []"
| "item_texts ((k, v) # rest) = k @ ''='' @ v @ (if rest = [] then [] else '', '' @ item_texts rest)"

definition KvStateMachine_DebugString :: "kv \<Rightarrow> string" where
  "KvStateMachine_DebugString m = ''{'' @ item_texts (sorted_items m) @ ''}''"

section \<open>Snapshot files\<close>

definition kSnapshotMagic :: u32 where "kSnapshotMagic = 0x4B565331"
definition kSnapshotVersion :: u32 where "kSnapshotVersion = 1"

definition write_item :: "string \<times> string \<Rightarrow> string" where
  "write_item item = WriteString (fst item) @ WriteString (snd item)"

definition read_item :: "string \<Rightarrow> ((string \<times> string) \<times> string) option" where
  "read_item s =
     (case ReadString s of None \<Rightarrow> None
      | Some (k, r) \<Rightarrow> (case ReadString r of None \<Rightarrow> None | Some (v, r') \<Rightarrow> Some ((k, v), r')))"

definition snapshot_bytes :: "kv \<Rightarrow> string" where
  "snapshot_bytes m =
     (let items = sorted_items m in
      WriteU32 kSnapshotMagic @ WriteU32 kSnapshotVersion @ WriteU64 (of_nat (length items))
      @ concat (map write_item items))"

text \<open>
  The three messages of a failed write to the temporary file (header, item, flush) depend on when the
  stream's buffer is emptied; the model reports the last one for all of them.
\<close>

definition snapshot_temp :: "string \<Rightarrow> string" where
  "snapshot_temp path = path_append (parent_path path) (filename path @ ''.tmp'')"

definition KvStateMachine_SaveSnapshot :: "string \<Rightarrow> kv \<Rightarrow> fs \<Rightarrow> SnapshotResult \<times> fs" where
  "KvStateMachine_SaveSnapshot path m w =
     (let io = (\<lambda>msg. \<lparr>sr_status = Snapshot_kIoError, sr_message = msg\<rparr>);
          parent = parent_path path;
          temp = snapshot_temp path
      in if path = []
         then (\<lparr>sr_status = Snapshot_kInvalidArgument, sr_message = ''snapshot file path is empty''\<rparr>, w)
         else case (if parent \<noteq> [] then fs_create_directories parent w else (Inr (), w)) of
           (Inl ec, w1) \<Rightarrow> (io (''create snapshot directory failed: '' @ ec), w1)
         | (Inr _, w1) \<Rightarrow>
             (case fs_write temp (snapshot_bytes m) w1 of
                (Inl phase, w2) \<Rightarrow>
                  (io (if phase = ''open'' then ''open temp snapshot file failed: '' @ temp
                       else ''flush snapshot file failed''), w2)
              | (Inr _, w2) \<Rightarrow>
                  (case (if fs_exists path w2 then fs_remove path w2 else (Inr (), w2)) of
                     (Inl ec, w3) \<Rightarrow> (io (''remove old snapshot file failed: '' @ ec), w3)
                   | (Inr _, w3) \<Rightarrow>
                       (case fs_rename temp path w3 of
                          (Inl ec, w4) \<Rightarrow> (io (''rename snapshot file failed: '' @ ec), w4)
                        | (Inr _, w4) \<Rightarrow> (\<lparr>sr_status = Snapshot_kOk, sr_message = ''ok''\<rparr>, w4)))))"

text \<open>The reader on the bytes of a file: the header, then the counted items, later keys winning.\<close>

definition parse_snapshot :: "string \<Rightarrow> SnapshotResult + kv" where
  "parse_snapshot s =
     (let corrupted = (\<lambda>msg. \<lparr>sr_status = Snapshot_kCorruptedData, sr_message = msg\<rparr>) in
      case ReadU32 s of
        None \<Rightarrow> Inl (corrupted ''failed to read snapshot header'')
      | Some (magic, s1) \<Rightarrow>
          (case ReadU32 s1 of
             None \<Rightarrow> Inl (corrupted ''failed to read snapshot header'')
           | Some (version, s2) \<Rightarrow>
               (case ReadU64 s2 of
                  None \<Rightarrow> Inl (corrupted ''failed to read snapshot header'')
                | Some (kv_count, s3) \<Rightarrow>
                    if magic \<noteq> kSnapshotMagic then Inl (corrupted ''invalid snapshot magic'')
                    else if version \<noteq> kSnapshotVersion
                    then Inl \<lparr>sr_status = Snapshot_kVersionMismatch,
                              sr_message = ''unsupported snapshot version''\<rparr>
                    else case read_many read_item (unat kv_count) s3 of
                           None \<Rightarrow> Inl (corrupted ''failed to read snapshot kv entry'')
                         | Some (items, _) \<Rightarrow> Inr (fold (\<lambda>(k, v). kv_put k v) items []))))"

definition KvStateMachine_LoadSnapshot :: "string \<Rightarrow> fs \<Rightarrow> kv \<Rightarrow> SnapshotResult \<times> kv" where
  "KvStateMachine_LoadSnapshot path w m =
     (if path = []
      then (\<lparr>sr_status = Snapshot_kInvalidArgument, sr_message = ''snapshot file path is empty''\<rparr>, m)
      else if \<not> fs_exists path w
      then (\<lparr>sr_status = Snapshot_kNotFound, sr_message = ''snapshot file not found: '' @ path\<rparr>, m)
      else case fs_read path w of
        None \<Rightarrow> (\<lparr>sr_status = Snapshot_kIoError,
                 sr_message = ''failed to open snapshot file: '' @ path\<rparr>, m)
      | Some s \<Rightarrow>
          (case parse_snapshot s of
             Inl r \<Rightarrow> (r, m)
           | Inr m' \<Rightarrow> (\<lparr>sr_status = Snapshot_kOk, sr_message = ''ok''\<rparr>, m')))"

section \<open>The map behaves as a map\<close>

definition kv_wf :: "kv \<Rightarrow> bool" where
  "kv_wf m \<longleftrightarrow> distinct (map fst m)"

lemma map_of_kv_erase: "map_of (kv_erase k m) = (map_of m)(k := None)"
  by (induction m) (auto simp: kv_erase_def fun_eq_iff)

lemma map_of_kv_put: "map_of (kv_put k v m) = (map_of m)(k \<mapsto> v)"
  using map_of_kv_erase [of k m] by (auto simp: kv_put_def kv_erase_def fun_eq_iff)

lemma kv_wf_erase: "kv_wf m \<Longrightarrow> kv_wf (kv_erase k m)"
  by (auto simp: kv_wf_def kv_erase_def distinct_map_filter)

lemma kv_wf_put: "kv_wf m \<Longrightarrow> kv_wf (kv_put k v m)"
  using kv_wf_erase [of m k] by (auto simp: kv_wf_def kv_put_def kv_erase_def)

lemma Apply_fail_unchanged:
  "\<not> apply_Ok (fst (KvStateMachine_Apply i c m)) \<Longrightarrow> snd (KvStateMachine_Apply i c m) = m"
  by (auto simp: KvStateMachine_Apply_def split: option.splits CommandType.splits if_splits)

lemma kv_wf_Apply: "kv_wf m \<Longrightarrow> kv_wf (snd (KvStateMachine_Apply i c m))"
  by (auto simp: KvStateMachine_Apply_def kv_wf_put kv_wf_erase split: option.splits CommandType.splits)

lemma Apply_obs:
  assumes "map_of m1 = map_of m2"
  shows "fst (KvStateMachine_Apply i c m1) = fst (KvStateMachine_Apply i c m2)"
    and "map_of (snd (KvStateMachine_Apply i c m1)) = map_of (snd (KvStateMachine_Apply i c m2))"
  using assms
  by (auto simp: KvStateMachine_Apply_def map_of_kv_put map_of_kv_erase
      split: option.splits CommandType.splits)

section \<open>Snapshots round-trip\<close>

lemma length_sorted_items [simp]: "length (sorted_items m) = length m"
  by (simp add: sorted_items_def)

lemma set_sorted_items [simp]: "set (sorted_items m) = set m"
  by (simp add: sorted_items_def)

lemma kv_wf_sorted_items: "kv_wf m \<Longrightarrow> distinct (map fst (sorted_items m))"
  unfolding kv_wf_def sorted_items_def
  by (metis mset_map mset_sort distinct_count_atmost_1 mset_eq_imp_distinct_iff)

interpretation item: codec write_item read_item
  "\<lambda>item. length (fst item) < 2 ^ 64 \<and> length (snd item) < 2 ^ 64"
proof
  fix x :: "string \<times> string" and rest
  assume "length (fst x) < 2 ^ 64 \<and> length (snd x) < 2 ^ 64"
  then show "read_item (write_item x @ rest) = Some (x, rest)"
    by (simp add: read_item_def write_item_def str.dec_enc)
qed

lemma fold_kv_put:
  "distinct (map fst items) \<Longrightarrow> map_of (fold (\<lambda>(k, v). kv_put k v) items m) = map_of m ++ map_of items"
proof (induction items arbitrary: m)
  case (Cons x items)
  obtain k v where x: "x = (k, v)" by fastforce
  with Cons.prems have k: "k \<notin> fst ` set items" and d: "distinct (map fst items)" by auto
  from k have "map_of items k = None" by (simp add: map_of_eq_None_iff)
  with Cons.IH [OF d] x show ?case
    by (auto simp: map_of_kv_put fun_eq_iff map_add_def split: option.splits)
qed simp

lemma fold_kv_wf: "kv_wf m \<Longrightarrow> kv_wf (fold (\<lambda>(k, v). kv_put k v) items m)"
  by (induction items arbitrary: m) (auto simp: kv_wf_put)

definition kv_small :: "kv \<Rightarrow> bool" where
  "kv_small m \<longleftrightarrow> length m < 2 ^ 64 \<and> (\<forall>(k, v) \<in> set m. length k < 2 ^ 64 \<and> length v < 2 ^ 64)"

lemma parse_snapshot_bytes:
  assumes "kv_wf m" and "kv_small m"
  shows "\<exists>m'. parse_snapshot (snapshot_bytes m) = Inr m' \<and> map_of m' = map_of m \<and> kv_wf m'"
proof -
  let ?items = "sorted_items m"
  have "unat (of_nat (length ?items) :: u64) = length ?items"
    using assms(2) by (simp add: kv_small_def unat_of_nat)
  moreover have "\<forall>x \<in> set ?items. length (fst x) < 2 ^ 64 \<and> length (snd x) < 2 ^ 64"
    using assms(2) by (auto simp: kv_small_def)
  ultimately have "read_many read_item (unat (of_nat (length ?items) :: u64))
      (concat (map write_item ?items)) = Some (?items, [])"
    using item.read_many_enc [of ?items "[]"] by simp
  then have "parse_snapshot (snapshot_bytes m) = Inr (fold (\<lambda>(k, v). kv_put k v) ?items [])"
    by (simp add: parse_snapshot_def snapshot_bytes_def Let_def u32.dec_enc u64.dec_enc)
  moreover have "map_of (fold (\<lambda>(k, v). kv_put k v) ?items []) = map_of ?items"
    using fold_kv_put [OF kv_wf_sorted_items [OF assms(1)], of "[]"] by simp
  moreover have "map_of ?items = map_of m"
    using assms(1) kv_wf_sorted_items [OF assms(1)] by (intro map_of_inject_set [THEN iffD2]) (auto simp: kv_wf_def)
  moreover have "kv_wf (fold (\<lambda>(k, v). kv_put k v) ?items [])"
    by (rule fold_kv_wf) (simp add: kv_wf_def)
  ultimately show ?thesis by auto
qed

text \<open>The bytes depend on the contents only, not on the iteration order of the map.\<close>

lemma snapshot_bytes_canonical:
  assumes "kv_wf m1" and "kv_wf m2" and "map_of m1 = map_of m2"
  shows "snapshot_bytes m1 = snapshot_bytes m2"
proof -
  have "set m1 = set m2"
    using assms by (simp add: map_of_inject_set kv_wf_def)
  moreover have "distinct m1" "distinct m2"
    using assms by (auto simp: kv_wf_def distinct_map)
  ultimately have ms: "mset m1 = mset m2" by (simp add: set_eq_iff_mset_eq_distinct)
  have "inj_on fst (set m1)" using assms(1) by (simp add: kv_wf_def distinct_map)
  then have "sort_key fst m1 = sort_key fst m2"
    by (intro sort_key_inj_key_eq) (simp_all add: ms)
  then show ?thesis by (simp add: snapshot_bytes_def sorted_items_def)
qed


section \<open>Snapshot files on disk\<close>

lemma snapshot_temp_other: "snapshot_temp path \<noteq> path"
proof -
  let ?ns = "\<lambda>c. c \<noteq> CHR ''/''"
  have no: "CHR ''/'' \<notin> set (filename path)"
    by (auto simp: filename_def dest: set_takeWhileD)
  have all: "takeWhile ?ns (rev y) = rev y" if "CHR ''/'' \<notin> set y" for y
    using that by (intro takeWhile_eq_all_conv [THEN iffD2]) auto
  note fn = split_last_component(1)
  have fn': "filename y = y" if "CHR ''/'' \<notin> set y" for y
    unfolding filename_def all [OF that] by simp
  let ?f = "filename path @ ''.tmp''"
  have f: "CHR ''/'' \<notin> set ?f" using no by simp
  have "filename (path_append d ?f) = ?f" for d
  proof (cases "d = [] \<or> last d \<noteq> CHR ''/''")
    case True
    then show ?thesis using fn [OF f] fn' [OF f] by (auto simp: path_append_def)
  next
    case False
    then obtain b where "d = b @ [CHR ''/'']" by (metis append_butlast_last_id)
    with fn [OF f, of b] show ?thesis by (simp add: path_append_def)
  qed
  then have "filename (snapshot_temp path) \<noteq> filename path" by (simp add: snapshot_temp_def)
  then show ?thesis by metis
qed

text \<open>The states of the target path that a reader can find after a save, complete or not.\<close>

lemma SaveSnapshot_target:
  assumes ne: "path \<noteq> []" and sv: "KvStateMachine_SaveSnapshot path m w = (r, w')"
  shows "if SnapshotResult_Ok r then fs_lookup path w' = Some (FFile (snapshot_bytes m))
    else fs_lookup path w' = fs_lookup path w \<or> fs_lookup path w' = None"
proof -
  let ?t = "snapshot_temp path"
  note pt = snapshot_temp_other [of path]
  define c where "c = (if parent_path path \<noteq> [] then fs_create_directories (parent_path path) w else (Inr (), w))"
  have l1: "fs_lookup path (snd c) = fs_lookup path w"
    using fs_lookup_create_directories [OF parent_path_shorter [OF ne], of w] by (simp add: c_def)
  define a where "a = fs_write ?t (snapshot_bytes m) (snd c)"
  have l2: "fs_lookup path (snd a) = fs_lookup path w"
    using fs_lookup_write_other [of path ?t] pt l1 by (metis a_def)
  define d where "d = (if fs_exists path (snd a) then fs_remove path (snd a) else (Inr (), snd a))"
  have l3: "fs_lookup path (snd d) = fs_lookup path w \<or> fs_lookup path (snd d) = None"
    using fs_lookup_remove [of path "snd a"] l2 by (auto simp: d_def)
  define g where "g = fs_rename ?t path (snd d)"
  have fin: "fs_lookup path (snd g) = Some (FFile (snapshot_bytes m))"
    if "fst a = Inr ()" "fst g = Inr ()"
  proof (rule fs_lookup_rename_file)
    show "fs_rename ?t path (snd d) = (Inr (), snd g)" using that(2) by (simp add: g_def prod_eq_iff)
    have "fs_lookup ?t (snd a) = Some (FFile (snapshot_bytes m))"
      using that(1) fs_lookup_write by (simp add: a_def)
    then show "fs_lookup ?t (snd d) = Some (FFile (snapshot_bytes m))"
      using fs_lookup_remove_other [OF pt] by (simp add: d_def)
  qed
  have l4: "fs_lookup path (snd g) = fs_lookup path (snd d)" if "fst g = Inl x" for x
    by (rule fs_lookup_rename_failed [where x = x and a = ?t and b = path])
      (use that in \<open>simp add: g_def prod_eq_iff\<close>)
  have "KvStateMachine_SaveSnapshot path m w =
    (let io = (\<lambda>msg. \<lparr>sr_status = Snapshot_kIoError, sr_message = msg\<rparr>) in
     case fst c of Inl ec \<Rightarrow> (io (''create snapshot directory failed: '' @ ec), snd c)
     | Inr _ \<Rightarrow> (case fst a of Inl phase \<Rightarrow> (io (if phase = ''open'' then ''open temp snapshot file failed: '' @ ?t
                       else ''flush snapshot file failed''), snd a)
       | Inr _ \<Rightarrow> (case fst d of Inl ec \<Rightarrow> (io (''remove old snapshot file failed: '' @ ec), snd d)
         | Inr _ \<Rightarrow> (case fst g of Inl ec \<Rightarrow> (io (''rename snapshot file failed: '' @ ec), snd g)
           | Inr _ \<Rightarrow> (\<lparr>sr_status = Snapshot_kOk, sr_message = ''ok''\<rparr>, snd g)))))"
    unfolding KvStateMachine_SaveSnapshot_def Let_def split_def c_def a_def d_def g_def
    by (simp only: ne if_False)
  with sv l1 l2 l3 l4 fin show ?thesis
    by (auto simp: SnapshotResult_Ok_def Let_def split: sum.splits if_splits)
qed


section \<open>Properties\<close>

text \<open>
  C19. Round trip of snapshot files: after a save that reported success, loading the file succeeds and gives
  a machine in which every key has the value it had, whatever the loading machine held before.
\<close>

theorem snapshot_file_roundtrip:
  assumes "kv_wf m" and "kv_small m" and "path \<noteq> []"
    and "SnapshotResult_Ok (fst (KvStateMachine_SaveSnapshot path m w))"
  shows "SnapshotResult_Ok (fst (KvStateMachine_LoadSnapshot path
      (snd (KvStateMachine_SaveSnapshot path m w)) old)) \<and>
    (\<forall>key. KvStateMachine_Get key (snd (KvStateMachine_LoadSnapshot path
      (snd (KvStateMachine_SaveSnapshot path m w)) old)) = KvStateMachine_Get key m)"
proof -
  let ?w' = "snd (KvStateMachine_SaveSnapshot path m w)"
  have "fs_lookup path ?w' = Some (FFile (snapshot_bytes m))"
    using SaveSnapshot_target [OF assms(3) prod.collapse [symmetric], of m w] assms(4) by (auto simp: split_def)
  moreover from parse_snapshot_bytes [OF assms(1,2)] obtain m' where
    "parse_snapshot (snapshot_bytes m) = Inr m'" "map_of m' = map_of m" by blast
  ultimately show ?thesis using assms(3)
    by (simp add: KvStateMachine_LoadSnapshot_def fs_exists_def fs_read_def SnapshotResult_Ok_def
        KvStateMachine_Get_def)
qed

theorem snapshot_file_roundtrip_witness:
  "KvStateMachine_Get ''a'' (snd (KvStateMachine_LoadSnapshot ''s''
     (snd (KvStateMachine_SaveSnapshot ''s'' [(''a'', ''b'')]
       \<lparr>fs_entries = [], fs_faults = [], fs_crashed = False\<rparr>)) [])) = Some ''b''"
proof -
  have p: "parent_path ''s'' = []" "parent_path ''s.tmp'' = []" "filename ''s'' = ''s''"
    by (simp_all add: parent_path_def filename_def)
  have u: "\<not> under ''s'' ''s.tmp''" by (simp add: under_def)
  have "SnapshotResult_Ok (fst (KvStateMachine_SaveSnapshot ''s'' [(''a'', ''b'')]
       \<lparr>fs_entries = [], fs_faults = [], fs_crashed = False\<rparr>))"
    by (simp add: KvStateMachine_SaveSnapshot_def snapshot_temp_def p u path_append_def fs_write_def fs_io_def fs_is_dir_def
        fs_lookup_def fs_exists_def fs_put_def fs_rename_def under_def SnapshotResult_Ok_def Let_def)
  moreover have "kv_wf [(''a'', ''b'')]" "kv_small [(''a'', ''b'')]"
    by (simp_all add: kv_wf_def kv_small_def)
  ultimately show ?thesis
    using snapshot_file_roundtrip [of "[(''a'', ''b'')]" "''s''"
        "\<lparr>fs_entries = [], fs_faults = [], fs_crashed = False\<rparr>" "[]"]
    by (simp add: KvStateMachine_Get_def)
qed

text \<open>
  C20. A snapshot file is never torn: whatever I/O errors or crash interrupt a save, the target path afterwards
  holds what it held before, or the complete new snapshot, or nothing.
\<close>

theorem snapshot_save_never_torn:
  assumes "path \<noteq> []"
  shows "fs_lookup path (snd (KvStateMachine_SaveSnapshot path m w)) = fs_lookup path w \<or>
    fs_lookup path (snd (KvStateMachine_SaveSnapshot path m w)) = Some (FFile (snapshot_bytes m)) \<or>
    fs_lookup path (snd (KvStateMachine_SaveSnapshot path m w)) = None"
  using SaveSnapshot_target [OF assms prod.collapse [symmetric], of m w] by (auto simp: split_def split: if_splits)

theorem snapshot_save_never_torn_witness:
  "fs_lookup ''s'' (snd (KvStateMachine_SaveSnapshot ''s'' [(''a'', ''b'')]
     \<lparr>fs_entries = [(''s'', FFile ''old'')], fs_faults = [NoFault, Crash 3], fs_crashed = False\<rparr>))
    \<in> {Some (FFile ''old''), Some (FFile (snapshot_bytes [(''a'', ''b'')])), None}"
  using snapshot_save_never_torn [of "''s''" "[(''a'', ''b'')]"
      "\<lparr>fs_entries = [(''s'', FFile ''old'')], fs_faults = [NoFault, Crash 3], fs_crashed = False\<rparr>"]
  by (simp add: fs_lookup_def)

text \<open>
  Snapshot files are canonical: two machines with the same contents write the same bytes, whatever the
  iteration order of their hash maps, and machines with different contents write different bytes.
\<close>

theorem snapshot_bytes_determined:
  assumes "kv_wf a" and "kv_wf b" and "kv_small a" and "kv_small b"
  shows "snapshot_bytes a = snapshot_bytes b \<longleftrightarrow> (\<forall>key. KvStateMachine_Get key a = KvStateMachine_Get key b)"
proof
  assume eq: "snapshot_bytes a = snapshot_bytes b"
  with parse_snapshot_bytes [OF assms(1,3)] parse_snapshot_bytes [OF assms(2,4)]
  have "map_of a = map_of b" by auto
  then show "\<forall>key. KvStateMachine_Get key a = KvStateMachine_Get key b" by (simp add: KvStateMachine_Get_def)
next
  assume "\<forall>key. KvStateMachine_Get key a = KvStateMachine_Get key b"
  then have "map_of a = map_of b" by (simp add: KvStateMachine_Get_def fun_eq_iff)
  then show "snapshot_bytes a = snapshot_bytes b" by (rule snapshot_bytes_canonical [OF assms(1,2)])
qed

theorem snapshot_bytes_determined_witness:
  "snapshot_bytes [(''a'', ''1''), (''b'', ''2'')] = snapshot_bytes [(''b'', ''2''), (''a'', ''1'')]"
  using snapshot_bytes_determined [of "[(''a'', ''1''), (''b'', ''2'')]" "[(''b'', ''2''), (''a'', ''1'')]"]
  by (simp add: kv_wf_def kv_small_def KvStateMachine_Get_def)

end
