(* ===== verification/Recovery.thy ===== *)
theory Recovery
  imports Cluster KvStateMachine
begin

text \<open>
  Recovery across components: what the node needs of a state machine so that a snapshot plus the
  rest of the log rebuilds the state (the contract \<open>replicated_machine\<close>), the key-value machine as an
  instance of it, and how the apply loop and the constructor behave when the machine refuses a
  committed record.
\<close>

section \<open>The contract of a state machine\<close>

text \<open>
  \<open>obs\<close> is what clients can observe, \<open>ok\<close> the machine's own invariant and \<open>fits\<close> the sizes its
  snapshot format can hold.
\<close>

locale replicated_machine =
  fixes ap :: "u64 \<Rightarrow> string \<Rightarrow> 'm \<Rightarrow> ApplyResult \<times> 'm" and enc :: "'m \<Rightarrow> string"
    and dec :: "string \<Rightarrow> SnapshotResult + 'm" and obs :: "'m \<Rightarrow> 'o"
    and ok :: "'m \<Rightarrow> bool" and fits :: "'m \<Rightarrow> bool"
  assumes ok_ap: "ok m \<Longrightarrow> ok (snd (ap i c m))"
    and obs_result: "obs m = obs m' \<Longrightarrow> fst (ap i c m) = fst (ap i c m')"
    and obs_state: "obs m = obs m' \<Longrightarrow> obs (snd (ap i c m)) = obs (snd (ap i c m'))"
    and restore: "ok m \<Longrightarrow> fits m \<Longrightarrow> \<exists>m'. dec (enc m) = Inr m' \<and> obs m' = obs m \<and> ok m'"
begin

lemma ok_run: "ok m \<Longrightarrow> ok (snd (snd (apply_run ap rs m)))"
proof (induction rs arbitrary: m)
  case (Cons r rs)
  from ok_ap [OF Cons.prems] have "ok (snd (ap (lr_index r) (lr_command r) m))" .
  with Cons.IH [OF this] show ?case by (simp add: Let_def split_def)
qed simp

lemma run_obs:
  "obs m = obs m' \<Longrightarrow> fst (apply_run ap rs m) = fst (apply_run ap rs m') \<and>
    fst (snd (apply_run ap rs m)) = fst (snd (apply_run ap rs m')) \<and>
    obs (snd (snd (apply_run ap rs m))) = obs (snd (snd (apply_run ap rs m')))"
proof (induction rs arbitrary: m m')
  case (Cons r rs)
  note one = obs_result [OF Cons.prems, of "lr_index r" "lr_command r"]
    obs_state [OF Cons.prems, of "lr_index r" "lr_command r"]
  from Cons.IH [OF one(2)] one show ?case by (simp add: Let_def split_def)
qed simp

lemma run_append:
  assumes "fst (apply_run ap rs m) = None"
  shows "apply_run ap (rs @ rs') m =
    (let (e, k, m') = apply_run ap rs' (snd (snd (apply_run ap rs m))) in (e, length rs + k, m'))"
  using assms
proof (induction rs arbitrary: m)
  case Nil
  show ?case by (simp add: split_def)
next
  case (Cons r rs)
  then have "apply_Ok (fst (ap (lr_index r) (lr_command r) m))"
    by (auto simp: Let_def split_def split: if_splits)
  with Cons show ?case by (simp add: Let_def split_def)
qed

text \<open>Replaying the rest of the log on a restored snapshot gives what the full log gives.\<close>

lemma snapshot_then_replay:
  assumes m: "ok m" and pre: "fst (apply_run ap rs m) = None"
    and fit: "fits (snd (snd (apply_run ap rs m)))"
  shows "\<exists>m'. dec (enc (snd (snd (apply_run ap rs m)))) = Inr m' \<and>
    fst (apply_run ap rs' m') = fst (apply_run ap (rs @ rs') m) \<and>
    obs (snd (snd (apply_run ap rs' m'))) = obs (snd (snd (apply_run ap (rs @ rs') m)))"
proof -
  from restore [OF ok_run [OF m] fit] obtain m' where
    m': "dec (enc (snd (snd (apply_run ap rs m)))) = Inr m'"
    "obs m' = obs (snd (snd (apply_run ap rs m)))" by blast
  from run_obs [OF m'(2), of rs'] run_append [OF pre, of rs'] m'(1) show ?thesis
    by (simp add: Let_def split_def)
qed

end

interpretation kv: replicated_machine KvStateMachine_Apply snapshot_bytes parse_snapshot map_of kv_wf kv_small
  by unfold_locales ((rule kv_wf_Apply Apply_obs parse_snapshot_bytes, assumption+)+)

section \<open>Recovery from the log alone\<close>

lemma apply_run_refused: "fst (apply_run ap rs m) = Some res \<Longrightarrow> \<not> apply_Ok res"
  by (induction rs arbitrary: m) (auto simp: Let_def split_def split: if_splits)

lemma ctor_replays_log:
  assumes c: "RaftNode_ctor I cfg scfg t m w0 = Inr n"
    and v: "ValidateNodeIdentity I (effective_config cfg) w0 = (Inr (), w1)"
    and l: "storage_Load I w1 = (Inr (ps, True), w2)"
    and ok: "saves_ok I" and wf: "persisted_wf ps" "lr_index (hd (ps_log ps)) = 0"
    and no: "\<not> (snap_enabled scfg \<and> load_on_startup scfg)"
  shows "log n = ps_log ps"
    and "commit_index n = min (max (ps_commit_index ps) (ps_last_applied ps)) (lr_index (last (ps_log ps)))"
    and "last_applied n = commit_index n"
    and "state_machine n = snd (snd (apply_run (sm_Apply I)
      (filter (\<lambda>r. 0 < lr_index r \<and> lr_index r \<le> commit_index n) (ps_log ps)) m))"
proof -
  define a where "a = adopt_state ps (blank_node (effective_config cfg)
    (effective_snapshot_config (effective_config cfg) scfg) t m w2)"
  note ad = adopt_state_wf [OF wf(1), of "blank_node (effective_config cfg)
    (effective_snapshot_config (effective_config cfg) scfg) t m w2", folded a_def]
  have bl: "last_snapshot_index (blank_node (effective_config cfg) sc t m w2) = 0"
    "last_snapshot_term (blank_node (effective_config cfg) sc t m w2) = 0" for sc
    by (simp_all add: blank_node_def)
  have st: "LoadLatestSnapshotOnStartup I a = (Inr None, a)"
    using no by (auto simp: LoadLatestSnapshotOnStartup_def a_def blank_node_def effective_snapshot_config_def)
  have rp: "replay_committed I a = Inr n"
    using c st by (simp add: RaftNode_ctor_def Let_def v l a_def)
  have f: "last_applied a = 0" "state_machine a = m" "last_snapshot_index a = 0"
    using wf(2) by (simp_all add: a_def blank_node_def) (simp add: adopt_state_def Let_def)
  have ap: "applicable a" using ad bl f by (simp add: applicable_def)
  note run = Apply_refines_run [OF ok ap]
  have u: "unapplied a = filter (\<lambda>r. 0 < lr_index r \<and> lr_index r \<le> commit_index a) (ps_log ps)"
    using ad(2) bl f by (simp add: unapplied_def)
  have eq: "n = snd (ApplyCommittedEntries I a) \<and> apply_Ok (fst (ApplyCommittedEntries I a))
     \<or> n = a \<and> commit_index a = 0"
    using rp f by (auto simp: replay_committed_def Let_def split_def word_greater_zero_iff split: if_splits)
  show "log n = ps_log ps"
    using eq ad(2) bl by auto
  show ci: "commit_index n = min (max (ps_commit_index ps) (ps_last_applied ps)) (lr_index (last (ps_log ps)))"
    using eq ad(4) bl by auto
  show "last_applied n = commit_index n" using eq run f apply_run_refused [of "sm_Apply I"] by auto
  show "state_machine n = snd (snd (apply_run (sm_Apply I)
      (filter (\<lambda>r. 0 < lr_index r \<and> lr_index r \<le> commit_index n) (ps_log ps)) m))"
    using eq
  proof
    assume "n = snd (ApplyCommittedEntries I a) \<and> apply_Ok (fst (ApplyCommittedEntries I a))"
    with run f u show ?thesis by simp
  next
    assume "n = a \<and> commit_index a = 0"
    moreover have "filter (\<lambda>r. 0 < lr_index r \<and> lr_index r = 0) (ps_log ps) = []"
      by (auto simp: filter_empty_conv)
    ultimately show ?thesis using f by simp
  qed
qed

section \<open>A refused record stops the node\<close>

lemma Apply_refused:
  assumes ok: "saves_ok I" and ap: "applicable n" and ne: "unapplied n = r # rs"
    and ref: "sm_Apply I (lr_index r) (lr_command r) (state_machine n) = (res, state_machine n)"
    and bad: "\<not> apply_Ok res"
  shows "ApplyCommittedEntries I n = (res, n)"
proof -
  from apply_one_step(5) [OF ok ap ne ref bad] have "apply_one I n = (Some res, n)" by simp
  then show ?thesis by (subst ApplyCommittedEntries.simps) simp
qed

lemma replay_refused:
  assumes "saves_ok I" and "applicable n" and "unapplied n = r # rs"
    and "sm_Apply I (lr_index r) (lr_command r) (state_machine n) = (res, state_machine n)"
    and "\<not> apply_Ok res"
  shows "\<exists>e. replay_committed I n = Inl (e, disk n)"
proof -
  have "last_applied n < commit_index n"
    using assms(3) unapplied_nil [of n] by (auto simp: not_le [symmetric])
  with Apply_refused [OF assms] assms(5) show ?thesis by (simp add: replay_committed_def Let_def)
qed

text \<open>The key-value machine refuses the record of a set command whose value is empty.\<close>

lemma empty_value_refused:
  assumes "CHR ''|'' \<notin> set key"
  shows "KvStateMachine_Apply i (Serialize \<lparr>cmd_type = kSet, cmd_key = key, cmd_value = []\<rparr>) m =
    (\<lparr>apply_Ok = False, apply_message = ''failed to deserialize command''\<rparr>, m)"
proof -
  have "Deserialize (Serialize \<lparr>cmd_type = kSet, cmd_key = key, cmd_value = []\<rparr>) = None"
    using Deserialize_empty_value [OF assms] by (simp add: Serialize_def)
  moreover have "Serialize \<lparr>cmd_type = kSet, cmd_key = key, cmd_value = []\<rparr> \<noteq> kInternalNoOpCommand"
    by (simp add: Serialize_def kInternalNoOpCommand_def)
  ultimately show ?thesis by (simp add: KvStateMachine_Apply_def)
qed

section \<open>Falling back to an older snapshot\<close>

text \<open>
  When the newest loadable snapshot is older than the boundary of the log, compaction leaves the log
  alone; the apply loop then moves the apply boundary to the boundary of the log without applying
  the records in between, which the log no longer has.
\<close>

lemma startup_older_snapshot:
  assumes wf: "log_wf n" and old: "last_included_index meta < last_snapshot_index n"
    and load: "sm_LoadSnapshot I (sm_snapshot_path meta) (disk n) (state_machine n) = (res, m)"
    and ok: "SnapshotResult_Ok res" and saves: "saves_ok I"
    and ci: "commit_index n = last_snapshot_index n"
  shows "\<exists>n' n''. load_first_snapshot I [meta] n = (Inr (Some meta), n') \<and>
    replay_committed I n' = Inr n'' \<and> state_machine n'' = m \<and>
    last_applied n'' = last_snapshot_index n"
proof -
  let ?n1 = "n\<lparr>state_machine := m\<rparr>"
  have wf1: "log_wf ?n1" using wf by (simp add: log_wf_def)
  have cmp: "CompactLogPrefixLocked (last_included_index meta) (last_included_term meta) ?n1 = ?n1"
    by (rule CompactLogPrefixLocked_stale [OF wf1]) (use old in simp)
  have mx: "max (last_snapshot_index n) (last_included_index meta) = last_snapshot_index n"
    using old by (intro max_absorb1) simp
  let ?n3 = "?n1\<lparr>commit_index := last_snapshot_index n, last_applied := last_included_index meta\<rparr>"
  have ld: "load_first_snapshot I [meta] n = (Inr (Some meta), snd (PersistStateLocked I ?n3))"
    using load ok cmp mx ci saves_ok_Persist [OF saves, of ?n3]
    by (simp add: install_load_def Let_def split_def)
  let ?n' = "snd (PersistStateLocked I ?n3)"
  have f: "last_applied ?n' = last_included_index meta" "last_snapshot_index ?n' = last_snapshot_index n"
    "commit_index ?n' = last_snapshot_index n" "state_machine ?n' = m" using ci by simp_all
  then have "apply_fetch ?n' = (Inl \<lparr>apply_Ok = True, apply_message = ''nothing to apply''\<rparr>,
      ?n'\<lparr>last_applied := last_snapshot_index n\<rparr>)"
    using old by (simp add: apply_fetch_def)
  then have "ApplyCommittedEntries I ?n' = (\<lparr>apply_Ok = True, apply_message = ''nothing to apply''\<rparr>,
      ?n'\<lparr>last_applied := last_snapshot_index n\<rparr>)"
    by (subst ApplyCommittedEntries.simps) (simp add: apply_one_def)
  then have "replay_committed I ?n' = Inr (?n'\<lparr>last_applied := last_snapshot_index n\<rparr>)"
    using f old by (simp add: replay_committed_def)
  with ld f show ?thesis by auto
qed

end
