(* ===== verification/DurableNode.thy ===== *)
theory DurableNode
  imports StorageQuiet Recovery
begin

text \<open>
  The node on its storage. \<open>state_storage\<close> is the contract the node relies on: a save that reports
  success is what a restarted process loads. Inside it, what the node acknowledges is shown to be on
  disk; the file storage is an instance of it under every I/O fault.
\<close>

lemma append_entry_unchanged:
  "append_entry e st n = (Inr st', n') \<Longrightarrow> \<not> log_changed st' \<Longrightarrow> \<not> log_changed st \<and> n' = n"
  by (auto simp: append_entry_def push_entry_def Let_def split: if_splits)

lemma append_loop_unchanged:
  "append_loop es st n = (Inr st', n') \<Longrightarrow> \<not> log_changed st' \<Longrightarrow> \<not> log_changed st \<and> n' = n"
proof (induction es arbitrary: st n)
  case (Cons e es)
  obtain x n1 where e: "append_entry e st n = (x, n1)" by fastforce
  with Cons.prems(1) obtain st1 where x: "x = Inr st1" by (cases x) auto
  with Cons.prems e have "append_loop es st1 n1 = (Inr st', n')" by simp
  from Cons.IH [OF this Cons.prems(2)] append_entry_unchanged [of e st n st1 n1] e x show ?case by blast
qed simp

section \<open>The contract of the storage\<close>

text \<open>\<open>good\<close> describes usable disks and \<open>fits\<close> the votes and logs the format can hold; \<open>restart\<close> is what a
  crash leaves of a disk.\<close>

locale state_storage =
  fixes save :: "PersistentRaftState \<Rightarrow> 'w \<Rightarrow> (string + unit) \<times> 'w"
    and load :: "'w \<Rightarrow> (string + PersistentRaftState \<times> bool) \<times> 'w"
    and restart :: "'w \<Rightarrow> 'w" and good :: "'w \<Rightarrow> bool" and fits :: "int \<Rightarrow> LogRecord list \<Rightarrow> bool"
  assumes save_good: "good w \<Longrightarrow> fits (ps_voted_for s) (ps_log s) \<Longrightarrow> good (snd (save s w))"
    and save_load: "good w \<Longrightarrow> fits (ps_voted_for s) (ps_log s) \<Longrightarrow> save s w = (Inr (), w') \<Longrightarrow>
      fst (load (restart w')) = Inr (ClampRecoveredHardState s, True)"
    and fits_novote: "fits v l \<Longrightarrow> fits (- 1) l"
begin

text \<open>What a restart would load from the disk of a node is its term, vote and log.\<close>

definition durable :: "('w, 'm) raft_node \<Rightarrow> bool" where
  "durable n \<longleftrightarrow> (\<exists>ps. fst (load (restart (disk n))) = Inr (ps, True) \<and>
     ps_current_term ps = current_term n \<and> ps_voted_for ps = voted_for n \<and> ps_log ps = log n)"

lemma clamp_fields [simp]:
  "ps_current_term (ClampRecoveredHardState s) = ps_current_term s"
  "ps_voted_for (ClampRecoveredHardState s) = ps_voted_for s" "ps_log (ClampRecoveredHardState s) = ps_log s"
  by (simp_all add: ClampRecoveredHardState_def Let_def)

lemma persist_good:
  assumes "storage_Save I = save" and "good (disk n)" and "fits (voted_for n) (log n)"
  shows "good (disk (snd (PersistStateLocked I n)))"
  using save_good [OF assms(2), of "persistent_state n"] assms(1,3) by (simp add: persistent_state_def)

lemma persist_durable:
  assumes "storage_Save I = save" and "good (disk n)" and "fits (voted_for n) (log n)"
    and "fst (PersistStateLocked I n) = None"
  shows "durable (snd (PersistStateLocked I n))"
proof -
  have "save (persistent_state n) (disk n) = (Inr (), disk (snd (PersistStateLocked I n)))"
    using assms(1,4) by (auto simp: Persist_ok_iff prod_eq_iff)
  from save_load [OF assms(2) _ this] assms(3) show ?thesis
    by (simp add: durable_def persistent_state_def)
qed

lemma durable_cong:
  "disk n' = disk n \<Longrightarrow> current_term n' = current_term n \<Longrightarrow> voted_for n' = voted_for n \<Longrightarrow> log n' = log n \<Longrightarrow>
   durable n' = durable n"
  by (simp add: durable_def)

lemma follower_disk:
  assumes "storage_Save I = save" and "good (disk n)" and "fits (voted_for n) (log n)"
  shows "good (disk (snd (BecomeFollowerLocked I t l n)))"
    and "durable n \<Longrightarrow> fst (BecomeFollowerLocked I t l n) \<Longrightarrow> durable (snd (BecomeFollowerLocked I t l n))"
proof -
  define n1 where "n1 = (if t > current_term n then n\<lparr>current_term := t, voted_for := - 1\<rparr> else n)"
  define n3 where "n3 = MaybeRecordLeaderChangeLocked (leader_id n) l (n1\<lparr>role := kFollower, leader_id := l\<rparr>)"
  define n5 where "n5 = ResetElectionTimerLocked (n3\<lparr>timers := cancel_heartbeat_timer (timers n3)\<rparr>)"
  have n5: "disk n5 = disk n" "log n5 = log n"
      "current_term n5 = (if t > current_term n then t else current_term n)"
      "voted_for n5 = (if t > current_term n then - 1 else voted_for n)"
    by (simp_all add: n5_def n3_def n1_def node_defs)
  have run: "BecomeFollowerLocked I t l n = (if t > current_term n
        then (fst (PersistStateLocked I n5) = None, snd (PersistStateLocked I n5)) else (True, n5))"
    by (simp add: BecomeFollowerLocked_def n5_def n3_def n1_def Let_def split_def)
  have f5: "fits (voted_for n5) (log n5)" using assms(3) n5(2,4) fits_novote by simp
  have g5: "good (disk n5)" using assms(2) n5(1) by simp
  show "good (disk (snd (BecomeFollowerLocked I t l n)))"
    using persist_good [OF assms(1) g5 f5] n5 run assms(2) by simp
  show "durable n \<Longrightarrow> fst (BecomeFollowerLocked I t l n) \<Longrightarrow> durable (snd (BecomeFollowerLocked I t l n))"
    using persist_durable [OF assms(1) g5 f5] n5 run durable_cong [of n5 n] by (auto split: if_splits)
qed

text \<open>A granted vote.\<close>

lemma vote_on_disk:
  assumes "storage_Save I = save" and "good (disk n)" and "fits (voted_for n) (log n)"
    and "fits (candidate_id q) (log n)" and "vote_granted (fst (OnRequestVote I q n))"
  shows "durable (snd (OnRequestVote I q n))"
proof -
  let ?v = "voting_node I q n"
  have g: "good (disk ?v)" using follower_disk(1) [OF assms(1-3)] assms(2) by (simp add: voting_node_def)
  note run = OnRequestVote_granted_disk [OF assms(5), unfolded assms(1)]
  note ps = voting_node_persistent [where I = I and q = q and n = n]
  from save_load [OF g _ run] assms(4) ps(2,3)
  have "fst (load (restart (disk (snd (OnRequestVote I q n))))) = Inr (ClampRecoveredHardState (persistent_state ?v), True)"
    by simp
  with OnRequestVote_granted [OF assms(5)] ps show ?thesis by (simp add: durable_def)
qed

text \<open>An accepted batch of entries.\<close>

lemma append_commit_durable:
  assumes "storage_Save I = save" and "good (disk n)" and "fits (voted_for n) (log n)"
    and "durable n" and "as_success (fst (append_commit I q m rsp n))"
  shows "durable (snd (snd (append_commit I q m rsp n)))"
proof -
  let ?n = "n\<lparr>commit_index := min (leader_commit q) (LastLogIndexLocked n)\<rparr>"
  note pd = persist_durable [OF assms(1), of ?n] assms(2,3)
  show ?thesis using assms(4,5) pd
    by (auto simp: append_commit_def Let_def split_def split: if_splits option.splits)
qed

lemma append_merge_durable:
  assumes I: "storage_Save I = save" and good: "good (disk n)" and old: "durable n"
    and yes: "as_success (fst (append_merge I q rsp n))" and no: "\<not> as_success rsp"
    and fit: "fits (voted_for (snd (snd (append_merge I q rsp n)))) (log (snd (snd (append_merge I q rsp n))))"
  shows "durable (snd (snd (append_merge I q rsp n)))"
proof -
  let ?st = "\<lparr>old_log = None, log_changed = False, run_match = prev_log_index q\<rparr>"
  obtain x n1 where l: "append_loop (entries q) ?st n = (x, n1)" by fastforce
  note fr = log_frame_fields [OF append_loop_frame [of n "entries q" ?st], unfolded l snd_conv]
  from yes no l obtain st where x: "x = Inr st"
    by (cases x) (auto simp: append_merge_def SetAppendEntriesConflictHintLocked_def Let_def split: if_splits)
  show ?thesis
  proof (cases "log_changed st")
    case False
    with append_loop_unchanged [OF l [unfolded x] False] have n1: "n1 = n" by simp
    have m: "append_merge I q rsp n = append_commit I q (run_match st) rsp n"
      using l x False n1 by (simp add: append_merge_def)
    show ?thesis unfolding m
      by (rule append_commit_durable [OF I good _ old]) (use yes fit m in \<open>simp_all add: append_commit_frame\<close>)
  next
    case True
    then have p: "fst (PersistStateLocked I n1) = None" using yes no l x
      by (auto simp: append_merge_def Let_def split_def split: option.splits)
    let ?n2 = "snd (PersistStateLocked I n1)"
    have m: "append_merge I q rsp n = append_commit I q (run_match st) rsp ?n2"
      using l x True p by (simp add: append_merge_def split_def)
    have g1: "good (disk n1)" using good fr by simp
    have f1: "fits (voted_for n1) (log n1)" using fit m by (simp add: append_commit_frame)
    show ?thesis unfolding m
      by (rule append_commit_durable [OF I persist_good [OF I g1 f1] _ persist_durable [OF I g1 f1 p]])
        (use yes f1 m in simp_all)
  qed
qed

lemma append_follow_disk:
  assumes "storage_Save I = save" and "good (disk n)" and "fits (voted_for n) (log n)"
  shows "good (disk (snd (append_follow I q n)))"
    and "durable n \<Longrightarrow> fst (append_follow I q n) \<Longrightarrow> durable (snd (append_follow I q n))"
  using follower_disk [OF assms, of "aq_term q" "aq_leader_id q"] assms(2)
    durable_cong [of "ResetElectionTimerLocked (n\<lparr>leader_id := aq_leader_id q\<rparr>)" n]
  by (auto simp: append_follow_def node_defs)

lemma append_on_disk:
  assumes I: "storage_Save I = save" and good: "good (disk n)" and fit: "fits (voted_for n) (log n)"
    and old: "durable n" and yes: "as_success (fst (OnAppendEntriesLocked I q n))"
    and fit': "fits (voted_for (snd (snd (OnAppendEntriesLocked I q n)))) (log (snd (snd (OnAppendEntriesLocked I q n))))"
  shows "durable (snd (snd (OnAppendEntriesLocked I q n)))"
proof -
  let ?rsp = "\<lparr>as_term = current_term n, as_success = False, as_match_index = last_snapshot_index n,
    as_last_log_index = LastLogIndexLocked n, conflict_index = 0, conflict_term = 0\<rparr>"
  let ?n1 = "snd (append_follow I q n)"
  have f: "fst (append_follow I q n)" and m: "OnAppendEntriesLocked I q n = append_merge I q ?rsp ?n1"
    using yes by (auto simp: OnAppendEntriesLocked_def SetAppendEntriesConflictHintLocked_def Let_def split_def split: if_splits)
  note n1 = append_follow_disk [OF I good fit, of q]
  show ?thesis unfolding m
    by (rule append_merge_durable [OF I n1(1) n1(2) [OF old f]]) (use yes fit' m in simp_all)
qed

end

section \<open>The file storage as an instance\<close>

definition storable_parts :: "int \<Rightarrow> LogRecord list \<Rightarrow> bool" where
  "storable_parts v l \<longleftrightarrow> storable \<lparr>ps_current_term = 0, ps_voted_for = v, ps_commit_index = 0,
     ps_last_applied = 0, ps_log = l\<rparr>"

lemma storable_parts_iff: "storable_parts (ps_voted_for s) (ps_log s) = storable s"
  by (simp add: storable_parts_def storable_def)

interpretation files: state_storage "Storage_Save fp d" "Storage_Load d" fs_restart "storage_ok d" storable_parts
  for fp d
proof
  fix d fp and w :: fs and s :: PersistentRaftState
  assume ok: "storage_ok d w" and "storable_parts (ps_voted_for s) (ps_log s)"
  then have s: "storable s" by (simp add: storable_parts_iff)
  show "storage_ok d (snd (Storage_Save fp d s w))"
    using Save_effect [OF prod.collapse [symmetric] ok storableD(1) [OF s]] by simp
  show "fst (Storage_Load d (fs_restart w')) = Inr (ClampRecoveredHardState s, True)"
    if "Storage_Save fp d s w = (Inr (), w')" for w'
    using Load_disk_holds [of d "Some s" "fs_restart w'"] Save_ok [OF that ok s] by simp
qed (simp add: storable_parts_def storable_def)

section \<open>A small state on an empty disk\<close>

definition empty_disk :: fs where
  "empty_disk = \<lparr>fs_entries = [], fs_faults = [], fs_crashed = False\<rparr>"

lemma empty_disk_facts:
  "fs_quiet empty_disk" "storage_ok ''d'' empty_disk" "disk_holds ''d'' None empty_disk"
  by (simp_all add: empty_disk_def fs_quiet_def storage_ok_def fs_wf_def fs_distinct_def plain_dir_def
      fs_lookup_def fs_is_dir_def)

definition small_state :: PersistentRaftState where
  "small_state = \<lparr>ps_current_term = 3, ps_voted_for = 2, ps_commit_index = 1, ps_last_applied = 1,
     ps_log = [\<lparr>lr_index = 0, lr_term = 0, lr_command = ''''\<rparr>, \<lparr>lr_index = 1, lr_term = 3, lr_command = ''SET|a|b''\<rparr>]\<rparr>"

lemma small_storable: "storable small_state"
  by (simp add: storable_def small_state_def storable_record_def kMaxCommandBytes_def consecutive_def
      less_Suc_eq nth_Cons')

definition saved_disk :: fs where
  "saved_disk = fs_restart (snd (Storage_Save kNone ''d'' small_state empty_disk))"

lemma saved_disk_facts:
  "fs_quiet saved_disk" "disk_holds ''d'' (Some small_state) saved_disk" "fs_lookup (legacy_path_of ''d'') saved_disk = None"
proof -
  from Save_quiet [OF empty_disk_facts(1,2) small_storable] obtain w' where
    w': "Storage_Save kNone ''d'' small_state empty_disk = (Inr (), w')" by blast
  have "fs_lookup (legacy_path_of ''d'') empty_disk = None" by (simp add: empty_disk_def fs_lookup_def)
  from Save_ok [OF w' empty_disk_facts(2) small_storable] Save_legacy [OF w' empty_disk_facts(2) small_storable this]
  show "fs_quiet saved_disk" "disk_holds ''d'' (Some small_state) saved_disk" "fs_lookup (legacy_path_of ''d'') saved_disk = None"
    by (simp_all add: saved_disk_def w' del: disk_holds.simps)
qed

section \<open>Properties\<close>

text \<open>
  C33. The storage is durable: whatever faults a save meets, when it reports success a restarted process
  loads exactly the saved state (with commit and apply index clamped to the log), whatever was on the
  disk before; and without faults it does report success.
\<close>

theorem storage_save_durable:
  assumes "storage_ok d w" and "storable s"
  shows "(fst (Storage_Save fp d s w) = Inr () \<longrightarrow>
      fst (Storage_Load d (fs_restart (snd (Storage_Save fp d s w)))) = Inr (ClampRecoveredHardState s, True)) \<and>
    (fs_quiet w \<longrightarrow> fst (Storage_Save kNone d s w) = Inr ())"
proof -
  have "fst (Storage_Load d (fs_restart (snd (Storage_Save fp d s w)))) = Inr (ClampRecoveredHardState s, True)"
    if "fst (Storage_Save fp d s w) = Inr ()"
    by (rule files.save_load) (use assms that in \<open>simp_all add: storable_parts_iff prod_eq_iff\<close>)
  moreover have "fst (Storage_Save kNone d s w) = Inr ()" if "fs_quiet w"
    using Save_quiet [OF that assms] by auto
  ultimately show ?thesis by blast
qed

theorem storage_save_durable_witness:
  "fst (Storage_Load ''d'' (fs_restart (snd (Storage_Save kNone ''d'' small_state empty_disk)))) = Inr (small_state, True)"
proof -
  have "ClampRecoveredHardState small_state = small_state"
    by (simp add: ClampRecoveredHardState_def small_state_def)
  then show ?thesis
    using storage_save_durable [OF empty_disk_facts(2) small_storable, of kNone] empty_disk_facts(1) by simp
qed



text \<open>
  C35. A crash can lose the hard state: on every disk that holds a state, a save of any other state has a crash
  point after which a restarted process finds no state at all, so that the node starts with term 0 and
  without its vote. It also has a crash point between the two renames, and there the load fails when the
  new log no longer covers the bounds of the old one, as after a compaction.
\<close>

theorem save_crash_loses_state:
  assumes "fs_quiet w" and "disk_holds d (Some s0) w" and "storable s" and "fs_lookup (legacy_path_of d) w = None"
  shows "(\<exists>faults. fst (Storage_Load d (fs_restart (snd (Storage_Save kNone d s (w\<lparr>fs_faults := faults\<rparr>)))))
        = Inr (initial_state, False)) \<and>
    (ps_log s0 \<noteq> [] \<longrightarrow> length (bounded_log s0 (ps_log s)) \<noteq> length (ps_log s0) \<longrightarrow>
      (\<exists>faults e. fst (Storage_Load d (fs_restart (snd (Storage_Save kNone d s (w\<lparr>fs_faults := faults\<rparr>)))))
        = Inl e))"
  using Save_crash [OF assms] by auto

theorem save_crash_loses_state_witness:
  "(\<exists>faults. fst (Storage_Load ''d'' (fs_restart (snd (Storage_Save kNone ''d'' (small_state\<lparr>ps_log := tl (ps_log small_state)\<rparr>)
      (saved_disk\<lparr>fs_faults := faults\<rparr>))))) = Inr (initial_state, False)) \<and>
   (\<exists>faults e. fst (Storage_Load ''d'' (fs_restart (snd (Storage_Save kNone ''d'' (small_state\<lparr>ps_log := tl (ps_log small_state)\<rparr>)
      (saved_disk\<lparr>fs_faults := faults\<rparr>))))) = Inl e)"
proof -
  let ?s = "small_state\<lparr>ps_log := tl (ps_log small_state)\<rparr>"
  have s: "storable ?s"
    by (simp add: storable_def small_state_def storable_record_def kMaxCommandBytes_def)
  have b: "length (bounded_log small_state (ps_log ?s)) \<noteq> length (ps_log small_state)" "ps_log small_state \<noteq> []"
    by (simp_all add: bounded_log_def in_bounds_def meta_of_def small_state_def)
  from save_crash_loses_state [OF saved_disk_facts(1,2) s saved_disk_facts(3)] b show ?thesis by blast
qed

end
