(* ===== verification/SnapshotStorage.thy ===== *)
theory SnapshotStorage
  imports RaftStorage
begin

text \<open>
  The storage of snapshots (\<^verbatim>\<open>storage/snapshot_storage.cpp\<close>): one directory per snapshot with the data
  and a meta file that carries a checksum. A snapshot is assembled in a staging directory and published by
  one rename. \<open>ListSnapshots\<close> returns what validates, newest first, and understands the older
  layout of two flat files. The code for Windows is not modelled; \<open>fp\<close> is the test failpoint and
  \<open>now_ms\<close> the reading of the system clock. Existence queries, reading a present file and listing a directory
  do not fail in the file system model, so the branches for their errors are absent; callers pass
  non-null result and error pointers.
\<close>

section \<open>Constants and failpoints\<close>

definition snap_kMetaMagic :: u32 where "snap_kMetaMagic = 0x53504D32"
definition snap_kMetaVersion :: u32 where "snap_kMetaVersion = 2"
definition kLegacyMetaMagic :: u32 where "kLegacyMetaMagic = 0x53504D31"
definition kLegacyMetaVersion :: u32 where "kLegacyMetaVersion = 1"
definition kSnapshotDataFileName :: string where "kSnapshotDataFileName = ''data.bin''"
definition kSnapshotMetaFileName :: string where "kSnapshotMetaFileName = ''__raft_snapshot_meta''"
definition kSnapshotPrefix :: string where "kSnapshotPrefix = ''snapshot_''"
definition kSnapshotStagingPrefix :: string where "kSnapshotStagingPrefix = ''.snapshot_staging_''"

datatype SnapshotStorageFailPoint = snap_kNone | kStagedPublishAfterDataMetaWrite
  | kParentDirectorySyncAfterPublish | kPublishVisibleBeforeTrustedDirectorySync | kPruneRemoveOldDirectory

definition ActiveSnapshotStorageFailPoint :: "string option \<Rightarrow> SnapshotStorageFailPoint" where
  "ActiveSnapshotStorageFailPoint env_value =
     (case env_value of None \<Rightarrow> snap_kNone
      | Some failpoint \<Rightarrow>
          if failpoint = ''snapshot_staged_publish_after_data_meta_write'' then kStagedPublishAfterDataMetaWrite
          else if failpoint = ''snapshot_parent_directory_sync_after_publish'' then kParentDirectorySyncAfterPublish
          else if failpoint = ''snapshot_publish_visible_before_trusted_directory_sync''
          then kPublishVisibleBeforeTrustedDirectorySync
          else if failpoint = ''snapshot_prune_remove_old_directory'' then kPruneRemoveOldDirectory
          else snap_kNone)"

definition BuildInjectedSnapshotFailure ::
    "string \<Rightarrow> string \<Rightarrow> string \<Rightarrow> string \<Rightarrow> string \<Rightarrow> string \<Rightarrow> string \<Rightarrow> string" where
  "BuildInjectedSnapshotFailure operation path failure_class trusted recovery diagnostic detail =
     ''snapshot storage failure injection triggered, operation='' @ operation @ '', path='' @ path
     @ '', failure_class='' @ failure_class @ '', linux_specific=true''
     @ '', trusted_state_expectation='' @ trusted @ '', recovery_expectation='' @ recovery
     @ '', diagnostic_expectation='' @ diagnostic
     @ (if detail = [] then [] else '', detail='' @ detail)"

text \<open>The detail text that the function leaves, and the world.\<close>

definition RemovePathIfExists :: "string \<Rightarrow> fs \<Rightarrow> string \<times> fs" where
  "RemovePathIfExists path w0 =
     (if \<not> fs_exists path w0 then ([], w0)
      else case fs_remove path w0 of
             (Inl ec, w) \<Rightarrow> (''remove failure artifact path failed: '' @ path @ '': '' @ ec, w)
           | (Inr _, w) \<Rightarrow> ([], w))"

section \<open>Helpers\<close>

definition FormatIndex :: "u64 \<Rightarrow> string" where
  "FormatIndex index = zero_padded 20 (string_of_u64 index)"

definition StartsWith :: "string \<Rightarrow> string \<Rightarrow> bool" where
  "StartsWith text pre \<longleftrightarrow> take (length pre) text = pre"

text \<open>\<^verbatim>\<open>std::stoull\<close>: white space, an optional sign, digits; a minus sign negates modulo \<open>2 ^ 64\<close>.\<close>

definition stoull :: "string \<Rightarrow> u64 option" where
  "stoull text =
     (let s = dropWhile isspace text;
          neg = (s \<noteq> [] \<and> hd s = CHR ''-'');
          s1 = (if s \<noteq> [] \<and> (hd s = CHR ''-'' \<or> hd s = CHR ''+'') then tl s else s);
          ds = takeWhile is_digit s1
      in if ds = [] \<or> digits_value ds \<ge> 2 ^ 64 then None
         else Some (if neg then - of_nat (digits_value ds) else of_nat (digits_value ds)))"

text \<open>The operator \<^verbatim>\<open>/\<close> on a right-hand side that may be absolute, and the extension and stem of a file name.\<close>

definition path_join :: "string \<Rightarrow> string \<Rightarrow> string" where
  "path_join a b = (if b \<noteq> [] \<and> hd b = CHR ''/'' then b else path_append a b)"

definition extension :: "string \<Rightarrow> string" where
  "extension name =
     (let tail = takeWhile (\<lambda>c. c \<noteq> CHR ''.'') (rev name) in
      if Suc (length tail) \<ge> length name \<or> name = ''..'' then [] else CHR ''.'' # rev tail)"

definition stem :: "string \<Rightarrow> string" where
  "stem name = take (length name - length (extension name)) name"

definition UpdateChecksum :: "u32 \<Rightarrow> string \<Rightarrow> u32" where
  "UpdateChecksum checksum data = foldl (\<lambda>c b. xor c (of_nat (of_char b)) * 16777619) checksum data"

text \<open>The file is read through a buffer of 64 KiB.\<close>

definition ComputeFileChecksum :: "string \<Rightarrow> fs \<Rightarrow> string + u32" where
  "ComputeFileChecksum file_path w =
     (case fs_read file_path w of
        None \<Rightarrow> Inl (''open file for checksum failed: '' @ file_path)
      | Some data \<Rightarrow> Inr (foldl UpdateChecksum 2166136261 (chunks (64 * 1024) data)))"

definition Snapshot_SyncFile :: "string \<Rightarrow> fs \<Rightarrow> (string + unit) \<times> fs" where
  "Snapshot_SyncFile path w0 =
     (let (stop, w) = fs_io w0 in
      if \<not> fs_exists path w
      then (Inl (''open snapshot file for fsync failed: '' @ path @ '': '' @ ec_message), w)
      else if stop \<noteq> None then (Inl (''fsync snapshot file failed: '' @ path @ '': '' @ ec_message), w)
      else (Inr (), w))"

definition Snapshot_SyncDirectory :: "string \<Rightarrow> fs \<Rightarrow> (string + unit) \<times> fs" where
  "Snapshot_SyncDirectory path w0 =
     (let (stop, w) = fs_io w0 in
      if \<not> fs_is_dir path w
      then (Inl (''open snapshot directory for fsync failed: '' @ path @ '': '' @ ec_message), w)
      else if stop \<noteq> None then (Inl (''fsync snapshot directory failed: '' @ path @ '': '' @ ec_message), w)
      else (Inr (), w))"

text \<open>
  Copying a file. Inserting an empty stream buffer sets the failure bit of the output stream, so an
  empty source is an error after the target was created.
\<close>

definition CopyFilePortable :: "string \<Rightarrow> string \<Rightarrow> fs \<Rightarrow> (string + unit) \<times> fs" where
  "CopyFilePortable src dst w0 =
     (case fs_read src w0 of
        None \<Rightarrow> (Inl (''open source snapshot failed: '' @ src), w0)
      | Some data \<Rightarrow>
          io_then (on_error (\<lambda>phase. if phase = ''open'' then ''open target snapshot failed: '' @ dst
                     else ''copy snapshot data failed: '' @ dst) (fs_write dst data w0)) (\<lambda>_ w.
          if data = [] then (Inl (''copy snapshot data failed: '' @ dst), w)
          else Snapshot_SyncFile dst w))"

section \<open>Meta files\<close>

definition snapshot_meta_bytes :: "u64 \<Rightarrow> u64 \<Rightarrow> u64 \<Rightarrow> string \<Rightarrow> u32 \<Rightarrow> string" where
  "snapshot_meta_bytes index trm created data_file_name checksum =
     WriteU32 snap_kMetaMagic @ WriteU32 snap_kMetaVersion @ WriteU64 created @ WriteU64 index @ WriteU64 trm
     @ WriteU32 checksum @ WriteString data_file_name"

definition Snapshot_WriteMeta ::
    "string \<Rightarrow> u64 \<Rightarrow> u64 \<Rightarrow> u64 \<Rightarrow> string \<Rightarrow> u32 \<Rightarrow> fs \<Rightarrow> (string + unit) \<times> fs" where
  "Snapshot_WriteMeta meta_path index trm created data_file_name checksum w0 =
     io_then (on_error (\<lambda>phase. if phase = ''open'' then ''open snapshot meta file failed: '' @ meta_path
                else ''flush snapshot meta file failed'')
                (fs_write meta_path (snapshot_meta_bytes index trm created data_file_name checksum) w0)) (\<lambda>_ w.
     Snapshot_SyncFile meta_path w)"

definition read_snapshot_field :: "(string \<Rightarrow> ('a \<times> string) option) \<Rightarrow> string \<Rightarrow> string + 'a \<times> string" where
  "read_snapshot_field dec s = (case dec s of None \<Rightarrow> Inl ''unexpected EOF'' | Some x \<Rightarrow> Inr x)"

definition Snapshot_ReadString :: "string \<Rightarrow> string + string \<times> string" where
  "Snapshot_ReadString s =
     res_then (read_snapshot_field ReadU64 s) (\<lambda>(size, r).
       if unat size > 1024 * 1024 then Inl ''string field is too large''
       else case ReadBytes (unat size) r of None \<Rightarrow> Inl ''read string failed'' | Some x \<Rightarrow> Inr x)"

text \<open>The fields of a meta file: index, term, creation time, data file name, checksum.\<close>

definition parse_snapshot_meta :: "string \<Rightarrow> string \<Rightarrow> string + u64 \<times> u64 \<times> u64 \<times> string \<times> u32" where
  "parse_snapshot_meta meta_path s0 =
     res_then (read_snapshot_field ReadU32 s0) (\<lambda>(magic, s).
     res_then (read_snapshot_field ReadU32 s) (\<lambda>(version, s).
     res_then (read_snapshot_field ReadU64 s) (\<lambda>(created, s).
     res_then (read_snapshot_field ReadU64 s) (\<lambda>(index, s).
     res_then (read_snapshot_field ReadU64 s) (\<lambda>(trm, s).
     res_then (read_snapshot_field ReadU32 s) (\<lambda>(checksum, s).
     res_then (Snapshot_ReadString s) (\<lambda>(data_file_name, s).
       if magic \<noteq> snap_kMetaMagic \<or> version \<noteq> snap_kMetaVersion
       then Inl (''invalid snapshot meta header: path='' @ meta_path @ '', magic='' @ string_of_nat (unat magic)
              @ '', version='' @ string_of_nat (unat version))
       else if data_file_name = []
       then Inl (''snapshot data file name is empty: meta_path='' @ meta_path)
       else Inr (index, trm, created, data_file_name, checksum))))))))"

text \<open>The index in the name of a snapshot directory must be that of its meta file.\<close>

definition check_dir_index :: "string \<Rightarrow> u64 \<Rightarrow> string + unit" where
  "check_dir_index snapshot_dir index =
     (let name = filename snapshot_dir in
      if \<not> StartsWith name kSnapshotPrefix then Inr ()
      else case stoull (drop (length kSnapshotPrefix) name) of
             None \<Rightarrow> Inl (''invalid snapshot directory index: snapshot_dir='' @ snapshot_dir)
           | Some dir_index \<Rightarrow>
               if dir_index \<noteq> index
               then Inl (''snapshot directory index does not match meta: snapshot_dir='' @ snapshot_dir
                      @ '', dir_index='' @ string_of_u64 dir_index @ '', meta_index='' @ string_of_u64 index)
               else Inr ())"

definition ReadDirectorySnapshot :: "string \<Rightarrow> fs \<Rightarrow> string + SnapshotMeta" where
  "ReadDirectorySnapshot snapshot_dir w =
     (let meta_path = path_append snapshot_dir kSnapshotMetaFileName in
      case fs_read meta_path w of
        None \<Rightarrow> Inl (''open snapshot meta file failed: '' @ meta_path)
      | Some s \<Rightarrow>
          res_then (parse_snapshot_meta meta_path s) (\<lambda>(index, trm, created, data_file_name, checksum).
          res_then (check_dir_index snapshot_dir index) (\<lambda>_.
          let data_path = path_join snapshot_dir data_file_name in
          if \<not> fs_exists data_path w then Inl (''snapshot data file missing: '' @ data_path)
          else res_then (ComputeFileChecksum data_path w) (\<lambda>actual_checksum.
               if actual_checksum \<noteq> checksum
               then Inl (''snapshot checksum mismatch: data_path='' @ data_path @ '', expected=''
                      @ string_of_nat (unat checksum) @ '', actual='' @ string_of_nat (unat actual_checksum))
               else Inr \<lparr>sm_snapshot_path = data_path, sm_meta_path = meta_path,
                         sm_snapshot_dir = snapshot_dir, last_included_index = index,
                         last_included_term = trm, created_unix_ms = created, data_checksum = checksum\<rparr>))))"

definition ReadLegacyFlatSnapshot :: "string \<Rightarrow> fs \<Rightarrow> string + SnapshotMeta" where
  "ReadLegacyFlatSnapshot meta_path w =
     (case fs_read meta_path w of
        None \<Rightarrow> Inl ''open legacy snapshot meta failed''
      | Some s0 \<Rightarrow>
          res_then (read_snapshot_field ReadU32 s0) (\<lambda>(magic, s).
          res_then (read_snapshot_field ReadU32 s) (\<lambda>(version, s).
          res_then (read_snapshot_field ReadU64 s) (\<lambda>(created, s).
          res_then (read_snapshot_field ReadU64 s) (\<lambda>(index, s).
          res_then (read_snapshot_field ReadU64 s) (\<lambda>(trm, s).
            if magic \<noteq> kLegacyMetaMagic \<or> version \<noteq> kLegacyMetaVersion
            then Inl ''invalid legacy snapshot meta header''
            else
              let data_path = path_append (parent_path meta_path) (stem (filename meta_path) @ ''.bin'') in
              if \<not> fs_exists data_path w then Inl ''legacy snapshot data missing''
              else Inr \<lparr>sm_snapshot_path = data_path, sm_meta_path = meta_path, sm_snapshot_dir = [],
                        last_included_index = index, last_included_term = trm,
                        created_unix_ms = created, data_checksum = 0\<rparr>))))))"

section \<open>Saving\<close>

definition snapshot_dir_of :: "string \<Rightarrow> u64 \<Rightarrow> string" where
  "snapshot_dir_of root index = path_append root (kSnapshotPrefix @ FormatIndex index)"

definition staging_dir_of :: "string \<Rightarrow> u64 \<Rightarrow> u64 \<Rightarrow> string" where
  "staging_dir_of root index now_ms =
     path_append root (kSnapshotStagingPrefix @ FormatIndex index @ ''_'' @ string_of_u64 now_ms)"

text \<open>A failed step removes the staging directory before the error is returned.\<close>

definition or_remove :: "string \<Rightarrow> ('e + 'a) \<times> fs \<Rightarrow> ('e + 'a) \<times> fs" where
  "or_remove dir x = (case x of (Inl e, w) \<Rightarrow> (Inl e, snd (fs_remove_all dir w)) | (Inr a, w) \<Rightarrow> (Inr a, w))"

definition Snapshot_sync_parent :: "string \<Rightarrow> fs \<Rightarrow> (string + unit) \<times> fs" where
  "Snapshot_sync_parent root w =
     (if parent_path root = [] then (Inr (), w) else Snapshot_SyncDirectory (parent_path root) w)"

text \<open>Filling the staging directory; the result is the checksum of the copied data.\<close>

definition stage_snapshot ::
    "string \<Rightarrow> string \<Rightarrow> u64 \<Rightarrow> u64 \<Rightarrow> u64 \<Rightarrow> string \<Rightarrow> fs \<Rightarrow> (string + u32) \<times> fs" where
  "stage_snapshot root input index trm now_ms staging w0 =
     io_then (on_error (\<lambda>ec. ''remove stale snapshot staging dir failed: '' @ staging @ '': '' @ ec)
                (fs_remove_all staging w0)) (\<lambda>_ w.
     io_then (on_error (\<lambda>ec. ''create snapshot staging dir failed: '' @ staging @ '': '' @ ec)
                (fs_create_directories staging w)) (\<lambda>_ w.
     io_then (or_remove staging (Snapshot_SyncDirectory root w)) (\<lambda>_ w.
     io_then (or_remove staging
                (CopyFilePortable input (path_append staging kSnapshotDataFileName) w)) (\<lambda>_ w.
     io_then (or_remove staging
                (ComputeFileChecksum (path_append staging kSnapshotDataFileName) w, w)) (\<lambda>checksum w.
     io_then (or_remove staging (Snapshot_WriteMeta (path_append staging kSnapshotMetaFileName) index trm
                now_ms kSnapshotDataFileName checksum w)) (\<lambda>_ w.
     io_then (or_remove staging (Snapshot_SyncDirectory staging w)) (\<lambda>_ w.
       (Inr checksum, w))))))))"

text \<open>The rename that publishes the staging directory. An invalid directory in its place is removed first.\<close>

definition publish_snapshot :: "string \<Rightarrow> string \<Rightarrow> string \<Rightarrow> fs \<Rightarrow> (string + unit) \<times> fs" where
  "publish_snapshot root staging final_dir w0 =
     io_then (if fs_exists final_dir w0
              then io_then (or_remove staging
                     (on_error (\<lambda>ec. ''remove invalid snapshot dir failed: '' @ final_dir @ '': '' @ ec)
                       (fs_remove_all final_dir w0))) (\<lambda>_ w.
                   or_remove staging (Snapshot_SyncDirectory root w))
              else (Inr (), w0)) (\<lambda>_ w.
     or_remove staging
       (on_error (\<lambda>ec. ''publish snapshot staging dir failed: '' @ staging @ '' -> '' @ final_dir @ '': '' @ ec)
         (fs_rename staging final_dir w)))"

definition publish_failpoint ::
    "SnapshotStorageFailPoint \<Rightarrow> string \<Rightarrow> string \<Rightarrow> fs \<Rightarrow> (string + unit) \<times> fs" where
  "publish_failpoint fp root final_dir w =
     (if fp = kParentDirectorySyncAfterPublish \<or> fp = kPublishVisibleBeforeTrustedDirectorySync
      then let (detail, w1) = RemovePathIfExists (path_append final_dir kSnapshotMetaFileName) w;
               parent = (fp = kParentDirectorySyncAfterPublish);
               trusted = (if parent
                 then ''if the new snapshot directory becomes visible but the parent directory sync does not complete, restart must stay on the last fully durable trusted snapshot boundary''
                 else ''if restart sees a newer snapshot publish point without the required trusted publish completion, it must reject that snapshot and continue from the previous trusted snapshot plus replayable log tail'')
           in (Inl (BuildInjectedSnapshotFailure
                 (if parent then ''snapshot parent directory sync after publish''
                  else ''snapshot publish visible before trusted directory sync'')
                 (if parent then root else final_dir) ''directory sync'' trusted trusted
                 (if parent
                  then ''error should identify that the snapshot directory became visible but the parent directory sync boundary did not complete''
                  else ''error should identify that the newer snapshot publish point became visible without a trusted parent directory sync boundary'')
                 detail), w1)
      else (Inr (), w))"

definition stage_and_publish ::
    "SnapshotStorageFailPoint \<Rightarrow> u64 \<Rightarrow> string \<Rightarrow> string \<Rightarrow> u64 \<Rightarrow> u64 \<Rightarrow> fs \<Rightarrow> (string + SnapshotMeta) \<times> fs" where
  "stage_and_publish fp now_ms root input index trm w0 =
     (let final_dir = snapshot_dir_of root index; staging = staging_dir_of root index now_ms in
      io_then (stage_snapshot root input index trm now_ms staging w0) (\<lambda>checksum w.
      if fp = kStagedPublishAfterDataMetaWrite
      then (Inl (BuildInjectedSnapshotFailure ''snapshot staged publish after data/meta write'' final_dir
             ''replace/rename''
             ''if staged snapshot publish fails before the final trusted publish point, restart must keep using the previously trusted snapshot and ignore the incomplete newer snapshot''
             ''restart should keep using the last trusted snapshot and reject the incomplete newer snapshot publish attempt''
             ''error should identify that the staged snapshot directory was never promoted to the trusted published snapshot boundary''
             ''staging snapshot directory left in place for deterministic recovery fallback validation''), w)
      else
      io_then (publish_snapshot root staging final_dir w) (\<lambda>_ w.
      io_then (publish_failpoint fp root final_dir w) (\<lambda>_ w.
      io_then (Snapshot_SyncDirectory root w) (\<lambda>_ w.
        (Inr \<lparr>sm_snapshot_path = path_append final_dir kSnapshotDataFileName,
              sm_meta_path = path_append final_dir kSnapshotMetaFileName, sm_snapshot_dir = final_dir,
              last_included_index = index, last_included_term = trm, created_unix_ms = now_ms,
              data_checksum = checksum\<rparr>, snd (fs_remove input w)))))))"

definition SaveSnapshotFile ::
    "SnapshotStorageFailPoint \<Rightarrow> u64 \<Rightarrow> string \<Rightarrow> string \<Rightarrow> u64 \<Rightarrow> u64 \<Rightarrow> fs \<Rightarrow> (string + SnapshotMeta) \<times> fs" where
  "SaveSnapshotFile fp now_ms root input index trm w0 =
     (if input = [] then (Inl ''input snapshot file path is empty'', w0)
      else
      io_then (on_error (\<lambda>ec. ''create snapshot dir failed: '' @ ec) (fs_create_directories root w0)) (\<lambda>_ w.
      io_then (Snapshot_sync_parent root w) (\<lambda>_ w.
      io_then (Snapshot_SyncDirectory root w) (\<lambda>_ w.
      let final_dir = snapshot_dir_of root index in
      case (if fs_exists final_dir w then ReadDirectorySnapshot final_dir w else Inl []) of
        Inr existing \<Rightarrow>
          if last_included_term existing \<noteq> trm
          then (Inl (''existing snapshot has same index but different term: '' @ final_dir), w)
          else (Inr existing, snd (fs_remove input w))
      | Inl _ \<Rightarrow> stage_and_publish fp now_ms root input index trm w))))"

section \<open>Listing and pruning\<close>

text \<open>What one entry of the directory contributes: a snapshot, an issue, or nothing.\<close>

definition inspect_entry :: "fs \<Rightarrow> string \<Rightarrow> (SnapshotValidationIssue + SnapshotMeta) option" where
  "inspect_entry w path =
     (let name = filename path;
          trusted = (\<lambda>r. case r of Inl e \<Rightarrow> Some (Inl \<lparr>issue_path = path, issue_reason = e\<rparr>)
                                 | Inr m \<Rightarrow> Some (Inr m))
      in if fs_is_dir path w
         then if StartsWith name kSnapshotStagingPrefix
              then Some (Inl \<lparr>issue_path = path, issue_reason = ''staging snapshot directory ignored''\<rparr>)
              else if \<not> StartsWith name kSnapshotPrefix then None
              else trusted (ReadDirectorySnapshot path w)
         else if extension name = ''.meta'' then trusted (ReadLegacyFlatSnapshot path w)
         else None)"

text \<open>Newest first: by index, then by creation time. \<^verbatim>\<open>std::sort\<close> may order equal entries either way.\<close>

definition newer :: "SnapshotMeta \<Rightarrow> SnapshotMeta \<Rightarrow> bool" where
  "newer a b \<longleftrightarrow> (if last_included_index a \<noteq> last_included_index b
     then last_included_index a > last_included_index b else created_unix_ms a > created_unix_ms b)"

fun insert_newer :: "SnapshotMeta \<Rightarrow> SnapshotMeta list \<Rightarrow> SnapshotMeta list" where
  "insert_newer m [] = [m]"
| "insert_newer m (x # xs) = (if newer x m then x # insert_newer m xs else m # x # xs)"

definition sort_snapshots :: "SnapshotMeta list \<Rightarrow> SnapshotMeta list" where
  "sort_snapshots ms = foldr insert_newer ms []"

definition ListSnapshotsWithDiagnostics :: "string \<Rightarrow> fs \<Rightarrow> (string + SnapshotListResult) \<times> fs" where
  "ListSnapshotsWithDiagnostics root w =
     (let found = List.map_filter (inspect_entry w) (fs_list root w) in
      (Inr (if \<not> fs_exists root w then \<lparr>snapshots = [], validation_issues = []\<rparr>
            else \<lparr>snapshots = sort_snapshots (List.map_filter (\<lambda>x. case x of Inr m \<Rightarrow> Some m | _ \<Rightarrow> None) found),
                  validation_issues = List.map_filter (\<lambda>x. case x of Inl i \<Rightarrow> Some i | _ \<Rightarrow> None) found\<rparr>), w))"

definition ListSnapshots :: "string \<Rightarrow> fs \<Rightarrow> (string + SnapshotMeta list) \<times> fs" where
  "ListSnapshots root w0 = io_then (ListSnapshotsWithDiagnostics root w0) (\<lambda>r w. (Inr (snapshots r), w))"

definition LoadLatestValidSnapshot :: "string \<Rightarrow> fs \<Rightarrow> (string + SnapshotMeta option) \<times> fs" where
  "LoadLatestValidSnapshot root w0 =
     io_then (ListSnapshotsWithDiagnostics root w0) (\<lambda>r w.
       (Inr (case snapshots r of [] \<Rightarrow> None | m # _ \<Rightarrow> Some m), w))"

fun prune_each :: "SnapshotStorageFailPoint \<Rightarrow> SnapshotMeta list \<Rightarrow> fs \<Rightarrow> (string + unit) \<times> fs" where
  "prune_each fp [] w = (Inr (), w)"
| "prune_each fp (m # rest) w0 =
     (if sm_snapshot_dir m \<noteq> []
      then if fp = kPruneRemoveOldDirectory
           then (Inl (BuildInjectedSnapshotFailure ''snapshot prune remove old directory'' (sm_snapshot_dir m)
                  ''prune/remove''
                  ''if pruning old snapshots fails during remove/publish cleanup, the newest trusted snapshot must remain loadable and restart must not mis-classify prune leftovers as the chosen trusted snapshot''
                  ''restart should keep the newest trusted snapshot loadable and should not let prune leftovers win trusted snapshot selection''
                  ''error should identify that pruning the old snapshot directory failed before cleanup completed''
                  ''old snapshot directory removal was rejected before mutating trusted snapshot selection''), w0)
           else io_then (on_error (\<lambda>ec. ''remove old snapshot dir failed: '' @ ec)
                          (fs_remove_all (sm_snapshot_dir m) w0)) (\<lambda>_ w. prune_each fp rest w)
      else io_then (on_error (\<lambda>ec. ''remove old snapshot data failed: '' @ ec)
                     (fs_remove (sm_snapshot_path m) w0)) (\<lambda>_ w.
           io_then (on_error (\<lambda>ec. ''remove old snapshot meta failed: '' @ ec)
                     (fs_remove (sm_meta_path m) w)) (\<lambda>_ w. prune_each fp rest w)))"

definition PruneSnapshots :: "SnapshotStorageFailPoint \<Rightarrow> string \<Rightarrow> nat \<Rightarrow> fs \<Rightarrow> (string + unit) \<times> fs" where
  "PruneSnapshots fp root max_keep0 w0 =
     (let max_keep = (if max_keep0 = 0 then 1 else max_keep0) in
      io_then (ListSnapshots root w0) (\<lambda>found w.
      if length found \<le> max_keep then (Inr (), w)
      else io_then (prune_each fp (drop max_keep found) w) (\<lambda>_ w. Snapshot_SyncDirectory root w)))"

end
