(* ===== verification/FileFrames.thy ===== *)
theory FileFrames
  imports RaftStorage SnapshotStorage FilePaths
begin

text \<open>
  Frame reasoning for sequences of file operations. \<open>framed K f\<close> says that \<open>f\<close>, under any faults,
  keeps the table well formed and changes no path in \<open>K\<close>. The rules \<open>framed_rules\<close> derive it for a
  whole function from its operations. From them follows that both storages keep the file system a
  tree, and which paths each of them may touch.
\<close>

definition framed :: "(string \<Rightarrow> bool) \<Rightarrow> (fs \<Rightarrow> 'a \<times> fs) \<Rightarrow> bool" where
  "framed K f \<longleftrightarrow> (\<forall>w. fs_wf w \<longrightarrow> fs_wf (snd (f w)) \<and> (\<forall>q. K q \<longrightarrow> fs_lookup q (snd (f w)) = fs_lookup q w))"

named_theorems framed_rules

lemma framedI:
  assumes "\<And>w r w'. fs_wf w \<Longrightarrow> f w = (r, w') \<Longrightarrow> fs_wf w' \<and> (\<forall>q. K q \<longrightarrow> fs_lookup q w' = fs_lookup q w)"
  shows "framed K f"
  using assms unfolding framed_def by (metis prod.collapse)

lemma framedD: "framed K f \<Longrightarrow> f w = (r, w') \<Longrightarrow> fs_wf w \<Longrightarrow> fs_wf w' \<and> (\<forall>q. K q \<longrightarrow> fs_lookup q w' = fs_lookup q w)"
  unfolding framed_def by (metis snd_conv)

lemma framed_pure [framed_rules]: "framed K (\<lambda>w. (x, w))"
  by (simp add: framed_def)

lemma framed_result [framed_rules]: "framed K (\<lambda>w. (x w, w))"
  by (simp add: framed_def)

lemma framed_case [framed_rules]:
  assumes "framed K f" and "\<And>e. framed K (g e)" and "\<And>a. framed K (h a)"
  shows "framed K (\<lambda>w. case f w of (Inl e, w1) \<Rightarrow> g e w1 | (Inr a, w1) \<Rightarrow> h a w1)"
proof (rule framedI)
  fix w r w' assume wf: "fs_wf w" and run: "(case f w of (Inl e, w1) \<Rightarrow> g e w1 | (Inr a, w1) \<Rightarrow> h a w1) = (r, w')"
  obtain x w1 where x: "f w = (x, w1)" by fastforce
  note s1 = framedD [OF assms(1) x wf]
  then have "fs_wf w1" by simp
  note s2 = framedD [OF assms(2) _ this] framedD [OF assms(3) _ this]
  from run x s2 have "fs_wf w' \<and> (\<forall>q. K q \<longrightarrow> fs_lookup q w' = fs_lookup q w1)" by (cases x) auto
  with s1 show "fs_wf w' \<and> (\<forall>q. K q \<longrightarrow> fs_lookup q w' = fs_lookup q w)" by simp
qed

lemma framed_io_then [framed_rules]: "framed K f \<Longrightarrow> (\<And>a. framed K (g a)) \<Longrightarrow> framed K (\<lambda>w. io_then (f w) g)"
  unfolding io_then_def by (rule framed_case) (auto intro: framed_pure)

lemma framed_on_error [framed_rules]: "framed K f \<Longrightarrow> framed K (\<lambda>w. on_error g (f w))"
  unfolding on_error_def by (rule framed_case) (auto intro: framed_pure)

lemma framed_if [framed_rules]: "framed K f \<Longrightarrow> framed K g \<Longrightarrow> framed K (\<lambda>w. if b w then f w else g w)"
  unfolding framed_def by simp

lemma framed_if_const [framed_rules]: "framed K f \<Longrightarrow> framed K g \<Longrightarrow> framed K (if b then f else g)"
  by simp

lemma framed_snd [framed_rules]: "framed K f \<Longrightarrow> framed K (\<lambda>w. (x, snd (f w)))"
  unfolding framed_def by simp

lemma framed_restore [framed_rules]: "framed K f \<Longrightarrow> framed K (\<lambda>w. (x, if b w then snd (f w) else w))"
  unfolding framed_def by simp

lemma framed_after: "framed K f \<Longrightarrow> framed K g \<Longrightarrow> framed K (\<lambda>w. f (snd (g w)))"
  unfolding framed_def by simp

lemma framed_option [framed_rules]:
  "framed K f \<Longrightarrow> (\<And>a. framed K (g a)) \<Longrightarrow> framed K (\<lambda>w. case x w of None \<Rightarrow> f w | Some a \<Rightarrow> g a w)"
  unfolding framed_def by (simp split: option.split)

lemma framed_sum [framed_rules]:
  "(\<And>e. framed K (f e)) \<Longrightarrow> (\<And>a. framed K (g a)) \<Longrightarrow> framed K (\<lambda>w. case x w of Inl e \<Rightarrow> f e w | Inr a \<Rightarrow> g a w)"
  unfolding framed_def by (simp split: sum.split)

section \<open>Single operations\<close>

lemma framed_same: "(\<And>w. fs_restart (snd (f w)) = fs_restart w) \<Longrightarrow> framed K f"
  unfolding framed_def by (metis fs_restart_simps(3) fs_wf_restart)

lemma framed_sync [framed_rules]:
  "framed K (SyncFile p)" "framed K (SyncDirectory p)" "framed K (sync_parent p)"
  "framed K (Snapshot_SyncFile p)" "framed K (Snapshot_SyncDirectory p)" "framed K (Snapshot_sync_parent p)"
  by (rule framed_same; simp add: SyncFile_def SyncDirectory_def sync_parent_def Snapshot_SyncFile_def
      Snapshot_SyncDirectory_def Snapshot_sync_parent_def Let_def split_def)+

lemma framed_effect:
  assumes "fs_restart w' = v" and "fs_wf v" and "\<And>q. K q \<Longrightarrow> fs_lookup q v = fs_lookup q w"
  shows "fs_wf w' \<and> (\<forall>q. K q \<longrightarrow> fs_lookup q w' = fs_lookup q w)"
  using assms fs_restart_simps(3) [of _ w'] fs_wf_restart [of w'] by simp

lemma framed_create [framed_rules]:
  assumes "\<And>q. K q \<Longrightarrow> q \<notin> set (ancestors p)"
  shows "framed K (fs_create_directories p)"
proof (rule framedI)
  fix w r w' assume wf: "fs_wf w" and run: "fs_create_directories p w = (r, w')"
  from run show "fs_wf w' \<and> (\<forall>q. K q \<longrightarrow> fs_lookup q w' = fs_lookup q w)"
  proof (cases rule: fs_create_directories_cases)
    case ok
    show ?thesis by (rule framed_effect [OF ok(2)])
      (use wf ok(3) assms in \<open>auto simp: fs_wf_make_dirs fold_put_lookup\<close>)
  next
    case (failed e)
    show ?thesis by (rule framed_effect [OF failed(2)]) (use wf in simp_all)
  qed
qed

lemma framed_write [framed_rules]:
  assumes "\<And>q. K q \<Longrightarrow> q \<noteq> p" and "p \<noteq> []"
  shows "framed K (fs_write p c)"
proof (rule framedI)
  fix w r w' assume wf: "fs_wf w" and run: "fs_write p c w = (r, w')"
  have put: "fs_wf w' \<and> (\<forall>q. K q \<longrightarrow> fs_lookup q w' = fs_lookup q w)"
    if "fs_restart w' = fs_put p (FFile x) (fs_restart w)" "\<not> fs_is_dir p w"
      "parent_path p = [] \<or> fs_is_dir (parent_path p) w" for x
    by (rule framed_effect [OF that(1)]) (use wf that assms fs_wf_put_file [of "fs_restart w" p] in auto)
  from run show "fs_wf w' \<and> (\<forall>q. K q \<longrightarrow> fs_lookup q w' = fs_lookup q w)"
  proof (cases rule: fs_write_cases)
    case ok
    then show ?thesis by (intro put)
  next
    case (failed e)
    show ?thesis by (rule framed_effect [OF failed(2)]) (use wf in simp_all)
  next
    case (torn e k)
    then show ?thesis by (intro put)
  qed
qed

lemma framed_remove [framed_rules]:
  assumes "\<And>q. K q \<Longrightarrow> q \<noteq> p" and "p \<noteq> []"
  shows "framed K (fs_remove p)"
proof (rule framedI)
  fix w r w' assume wf: "fs_wf w" and run: "fs_remove p w = (r, w')"
  from run show "fs_wf w' \<and> (\<forall>q. K q \<longrightarrow> fs_lookup q w' = fs_lookup q w)"
  proof (cases rule: fs_remove_cases)
    case ok
    have none: "fs_lookup q w = None" if "under p q" for q
      using that ok(3) fs_wf_below [OF wf _ assms(2)] by blast
    have "fs_wf (fs_drop (\<lambda>q. q = p) (fs_restart w))"
      by (rule fs_wf_drop) (use wf none in auto)
    from framed_effect [OF ok(2) this] assms(1) show ?thesis by (auto simp: fs_lookup_drop)
  next
    case (failed e)
    show ?thesis by (rule framed_effect [OF failed(2)]) (use wf in simp_all)
  qed
qed

lemma framed_remove_all [framed_rules]:
  assumes "\<And>q. K q \<Longrightarrow> \<not> (q = p \<or> under p q)" and "p \<noteq> []"
  shows "framed K (fs_remove_all p)"
proof (rule framedI)
  fix w r w' assume wf: "fs_wf w" and run: "fs_remove_all p w = (r, w')"
  from run show "fs_wf w' \<and> (\<forall>q. K q \<longrightarrow> fs_lookup q w' = fs_lookup q w)"
  proof (cases rule: fs_remove_all_cases)
    case ok
    have "fs_wf (fs_drop (\<lambda>q. q = p \<or> under p q) (fs_restart w))"
      by (rule fs_wf_drop) (use wf in \<open>auto intro: under_trans\<close>)
    from framed_effect [OF ok(2) this] assms(1) show ?thesis by (auto simp: fs_lookup_drop)
  next
    case (partial e gone)
    have "fs_wf (fs_drop (\<lambda>q. q \<in> set gone) (fs_restart w))"
      by (rule fs_wf_drop) (use wf fs_remove_all_partial [OF wf partial(3) assms(2)] in auto)
    then show ?thesis by (rule framed_effect [OF partial(2)]) (use assms(1) partial(3) in \<open>force simp: fs_lookup_drop\<close>)
  qed
qed

lemma framed_rename [framed_rules]:
  assumes "\<And>q. K q \<Longrightarrow> \<not> (q = a \<or> under a q) \<and> \<not> (q = b \<or> under b q)" and "a \<noteq> []" and "b \<noteq> []"
  shows "framed K (fs_rename a b)"
proof (rule framedI)
  fix w r w' assume wf: "fs_wf w" and run: "fs_rename a b w = (r, w')"
  from run show "fs_wf w' \<and> (\<forall>q. K q \<longrightarrow> fs_lookup q w' = fs_lookup q w)"
  proof (cases rule: fs_rename_cases)
    case ok
    have free: "\<And>q. under b q \<Longrightarrow> fs_lookup q (fs_restart w) = None" using ok(4) by simp
    have "fs_wf (fs_move a b (fs_restart w))"
      by (rule fs_wf_move) (use wf free ok assms in auto)
    from framed_effect [OF ok(2) this] assms(1) show ?thesis by (auto simp: fs_lookup_move [OF free])
  next
    case (failed e)
    show ?thesis by (rule framed_effect [OF failed(2)]) (use wf in simp_all)
  qed
qed

section \<open>The two storages\<close>

lemma fs_wf_overwrite:
  assumes "fs_wf w" and "fs_read p w = Some c" and "p \<noteq> []"
  shows "fs_wf (fs_put p (FFile c') w)"
proof (rule fs_wf_put_file [OF assms(1) _ _ assms(3)])
  have f: "fs_lookup p w = Some (FFile c)" using assms(2) by (auto simp: fs_read_def split: option.splits fs_entry.splits)
  then show "\<not> fs_is_dir p w" by (simp add: fs_is_dir_def)
  show "parent_path p = [] \<or> fs_is_dir (parent_path p) w"
    using fs_wf_above [OF assms(1), of p "parent_path p"] f parent_of_child [of "parent_path p" p]
    by (auto simp: fs_is_dir_def)
qed

lemma framed_append [framed_rules]:
  assumes "\<And>q. K q \<Longrightarrow> q \<noteq> p" and "p \<noteq> []"
  shows "framed K (\<lambda>w. (x, fs_append p c w))"
proof (rule framedI)
  fix w r w' assume wf: "fs_wf w" and "(x, fs_append p c w) = (r, w')"
  then have w': "w' = fs_append p c w" by simp
  show "fs_wf w' \<and> (\<forall>q. K q \<longrightarrow> fs_lookup q w' = fs_lookup q w)"
  proof (cases rule: fs_append_cases [of p w c])
    case (ok c' k)
    show ?thesis unfolding w' by (rule framed_effect [OF ok(2)])
      (use wf ok(1) assms fs_wf_overwrite [of "fs_restart w" p c'] in auto)
  next
    case failed
    show ?thesis unfolding w' by (rule framed_effect [OF failed]) (use wf in simp_all)
  qed
qed

lemma framed_resize [framed_rules]:
  assumes "\<And>q. K q \<Longrightarrow> q \<noteq> p" and "p \<noteq> []"
  shows "framed K (fs_resize p k)"
proof (rule framedI)
  fix w r w' assume wf: "fs_wf w" and run: "fs_resize p k w = (r, w')"
  from run show "fs_wf w' \<and> (\<forall>q. K q \<longrightarrow> fs_lookup q w' = fs_lookup q w)"
  proof (cases rule: fs_resize_cases)
    case (ok c)
    show ?thesis by (rule framed_effect [OF ok(3)])
      (use wf ok(2) assms fs_wf_overwrite [of "fs_restart w" p c] in auto)
  next
    case (failed e)
    show ?thesis by (rule framed_effect [OF failed(2)]) (use wf in simp_all)
  qed
qed

lemma framed_or_remove [framed_rules]:
  assumes "framed K f" and "framed K (fs_remove_all d)"
  shows "framed K (\<lambda>w. or_remove d (f w))"
  unfolding or_remove_def by (rule framed_case) (use assms in \<open>auto intro: framed_rules\<close>)

section \<open>The two storages keep the tree\<close>

lemma path_append_nonempty [simp]: "n \<noteq> [] \<Longrightarrow> path_append d n \<noteq> []"
  by (simp add: path_append_def)

lemma storage_path_nonempty [simp]:
  "meta_path_of d \<noteq> []" "meta_tmp_path_of d \<noteq> []" "log_dir_of d \<noteq> []" "log_tmp_dir_of d \<noteq> []"
  "log_backup_dir_of d \<noteq> []" "legacy_path_of d \<noteq> []" "SegmentFileName i \<noteq> []"
  by (simp_all add: meta_path_of_def meta_tmp_path_of_def log_dir_of_def log_tmp_dir_of_def
      log_backup_dir_of_def legacy_path_of_def SegmentFileName_def)

lemma framed_inject [framed_rules]: "framed K (\<lambda>w. InjectFailureIfRequested fp k a b c e g w)"
  unfolding InjectFailureIfRequested_def by (intro framed_rules)

lemma framed_segment:
  assumes "\<And>q n. K q \<Longrightarrow> q \<noteq> path_append T n"
  shows "framed K (write_segment fp T fin seg)"
  unfolding write_segment_def [abs_def] Let_def FlushAndSyncSegmentFile_def by (intro framed_rules) (use assms in simp_all)

lemma framed_segments [framed_rules]:
  assumes "\<And>q n. K q \<Longrightarrow> q \<noteq> path_append T n"
  shows "framed K (write_all_segments fp T segs)"
proof (induction segs)
  case (Cons seg segs)
  then show ?case unfolding write_all_segments.simps by (intro framed_rules framed_segment) (use assms in simp_all)
qed (simp add: framed_pure)

text \<open>The tree at a path, and the paths that a save does not touch.\<close>

definition in_tree :: "string \<Rightarrow> string \<Rightarrow> bool" where
  "in_tree d q \<longleftrightarrow> q = d \<or> under d q"

definition foreign :: "string \<Rightarrow> string \<Rightarrow> bool" where
  "foreign d q \<longleftrightarrow> q \<notin> set (ancestors d) \<and> (\<forall>n \<in> {''meta.bin'', ''meta.bin.tmp'', ''log'', ''log.tmp'', ''log.bak'',
     ''raft_state.bin'', ''raft_state.bin.tmp''}. \<not> in_tree (path_append d n) q)"

lemma framed_Save:
  assumes "\<And>q. K q \<Longrightarrow> foreign d q \<and> q \<notin> set (ancestors (log_tmp_dir_of d)) \<and> (\<forall>n. q \<noteq> path_append (log_tmp_dir_of d) n)"
  shows "framed K (Storage_Save fp d s)"
proof -
  note K = assms [unfolded foreign_def in_tree_def]
  have out: "q \<noteq> meta_path_of d \<and> q \<noteq> meta_tmp_path_of d \<and> q \<noteq> legacy_path_of d \<and> q \<noteq> path_append d ''raft_state.bin.tmp'' \<and>
      \<not> (q = log_dir_of d \<or> under (log_dir_of d) q) \<and> \<not> (q = log_tmp_dir_of d \<or> under (log_tmp_dir_of d) q) \<and>
      \<not> (q = log_backup_dir_of d \<or> under (log_backup_dir_of d) q) \<and> \<not> under (meta_path_of d) q \<and> \<not> under (meta_tmp_path_of d) q"
    if "K q" for q
    using K [OF that] unfolding meta_path_of_def meta_tmp_path_of_def legacy_path_of_def log_dir_of_def
      log_tmp_dir_of_def log_backup_dir_of_def by simp
  have "framed K (\<lambda>w. fs_remove (path_append d ''raft_state.bin.tmp'') (snd (fs_remove (legacy_path_of d) w)))"
    by (intro framed_after framed_rules) (use out in simp_all)
  then show ?thesis
    unfolding Storage_Save_def [abs_def] save_prepare_def WriteSegments_def WriteMeta_def ReplaceFile_def
      ReplaceDirectory_def swap_directories_def
    by (intro framed_rules) (use K out in simp_all)
qed

lemma tree_Save: "framed (\<lambda>_. False) (Storage_Save fp d s)"
  by (rule framed_Save) simp

lemma Save_foreign:
  assumes "plain_dir d"
  shows "framed (foreign d) (Storage_Save fp d s)"
proof (rule framed_Save)
  fix q assume f: "foreign d q"
  have T: "log_tmp_dir_of d = d @ CHR ''/'' # ''log.tmp''" using assms by (simp add: log_tmp_dir_of_def path_append_plain)
  then have "plain_dir (log_tmp_dir_of d)" by (simp add: plain_dir_def)
  then have "in_tree (log_tmp_dir_of d) (path_append (log_tmp_dir_of d) n)" for n by (simp add: in_tree_def path_append_plain)
  moreover have "ancestors (log_tmp_dir_of d) = log_tmp_dir_of d # ancestors d" unfolding T by (rule ancestors_child) simp
  moreover have "\<not> in_tree (log_tmp_dir_of d) q" "q \<notin> set (ancestors d)" using f by (simp_all add: foreign_def log_tmp_dir_of_def)
  ultimately show "foreign d q \<and> q \<notin> set (ancestors (log_tmp_dir_of d)) \<and> (\<forall>n. q \<noteq> path_append (log_tmp_dir_of d) n)"
    using f by (auto simp: in_tree_def)
qed

lemma fs_list_nonempty: "d \<noteq> [] \<Longrightarrow> q \<in> set (fs_list d w) \<Longrightarrow> q \<noteq> []"
  by (auto simp: fs_list_def parent_path_def)

lemma tree_segment_file:
  assumes "path \<noteq> []"
  shows "framed (\<lambda>_. False) (ReadSegmentFile path f t p)"
  unfolding ReadSegmentFile_def [abs_def]
proof (intro framed_option framed_pure)
  fix s
  obtain a b c where e: "read_entries f t 0 s (lp_records p) = (a, b, c)" using prod_cases3 by blast
  have tr: "framed (\<lambda>_. False) (TruncateFile path b)"
    unfolding TruncateFile_def [abs_def] by (intro framed_rules) (use assms in simp_all)
  show "framed (\<lambda>_. False) (\<lambda>w. case read_entries f t 0 s (lp_records p) of
        (None, _, records) \<Rightarrow> (Inr (p\<lparr>lp_records := records\<rparr>), w)
      | (Some reason, last_good_pos, records) \<Rightarrow>
          io_then (TruncateFile path last_good_pos w) (\<lambda>_ w.
            (Inr \<lparr>lp_records = records, tail_truncated = True,
                  recovery_diagnostics = recovery_diagnostics p @
                    [''segment tail truncated, path='' @ path @ '', reason='' @ reason
                     @ '', truncate_offset='' @ string_of_nat last_good_pos
                     @ '', accepted_records='' @ string_of_nat (length records)]\<rparr>, w)))"
    unfolding e by (cases a) (simp_all only: prod.case option.case, (intro framed_rules tr)+)
qed

lemma tree_segment_files:
  "\<forall>x \<in> set files. snd x \<noteq> [] \<Longrightarrow> framed (\<lambda>_. False) (read_segment_files f t files p)"
proof (induction files arbitrary: p)
  case Nil
  show ?case by (simp add: framed_pure)
next
  case (Cons x files)
  obtain start path where x: "x = (start, path)" by fastforce
  have "path \<noteq> []" using Cons.prems x by simp
  then show ?case unfolding x read_segment_files.simps Let_def
    by (intro framed_if_const framed_rules tree_segment_file Cons.IH) (use Cons.prems in simp_all)
qed

lemma segment_files_nonempty: "d \<noteq> [] \<Longrightarrow> \<forall>x \<in> set (segment_files d w). snd x \<noteq> []"
  using fs_list_nonempty [of d _ w]
  by (auto simp: segment_files_def List.map_filter_def split: option.splits)

lemma tree_Load: "framed (\<lambda>_. False) (Storage_Load d)"
proof -
  have "framed (\<lambda>_. False) (LoadSegments (log_dir_of d) f t c)" for f t c
  proof (rule framedI)
    fix w r w' assume wf: "fs_wf w" and run: "LoadSegments (log_dir_of d) f t c w = (r, w')"
    let ?p = "\<lparr>lp_records = [], tail_truncated = False, recovery_diagnostics = []\<rparr>"
    have "framed (\<lambda>_. False) (\<lambda>v. if c = 0 then (Inr [], v)
      else if \<not> fs_exists (log_dir_of d) w then (Inl (''log dir does not exist: '' @ log_dir_of d), v)
      else io_then (read_segment_files f t (segment_files (log_dir_of d) w) ?p v) (\<lambda>p v.
        (check_loaded (log_dir_of d) f t c (segment_files (log_dir_of d) w) p, v)))"
      by (intro framed_rules tree_segment_files segment_files_nonempty) simp
    from framedD [OF this run [unfolded LoadSegments_def Let_def] wf]
    show "fs_wf w' \<and> (\<forall>q. False \<longrightarrow> fs_lookup q w' = fs_lookup q w)" .
  qed
  then show ?thesis
    unfolding Storage_Load_def [abs_def] LoadSegmented_def LoadLegacy_def Let_def by (intro framed_rules)
qed

section \<open>Frames of the snapshot storage\<close>

lemma snapshot_dir_nonempty [simp]:
  "snapshot_dir_of root i \<noteq> []" "staging_dir_of root i ms \<noteq> []" "kSnapshotDataFileName \<noteq> []" "kSnapshotMetaFileName \<noteq> []"
  by (simp_all add: snapshot_dir_of_def staging_dir_of_def kSnapshotPrefix_def kSnapshotStagingPrefix_def
      kSnapshotDataFileName_def kSnapshotMetaFileName_def)

lemma in_tree_append: "in_tree d (path_append d n)" if "d \<noteq> []" "last d \<noteq> CHR ''/''"
  using that by (simp add: in_tree_def path_append_def)

lemma stage_frame:
  assumes "plain_dir S" and "\<And>q. K q \<Longrightarrow> \<not> in_tree S q \<and> q \<notin> set (ancestors S)"
  shows "framed K (stage_snapshot root input index trm now S)"
proof -
  have S: "S \<noteq> []" "\<And>n. in_tree S (path_append S n)" using assms(1) by (auto simp: plain_dir_def in_tree_append)
  show ?thesis
    unfolding stage_snapshot_def [abs_def] CopyFilePortable_def Snapshot_WriteMeta_def
    by (intro framed_rules) (use S assms(2) in \<open>auto simp: in_tree_def\<close>)
qed

lemma publish_frame:
  assumes "S \<noteq> []" and "F \<noteq> []" and "\<And>q. K q \<Longrightarrow> \<not> in_tree S q \<and> \<not> in_tree F q"
  shows "framed K (publish_snapshot root S F)"
  unfolding publish_snapshot_def [abs_def]
  by (intro framed_rules) (use assms in \<open>auto simp: in_tree_def\<close>)

end
