(* ===== verification/SnapshotRecovery.thy ===== *)
theory SnapshotRecovery
  imports FileFrames StorageFormat
begin

text \<open>
  What a snapshot save and a pruning leave on disk under any faults: the snapshot directories they do
  not work on stay as they were, a directory that validates afterwards is an old one or the
  complete new one, and a reported success can be read back.
\<close>

section \<open>Names\<close>

definition snapshot_name :: "u64 \<Rightarrow> string" where
  "snapshot_name i = ''snapshot_'' @ zero_padded 20 (string_of_nat (unat i))"

definition staging_name :: "u64 \<Rightarrow> u64 \<Rightarrow> string" where
  "staging_name i ms = ''.snapshot_staging_'' @ zero_padded 20 (string_of_nat (unat i)) @ ''_'' @ string_of_nat (unat ms)"

lemma digits_no_slash: "CHR ''/'' \<notin> set (string_of_nat k)" "CHR ''/'' \<notin> set (zero_padded n (string_of_nat k))"
proof -
  have "list_all is_digit (string_of_nat k)" by (simp add: string_of_nat_digits)
  then show "CHR ''/'' \<notin> set (string_of_nat k)" by (auto simp: list_all_iff is_digit_def)
  then show "CHR ''/'' \<notin> set (zero_padded n (string_of_nat k))" by (simp add: zero_padded_def)
qed

lemma snapshot_names:
  "CHR ''/'' \<notin> set (snapshot_name i)" "CHR ''/'' \<notin> set (staging_name i ms)" "snapshot_name i \<noteq> staging_name j ms"
  using digits_no_slash by (simp_all add: snapshot_name_def staging_name_def)

lemma snapshot_paths:
  assumes "plain_dir root"
  shows "snapshot_dir_of root i = root @ CHR ''/'' # snapshot_name i"
    and "staging_dir_of root i ms = root @ CHR ''/'' # staging_name i ms"
  using assms by (simp_all add: snapshot_dir_of_def staging_dir_of_def path_append_plain snapshot_name_def
      staging_name_def FormatIndex_def string_of_u64_def kSnapshotPrefix_def kSnapshotStagingPrefix_def)

lemma stoull_FormatIndex: "stoull (FormatIndex i) = Some i"
proof -
  let ?n = "string_of_nat (unat i)"
  have z: "list_all is_digit (zero_padded 20 ?n)" "digits_value (zero_padded 20 ?n) = unat i"
    using string_of_nat_digits [of "unat i"] by (auto simp: zero_padded_def digits_value_zeros list_all_iff is_digit_def)
  have ne: "zero_padded 20 ?n \<noteq> []" using string_of_nat_digits [of "unat i"] by (auto simp: zero_padded_def)
  then obtain c cs where c: "zero_padded 20 ?n = c # cs" "is_digit c" using z(1) by (cases "zero_padded 20 ?n") auto
  have "\<not> isspace c" "c \<noteq> CHR ''-''" "c \<noteq> CHR ''+''" using c(2) by (auto simp: isspace_def is_digit_def)
  moreover have "takeWhile is_digit cs = cs" using z(1) c(1) by (simp add: takeWhile_eq_all_conv list_all_iff)
  moreover have "unat i < 2 ^ 64" using unsigned_less [of i, where 'a = nat] by simp
  ultimately show ?thesis using c z(2)
    by (simp add: stoull_def FormatIndex_def string_of_u64_def Let_def del: takeWhile_eq_all_conv)
qed

lemma plain_snapshot_dirs:
  assumes "plain_dir root"
  shows "plain_dir (snapshot_dir_of root i)" "plain_dir (staging_dir_of root i ms)"
proof -
  have "last (snapshot_name i) \<noteq> CHR ''/''" "last (staging_name i ms) \<noteq> CHR ''/''"
    using snapshot_names(1,2) [of i] snapshot_names(2) [of i ms]
    by (metis append_is_Nil_conv last_in_set list.distinct(1) snapshot_name_def staging_name_def)+
  then show "plain_dir (snapshot_dir_of root i)" "plain_dir (staging_dir_of root i ms)"
    by (simp_all add: plain_dir_def snapshot_paths [OF assms] snapshot_name_def staging_name_def)
qed

section \<open>Reading depends on the directory only\<close>

lemma in_treeI: "under D q \<Longrightarrow> in_tree D q"
  by (simp add: in_tree_def)

text \<open>The meta file of a directory names a file inside it.\<close>

definition tidy :: "string \<Rightarrow> fs \<Rightarrow> bool" where
  "tidy D w \<longleftrightarrow> (\<forall>s i t c name k. fs_read (path_append D kSnapshotMetaFileName) w = Some s \<longrightarrow>
     parse_snapshot_meta (path_append D kSnapshotMetaFileName) s = Inr (i, t, c, name, k) \<longrightarrow> hd name \<noteq> CHR ''/'')"

lemma in_tree_paths:
  assumes "plain_dir D"
  shows "in_tree D (path_append D n)" "under D (path_append D n)"
    "name \<noteq> [] \<Longrightarrow> hd name \<noteq> CHR ''/'' \<Longrightarrow> under D (path_join D name)"
  using assms by (simp_all add: in_tree_def path_append_plain path_join_def)

lemma parse_meta_name: "parse_snapshot_meta p s = Inr (i, t, c, name, k) \<Longrightarrow> name \<noteq> []"
  by (auto simp: parse_snapshot_meta_def res_then_def split: sum.splits prod.splits if_splits)

text \<open>What a valid directory holds.\<close>

lemma ReadDirectory_iff:
  "ReadDirectorySnapshot D w = Inr m \<longleftrightarrow> (\<exists>s i t c name k data.
     fs_read (path_append D kSnapshotMetaFileName) w = Some s \<and>
     parse_snapshot_meta (path_append D kSnapshotMetaFileName) s = Inr (i, t, c, name, k) \<and>
     check_dir_index D i = Inr () \<and> fs_read (path_join D name) w = Some data \<and>
     foldl UpdateChecksum 2166136261 (chunks (64 * 1024) data) = k \<and>
     m = \<lparr>sm_snapshot_path = path_join D name, sm_meta_path = path_append D kSnapshotMetaFileName,
          sm_snapshot_dir = D, last_included_index = i, last_included_term = t, created_unix_ms = c,
          data_checksum = k\<rparr>)"
proof -
  have ex: "fs_exists q w" if "fs_read q w = Some x" for q x
    using that by (auto simp: fs_read_def fs_exists_def split: option.splits)
  show ?thesis
    by (auto simp: ReadDirectorySnapshot_def ComputeFileChecksum_def res_then_def Let_def dest: ex
        split: option.splits sum.splits if_splits prod.splits)
qed

text \<open>Removing files from a directory does not make it valid, and keeps it valid only unchanged.\<close>

lemma ReadDirectory_below:
  assumes pd: "plain_dir D" and td: "tidy D w"
    and sh: "\<And>q. under D q \<Longrightarrow> fs_lookup q w' = fs_lookup q w \<or> fs_lookup q w' = None"
    and r: "ReadDirectorySnapshot D w' = Inr m"
  shows "ReadDirectorySnapshot D w = Inr m"
proof -
  let ?M = "path_append D kSnapshotMetaFileName"
  have rd: "fs_read q w = Some x" if "under D q" "fs_read q w' = Some x" for q x
    using sh [OF that(1)] that(2) by (auto simp: fs_read_def)
  from r obtain s i t c name k data where f: "fs_read ?M w' = Some s" "parse_snapshot_meta ?M s = Inr (i, t, c, name, k)"
    "fs_read (path_join D name) w' = Some data" and rest: "check_dir_index D i = Inr ()"
    "foldl UpdateChecksum 2166136261 (chunks (64 * 1024) data) = k"
    "m = \<lparr>sm_snapshot_path = path_join D name, sm_meta_path = ?M, sm_snapshot_dir = D, last_included_index = i,
          last_included_term = t, created_unix_ms = c, data_checksum = k\<rparr>" unfolding ReadDirectory_iff by blast
  have M: "fs_read ?M w = Some s" by (rule rd [OF in_tree_paths(2) [OF pd] f(1)])
  with td f(2) have "hd name \<noteq> CHR ''/''" by (auto simp: tidy_def)
  from rd [OF in_tree_paths(3) [OF pd parse_meta_name [OF f(2)] this] f(3)] M f(2) rest
  show ?thesis unfolding ReadDirectory_iff by blast
qed

lemma ReadDirectory_same_below:
  assumes pd: "plain_dir D" and td: "tidy D w" and eq: "\<And>q. under D q \<Longrightarrow> fs_lookup q w' = fs_lookup q w"
    and r: "ReadDirectorySnapshot D w = Inr m"
  shows "ReadDirectorySnapshot D w' = Inr m"
proof -
  have rd: "fs_read q w' = fs_read q w" if "under D q" for q using eq [OF that] by (simp add: fs_read_def)
  have "tidy D w'" using td rd [OF in_tree_paths(2) [OF pd]] by (simp add: tidy_def)
  from ReadDirectory_below [OF pd this _ r] eq show ?thesis by metis
qed

lemma ReadDirectory_shrunk:
  assumes "plain_dir D" and "tidy D w" and "\<And>q. in_tree D q \<Longrightarrow> fs_lookup q w' = fs_lookup q w \<or> fs_lookup q w' = None"
    and "ReadDirectorySnapshot D w' = Inr m"
  shows "ReadDirectorySnapshot D w = Inr m"
  by (rule ReadDirectory_below [OF assms(1,2) assms(3) [OF in_treeI] assms(4)])

lemma ReadDirectory_same:
  assumes "plain_dir D" and "tidy D w" and "\<And>q. in_tree D q \<Longrightarrow> fs_lookup q w' = fs_lookup q w"
    and "ReadDirectorySnapshot D w = Inr m"
  shows "ReadDirectorySnapshot D w' = Inr m"
  by (rule ReadDirectory_same_below [OF assms(1,2) assms(3) [OF in_treeI] assms(4)])

lemma ReadDirectory_restart [simp]: "ReadDirectorySnapshot D (fs_restart w) = ReadDirectorySnapshot D w"
  by (simp add: ReadDirectorySnapshot_def ComputeFileChecksum_def Let_def cong: if_cong option.case_cong)

section \<open>The format of a meta file\<close>

lemma read_field_ok: "dec s = Some x \<Longrightarrow> res_then (read_snapshot_field dec s) f = f x"
  by (simp add: read_snapshot_field_def res_then_def)

lemma Snapshot_ReadString_written:
  assumes "length s \<le> 1024 * 1024"
  shows "Snapshot_ReadString (WriteString s @ rest) = Inr (s, rest)"
proof -
  have "unat (of_nat (length s) :: u64) = length s" using assms by (simp add: unat_of_nat take_bit_nat_eq_self)
  with assms show ?thesis unfolding Snapshot_ReadString_def WriteString_def append_assoc
    by (simp add: read_field_ok u64.dec_enc ReadBytes_def)
qed

lemma parse_snapshot_meta_written:
  "parse_snapshot_meta p (snapshot_meta_bytes i t c kSnapshotDataFileName k) = Inr (i, t, c, kSnapshotDataFileName, k)"
proof -
  have "Snapshot_ReadString (WriteString kSnapshotDataFileName) = Inr (kSnapshotDataFileName, [])"
    using Snapshot_ReadString_written [of kSnapshotDataFileName "[]"] by (simp add: kSnapshotDataFileName_def)
  then show ?thesis unfolding parse_snapshot_meta_def snapshot_meta_bytes_def append_assoc
    by (simp add: read_field_ok u32.dec_enc u64.dec_enc res_then_def [of "Inr x" for x])
qed

lemma check_dir_index_own:
  assumes "plain_dir root"
  shows "check_dir_index (snapshot_dir_of root i) i = Inr ()"
proof -
  have "filename (snapshot_dir_of root i) = kSnapshotPrefix @ FormatIndex i"
    using split_last_component(1) [OF snapshot_names(1) [of i], of root]
    by (simp add: snapshot_paths [OF assms] snapshot_name_def kSnapshotPrefix_def FormatIndex_def string_of_u64_def)
  then show ?thesis by (simp add: check_dir_index_def StartsWith_def stoull_FormatIndex Let_def)
qed

text \<open>The snapshot that a save publishes.\<close>

definition published_meta :: "string \<Rightarrow> u64 \<Rightarrow> u64 \<Rightarrow> u64 \<Rightarrow> string \<Rightarrow> SnapshotMeta" where
  "published_meta root i t now data =
     \<lparr>sm_snapshot_path = path_append (snapshot_dir_of root i) kSnapshotDataFileName,
      sm_meta_path = path_append (snapshot_dir_of root i) kSnapshotMetaFileName,
      sm_snapshot_dir = snapshot_dir_of root i, last_included_index = i, last_included_term = t,
      created_unix_ms = now, data_checksum = foldl UpdateChecksum 2166136261 (chunks (64 * 1024) data)\<rparr>"

lemma data_file_join: "path_join D kSnapshotDataFileName = path_append D kSnapshotDataFileName"
  by (simp add: path_join_def kSnapshotDataFileName_def)

lemma complete_directory:
  assumes "plain_dir root" and "F = snapshot_dir_of root i"
    and "fs_read (path_append F kSnapshotDataFileName) w = Some data"
    and "fs_read (path_append F kSnapshotMetaFileName) w = Some (snapshot_meta_bytes i t now kSnapshotDataFileName
           (foldl UpdateChecksum 2166136261 (chunks (64 * 1024) data)))"
  shows "ReadDirectorySnapshot F w = Inr (published_meta root i t now data)" and "tidy F w"
  using assms(3,4) check_dir_index_own [OF assms(1), of i]
  by (auto simp: ReadDirectory_iff published_meta_def parse_snapshot_meta_written data_file_join tidy_def assms(2))
    (simp add: kSnapshotDataFileName_def)

section \<open>Staging and publishing\<close>

lemma or_remove_ok: "or_remove d x = (Inr a, w') \<longleftrightarrow> x = (Inr a, w')"
  by (auto simp: or_remove_def split: prod.splits sum.splits)

lemma or_remove_cases:
  assumes "or_remove d x = (r, w')"
  obtains (ok) a where "x = (Inr a, w')" "r = Inr a"
    | (failed) e w1 where "x = (Inl e, w1)" "r = Inl e" "w' = snd (fs_remove_all d w1)"
  using assms by (auto simp: or_remove_def split: prod.splits sum.splits)

lemma sync_lookup:
  "Snapshot_SyncFile p w = (r, w') \<Longrightarrow> fs_lookup q w' = fs_lookup q w"
  "Snapshot_SyncDirectory p w = (r, w') \<Longrightarrow> fs_lookup q w' = fs_lookup q w"
  "Snapshot_sync_parent p w = (r, w') \<Longrightarrow> fs_lookup q w' = fs_lookup q w"
  by (auto simp: Snapshot_SyncFile_def Snapshot_SyncDirectory_def Snapshot_sync_parent_def Let_def split_def
      split: if_splits)

lemma fs_write_ok:
  assumes "fs_write p d w = (Inr (), w')"
  shows "fs_lookup q w' = (if q = p then Some (FFile d) else fs_lookup q w)"
  using fs_lookup_write [of p d w] fs_lookup_write_other [of q p d w] assms by simp

lemma remove_all_lookup:
  assumes "fs_remove_all p w = (r, w')"
  shows "fs_lookup q w' = fs_lookup q w \<or> in_tree p q \<and> fs_lookup q w' = None"
  using assms fs_restart_simps(3) [of q w']
  by (cases rule: fs_remove_all_cases) (auto simp: in_tree_def fs_lookup_drop split: if_splits)

lemma copy_ok:
  assumes "CopyFilePortable a b w = (Inr (), w')"
  shows "\<exists>data. fs_read a w = Some data \<and> fs_lookup b w' = Some (FFile data)"
  using assms by (auto simp: CopyFilePortable_def io_ok_iff sync_lookup fs_write_ok split: option.splits if_splits)

lemma write_meta_ok:
  assumes "Snapshot_WriteMeta p i t c n k w = (Inr (), w')"
  shows "fs_lookup q w' = (if q = p then Some (FFile (snapshot_meta_bytes i t c n k)) else fs_lookup q w)"
  using assms by (auto simp: Snapshot_WriteMeta_def io_ok_iff sync_lookup fs_write_ok)

lemma stage_ok:
  assumes S: "plain_dir S" and out: "\<not> in_tree S input" 
    and run: "stage_snapshot root input i t now S w = (Inr k, w')"
  obtains data where "fs_read input w = Some data" 
    "fs_read (path_append S kSnapshotDataFileName) w' = Some data"
    "k = foldl UpdateChecksum 2166136261 (chunks (64 * 1024) data)"
    "fs_read (path_append S kSnapshotMetaFileName) w' = Some (snapshot_meta_bytes i t now kSnapshotDataFileName k)"
proof -
  let ?D = "path_append S kSnapshotDataFileName" and ?M = "path_append S kSnapshotMetaFileName"
  from run obtain w1 w2 w3 w4 w5 w6 where st:
    "fs_remove_all S w = (Inr (), w1)" "fs_create_directories S w1 = (Inr (), w2)"
    "Snapshot_SyncDirectory root w2 = (Inr (), w3)" "CopyFilePortable input ?D w3 = (Inr (), w4)"
    "ComputeFileChecksum ?D w4 = Inr k" "Snapshot_WriteMeta ?M i t now kSnapshotDataFileName k w4 = (Inr (), w5)"
    "Snapshot_SyncDirectory S w5 = (Inr (), w')"
    by (auto simp: stage_snapshot_def io_ok_iff or_remove_ok)
  from copy_ok [OF st(4)] obtain data where d: "fs_read input w3 = Some data" "fs_lookup ?D w4 = Some (FFile data)" by blast
  have "fs_lookup input w1 = fs_lookup input w"
    using st(1) out fs_restart_simps(3) [of input w1]
    by (cases rule: fs_remove_all_cases) (auto simp: in_tree_def fs_lookup_drop)
  moreover have "fs_lookup input w2 = fs_lookup input w1 \<or> fs_lookup input w2 = Some FDir"
    using st(2) fs_restart_simps(3) [of input w2]
    by (cases rule: fs_create_directories_cases) (auto simp: fold_put_lookup split: if_splits)
  ultimately have "fs_read input w = Some data" using d(1) sync_lookup(2) [OF st(3)] by (auto simp: fs_read_def)
  moreover have "?D \<noteq> ?M" by (simp add: path_append_plain [OF S] kSnapshotDataFileName_def kSnapshotMetaFileName_def)
  then have "fs_read ?D w' = Some data" using d(2) write_meta_ok [OF st(6)] sync_lookup(2) [OF st(7)] by (simp add: fs_read_def)
  moreover have "k = foldl UpdateChecksum 2166136261 (chunks (64 * 1024) data)"
    using st(5) d(2) by (simp add: ComputeFileChecksum_def fs_read_def)
  moreover have "fs_read ?M w' = Some (snapshot_meta_bytes i t now kSnapshotDataFileName k)"
    using write_meta_ok [OF st(6)] sync_lookup(2) [OF st(7)] by (simp add: fs_read_def)
  ultimately show ?thesis by (rule that)
qed

text \<open>
  Files of an old directory may disappear while it is cleared away, and the staging directory is kept
  unless the clearing fails.
\<close>

definition shrunk :: "string \<Rightarrow> fs \<Rightarrow> fs \<Rightarrow> bool" where
  "shrunk D w w' \<longleftrightarrow> (\<forall>q. in_tree D q \<longrightarrow> fs_lookup q w' = fs_lookup q w \<or> fs_lookup q w' = None)"

lemma shrunk_remove_all:
  assumes "shrunk F w v" and "\<And>q. in_tree S q \<Longrightarrow> \<not> in_tree F q"
  shows "shrunk F w (snd (fs_remove_all S v))"
proof -
  obtain x u where "fs_remove_all S v = (x, u)" by fastforce
  with remove_all_lookup [OF this] assms show ?thesis unfolding shrunk_def by (metis snd_conv)
qed

lemma clear_effect:
  assumes apart: "\<And>q. in_tree S q \<Longrightarrow> \<not> in_tree F q"
    and run: "(if fs_exists F w
        then io_then (or_remove S (on_error g (fs_remove_all F w))) (\<lambda>_ w. or_remove S (Snapshot_SyncDirectory root w))
        else (Inr (), w)) = (r, w')"
  shows "shrunk F w w' \<and> (r = Inr () \<longrightarrow> (\<forall>q. in_tree S q \<longrightarrow> fs_lookup q w' = fs_lookup q w))"
proof (cases "fs_exists F w")
  case True
  have rm: "shrunk F w v \<and> (\<forall>q. in_tree S q \<longrightarrow> fs_lookup q v = fs_lookup q w)" if "fs_remove_all F w = (x, v)" for x v
    using apart remove_all_lookup [OF that] unfolding shrunk_def by metis
  have "io_then (or_remove S (on_error g (fs_remove_all F w))) (\<lambda>_ w. or_remove S (Snapshot_SyncDirectory root w)) = (r, w')"
    using run True by simp
  then show ?thesis
  proof (cases rule: io_then_cases)
    case (failed e)
    from failed(1) obtain e' v where "fs_remove_all F w = (Inl e', v)" "w' = snd (fs_remove_all S v)"
      by (cases rule: or_remove_cases) (auto simp: on_error_def split: prod.splits sum.splits)
    with rm shrunk_remove_all apart failed(2) show ?thesis by auto
  next
    case (ok a v)
    then have "fs_remove_all F w = (Inr a, v)" by (simp add: or_remove_ok io_ok_iff)
    note v = rm [OF this]
    from ok(2) show ?thesis
    proof (cases rule: or_remove_cases)
      case (ok a)
      with v sync_lookup(2) [OF ok(1)] show ?thesis by (simp add: shrunk_def)
    next
      case (failed e u)
      then have "shrunk F w u" using v sync_lookup(2) [OF failed(1)] by (simp add: shrunk_def)
      with failed shrunk_remove_all apart show ?thesis by simp
    qed
  qed
qed (use run in \<open>simp add: shrunk_def\<close>)

text \<open>Publishing either moves the staging directory into place or at most removes files of an old directory there.\<close>

lemma publish_effect:
  assumes apart: "\<And>q. in_tree S q \<Longrightarrow> \<not> in_tree F q" and run: "publish_snapshot root S F w = (r, w')"
  obtains (published) "r = Inr ()" "\<And>y. in_tree F (F @ y) \<Longrightarrow> fs_lookup (F @ y) w' = fs_lookup (S @ y) w"
    | (unpublished) e where "r = Inl e" "shrunk F w w'"
  using run unfolding publish_snapshot_def
proof (cases rule: io_then_cases)
  case (failed e)
  with clear_effect [OF apart failed(1)] unpublished show ?thesis by blast
next
  case (ok a w1)
  note cl = clear_effect [OF apart ok(1)]
  from ok(2) show ?thesis
  proof (cases rule: or_remove_cases)
    case mv: (ok b)
    then have "fs_rename S F w1 = (Inr (), w')" by (simp add: io_ok_iff)
    then show ?thesis
    proof (cases rule: fs_rename_cases)
      case rn: ok
      have free: "\<And>q. under F q \<Longrightarrow> fs_lookup q (fs_restart w1) = None" using rn(4) by simp
      have "fs_lookup (F @ y) w' = fs_lookup (S @ y) w" if y: "in_tree F (F @ y)" for y
      proof -
        have "in_tree S (S @ y)" using y by (cases y) (auto simp: in_tree_def under_iff)
        moreover have "fs_lookup (F @ y) w' = fs_lookup (S @ y) w1"
          using fs_restart_simps(3) [of "F @ y" w'] y by (auto simp: rn(2) fs_lookup_move [OF free] in_tree_def)
        ultimately show ?thesis using cl by simp
      qed
      with published mv show ?thesis by simp
    qed simp
  next
    case (failed e w2)
    then obtain e' where "fs_rename S F w1 = (Inl e', w2)"
      by (auto simp: on_error_def split: prod.splits sum.splits)
    then have "shrunk F w w2" using cl fs_lookup_rename_failed by (simp add: shrunk_def)
    with failed unpublished shrunk_remove_all apart show ?thesis by metis
  qed
qed

section \<open>Saving a snapshot\<close>

lemma snapshot_name_inj: "snapshot_name i = snapshot_name j \<longleftrightarrow> i = j"
proof
  assume "snapshot_name i = snapshot_name j"
  then have "FormatIndex i = FormatIndex j" by (simp add: snapshot_name_def FormatIndex_def string_of_u64_def)
  then have "Some i = Some j" by (metis stoull_FormatIndex)
  then show "i = j" by simp
qed simp

lemma sibling_trees:
  assumes "CHR ''/'' \<notin> set a" and "CHR ''/'' \<notin> set b" and "a \<noteq> b"
    and "in_tree (d @ CHR ''/'' # a) q" 
  shows "\<not> in_tree (d @ CHR ''/'' # b) q"
  using assms sibling_paths(1) [of a b d] sibling_paths(1) [of b a d] sibling_paths(2) [of a b d q]
  by (auto simp: in_tree_def)

lemma snapshot_trees:
  assumes "plain_dir root"
  shows "i \<noteq> j \<Longrightarrow> in_tree (snapshot_dir_of root i) q \<Longrightarrow> \<not> in_tree (snapshot_dir_of root j) q"
    and "in_tree (staging_dir_of root i ms) q \<Longrightarrow> \<not> in_tree (snapshot_dir_of root j) q"
    and "in_tree (snapshot_dir_of root j) q \<Longrightarrow> \<not> in_tree (staging_dir_of root i ms) q"
    and "in_tree (snapshot_dir_of root j) q \<Longrightarrow> q \<notin> set (ancestors root)"
    and "in_tree (snapshot_dir_of root j) q \<Longrightarrow> q \<notin> set (ancestors (staging_dir_of root i ms))"
proof -
  note p = snapshot_paths [OF assms] and n = snapshot_names
  show "i \<noteq> j \<Longrightarrow> in_tree (snapshot_dir_of root i) q \<Longrightarrow> \<not> in_tree (snapshot_dir_of root j) q"
    unfolding p by (rule sibling_trees) (simp_all add: n snapshot_name_inj)
  show st: "in_tree (staging_dir_of root i ms) q \<Longrightarrow> \<not> in_tree (snapshot_dir_of root j) q"
    unfolding p by (rule sibling_trees) (simp_all add: n n(3) [symmetric])
  then show "in_tree (snapshot_dir_of root j) q \<Longrightarrow> \<not> in_tree (staging_dir_of root i ms) q" by blast
  have "length root < length q" if "in_tree (snapshot_dir_of root j) q" for q
    using that under_longer [of "snapshot_dir_of root j" q] by (auto simp: in_tree_def p)
  then show an: "in_tree (snapshot_dir_of root j) q \<Longrightarrow> q \<notin> set (ancestors root)"
    using ancestors_shorter [of q root] by fastforce
  with st show "in_tree (snapshot_dir_of root j) q \<Longrightarrow> q \<notin> set (ancestors (staging_dir_of root i ms))"
    unfolding p by (auto simp: ancestors_child n in_tree_def)
qed

lemma framed_failpoint [framed_rules]:
  assumes "\<And>q. K q \<Longrightarrow> q \<noteq> path_append F kSnapshotMetaFileName"
  shows "framed K (publish_failpoint fp root F)"
proof -
  let ?M = "path_append F kSnapshotMetaFileName"
  have "framed K (RemovePathIfExists ?M)"
    unfolding RemovePathIfExists_def by (intro framed_rules) (use assms in simp_all)
  then show ?thesis unfolding framed_def publish_failpoint_def by (auto simp: Let_def split_def)
qed

text \<open>The other snapshot directories are out of reach of a save.\<close>

lemma Save_frame:
  assumes root: "plain_dir root" and K: "\<And>q. K q \<Longrightarrow> q \<noteq> input \<and> q \<notin> set (ancestors root)
      \<and> q \<notin> set (ancestors (staging_dir_of root i now))
      \<and> \<not> in_tree (staging_dir_of root i now) q \<and> \<not> in_tree (snapshot_dir_of root i) q"
  shows "framed K (SaveSnapshotFile fp now root input i t)"
proof (cases "input = []")
  case False
  have pub: "framed K (publish_snapshot root (staging_dir_of root i now) (snapshot_dir_of root i))"
    by (rule publish_frame) (use K in simp_all)
  have st: "framed K (stage_snapshot root input i t now (staging_dir_of root i now))"
    by (rule stage_frame) (use K plain_snapshot_dirs [OF root] in simp_all)
  have M: "q \<noteq> path_append (snapshot_dir_of root i) kSnapshotMetaFileName" if "K q" for q
    using K [OF that] in_tree_paths(1) [OF plain_snapshot_dirs(1) [OF root, of i]] by auto
  have "framed K (stage_and_publish fp now root input i t)"
    unfolding stage_and_publish_def [abs_def] Let_def
    by (intro framed_rules framed_failpoint st pub) (use M K False in simp_all)
  then show ?thesis unfolding SaveSnapshotFile_def [abs_def] Let_def
    by (intro framed_rules) (use K False in simp_all)
qed (simp add: SaveSnapshotFile_def [abs_def] framed_pure)

lemma failpoint_effect:
  assumes "publish_failpoint fp root F w = (r, w')"
  shows "shrunk D w w'" and "r = Inr () \<Longrightarrow> w' = w"
proof -
  let ?M = "path_append F kSnapshotMetaFileName"
  have rm: "fs_lookup q (snd (fs_remove ?M w)) = fs_lookup q w \<or> fs_lookup q (snd (fs_remove ?M w)) = None" for q
    using fs_lookup_remove [of ?M w] fs_lookup_remove_other [of q ?M w] by (cases "q = ?M") auto
  have "w' = w \<or> w' = snd (fs_remove ?M w)"
    using assms by (auto simp: publish_failpoint_def RemovePathIfExists_def Let_def split: if_splits prod.splits sum.splits)
  with rm show "shrunk D w w'" unfolding shrunk_def by metis
  show "r = Inr () \<Longrightarrow> w' = w" using assms by (auto simp: publish_failpoint_def Let_def split_def split: if_splits)
qed

lemma finish_effect:
  assumes "io_then (publish_failpoint fp root F v) (\<lambda>_ w. io_then (Snapshot_SyncDirectory root w) (\<lambda>_ w.
      (Inr m, snd (fs_remove input w)))) = (r, w')" and out: "\<not> in_tree F input"
  shows "shrunk F v w' \<and> (\<forall>x. r = Inr x \<longrightarrow> x = m \<and> (\<forall>q. in_tree F q \<longrightarrow> fs_lookup q w' = fs_lookup q v))"
  using assms(1)
proof (cases rule: io_then_cases)
  case (failed e)
  with failpoint_effect(1) show ?thesis by blast
next
  case (ok a w1)
  then have w1: "w1 = v" using failpoint_effect(2) [OF ok(1)] by simp
  have rm: "fs_lookup q (snd (fs_remove input w)) = fs_lookup q w" if "in_tree F q" for q w
    using fs_lookup_remove_other [of q input w] that out by auto
  from ok(2) show ?thesis unfolding w1
  proof (cases rule: io_then_cases)
    case (failed e)
    with sync_lookup(2) [OF failed(1)] show ?thesis by (simp add: shrunk_def)
  next
    case (ok b w2)
    with sync_lookup(2) [OF ok(1)] rm show ?thesis by (auto simp: shrunk_def)
  qed
qed

text \<open>
  What a save that found no valid snapshot of this index leaves in the final directory: what was
  there, at most with files missing, or the complete new snapshot, at most with files missing; a
  reported success is the complete snapshot.
\<close>

lemma stage_and_publish_effect:
  assumes root: "plain_dir root" and F: "F = snapshot_dir_of root i"
    and inp: "\<not> in_tree F input" "\<not> in_tree (staging_dir_of root i now) input"
    and wf: "fs_wf w" and run: "stage_and_publish fp now root input i t w = (r, w')"
  obtains (old) e where "r = Inl e" "shrunk F w w'"
    | (new) v data where "fs_read input w = Some data" "fs_read (path_append F kSnapshotDataFileName) v = Some data"
        "ReadDirectorySnapshot F v = Inr (published_meta root i t now data)" "tidy F v" "shrunk F v w'"
        "\<And>m. r = Inr m \<Longrightarrow> m = published_meta root i t now data \<and> (\<forall>q. in_tree F q \<longrightarrow> fs_lookup q w' = fs_lookup q v)"
proof -
  let ?S = "staging_dir_of root i now"
  let ?D = "kSnapshotDataFileName" and ?M = "kSnapshotMetaFileName"
  have apart: "\<And>q. in_tree ?S q \<Longrightarrow> \<not> in_tree F q" using snapshot_trees(2) [OF root] F by blast
  have S: "plain_dir ?S" and pF: "plain_dir F" using plain_snapshot_dirs [OF root] F by auto
  have stK: "framed (in_tree F) (stage_snapshot root input i t now ?S)"
    by (rule stage_frame [OF S]) (use snapshot_trees(3,5) [OF root] F in blast)
  note run' = run [unfolded stage_and_publish_def Let_def F [symmetric]]
  from run' show ?thesis
  proof (cases rule: io_then_cases)
    case (failed e)
    from framedD [OF stK failed(1) wf] old failed(2) show ?thesis by (simp add: shrunk_def)
  next
    case (ok k w1)
    have w1: "fs_wf w1" "\<And>q. in_tree F q \<Longrightarrow> fs_lookup q w1 = fs_lookup q w" using framedD [OF stK ok(1) wf] by auto
    from stage_ok [OF S inp(2) ok(1)] obtain data where d: "fs_read input w = Some data"
      "fs_read (path_append ?S ?D) w1 = Some data" "k = foldl UpdateChecksum 2166136261 (chunks (64 * 1024) data)"
      "fs_read (path_append ?S ?M) w1 = Some (snapshot_meta_bytes i t now ?D k)" .
    show ?thesis
    proof (cases "fp = kStagedPublishAfterDataMetaWrite")
      case True
      with ok(2) have "w' = w1" "\<exists>e. r = Inl e" by auto
      with w1(2) old show ?thesis by (auto simp: shrunk_def)
    next
      case False
      from ok(2) [simplified if_not_P [OF False]] show ?thesis
      proof (cases rule: io_then_cases)
        case (failed e)
        from apart failed(1) have "shrunk F w1 w'" by (cases rule: publish_effect) auto
        with w1(2) old failed(2) show ?thesis by (simp add: shrunk_def)
      next
        case (ok a v)
        from apart ok(1) have mv: "\<And>y. in_tree F (F @ y) \<Longrightarrow> fs_lookup (F @ y) v = fs_lookup (?S @ y) w1"
          by (cases rule: publish_effect) auto
        have rd: "fs_read (path_append F n) v = fs_read (path_append ?S n) w1" for n
          using mv [of "CHR ''/'' # n"] by (simp add: fs_read_def path_append_plain [OF S] path_append_plain [OF pF] in_tree_def)
        from rd d(2) have dv: "fs_read (path_append F ?D) v = Some data" by simp
        from rd d have cd: "ReadDirectorySnapshot F v = Inr (published_meta root i t now data)" "tidy F v"
          using complete_directory [OF root F, of v data t now] by auto
        from new [OF d(1) dv cd] finish_effect [OF ok(2) inp(1)] show ?thesis
          by (simp add: published_meta_def d(3) F)
      qed
    qed
  qed
qed

text \<open>The steps of a save before it looks at the final directory.\<close>

definition prepare_root :: "string \<Rightarrow> fs \<Rightarrow> (string + unit) \<times> fs" where
  "prepare_root root w0 =
     io_then (on_error (\<lambda>ec. ''create snapshot dir failed: '' @ ec) (fs_create_directories root w0)) (\<lambda>_ w.
     io_then (Snapshot_sync_parent root w) (\<lambda>_ w. Snapshot_SyncDirectory root w))"

lemma io_then_assoc: "io_then (io_then x f) g = io_then x (\<lambda>a w. io_then (f a w) g)"
  by (simp add: io_then_def split: prod.split sum.split)

lemma Save_prepared:
  "input \<noteq> [] \<Longrightarrow> SaveSnapshotFile fp now root input i t w = io_then (prepare_root root w) (\<lambda>_ w.
     case (if fs_exists (snapshot_dir_of root i) w then ReadDirectorySnapshot (snapshot_dir_of root i) w else Inl []) of
       Inr existing \<Rightarrow>
         if last_included_term existing \<noteq> t
         then (Inl (''existing snapshot has same index but different term: '' @ snapshot_dir_of root i), w)
         else (Inr existing, snd (fs_remove input w))
     | Inl _ \<Rightarrow> stage_and_publish fp now root input i t w)"
  unfolding SaveSnapshotFile_def prepare_root_def io_then_assoc Let_def by (simp only: if_False)

lemma prepare_root_ok:
  assumes "prepare_root root w = (Inr (), u)" and "fs_read q u = Some x"
  shows "fs_read q w = Some x"
proof -
  from assms(1) obtain v where c: "fs_create_directories root w = (Inr (), v)" and u: "\<And>p. fs_lookup p u = fs_lookup p v"
    by (auto simp: prepare_root_def io_ok_iff sync_lookup)
  from c have "fs_lookup q v = fs_lookup q w \<or> fs_lookup q v = Some FDir"
    using fs_restart_simps(3) [of q v]
    by (cases rule: fs_create_directories_cases) (auto simp: fold_put_lookup split: if_splits)
  with u [of q] assms(2) show ?thesis by (auto simp: fs_read_def)
qed

lemma valid_directory_exists:
  assumes "plain_dir D" and "fs_wf w" and "ReadDirectorySnapshot D w = Inr m"
  shows "fs_exists D w"
proof -
  from assms(3) have "fs_lookup (path_append D kSnapshotMetaFileName) w \<noteq> None"
    by (auto simp: ReadDirectory_iff fs_read_def split: option.splits)
  moreover have "under D (path_append D kSnapshotMetaFileName)" by (simp add: path_append_plain [OF assms(1)])
  ultimately have "fs_lookup D w = Some FDir" using fs_wf_above [OF assms(2)] assms(1) plain_dir_def by blast
  then show ?thesis by (simp add: fs_exists_def)
qed

lemma Save_cases:
  assumes root: "plain_dir root" and F: "F = snapshot_dir_of root i"
    and inp: "\<not> in_tree F input" "\<not> in_tree (staging_dir_of root i now) input"
    and wf: "fs_wf w" and td: "tidy F w" and run: "SaveSnapshotFile fp now root input i t w = (r, w')"
  obtains (kept) "\<And>q. in_tree F q \<Longrightarrow> fs_lookup q w' = fs_lookup q w"
      "\<And>m. r = Inr m \<Longrightarrow> ReadDirectorySnapshot F w = Inr m \<and> last_included_term m = t"
    | (old) e where "r = Inl e" "shrunk F w w'" "\<And>m. ReadDirectorySnapshot F w \<noteq> Inr m"
    | (new) v data where "fs_read input w = Some data" "fs_read (path_append F kSnapshotDataFileName) v = Some data"
        "ReadDirectorySnapshot F v = Inr (published_meta root i t now data)" "tidy F v" "shrunk F v w'"
        "\<And>m. ReadDirectorySnapshot F w \<noteq> Inr m"
        "\<And>m. r = Inr m \<Longrightarrow> m = published_meta root i t now data \<and> (\<forall>q. in_tree F q \<longrightarrow> fs_lookup q w' = fs_lookup q v)"
proof (cases "input = []")
  case True
  with run kept show ?thesis by (auto simp: SaveSnapshotFile_def)
next
  case False
  have pF: "plain_dir F" using plain_snapshot_dirs [OF root] F by simp
  have pk: "framed (in_tree F) (prepare_root root)" unfolding prepare_root_def [abs_def]
    by (intro framed_rules) (use snapshot_trees(4) [OF root] F in blast)
  from run [unfolded Save_prepared [OF False] F [symmetric]] show ?thesis
  proof (cases rule: io_then_cases)
    case (failed e)
    with framedD [OF pk failed(1) wf] kept show ?thesis by simp
  next
    case (ok a u)
    then have u: "fs_wf u" "\<And>q. in_tree F q \<Longrightarrow> fs_lookup q u = fs_lookup q w" using framedD [OF pk ok(1) wf] by auto
    have rd: "ReadDirectorySnapshot F u = Inr m \<longleftrightarrow> ReadDirectorySnapshot F w = Inr m" for m
      using ReadDirectory_same [OF pF td, of u m] ReadDirectory_shrunk [OF pF td, of u m] u(2) by auto
    show ?thesis
    proof (cases "\<exists>m. ReadDirectorySnapshot F w = Inr m")
      case True
      then obtain m where m: "ReadDirectorySnapshot F w = Inr m" ..
      have "fs_lookup q (snd (fs_remove input u)) = fs_lookup q u" if "in_tree F q" for q
        using fs_lookup_remove_other [of q input u] that inp(1) by auto
      moreover from m rd have mu: "ReadDirectorySnapshot F u = Inr m" by simp
      ultimately show ?thesis using ok(2) m u(2) valid_directory_exists [OF pF u(1) mu]
        by (intro kept) (auto split: if_splits)
    next
      case False
      with rd have no: "\<And>m. ReadDirectorySnapshot F w \<noteq> Inr m" "\<And>m. ReadDirectorySnapshot F u \<noteq> Inr m" by auto
      then have "stage_and_publish fp now root input i t u = (r, w')" using ok(2) by (auto split: sum.splits if_splits)
      with root F inp u(1) show ?thesis
      proof (cases rule: stage_and_publish_effect)
        case (old e)
        with no u(2) \<open>\<And>e. r = Inl e \<Longrightarrow> shrunk F w w' \<Longrightarrow> (\<And>m. ReadDirectorySnapshot F w \<noteq> Inr m) \<Longrightarrow> thesis\<close>
        show ?thesis by (simp add: shrunk_def)
      next
        case new: (new v data)
        show ?thesis by (rule that(3) [OF prepare_root_ok [OF _ new(1)] new(2-5) no(1) new(6)]) (use ok(1) in simp_all)
      qed
    qed
  qed
qed

lemma dir_index_own:
  assumes "plain_dir root" and "ReadDirectorySnapshot (snapshot_dir_of root i) w = Inr m"
  shows "last_included_index m = i"
proof -
  have fn: "filename (snapshot_dir_of root i) = kSnapshotPrefix @ FormatIndex i"
    using split_last_component(1) [OF snapshot_names(1) [of i], of root]
    by (simp add: snapshot_paths [OF assms(1)] snapshot_name_def kSnapshotPrefix_def FormatIndex_def string_of_u64_def)
  have "check_dir_index (snapshot_dir_of root i) (last_included_index m) = Inr ()"
    using assms(2) by (auto simp: ReadDirectory_iff)
  then show ?thesis by (simp add: check_dir_index_def StartsWith_def stoull_FormatIndex fn Let_def split: if_splits)
qed

lemma tidy_shrunk: "plain_dir D \<Longrightarrow> tidy D w \<Longrightarrow> shrunk D w w' \<Longrightarrow> tidy D w'"
  using in_tree_paths(1) [of D kSnapshotMetaFileName]
  by (auto simp: tidy_def shrunk_def fs_read_def split: option.splits)

text \<open>The snapshot directories of a root, and that none of them names a data file elsewhere.\<close>

definition snapshots_tidy :: "string \<Rightarrow> fs \<Rightarrow> bool" where
  "snapshots_tidy root w \<longleftrightarrow> (\<forall>j. tidy (snapshot_dir_of root j) w)"

lemma Save_own:
  assumes root: "plain_dir root" and F: "F = snapshot_dir_of root i" and td: "tidy F w" and wf: "fs_wf w"
    and inp: "\<not> in_tree F input" "\<not> in_tree (staging_dir_of root i now) input"
    and run: "SaveSnapshotFile fp now root input i t w = (r, w')"
  shows "ReadDirectorySnapshot F w = Inr m \<Longrightarrow> ReadDirectorySnapshot F w' = Inr m"
    and "ReadDirectorySnapshot F w' = Inr m \<Longrightarrow> ReadDirectorySnapshot F w = Inr m \<or>
      (\<exists>data. fs_read input w = Some data \<and> m = published_meta root i t now data \<and> fs_read (sm_snapshot_path m) w' = Some data)"
    and "r = Inr m \<Longrightarrow> ReadDirectorySnapshot F w' = Inr m \<and> last_included_index m = i \<and> last_included_term m = t"
    and "tidy F w'"
proof -
  have pF: "plain_dir F" using plain_snapshot_dirs [OF root] F by simp
  have sh: "ReadDirectorySnapshot F v = Inr m" if "shrunk F v w'" "tidy F v" "ReadDirectorySnapshot F w' = Inr m" for v m
    using ReadDirectory_shrunk [OF pF that(2) _ that(3)] that(1) by (simp add: shrunk_def)
  have "(ReadDirectorySnapshot F w = Inr m \<longrightarrow> ReadDirectorySnapshot F w' = Inr m) \<and>
    (ReadDirectorySnapshot F w' = Inr m \<longrightarrow> ReadDirectorySnapshot F w = Inr m \<or>
      (\<exists>data. fs_read input w = Some data \<and> m = published_meta root i t now data \<and> fs_read (sm_snapshot_path m) w' = Some data)) \<and>
    (r = Inr m \<longrightarrow> ReadDirectorySnapshot F w' = Inr m \<and> last_included_term m = t) \<and> tidy F w'"
    using root F inp wf td run
  proof (cases rule: Save_cases)
    case kept
    then have "shrunk F w w'" by (simp add: shrunk_def)
    with kept sh td ReadDirectory_same [OF pF td] tidy_shrunk [OF pF td] show ?thesis by blast
  next
    case (old e)
    with sh [OF old(2) td] tidy_shrunk [OF pF td] show ?thesis by auto
  next
    case (new v data)
    note m = sh [OF new(5,4)]
    have "fs_read (path_append F kSnapshotDataFileName) w' = Some data" if "ReadDirectorySnapshot F w' = Inr m"
    proof -
      have "sm_snapshot_path m = path_append F kSnapshotDataFileName" using m [OF that] new(3) by (simp add: published_meta_def F)
      with that obtain x where x: "fs_read (path_append F kSnapshotDataFileName) w' = Some x"
        by (auto simp: ReadDirectory_iff)
      have "fs_lookup (path_append F kSnapshotDataFileName) w' = fs_lookup (path_append F kSnapshotDataFileName) v
          \<or> fs_lookup (path_append F kSnapshotDataFileName) w' = None"
        using new(5) in_tree_paths(1) [OF pF] by (simp add: shrunk_def)
      with new(2) x show ?thesis by (auto simp: fs_read_def)
    qed
    with m new ReadDirectory_same [OF pF new(4) _ new(3)] tidy_shrunk [OF pF new(4,5)] show ?thesis
      by (auto simp: published_meta_def F)
  qed
  then show "ReadDirectorySnapshot F w = Inr m \<Longrightarrow> ReadDirectorySnapshot F w' = Inr m"
    and "ReadDirectorySnapshot F w' = Inr m \<Longrightarrow> ReadDirectorySnapshot F w = Inr m \<or>
      (\<exists>data. fs_read input w = Some data \<and> m = published_meta root i t now data \<and> fs_read (sm_snapshot_path m) w' = Some data)"
    and "r = Inr m \<Longrightarrow> ReadDirectorySnapshot F w' = Inr m \<and> last_included_index m = i \<and> last_included_term m = t"
    and "tidy F w'"
    using dir_index_own [OF root] F by auto
qed

lemma tidy_same: "plain_dir D \<Longrightarrow> tidy D w \<Longrightarrow> (\<And>q. in_tree D q \<Longrightarrow> fs_lookup q w' = fs_lookup q w) \<Longrightarrow> tidy D w'"
  by (rule tidy_shrunk [of D w]) (simp_all add: shrunk_def)

lemma Save_sibling:
  assumes root: "plain_dir root" and td: "tidy (snapshot_dir_of root j) w" and wf: "fs_wf w"
    and inp: "\<not> in_tree (snapshot_dir_of root j) input" and j: "j \<noteq> i"
    and run: "SaveSnapshotFile fp now root input i t w = (r, w')"
  shows "ReadDirectorySnapshot (snapshot_dir_of root j) w' = Inr m \<longleftrightarrow> ReadDirectorySnapshot (snapshot_dir_of root j) w = Inr m"
    and "tidy (snapshot_dir_of root j) w'"
proof -
  let ?D = "snapshot_dir_of root j"
  have "framed (in_tree ?D) (SaveSnapshotFile fp now root input i t)"
    by (rule Save_frame [OF root]) (use inp j snapshot_trees [OF root] in blast)
  from framedD [OF this run wf] have same: "\<And>q. in_tree ?D q \<Longrightarrow> fs_lookup q w' = fs_lookup q w" by blast
  note p = plain_snapshot_dirs(1) [OF root]
  from ReadDirectory_same [OF p td same] ReadDirectory_shrunk [OF p td, of w' m] same
  show "ReadDirectorySnapshot ?D w' = Inr m \<longleftrightarrow> ReadDirectorySnapshot ?D w = Inr m" by blast
  show "tidy ?D w'" by (rule tidy_same [OF p td same])
qed

lemma restart_view [simp]: "fs_read p (fs_restart w) = fs_read p w" "tidy D (fs_restart w) = tidy D w"
  by (simp_all add: fs_read_def tidy_def)

section \<open>A save without faults succeeds\<close>

lemma sync_quiet:
  "fs_quiet w \<Longrightarrow> fs_is_dir p w \<Longrightarrow> Snapshot_SyncDirectory p w = (Inr (), w)"
  "fs_quiet w \<Longrightarrow> fs_lookup p w = Some e \<Longrightarrow> Snapshot_SyncFile p w = (Inr (), w)"
  by (simp_all add: Snapshot_SyncDirectory_def Snapshot_SyncFile_def fs_exists_def)

lemma stage_quiet:
  assumes S: "S = root @ CHR ''/'' # n" "CHR ''/'' \<notin> set n" "n \<noteq> []" and q: "fs_quiet w"
    and dirs: "\<forall>a \<in> set (ancestors root). fs_lookup a w = Some FDir" and root: "plain_dir root"
    and inp: "fs_read input w = Some data" "data \<noteq> []" "\<not> in_tree S input"
  shows "\<exists>w'. stage_snapshot root input i t now S w =
           (Inr (foldl UpdateChecksum 2166136261 (chunks (64 * 1024) data)), w') \<and> fs_quiet w' \<and> fs_is_dir S w'"
proof -
  let ?D = "path_append S kSnapshotDataFileName" and ?M = "path_append S kSnapshotMetaFileName"
  have pS: "plain_dir S" using S(2) last_in_set [OF S(3)] S(3) by (auto simp: S(1) plain_dir_def simp del: last_in_set)
  have files: "?D = S @ CHR ''/'' # kSnapshotDataFileName" "?M = S @ CHR ''/'' # kSnapshotMetaFileName"
    by (simp_all add: path_append_plain [OF pS])
  have par: "parent_path ?D = S" "parent_path ?M = S"
    unfolding files by (rule split_last_component(2); simp add: kSnapshotDataFileName_def kSnapshotMetaFileName_def)+
  have dm: "?D \<noteq> ?M" "?D \<noteq> S" "?M \<noteq> S" "?M \<noteq> ?D"
    unfolding files by (simp_all add: kSnapshotDataFileName_def kSnapshotMetaFileName_def)
  let ?w1 = "fs_drop (\<lambda>q. q = S \<or> under S q) w"
  let ?w2 = "fold (\<lambda>a. fs_put a FDir) (ancestors S) ?w1"
  have anc: "ancestors S = S # ancestors root" unfolding S(1) by (rule ancestors_child [OF S(2)])
  have notin: "\<not> (a = S \<or> under S a)" if "a \<in> set (ancestors root)" for a
    using ancestors_shorter [OF that] under_longer [of S a] by (auto simp: S(1))
  have w2: "fs_lookup p ?w2 = (if p = S then Some FDir else if under S p then None else fs_lookup p w)" for p
    using dirs notin by (auto simp: fold_put_lookup fs_lookup_drop anc)
  have "fs_remove_all S w = (Inr (), ?w1)" by (rule fs_remove_all_quiet [OF q])
  moreover have "fs_create_directories S ?w1 = (Inr (), ?w2)"
    by (rule fs_create_directories_quiet) (use q dirs notin in \<open>auto simp: anc fs_lookup_drop\<close>)
  moreover have "Snapshot_SyncDirectory root ?w2 = (Inr (), ?w2)"
    by (rule sync_quiet) (use q dirs root w2 [of root] notin [of root] in \<open>auto simp: fs_is_dir_def ancestors_under plain_dir_def\<close>)
  moreover have "fs_read input ?w2 = Some data" using inp w2 [of input] by (auto simp: fs_read_def in_tree_def)
  moreover have u: "under S ?D" "under S ?M" by (simp_all add: files)
  have "fs_write ?D data ?w2 = (Inr (), fs_put ?D (FFile data) ?w2)"
    by (rule fs_write_quiet) (use q w2 par dm u in \<open>auto simp: fs_is_dir_def\<close>)
  moreover have "fs_write ?M c (fs_put ?D (FFile data) ?w2) = (Inr (), fs_put ?M (FFile c) (fs_put ?D (FFile data) ?w2))" for c
    by (rule fs_write_quiet) (use q w2 par dm u in \<open>auto simp: fs_is_dir_def\<close>)
  ultimately show ?thesis using inp(2) q w2 dm
    by (simp add: stage_snapshot_def or_remove_def CopyFilePortable_def Snapshot_WriteMeta_def sync_quiet
        ComputeFileChecksum_def fs_read_def fs_is_dir_def)
qed

lemma publish_quiet:
  assumes q: "fs_quiet w" and wf: "fs_wf w" and free: "fs_lookup F w = None" and S: "fs_is_dir S w"
    and F: "parent_path F = root" "F \<noteq> []" "\<not> under S F" and dirs: "fs_is_dir root w"
  shows "publish_snapshot root S F w = (Inr (), fs_move S F w)"
proof -
  have "fs_rename S F w = (Inr (), fs_move S F w)"
    by (rule fs_rename_quiet [OF q _ free fs_wf_below [OF wf _ F(2)]])
      (use S F dirs free in \<open>auto simp: fs_exists_def fs_is_dir_def\<close>)
  then show ?thesis using free by (simp add: publish_snapshot_def fs_exists_def or_remove_def)
qed

lemma prepare_quiet:
  assumes "plain_dir root" and "fs_quiet w" and "\<forall>a \<in> set (ancestors root). \<forall>x. fs_lookup a w \<noteq> Some (FFile x)"
  shows "prepare_root root w = (Inr (), fold (\<lambda>a. fs_put a FDir) (ancestors root) w)"
proof -
  let ?w = "fold (\<lambda>a. fs_put a FDir) (ancestors root) w"
  have d: "fs_is_dir a ?w" if "a \<in> set (ancestors root)" for a using that by (simp add: fs_is_dir_def fold_put_lookup)
  have "root \<in> set (ancestors root)" "parent_path root \<noteq> [] \<Longrightarrow> parent_path root \<in> set (ancestors root)"
    using assms(1) parent_of_child [of "parent_path root" root] by (auto simp: ancestors_under plain_dir_def)
  then show ?thesis using assms(2,3) d
    by (auto simp: prepare_root_def fs_create_directories_quiet Snapshot_sync_parent_def sync_quiet)
qed

lemma SaveSnapshot_quiet:
  assumes root: "plain_dir root" and q: "fs_quiet w" and wf: "fs_wf w"
    and anc: "\<forall>a \<in> set (ancestors root). \<forall>x. fs_lookup a w \<noteq> Some (FFile x)"
    and inp: "fs_read input w = Some data" "data \<noteq> []" "input \<noteq> []" "\<not> in_tree (staging_dir_of root i now) input"
    and free: "fs_lookup (snapshot_dir_of root i) w = None"
  shows "fst (SaveSnapshotFile snap_kNone now root input i t w) = Inr (published_meta root i t now data)"
proof -
  let ?F = "snapshot_dir_of root i" and ?S = "staging_dir_of root i now"
  let ?w = "fold (\<lambda>a. fs_put a FDir) (ancestors root) w"
  note p = snapshot_paths [OF root] and pd = plain_snapshot_dirs [OF root]
  have F: "?F \<notin> set (ancestors root)" using snapshot_trees(4) [OF root, of i ?F] by (auto simp: in_tree_def)
  have "input \<notin> set (ancestors root)" using anc inp(1) by (auto simp: fs_read_def split: option.splits fs_entry.splits)
  then have inw: "fs_read input ?w = Some data" using inp(1) by (simp add: fs_read_def fold_put_lookup)
  have dirs: "\<forall>a \<in> set (ancestors root). fs_lookup a ?w = Some FDir" by (simp add: fold_put_lookup)
  have "staging_name i now \<noteq> []" by (simp add: staging_name_def)
  from stage_quiet [OF p(2) snapshot_names(2) this _ dirs root inw inp(2,4), of i t now] q obtain u where
    st: "stage_snapshot root input i t now ?S ?w = (Inr (foldl UpdateChecksum 2166136261 (chunks (64 * 1024) data)), u)"
      and u: "fs_quiet u" "fs_is_dir ?S u" by auto
  have "framed (\<lambda>q. q = ?F) (stage_snapshot root input i t now ?S)"
    by (rule stage_frame [OF pd(2)]) (use snapshot_trees(3,5) [OF root, of i ?F] in \<open>auto simp: in_tree_def\<close>)
  from framedD [OF this st fs_wf_make_dirs [OF wf anc]] F free
  have uF: "fs_wf u" "fs_lookup ?F u = None" by (simp_all add: fold_put_lookup)
  have ur: "fs_is_dir root u" using fs_wf_above [OF uF(1), of ?S root] u(2) root
    by (auto simp: fs_is_dir_def p plain_dir_def)
  have par: "parent_path ?F = root" unfolding p by (rule split_last_component(2) [OF snapshot_names(1)])
  have apart: "\<not> under ?S ?F" using snapshot_trees(2) [OF root, of i now ?F i] by (auto simp: in_tree_def)
  from publish_quiet [OF u(1) uF u(2) par _ apart ur]
  have pub: "publish_snapshot root ?S ?F u = (Inr (), fs_move ?S ?F u)" by simp
  have below: "\<And>q. under ?F q \<Longrightarrow> fs_lookup q u = None"
    by (rule fs_wf_below [OF uF(1)]) (use uF(2) in \<open>simp_all add: fs_is_dir_def\<close>)
  from fs_lookup_move [OF below, where q = root and a = ?S] ur under_longer [of ?F root] under_longer [of ?S root]
  have "fs_is_dir root (fs_move ?S ?F u)" by (auto simp: fs_is_dir_def p)
  with u(1) have sy: "Snapshot_SyncDirectory root (fs_move ?S ?F u) = (Inr (), fs_move ?S ?F u)" by (simp add: sync_quiet)
  have "\<not> fs_exists ?F ?w" using F free by (simp add: fs_exists_def fold_put_lookup)
  then show ?thesis unfolding Save_prepared [OF inp(3)] prepare_quiet [OF root q anc]
    by (simp add: stage_and_publish_def Let_def st pub publish_failpoint_def sy published_meta_def)
qed

section \<open>The save is atomic\<close>


text \<open>A disk with the input file of a snapshot, for the runs below.\<close>

definition input_disk :: fs where
  "input_disk = \<lparr>fs_entries = [(''i'', FFile ''kv'')], fs_faults = [], fs_crashed = False\<rparr>"

lemma input_disk_lookup: "fs_lookup p input_disk = (if p = ''i'' then Some (FFile ''kv'') else None)"
  by (simp add: input_disk_def fs_lookup_def)

lemma input_disk_facts: "fs_wf input_disk" "snapshots_tidy ''s'' input_disk" "fs_quiet input_disk"
proof -
  show "fs_quiet input_disk" by (simp add: fs_quiet_def input_disk_def)
  note l = input_disk_lookup
  have d: "fs_distinct input_disk" by (simp add: fs_distinct_def input_disk_def)
  show "fs_wf input_disk" by (rule fs_wfI [OF d]) (auto simp: l dest: under_longer split: if_splits)
  have "fs_read (path_append (snapshot_dir_of ''s'' j) kSnapshotMetaFileName) input_disk = None" for j
    by (simp add: fs_read_def l path_append_def kSnapshotMetaFileName_def)
  then show "snapshots_tidy ''s'' input_disk" by (simp add: snapshots_tidy_def tidy_def)
qed

lemma input_disk_run:
  "plain_dir ''s''" "\<not> in_tree (snapshot_dir_of ''s'' j) ''i''" "\<not> in_tree (staging_dir_of ''s'' j ms) ''i''"
  "fst (SaveSnapshotFile snap_kNone 7 ''s'' ''i'' 3 2 input_disk) = Inr (published_meta ''s'' 3 2 7 ''kv'')"
proof -
  show p: "plain_dir ''s''" by (simp add: plain_dir_def)
  show out: "\<not> in_tree (snapshot_dir_of ''s'' j) ''i''" "\<not> in_tree (staging_dir_of ''s'' j ms) ''i''" for j ms
    by (simp_all add: in_tree_def under_def snapshot_paths p)
  show "fst (SaveSnapshotFile snap_kNone 7 ''s'' ''i'' 3 2 input_disk) = Inr (published_meta ''s'' 3 2 7 ''kv'')"
    by (rule SaveSnapshot_quiet) (use input_disk_facts out p in \<open>auto simp: input_disk_lookup fs_read_def
      ancestors_under under_iff snapshot_paths\<close>)
qed


text \<open>The same disk after a save, with one valid snapshot.\<close>

definition snapshot_disk :: fs where
  "snapshot_disk = snd (SaveSnapshotFile snap_kNone 7 ''s'' ''i'' 3 2 input_disk)"

lemma snapshot_disk_facts:
  "ReadDirectorySnapshot (snapshot_dir_of ''s'' 3) snapshot_disk = Inr (published_meta ''s'' 3 2 7 ''kv'')"
  "fs_wf snapshot_disk" "snapshots_tidy ''s'' snapshot_disk"
proof -
  have run: "SaveSnapshotFile snap_kNone 7 ''s'' ''i'' 3 2 input_disk = (Inr (published_meta ''s'' 3 2 7 ''kv''), snapshot_disk)"
    unfolding snapshot_disk_def using input_disk_run(4) by (metis prod.collapse)
  have td: "tidy (snapshot_dir_of ''s'' j) input_disk" for j using input_disk_facts(2) by (simp add: snapshots_tidy_def)
  note own = Save_own [OF input_disk_run(1) refl td input_disk_facts(1) input_disk_run(2,3) run]
  from own(3) show "ReadDirectorySnapshot (snapshot_dir_of ''s'' 3) snapshot_disk = Inr (published_meta ''s'' 3 2 7 ''kv'')" by simp
  have "framed (\<lambda>_. False) (SaveSnapshotFile snap_kNone 7 ''s'' ''i'' 3 2)" by (rule Save_frame [OF input_disk_run(1)]) simp
  from framedD [OF this run input_disk_facts(1)] show "fs_wf snapshot_disk" by simp
  have "tidy (snapshot_dir_of ''s'' j) snapshot_disk" for j
    using own(4) Save_sibling(2) [OF input_disk_run(1) td input_disk_facts(1) input_disk_run(2) _ run] by (cases "j = 3") auto
  then show "snapshots_tidy ''s'' snapshot_disk" by (simp add: snapshots_tidy_def)
qed

end
