(* ===== verification/SnapshotCatalog.thy ===== *)
theory SnapshotCatalog
  imports SnapshotRecovery "HOL-Library.Multiset"
begin

text \<open>
  Listing, choosing and pruning snapshots: the list is sorted newest first and holds exactly the entries
  that validate, the latest snapshot is a newest one, and pruning keeps the newest snapshots under any faults.
\<close>

section \<open>Order\<close>

lemma newer_iff:
  "newer a b \<longleftrightarrow> last_included_index a > last_included_index b
     \<or> last_included_index a = last_included_index b \<and> created_unix_ms a > created_unix_ms b"
  by (auto simp: newer_def)

lemma not_newer_trans: "\<not> newer b a \<Longrightarrow> \<not> newer c b \<Longrightarrow> \<not> newer c a"
  by (auto simp: newer_iff)

lemma mset_insert_newer [simp]: "mset (insert_newer m xs) = add_mset m (mset xs)"
  by (induction xs) auto

lemma set_insert_newer [simp]: "set (insert_newer m xs) = insert m (set xs)"
  by (metis mset_insert_newer set_mset_mset set_mset_add_mset_insert)

lemma sorted_insert_newer:
  "sorted_wrt (\<lambda>a b. \<not> newer b a) xs \<Longrightarrow> sorted_wrt (\<lambda>a b. \<not> newer b a) (insert_newer m xs)"
proof (induction xs)
  case (Cons x xs)
  have "\<not> newer y m" if "\<not> newer x m" "y \<in> set xs" for y
    using Cons.prems that not_newer_trans [of x m y] by auto
  moreover have "\<not> newer m x" if "newer x m" using that by (auto simp: newer_iff)
  ultimately show ?case using Cons by auto
qed simp

lemma sort_snapshots_sorted: "sorted_wrt (\<lambda>a b. \<not> newer b a) (sort_snapshots ms)"
  unfolding sort_snapshots_def by (induction ms) (simp_all add: sorted_insert_newer)

lemma mset_sort_snapshots: "mset (sort_snapshots ms) = mset ms"
  unfolding sort_snapshots_def by (induction ms) simp_all

lemma set_sort_snapshots [simp]: "set (sort_snapshots ms) = set ms"
  using mset_sort_snapshots [of ms] by (metis set_mset_mset)

section \<open>What a list holds\<close>

text \<open>The snapshot at an entry of the root directory, if it validates.\<close>

definition entry_snapshot :: "fs \<Rightarrow> string \<Rightarrow> SnapshotMeta option" where
  "entry_snapshot w p = (case inspect_entry w p of Some (Inr m) \<Rightarrow> Some m | _ \<Rightarrow> None)"

lemma map_filter_twice:
  "List.map_filter g (List.map_filter f xs) = List.map_filter (\<lambda>x. case f x of None \<Rightarrow> None | Some y \<Rightarrow> g y) xs"
  by (induction xs) (simp_all add: List.map_filter_def split: option.split)

lemma List_result:
  "ListSnapshotsWithDiagnostics root w = (Inr r, w') \<Longrightarrow> fs_exists root w \<Longrightarrow>
     w' = w \<and> snapshots r = sort_snapshots (List.map_filter (entry_snapshot w) (fs_list root w))"
proof -
  have "(\<lambda>p. case inspect_entry w p of None \<Rightarrow> None | Some y \<Rightarrow> (case y of Inr m \<Rightarrow> Some m | _ \<Rightarrow> None)) = entry_snapshot w"
    by (auto simp: entry_snapshot_def fun_eq_iff split: option.split sum.split)
  then show "ListSnapshotsWithDiagnostics root w = (Inr r, w') \<Longrightarrow> fs_exists root w \<Longrightarrow>
     w' = w \<and> snapshots r = sort_snapshots (List.map_filter (entry_snapshot w) (fs_list root w))"
    by (auto simp: ListSnapshotsWithDiagnostics_def map_filter_twice Let_def)
qed

lemma set_map_filter: "m \<in> set (List.map_filter f xs) \<longleftrightarrow> (\<exists>x \<in> set xs. f x = Some m)"
  by (force simp: List.map_filter_def)

lemma in_fs_list: "q \<in> set (fs_list d w) \<longleftrightarrow> fs_lookup q w \<noteq> None \<and> parent_path q = d"
  by (auto simp: fs_list_def fs_lookup_def map_of_eq_None_iff)

lemma valid_directory_listed:
  assumes root: "plain_dir root" and wf: "fs_wf w" and r: "ReadDirectorySnapshot (snapshot_dir_of root i) w = Inr m"
  shows "snapshot_dir_of root i \<in> set (fs_list root w)" and "entry_snapshot w (snapshot_dir_of root i) = Some m"
    and "fs_exists root w"
proof -
  let ?D = "snapshot_dir_of root i"
  have u: "under ?D (path_append ?D kSnapshotMetaFileName)"
    by (rule in_tree_paths(2) [OF plain_snapshot_dirs(1) [OF root]])
  have f: "fs_lookup (path_append ?D kSnapshotMetaFileName) w \<noteq> None"
    using r by (auto simp: ReadDirectory_iff fs_read_def split: option.splits)
  with u have d: "fs_lookup ?D w = Some FDir" using fs_wf_above [OF wf] by simp
  moreover have nm: "parent_path ?D = root" "filename ?D = snapshot_name i"
    unfolding snapshot_paths [OF root] using split_last_component [OF snapshot_names(1)] by simp_all
  ultimately show "?D \<in> set (fs_list root w)" by (simp add: in_fs_list)
  have "StartsWith (snapshot_name i) kSnapshotPrefix" "\<not> StartsWith (snapshot_name i) kSnapshotStagingPrefix"
    by (simp_all add: StartsWith_def snapshot_name_def kSnapshotPrefix_def kSnapshotStagingPrefix_def)
  with d nm r show "entry_snapshot w ?D = Some m"
    by (simp add: entry_snapshot_def inspect_entry_def fs_is_dir_def Let_def)
  have "under root ?D" by (simp add: snapshot_paths [OF root])
  with d fs_wf_above [OF wf, of ?D root] root show "fs_exists root w" by (auto simp: fs_exists_def plain_dir_def)
qed

section \<open>Listing and choosing\<close>

text \<open>
  C38. The list of snapshots holds the validating entries of the root directory, each as often as it is
  there, sorted by index and creation time, newest first; every snapshot directory that validates is in
  it. The latest valid snapshot is one of them and none has a higher index; there is none exactly when no
  entry validates. Neither operation changes the disk.
\<close>

theorem latest_snapshot_is_newest:
  assumes "plain_dir root" and "fs_wf w" and "fs_exists root w"
  shows "\<exists>l issues. ListSnapshotsWithDiagnostics root w = (Inr \<lparr>snapshots = l, validation_issues = issues\<rparr>, w)
    \<and> mset l = mset (List.map_filter (entry_snapshot w) (fs_list root w))
    \<and> sorted_wrt (\<lambda>a b. \<not> newer b a) l
    \<and> (\<forall>i m. ReadDirectorySnapshot (snapshot_dir_of root i) w = Inr m \<longrightarrow> m \<in> set l)
    \<and> ListSnapshots root w = (Inr l, w)
    \<and> (case fst (LoadLatestValidSnapshot root w) of
         Inr (Some m) \<Rightarrow> m \<in> set l \<and> (\<forall>m' \<in> set l. last_included_index m' \<le> last_included_index m)
       | Inr None \<Rightarrow> l = [] | Inl _ \<Rightarrow> False)"
proof -
  obtain r where run: "ListSnapshotsWithDiagnostics root w = (Inr r, w)"
    by (auto simp: ListSnapshotsWithDiagnostics_def Let_def)
  let ?l = "snapshots r"
  have l: "?l = sort_snapshots (List.map_filter (entry_snapshot w) (fs_list root w))"
    using List_result [OF run assms(3)] by simp
  have s: "sorted_wrt (\<lambda>a b. \<not> newer b a) ?l" unfolding l by (rule sort_snapshots_sorted)
  have v: "m \<in> set ?l" if "ReadDirectorySnapshot (snapshot_dir_of root i) w = Inr m" for i m
    unfolding l using valid_directory_listed(1,2) [OF assms(1,2) that] by (auto simp: set_map_filter)
  have "\<forall>m' \<in> set ?l. last_included_index m' \<le> last_included_index m" if "?l = m # rest" for m rest
    using s by (auto simp: that newer_iff not_less)
  then have "case fst (LoadLatestValidSnapshot root w) of
         Inr (Some m) \<Rightarrow> m \<in> set ?l \<and> (\<forall>m' \<in> set ?l. last_included_index m' \<le> last_included_index m)
       | Inr None \<Rightarrow> ?l = [] | Inl _ \<Rightarrow> False"
    by (cases ?l) (auto simp: LoadLatestValidSnapshot_def run)
  with run s v mset_sort_snapshots [of "List.map_filter (entry_snapshot w) (fs_list root w)"] show ?thesis
    by (intro exI [of _ ?l] exI [of _ "validation_issues r"]) (simp add: l [symmetric] ListSnapshots_def)
qed

theorem latest_snapshot_is_newest_witness:
  "\<exists>l. ListSnapshots ''s'' snapshot_disk = (Inr l, snapshot_disk) \<and> published_meta ''s'' 3 2 7 ''kv'' \<in> set l"
  using latest_snapshot_is_newest [OF input_disk_run(1) snapshot_disk_facts(2)
      valid_directory_listed(3) [OF input_disk_run(1) snapshot_disk_facts(2,1)]] snapshot_disk_facts(1)
  by blast

section \<open>Pruning\<close>

lemma filename_no_slash: "CHR ''/'' \<notin> set (filename p)"
  unfolding filename_def using set_takeWhileD [of "CHR ''/''" "\<lambda>c. c \<noteq> CHR ''/''" "rev p"] by auto

lemma entry_snapshot_dir:
  assumes "entry_snapshot w p = Some m" and "p \<in> set (fs_list root w)" and "plain_dir root"
  shows "sm_snapshot_dir m \<noteq> [] \<Longrightarrow> sm_snapshot_dir m = p \<and> ReadDirectorySnapshot p w = Inr m \<and> plain_dir p"
    and "sm_snapshot_dir m = [] \<Longrightarrow> parent_path (sm_snapshot_path m) = root \<and> parent_path (sm_meta_path m) = root"
proof -
  have par: "parent_path p = root" and p: "p = root @ CHR ''/'' # filename p"
    using assms(2,3) parent_path_decompose [of p root] by (auto simp: in_fs_list plain_dir_def)
  consider (d) "ReadDirectorySnapshot p w = Inr m" "StartsWith (filename p) kSnapshotPrefix" | (l) "ReadLegacyFlatSnapshot p w = Inr m"
    using assms(1) by (auto simp: entry_snapshot_def inspect_entry_def Let_def split: option.splits sum.splits if_splits)
  then have "(sm_snapshot_dir m \<noteq> [] \<longrightarrow> sm_snapshot_dir m = p \<and> ReadDirectorySnapshot p w = Inr m \<and> plain_dir p) \<and>
    (sm_snapshot_dir m = [] \<longrightarrow> parent_path (sm_snapshot_path m) = root \<and> parent_path (sm_meta_path m) = root)"
  proof cases
    case d
    then have "filename p \<noteq> []" by (auto simp: StartsWith_def kSnapshotPrefix_def)
    with filename_no_slash [of p] last_in_set [of "filename p"] have "last (filename p) \<noteq> CHR ''/''" by metis
    with \<open>filename p \<noteq> []\<close> have "plain_dir p" by (subst p) (simp add: plain_dir_def)
    with d show ?thesis by (auto simp: ReadDirectory_iff plain_dir_def)
  next
    case l
    have "CHR ''/'' \<notin> set (stem (filename p) @ ''.bin'')"
      using filename_no_slash [of p] by (auto simp: stem_def dest: in_set_takeD)
    from split_last_component(2) [OF this, of root]
    have "parent_path (path_append root (stem (filename p) @ ''.bin'')) = root" by (simp add: path_append_plain assms(3))
    with l par show ?thesis
      by (auto simp: ReadLegacyFlatSnapshot_def res_then_def Let_def split: option.splits sum.splits if_splits prod.splits)
  qed
  then show "sm_snapshot_dir m \<noteq> [] \<Longrightarrow> sm_snapshot_dir m = p \<and> ReadDirectorySnapshot p w = Inr m \<and> plain_dir p"
    and "sm_snapshot_dir m = [] \<Longrightarrow> parent_path (sm_snapshot_path m) = root \<and> parent_path (sm_meta_path m) = root"
    by blast+
qed

text \<open>No two listed snapshots share a directory.\<close>

lemma listed_dirs_distinct:
  assumes "plain_dir root" and "fs_wf w"
  shows "distinct (map sm_snapshot_dir (filter (\<lambda>m. sm_snapshot_dir m \<noteq> [])
           (sort_snapshots (List.map_filter (entry_snapshot w) (fs_list root w)))))"
proof -
  have "distinct (map sm_snapshot_dir (filter (\<lambda>m. sm_snapshot_dir m \<noteq> []) (List.map_filter (entry_snapshot w) ps)))"
    if "distinct ps" "set ps \<subseteq> set (fs_list root w)" for ps
    using that
  proof (induction ps)
    case (Cons p ps)
    have "sm_snapshot_dir m \<noteq> p" if "m \<in> set (List.map_filter (entry_snapshot w) ps)" for m
    proof
      assume e: "sm_snapshot_dir m = p"
      from that obtain q where q: "q \<in> set ps" "entry_snapshot w q = Some m" by (auto simp: set_map_filter)
      with Cons.prems entry_snapshot_dir(1) [OF q(2) _ assms(1)] e fs_list_nonempty [of root p w] assms(1)
      show False by (auto simp: plain_dir_def)
    qed
    moreover have "sm_snapshot_dir m = p" if "entry_snapshot w p = Some m" "sm_snapshot_dir m \<noteq> []" for m
      using entry_snapshot_dir(1) [OF that(1) _ assms(1) that(2)] Cons.prems(2) by simp
    ultimately show ?case using Cons by (auto simp: List.map_filter_simps split: option.splits)
  qed (simp add: List.map_filter_def)
  moreover have "distinct (fs_list root w)"
    using fs_wf_distinct [OF assms(2)] by (simp add: fs_list_def fs_distinct_def)
  ultimately have d: "distinct (map sm_snapshot_dir (filter (\<lambda>m. sm_snapshot_dir m \<noteq> [])
      (List.map_filter (entry_snapshot w) (fs_list root w))))" by simp
  have "mset (map sm_snapshot_dir (filter P (sort_snapshots ms))) = mset (map sm_snapshot_dir (filter P ms))" for P ms
    by (simp add: mset_sort_snapshots mset_filter)
  from mset_eq_imp_distinct_iff [OF this] d show ?thesis by blast
qed

lemma prune_each_frame:
  assumes "\<And>m q. m \<in> set ms \<Longrightarrow> sm_snapshot_dir m \<noteq> [] \<Longrightarrow> K q \<Longrightarrow> \<not> in_tree (sm_snapshot_dir m) q"
    and "\<And>m q. m \<in> set ms \<Longrightarrow> sm_snapshot_dir m = [] \<Longrightarrow> K q \<Longrightarrow> q \<noteq> sm_snapshot_path m \<and> q \<noteq> sm_meta_path m"
    and "\<And>m. m \<in> set ms \<Longrightarrow> sm_snapshot_dir m = [] \<Longrightarrow> sm_snapshot_path m \<noteq> [] \<and> sm_meta_path m \<noteq> []"
  shows "framed K (prune_each fp ms)"
  using assms
proof (induction ms)
  case (Cons m ms)
  then have ih: "framed K (prune_each fp ms)" by simp
  show ?case
  proof (cases "sm_snapshot_dir m = []")
    case True
    then show ?thesis unfolding prune_each.simps
      by (simp only: simp_thms if_False) (intro framed_rules ih; use Cons.prems True in simp)
  next
    case False
    then show ?thesis unfolding prune_each.simps
      by (simp only: simp_thms if_True) (intro framed_rules ih; use Cons.prems False in \<open>simp add: in_tree_def\<close>)
  qed
qed (simp add: framed_def)

lemma prune_each_removes:
  assumes "prune_each fp ms w = (Inr (), w')"
  shows "(\<forall>q. fs_lookup q w = None \<longrightarrow> fs_lookup q w' = None) \<and>
    (\<forall>m \<in> set ms. sm_snapshot_dir m \<noteq> [] \<longrightarrow> fs_lookup (sm_snapshot_dir m) w' = None)"
  using assms
proof (induction ms arbitrary: w)
  case (Cons m ms)
  have rm: "fs_lookup q u = None \<Longrightarrow> fs_lookup q v = None" if "fs_remove p u = (x, v)" for p q u v x
    using fs_lookup_remove [of p u] fs_lookup_remove_other [of q p u] that by (cases "q = p") auto
  have ra: "fs_lookup p v = None" if "fs_remove_all p u = (Inr (), v)" for p u v
    using that fs_restart_simps(3) [of p v] by (cases rule: fs_remove_all_cases) (auto simp: fs_lookup_drop)
  show ?case
  proof (cases "sm_snapshot_dir m = []")
    case True
    with Cons.prems obtain u v where "fs_remove (sm_snapshot_path m) w = (Inr (), u)" "fs_remove (sm_meta_path m) u = (Inr (), v)"
      "prune_each fp ms v = (Inr (), w')" by (auto simp: io_ok_iff)
    with Cons.IH [of v] rm True show ?thesis by (metis set_ConsD)
  next
    case False
    with Cons.prems obtain u where u: "fs_remove_all (sm_snapshot_dir m) w = (Inr (), u)" "prune_each fp ms u = (Inr (), w')"
      by (auto simp: io_ok_iff split: if_splits)
    with Cons.IH [OF u(2)] ra [OF u(1)] remove_all_lookup [OF u(1)] show ?thesis by (metis set_ConsD)
  qed
qed simp

lemma prune_keeps_directory:
  assumes root: "plain_dir root" and wf: "fs_wf w"
    and l: "l = sort_snapshots (List.map_filter (entry_snapshot w) (fs_list root w))"
    and m: "m \<in> set (take k l)" "sm_snapshot_dir m \<noteq> []"
  shows "framed (under (sm_snapshot_dir m)) (prune_each fp (drop k l))"
proof -
  let ?D = "sm_snapshot_dir m"
  have entry: "\<exists>p \<in> set (fs_list root w). entry_snapshot w p = Some x" if "x \<in> set l" for x
    using that by (simp add: l set_map_filter)
  have child: "x = root @ CHR ''/'' # filename x" if "parent_path x = root" for x
    using that parent_path_decompose [of x root] root by (simp add: plain_dir_def)
  have listed: "parent_path (sm_snapshot_dir x) = root" if "x \<in> set l" "sm_snapshot_dir x \<noteq> []" for x
    using entry [OF that(1)] entry_snapshot_dir(1) [OF _ _ root that(2)] by (auto simp: in_fs_list)
  have "m \<in> set l" using m(1) by (auto dest: in_set_takeD)
  note D = listed [OF this m(2)]
  have deep: "parent_path q \<noteq> root" if "under ?D q" for q
  proof
    assume "parent_path q = root"
    with under_parent [OF that] have "?D = root \<or> under ?D root" by simp
    moreover have "length root < length ?D" by (subst child [OF D]) simp
    ultimately show False using under_longer [of ?D root] by auto
  qed
  have dist: "distinct (map sm_snapshot_dir (filter (\<lambda>m. sm_snapshot_dir m \<noteq> []) (take k l @ drop k l)))"
    using listed_dirs_distinct [OF root wf] by (simp add: l)
  show ?thesis
  proof (rule prune_each_frame)
    fix x q assume x: "x \<in> set (drop k l)" "sm_snapshot_dir x \<noteq> []" and q: "under ?D q"
    from x(1) have "x \<in> set l" by (auto dest: in_set_dropD)
    note X = listed [OF this x(2)]
    have "sm_snapshot_dir x \<noteq> ?D" using dist x m unfolding filter_append map_append distinct_append by force
    then have "filename ?D \<noteq> filename (sm_snapshot_dir x)" using child [OF X] child [OF D] by metis
    from sibling_trees [OF filename_no_slash filename_no_slash this, of root q] q child [OF X] child [OF D]
    show "\<not> in_tree (sm_snapshot_dir x) q" by (metis in_treeI)
  next
    fix x q assume x: "x \<in> set (drop k l)" "sm_snapshot_dir x = []" and q: "under ?D q"
    from x(1) have "x \<in> set l" by (auto dest: in_set_dropD)
    from entry [OF this] entry_snapshot_dir(2) [OF _ _ root x(2)] deep [OF q]
    show "q \<noteq> sm_snapshot_path x \<and> q \<noteq> sm_meta_path x" by blast
  next
    fix x assume x: "x \<in> set (drop k l)" "sm_snapshot_dir x = []"
    from x(1) have "x \<in> set l" by (auto dest: in_set_dropD)
    from entry [OF this] entry_snapshot_dir(2) [OF _ _ root x(2)] root
    show "sm_snapshot_path x \<noteq> [] \<and> sm_meta_path x \<noteq> []" by (auto simp: plain_dir_def parent_path_def)
  qed
qed

text \<open>
  C39. Pruning to the newest snapshots under any sequence of i/o errors and crashes, and at the failpoint: of the
  first max(1, max keep) snapshots of the list, every snapshot directory validates after a restart with the same meta
  data. When pruning reports success, the directories of the remaining ones are gone.
\<close>

theorem prune_keeps_newest:
  assumes "plain_dir root" and "fs_wf w" and "fs_exists root w" and "\<forall>p. parent_path p = root \<longrightarrow> tidy p w"
    and "ListSnapshots root w = (Inr l, w)" and "PruneSnapshots fp root max_keep w = (r, w')"
  shows "(\<forall>m \<in> set (take (max 1 max_keep) l). sm_snapshot_dir m \<noteq> [] \<longrightarrow>
            ReadDirectorySnapshot (sm_snapshot_dir m) (fs_restart w') = Inr m)
    \<and> (r = Inr () \<longrightarrow> (\<forall>m \<in> set (drop (max 1 max_keep) l). sm_snapshot_dir m \<noteq> [] \<longrightarrow>
            fs_lookup (sm_snapshot_dir m) (fs_restart w') = None))"
proof -
  let ?k = "max 1 max_keep"
  have l: "l = sort_snapshots (List.map_filter (entry_snapshot w) (fs_list root w))"
    using assms(5) List_result [OF _ assms(3)] by (auto simp: ListSnapshots_def io_ok_iff)
  have k: "(if max_keep = 0 then 1 else max_keep) = ?k" by simp
  have run: "(if length l \<le> ?k then (Inr (), w) else
      io_then (prune_each fp (drop ?k l) w) (\<lambda>_ w. Snapshot_SyncDirectory root w)) = (r, w')"
    using assms(6) unfolding PruneSnapshots_def Let_def k assms(5) by simp
  have after: "\<exists>x u. prune_each fp (drop ?k l) w = (x, u) \<and> (\<forall>q. fs_lookup q w' = fs_lookup q u) \<and> (r = Inr () \<longrightarrow> x = Inr ())"
  proof (cases "length l \<le> ?k")
    case False
    then have "io_then (prune_each fp (drop ?k l) w) (\<lambda>_ w. Snapshot_SyncDirectory root w) = (r, w')" using run by simp
    then show ?thesis by (cases rule: io_then_cases) (auto dest: sync_lookup(2))
  qed (use run in auto)
  then obtain x u where u: "prune_each fp (drop ?k l) w = (x, u)" "\<And>q. fs_lookup q w' = fs_lookup q u" "r = Inr () \<Longrightarrow> x = Inr ()" by blast
  have "ReadDirectorySnapshot (sm_snapshot_dir m) w' = Inr m" if m: "m \<in> set (take ?k l)" "sm_snapshot_dir m \<noteq> []" for m
  proof -
    from m(1) have "m \<in> set l" by (auto dest: in_set_takeD)
    then obtain p where p: "p \<in> set (fs_list root w)" "entry_snapshot w p = Some m" by (auto simp: l set_map_filter)
    note d = entry_snapshot_dir(1) [OF p(2,1) assms(1) m(2)]
    have "tidy p w" using p(1) assms(4) by (simp add: in_fs_list)
    with d framedD [OF prune_keeps_directory [OF assms(1,2) l m, of fp] u(1) assms(2)] u(2)
    show ?thesis using ReadDirectory_same_below [of p w w' m] by simp
  qed
  moreover have "fs_lookup (sm_snapshot_dir m) w' = None"
    if "r = Inr ()" "m \<in> set (drop ?k l)" "sm_snapshot_dir m \<noteq> []" for m
    using prune_each_removes [of fp "drop ?k l" w u] u that by simp
  ultimately show ?thesis by simp
qed

text \<open>A disk with two snapshots, for a run that prunes the older one.\<close>

definition snapshot_entries :: "u64 \<Rightarrow> (string \<times> fs_entry) list" where
  "snapshot_entries i =
     [(snapshot_dir_of ''s'' i, FDir),
      (path_append (snapshot_dir_of ''s'' i) kSnapshotDataFileName, FFile ''kv''),
      (path_append (snapshot_dir_of ''s'' i) kSnapshotMetaFileName,
       FFile (snapshot_meta_bytes i 2 7 kSnapshotDataFileName (foldl UpdateChecksum 2166136261 (chunks (64 * 1024) ''kv''))))]"

definition two_snapshots :: fs where
  "two_snapshots = \<lparr>fs_entries = (''s'', FDir) # snapshot_entries 4 @ snapshot_entries 3, fs_faults = [], fs_crashed = False\<rparr>"

lemma two_snapshots_paths:
  "snapshot_dir_of ''s'' i = ''s/'' @ snapshot_name i"
  "path_append (''s/'' @ snapshot_name i) n = ''s/'' @ snapshot_name i @ CHR ''/'' # n"
  "parent_path (''s/'' @ snapshot_name i) = ''s''"
  "CHR ''/'' \<notin> set n \<Longrightarrow> parent_path (''s/'' @ snapshot_name i @ CHR ''/'' # n) = ''s/'' @ snapshot_name i"
  "parent_path ''s'' = []"
  "snapshot_name i @ CHR ''/'' # x = snapshot_name j @ CHR ''/'' # y \<longleftrightarrow> i = j \<and> x = y"
  "snapshot_name i @ CHR ''/'' # x \<noteq> snapshot_name j" "snapshot_name j \<noteq> snapshot_name i @ CHR ''/'' # x"
proof -
  have p: "plain_dir ''s''" by (simp add: plain_dir_def)
  show d: "snapshot_dir_of ''s'' i = ''s/'' @ snapshot_name i" by (simp add: snapshot_paths [OF p])
  show "path_append (''s/'' @ snapshot_name i) n = ''s/'' @ snapshot_name i @ CHR ''/'' # n"
    using path_append_plain [OF plain_snapshot_dirs(1) [OF p, of i], of n] by (simp add: d)
  show "parent_path (''s/'' @ snapshot_name i) = ''s''"
    using split_last_component(2) [OF snapshot_names(1), of "''s''" i] by simp
  show "CHR ''/'' \<notin> set n \<Longrightarrow> parent_path (''s/'' @ snapshot_name i @ CHR ''/'' # n) = ''s/'' @ snapshot_name i"
    using split_last_component(2) [of n "''s/'' @ snapshot_name i"] by simp
  show "parent_path ''s'' = []" by (simp add: parent_path_def)
  show "snapshot_name i @ CHR ''/'' # x = snapshot_name j @ CHR ''/'' # y \<longleftrightarrow> i = j \<and> x = y"
    by (simp add: append_component_eq [OF snapshot_names(1) snapshot_names(1)] snapshot_name_inj)
  show "snapshot_name i @ CHR ''/'' # x \<noteq> snapshot_name j" "snapshot_name j \<noteq> snapshot_name i @ CHR ''/'' # x"
    using snapshot_names(1) [of j] by (metis in_set_conv_decomp)+
qed

lemma two_snapshots_lookup:
  "fs_lookup q two_snapshots = (if q = ''s'' then Some FDir else case map_of (snapshot_entries 4) q of
      Some e \<Rightarrow> Some e | None \<Rightarrow> map_of (snapshot_entries 3) q)"
  by (simp add: fs_lookup_def two_snapshots_def map_add_def)

lemmas two_snapshots_simps = two_snapshots_paths [unfolded append_Cons append_Nil]

lemma two_snapshots_names: "CHR ''/'' \<notin> set kSnapshotDataFileName" "CHR ''/'' \<notin> set kSnapshotMetaFileName"
  "kSnapshotDataFileName \<noteq> kSnapshotMetaFileName"
  by (simp_all add: kSnapshotDataFileName_def kSnapshotMetaFileName_def)

lemma two_snapshots_present:
  assumes "fs_lookup q two_snapshots = Some e"
  obtains (root) "q = ''s''" | (dir) i where "q = ''s/'' @ snapshot_name i" "i = 3 \<or> i = 4" "e = FDir"
    | (data) i n where "q = ''s/'' @ snapshot_name i @ CHR ''/'' # n" "i = 3 \<or> i = 4" "CHR ''/'' \<notin> set n"
  using assms two_snapshots_names
  by (auto simp: two_snapshots_lookup snapshot_entries_def two_snapshots_simps(1,2) split: if_splits option.splits)

lemma two_snapshots_dirs: "i = 3 \<or> i = 4 \<Longrightarrow> fs_lookup (''s/'' @ snapshot_name i) two_snapshots = Some FDir"
  "fs_lookup ''s'' two_snapshots = Some FDir"
  by (auto simp: two_snapshots_lookup snapshot_entries_def two_snapshots_simps snapshot_name_inj)

lemma two_snapshots_valid:
  assumes "i = 3 \<or> i = 4"
  shows "ReadDirectorySnapshot (snapshot_dir_of ''s'' i) two_snapshots = Inr (published_meta ''s'' i 2 7 ''kv'')"
    and "tidy (snapshot_dir_of ''s'' i) two_snapshots"
proof -
  have "fs_read (path_append (snapshot_dir_of ''s'' i) kSnapshotDataFileName) two_snapshots = Some ''kv''"
    "fs_read (path_append (snapshot_dir_of ''s'' i) kSnapshotMetaFileName) two_snapshots =
      Some (snapshot_meta_bytes i 2 7 kSnapshotDataFileName (foldl UpdateChecksum 2166136261 (chunks (64 * 1024) ''kv'')))"
    using assms two_snapshots_names
    by (auto simp: fs_read_def two_snapshots_lookup snapshot_entries_def two_snapshots_simps snapshot_name_inj)
  from complete_directory [OF input_disk_run(1) refl this]
  show "ReadDirectorySnapshot (snapshot_dir_of ''s'' i) two_snapshots = Inr (published_meta ''s'' i 2 7 ''kv'')"
    and "tidy (snapshot_dir_of ''s'' i) two_snapshots" .
qed

lemma two_snapshots_wf: "fs_wf two_snapshots"
proof (rule fs_wfI)
  show "fs_distinct two_snapshots"
    using two_snapshots_names
    by (simp add: fs_distinct_def two_snapshots_def snapshot_entries_def two_snapshots_simps snapshot_name_inj)
  fix p q assume p: "fs_lookup p two_snapshots \<noteq> None" and q: "q \<noteq> []" "under q p"
  have top: "\<not> under q ''s''" using q(1) under_longer [of q "''s''"] by auto
  have mid: "q = ''s''" if "under q (''s/'' @ snapshot_name i)" for i
    using under_parent [OF that] top by (simp add: two_snapshots_simps(3))
  from p obtain e where "fs_lookup p two_snapshots = Some e" by blast
  then show "fs_lookup q two_snapshots = Some FDir"
  proof (cases rule: two_snapshots_present)
    case root
    with q top show ?thesis by simp
  next
    case (dir i)
    with q mid two_snapshots_dirs show ?thesis by blast
  next
    case (data i n)
    with under_parent [OF q(2)] have "q = ''s/'' @ snapshot_name i \<or> under q (''s/'' @ snapshot_name i)"
      by (simp add: two_snapshots_simps(4))
    with data(2) mid two_snapshots_dirs show ?thesis by blast
  qed
qed

lemma two_snapshots_tidy:
  assumes "parent_path p = ''s''"
  shows "tidy p two_snapshots"
proof (cases "fs_read (path_append p kSnapshotMetaFileName) two_snapshots")
  case (Some x)
  have p: "p = ''s/'' @ filename p" using parent_path_decompose [OF assms] by simp
  from Some obtain y where y: "fs_lookup (path_append p kSnapshotMetaFileName) two_snapshots = Some (FFile y)"
    by (auto simp: fs_read_def split: option.splits fs_entry.splits)
  then show ?thesis
  proof (cases rule: two_snapshots_present)
    case (data i n)
    have "filename p \<noteq> []"
    proof
      assume "filename p = []"
      with p have "path_append p kSnapshotMetaFileName = ''s/'' @ kSnapshotMetaFileName" by (simp add: path_append_def)
      with data(1) show False by (simp add: kSnapshotMetaFileName_def snapshot_name_def)
    qed
    with filename_no_slash [of p] last_in_set [of "filename p"] have "last (filename p) \<noteq> CHR ''/''" by metis
    with \<open>filename p \<noteq> []\<close> have "plain_dir p" by (subst p) (simp add: plain_dir_def)
    then have "parent_path (path_append p kSnapshotMetaFileName) = p"
      by (simp add: path_append_plain split_last_component(2) two_snapshots_names)
    with data have "p = snapshot_dir_of ''s'' i" by (simp add: two_snapshots_simps)
    with data(2) two_snapshots_valid(2) show ?thesis by blast
  next
    case root
    then have "path_append p kSnapshotMetaFileName = ''s''" by simp
    then show ?thesis by (subst (asm) p) (simp add: path_append_def split: if_splits)
  qed simp
qed (simp add: tidy_def)

theorem prune_keeps_newest_witness:
  "ReadDirectorySnapshot (snapshot_dir_of ''s'' 4) (fs_restart (snd (PruneSnapshots snap_kNone ''s'' 1 two_snapshots)))
    = Inr (published_meta ''s'' 4 2 7 ''kv'')"
proof -
  let ?m = "\<lambda>i. published_meta ''s'' i 2 7 ''kv''"
  have ls: "fs_list ''s'' two_snapshots = [snapshot_dir_of ''s'' 4, snapshot_dir_of ''s'' 3]"
    by (simp add: fs_list_def two_snapshots_def snapshot_entries_def two_snapshots_simps two_snapshots_names)
  note e = valid_directory_listed(2) [OF input_disk_run(1) two_snapshots_wf two_snapshots_valid(1)]
  have ex: "fs_exists ''s'' two_snapshots" by (simp add: fs_exists_def two_snapshots_dirs)
  obtain l w where "ListSnapshots ''s'' two_snapshots = (Inr l, w)"
    by (auto simp: ListSnapshots_def ListSnapshotsWithDiagnostics_def Let_def)
  moreover from this have "l = [?m 4, ?m 3]" "w = two_snapshots"
    using List_result [OF _ ex] e
    by (auto simp: ListSnapshots_def io_ok_iff ls List.map_filter_simps sort_snapshots_def newer_def published_meta_def)
  ultimately have "ListSnapshots ''s'' two_snapshots = (Inr [?m 4, ?m 3], two_snapshots)" by simp
  from prune_keeps_newest [OF input_disk_run(1) two_snapshots_wf ex _ this prod.collapse [symmetric], where fp = snap_kNone and max_keep = 1] two_snapshots_tidy
  show ?thesis by (simp add: published_meta_def)
qed

end
