(* ===== verification/Agreement.thy ===== *)
theory Agreement
  imports Cluster
begin

text \<open>
  Replication as the protocol sees it. A record is a point, its index and its term; the records that leaders ever appended
  form a tree, and a log is the path from its last record, the tip, down to the root. A member has a term, a role, a tip
  and a commit point. Whatever quorums are, as long as any two meet, all commit points lie on one path of the tree, and
  a leader has everything that was decided in earlier terms. \<open>Consensus\<close> refines this to the nodes of the program.
\<close>

section \<open>The tree\<close>

datatype point = At (p_index: nat) (p_term: nat)
type_synonym record_tree = "point \<Rightarrow> point option"

definition anc :: "record_tree \<Rightarrow> point \<Rightarrow> point \<Rightarrow> bool" where
  "anc t = (\<lambda>x y. t x = Some y)\<^sup>*\<^sup>*"

definition related :: "record_tree \<Rightarrow> point \<Rightarrow> point \<Rightarrow> bool" where
  "related t x y \<longleftrightarrow> anc t x y \<or> anc t y x"

definition tree_ok :: "record_tree \<Rightarrow> bool" where
  "tree_ok t \<longleftrightarrow> (\<forall>x y. t x = Some y \<longrightarrow> p_index x = Suc (p_index y) \<and> p_term y \<le> p_term x)"

abbreviation rooted :: "record_tree \<Rightarrow> point \<Rightarrow> bool" where
  "rooted t x \<equiv> anc t x (At 0 0)"

lemma anc_refl [simp]: "anc t x x"
  by (simp add: anc_def)

lemma anc_trans: "anc t x y \<Longrightarrow> anc t y z \<Longrightarrow> anc t x z"
  unfolding anc_def by (rule rtranclp_trans)

lemma anc_parent: "t x = Some y \<Longrightarrow> anc t y z \<Longrightarrow> anc t x z"
  unfolding anc_def by (rule converse_rtranclp_into_rtranclp)

lemma anc_cases:
  assumes "anc t x z"
  obtains "x = z" | y where "t x = Some y" "anc t y z"
  using assms unfolding anc_def by (auto elim: converse_rtranclpE)

lemma anc_mono: "t \<subseteq>\<^sub>m t' \<Longrightarrow> anc t x y \<Longrightarrow> anc t' x y"
  unfolding anc_def by (erule rtranclp_mono [THEN predicate2D, rotated]) (force simp: map_le_def)

lemma anc_le:
  assumes "tree_ok t" and "anc t x y"
  shows "p_index y \<le> p_index x" and "p_term y \<le> p_term x"
proof -
  have "p_index y \<le> p_index x \<and> p_term y \<le> p_term x"
    using assms(2) unfolding anc_def
    by (induction rule: rtranclp_induct) (use assms(1) in \<open>force simp: tree_ok_def\<close>)+
  then show "p_index y \<le> p_index x" "p_term y \<le> p_term x" by simp_all
qed

lemma anc_same_index:
  assumes "tree_ok t" and "anc t x y" and "p_index x \<le> p_index y"
  shows "x = y"
  using assms(2)
proof (cases rule: anc_cases)
  case (2 z)
  have "p_index x = Suc (p_index z)" using assms(1) 2(1) unfolding tree_ok_def by blast
  with anc_le(1) [OF assms(1) 2(2)] assms(3) show ?thesis by simp
qed

lemma anc_induct [consumes 1, case_names here parent]:
  assumes "anc t x z" and "P z" and "\<And>x y. t x = Some y \<Longrightarrow> anc t y z \<Longrightarrow> P y \<Longrightarrow> P x"
  shows "P x"
  using assms unfolding anc_def by (induction rule: converse_rtranclp_induct) auto

text \<open>A point has one path to the root.\<close>

lemma anc_linear:
  assumes "anc t x y" and "anc t x z"
  shows "related t y z"
  using assms
proof (induction rule: anc_induct)
  case here
  then show ?case by (simp add: related_def)
next
  case (parent x w)
  from parent.prems show ?case
  proof (cases rule: anc_cases)
    case 1
    with parent.hyps anc_parent [of t x w y] show ?thesis by (simp add: related_def)
  next
    case (2 v)
    with parent show ?thesis by simp
  qed
qed

lemma anc_between: "tree_ok t \<Longrightarrow> anc t x y \<Longrightarrow> anc t x z \<Longrightarrow> p_index z \<le> p_index y \<Longrightarrow> anc t y z"
  using anc_linear [of t x y z] anc_same_index [of t z y] by (auto simp: related_def)

lemma related_sym: "related t x y \<Longrightarrow> related t y x"
  by (auto simp: related_def)

lemma related_mono: "t \<subseteq>\<^sub>m t' \<Longrightarrow> related t x y \<Longrightarrow> related t' x y"
  by (auto simp: related_def anc_mono)

lemma related_down: "related t x y \<Longrightarrow> anc t x z \<Longrightarrow> related t z y"
  by (auto simp: related_def intro: anc_trans dest: anc_linear [of t x y z])

text \<open>New records do not change what a rooted point descends from.\<close>

lemma anc_ext:
  assumes ok: "tree_ok t'" and le: "t \<subseteq>\<^sub>m t'" and r: "rooted t x"
  shows "anc t' x y \<longleftrightarrow> anc t x y"
proof
  show "anc t x y" if "anc t' x y"
    using r that
  proof (induction rule: anc_induct)
    case here
    then show ?case using ok by (cases rule: anc_cases) (fastforce simp: tree_ok_def)+
  next
    case (parent x w)
    then have w: "t' x = Some w" using le by (metis domI map_le_def)
    from parent.prems show ?case
    proof (cases rule: anc_cases)
      case (2 v)
      with w parent.hyps parent.IH show ?thesis by (auto intro: anc_parent)
    qed simp
  qed
qed (rule anc_mono [OF le])

section \<open>The protocol\<close>

record 'p agreement =
  a_term :: "'p \<Rightarrow> nat"
  a_role :: "'p \<Rightarrow> Role"
  a_tip :: "'p \<Rightarrow> point"
  a_commit :: "'p \<Rightarrow> point"
  a_tree :: record_tree
  a_votes :: "('p \<times> nat \<times> 'p) set"
  a_led :: "nat set"
  a_sent :: "(nat \<times> point) set"
  a_acks :: "('p \<times> point) set"

text \<open>
  A record is chosen when a quorum has acknowledged it in the term it was appended in; a point is decided in a term
  when it is the root or lies below a record chosen in that term or an earlier one.
\<close>

definition chosen :: "('p set \<Rightarrow> bool) \<Rightarrow> 'p agreement \<Rightarrow> point \<Rightarrow> bool" where
  "chosen Q s x \<longleftrightarrow> (\<exists>A. Q A \<and> (\<forall>p \<in> A. (p, x) \<in> a_acks s))"

definition decided :: "('p set \<Rightarrow> bool) \<Rightarrow> 'p agreement \<Rightarrow> nat \<Rightarrow> point \<Rightarrow> bool" where
  "decided Q s t z \<longleftrightarrow> z = At 0 0 \<or> (\<exists>x. chosen Q s x \<and> x \<in> dom (a_tree s) \<and> p_term x \<le> t \<and> anc (a_tree s) x z)"

definition up_to_date :: "point \<Rightarrow> point \<Rightarrow> bool" where
  "up_to_date x y \<longleftrightarrow> p_term y < p_term x \<or> (p_term y = p_term x \<and> p_index y \<le> p_index x)"

inductive agree_step :: "('p set \<Rightarrow> bool) \<Rightarrow> 'p agreement \<Rightarrow> 'p agreement \<Rightarrow> bool" for Q :: "'p set \<Rightarrow> bool" where
  observe: "a_term s p \<le> t \<Longrightarrow> (a_role s p = kLeader \<Longrightarrow> t = a_term s p \<Longrightarrow> (t, a_tip s p) \<in> a_sent s) \<Longrightarrow>
    agree_step Q s (s\<lparr>a_term := (a_term s)(p := t), a_role := (a_role s)(p := kFollower)\<rparr>)"
| timeout: "agree_step Q s (s\<lparr>a_term := (a_term s)(c := Suc (a_term s c)), a_role := (a_role s)(c := kCandidate),
      a_votes := insert (c, Suc (a_term s c), c) (a_votes s)\<rparr>)"
| vote: "a_role s c = kCandidate \<Longrightarrow> a_term s p = a_term s c \<Longrightarrow> up_to_date (a_tip s c) (a_tip s p) \<Longrightarrow>
    agree_step Q s (s\<lparr>a_votes := insert (p, a_term s c, c) (a_votes s)\<rparr>)"
| elect: "a_role s c = kCandidate \<Longrightarrow> Q A \<Longrightarrow> (\<And>p. p \<in> A \<Longrightarrow> (p, a_term s c, c) \<in> a_votes s) \<Longrightarrow> a_term s c \<notin> a_led s \<Longrightarrow>
    agree_step Q s (s\<lparr>a_role := (a_role s)(c := kLeader), a_led := insert (a_term s c) (a_led s)\<rparr>)"
| grow: "a_role s c = kLeader \<Longrightarrow> x = At (Suc (p_index (a_tip s c))) (a_term s c) \<Longrightarrow>
    agree_step Q s (s\<lparr>a_tree := (a_tree s)(x \<mapsto> a_tip s c), a_tip := (a_tip s)(c := x)\<rparr>)"
| transmit: "a_role s c = kLeader \<Longrightarrow> anc (a_tree s) (a_tip s c) e \<Longrightarrow>
    agree_step Q s (s\<lparr>a_sent := insert (a_term s c, e) (a_sent s)\<rparr>)"
| store: "(a_term s p, e) \<in> a_sent s \<Longrightarrow> a_role s p = kFollower \<Longrightarrow> \<not> anc (a_tree s) (a_tip s p) e \<Longrightarrow>
    agree_step Q s (s\<lparr>a_tip := (a_tip s)(p := e)\<rparr>)"
| acknowledge: "(\<And>x. x \<in> X \<Longrightarrow> x \<in> dom (a_tree s) \<and> p_term x = a_term s p \<and> anc (a_tree s) (a_tip s p) x) \<Longrightarrow>
    agree_step Q s (s\<lparr>a_acks := a_acks s \<union> {p} \<times> X\<rparr>)"
| learn: "decided Q s (a_term s p) z \<Longrightarrow> anc (a_tree s) (a_tip s p) z \<Longrightarrow>
    agree_step Q s (s\<lparr>a_commit := (a_commit s)(p := z)\<rparr>)"

definition agree_init :: "'p agreement \<Rightarrow> bool" where
  "agree_init s \<longleftrightarrow> (\<forall>p. a_role s p = kFollower \<and> a_tip s p = At 0 0 \<and> a_commit s p = At 0 0) \<and> a_tree s = (\<lambda>_. None) \<and>
     a_votes s = {} \<and> a_led s = {} \<and> a_sent s = {} \<and> a_acks s = {}"

inductive agree_reach :: "('p set \<Rightarrow> bool) \<Rightarrow> 'p agreement \<Rightarrow> bool" for Q :: "'p set \<Rightarrow> bool" where
  begin_agree: "agree_init s \<Longrightarrow> agree_reach Q s"
| next_agree: "agree_reach Q s \<Longrightarrow> agree_step Q s s' \<Longrightarrow> agree_reach Q s'"

section \<open>Shape\<close>

text \<open>The tree is one, everything that is named is in it, and terms and leaders are in order.\<close>

definition shape :: "'p agreement \<Rightarrow> bool" where
  "shape s \<longleftrightarrow> tree_ok (a_tree s) \<and> (\<forall>p. rooted (a_tree s) (a_tip s p)) \<and>
     (\<forall>x \<in> dom (a_tree s). rooted (a_tree s) x \<and> p_term x \<in> a_led s) \<and>
     (\<forall>t e. (t, e) \<in> a_sent s \<longrightarrow> rooted (a_tree s) e \<and> p_term e \<le> t \<and> t \<in> a_led s) \<and>
     (\<forall>c. a_role s c = kLeader \<longrightarrow> a_term s c \<in> a_led s) \<and>
     (\<forall>c d. a_role s c = kLeader \<longrightarrow> a_role s d = kLeader \<longrightarrow> a_term s c = a_term s d \<longrightarrow> c = d) \<and>
     (\<forall>p. p_term (a_tip s p) \<le> a_term s p \<and> (a_role s p = kCandidate \<longrightarrow> p_term (a_tip s p) < a_term s p)) \<and>
     (\<forall>p t c. (p, t, c) \<in> a_votes s \<longrightarrow> t \<le> a_term s p \<and> t \<le> a_term s c) \<and>
     (\<forall>p x. (p, x) \<in> a_acks s \<longrightarrow> x \<in> dom (a_tree s) \<and> p_term x \<le> a_term s p)"

definition leading :: "'p agreement \<Rightarrow> bool" where
  "leading s \<longleftrightarrow>
     (\<forall>c x. a_role s c = kLeader \<longrightarrow> x \<in> dom (a_tree s) \<longrightarrow> p_term x = a_term s c \<longrightarrow> anc (a_tree s) (a_tip s c) x) \<and>
     (\<forall>c e. a_role s c = kLeader \<longrightarrow> (a_term s c, e) \<in> a_sent s \<longrightarrow> anc (a_tree s) (a_tip s c) e) \<and>
     (\<forall>x \<in> dom (a_tree s). \<forall>y \<in> dom (a_tree s). p_term x = p_term y \<longrightarrow> related (a_tree s) x y) \<and>
     (\<forall>t e y. (t, e) \<in> a_sent s \<longrightarrow> y \<in> dom (a_tree s) \<longrightarrow> p_term y = t \<longrightarrow> related (a_tree s) e y)"

lemma shapeD:
  assumes "shape s"
  shows "tree_ok (a_tree s)" "\<And>p. rooted (a_tree s) (a_tip s p)"
    "\<And>x. x \<in> dom (a_tree s) \<Longrightarrow> rooted (a_tree s) x" "\<And>x. x \<in> dom (a_tree s) \<Longrightarrow> p_term x \<in> a_led s"
    "\<And>t e. (t, e) \<in> a_sent s \<Longrightarrow> rooted (a_tree s) e" "\<And>t e. (t, e) \<in> a_sent s \<Longrightarrow> p_term e \<le> t"
    "\<And>t e. (t, e) \<in> a_sent s \<Longrightarrow> t \<in> a_led s"
    "\<And>c. a_role s c = kLeader \<Longrightarrow> a_term s c \<in> a_led s"
    "\<And>c d. a_role s c = kLeader \<Longrightarrow> a_role s d = kLeader \<Longrightarrow> a_term s c = a_term s d \<Longrightarrow> c = d"
    "\<And>p. p_term (a_tip s p) \<le> a_term s p" "\<And>p. a_role s p = kCandidate \<Longrightarrow> p_term (a_tip s p) < a_term s p"
    "\<And>p t c. (p, t, c) \<in> a_votes s \<Longrightarrow> t \<le> a_term s p" "\<And>p t c. (p, t, c) \<in> a_votes s \<Longrightarrow> t \<le> a_term s c"
    "\<And>p x. (p, x) \<in> a_acks s \<Longrightarrow> x \<in> dom (a_tree s)" "\<And>p x. (p, x) \<in> a_acks s \<Longrightarrow> p_term x \<le> a_term s p"
  using assms unfolding shape_def by blast+

lemma leadingD:
  assumes "leading s"
  shows "\<And>c x. a_role s c = kLeader \<Longrightarrow> x \<in> dom (a_tree s) \<Longrightarrow> p_term x = a_term s c \<Longrightarrow> anc (a_tree s) (a_tip s c) x"
    "\<And>c e. a_role s c = kLeader \<Longrightarrow> (a_term s c, e) \<in> a_sent s \<Longrightarrow> anc (a_tree s) (a_tip s c) e"
    "\<And>x y. x \<in> dom (a_tree s) \<Longrightarrow> y \<in> dom (a_tree s) \<Longrightarrow> p_term x = p_term y \<Longrightarrow> related (a_tree s) x y"
    "\<And>e y. (p_term y, e) \<in> a_sent s \<Longrightarrow> y \<in> dom (a_tree s) \<Longrightarrow> related (a_tree s) e y"
  using assms unfolding leading_def by blast+

lemma shape_init: "agree_init s \<Longrightarrow> shape s" "agree_init s \<Longrightarrow> leading s"
  by (simp_all add: agree_init_def shape_def leading_def tree_ok_def)

text \<open>A leader's next record is new, and the tree with it extends the old one.\<close>

lemma grow_tree:
  assumes sh: "shape s" and ld: "leading s" and c: "a_role s c = kLeader" and x: "x = At (Suc (p_index (a_tip s c))) (a_term s c)"
  shows "x \<notin> dom (a_tree s)" and "a_tree s \<subseteq>\<^sub>m (a_tree s)(x \<mapsto> a_tip s c)" and "tree_ok ((a_tree s)(x \<mapsto> a_tip s c))"
    and "rooted ((a_tree s)(x \<mapsto> a_tip s c)) x"
    and "\<And>y. anc (a_tree s) (a_tip s c) y \<Longrightarrow> anc ((a_tree s)(x \<mapsto> a_tip s c)) x y"
proof -
  let ?t = "(a_tree s)(x \<mapsto> a_tip s c)"
  note S = shapeD [OF sh]
  show new: "x \<notin> dom (a_tree s)"
  proof
    assume "x \<in> dom (a_tree s)"
    from leadingD(1) [OF ld c this] x anc_le(1) [OF S(1)] show False by fastforce
  qed
  then show le: "a_tree s \<subseteq>\<^sub>m ?t" by (auto simp: map_le_def)
  show "tree_ok ?t" using S(1) S(10) [of c] x unfolding tree_ok_def by auto
  show up: "anc ?t x y" if "anc (a_tree s) (a_tip s c) y" for y
    by (rule anc_parent [of _ _ "a_tip s c"]) (use anc_mono [OF le that] in auto)
  show "rooted ?t x" by (rule up [OF S(2)])
qed

lemma shape_grow:
  assumes sh: "shape s" and ld: "leading s" and c: "a_role s c = kLeader" and x: "x = At (Suc (p_index (a_tip s c))) (a_term s c)"
  shows "shape (s\<lparr>a_tree := (a_tree s)(x \<mapsto> a_tip s c), a_tip := (a_tip s)(c := x)\<rparr>)"
    and "leading (s\<lparr>a_tree := (a_tree s)(x \<mapsto> a_tip s c), a_tip := (a_tip s)(c := x)\<rparr>)"
proof -
  let ?t = "(a_tree s)(x \<mapsto> a_tip s c)"
  note S = shapeD [OF sh] and L = leadingD [OF ld] and G = grow_tree [OF assms] and up = anc_mono [OF grow_tree(2) [OF assms]]
  show "shape (s\<lparr>a_tree := ?t, a_tip := (a_tip s)(c := x)\<rparr>)"
    unfolding shape_def using G(3,4) S up x c by (auto split: if_splits)
  have one: "d = c" if "a_role s d = kLeader" "a_term s d = a_term s c" for d using S(9) c that by blast
  let ?s = "s\<lparr>a_tree := ?t, a_tip := (a_tip s)(c := x)\<rparr>"
  have own: "anc ?t x y" if "y \<in> dom ?t" "p_term y = a_term s c" for y
    using that G(5) L(1) [OF c, of y] x by (cases "y = x") auto
  show "leading ?s"
    unfolding leading_def
  proof (intro conjI allI ballI impI)
    fix d y
    assume d: "a_role ?s d = kLeader" and y: "y \<in> dom (a_tree ?s)" "p_term y = a_term ?s d"
    show "anc (a_tree ?s) (a_tip ?s d) y"
    proof (cases "d = c")
      case False
      with d one y x have "y \<noteq> x" by auto
      with d y False L(1) [of d y] up show ?thesis by auto
    qed (use y own in auto)
  next
    fix d e
    assume "a_role ?s d = kLeader" and "(a_term ?s d, e) \<in> a_sent ?s"
    with L(2) [of d e] up G(5) show "anc (a_tree ?s) (a_tip ?s d) e" by auto
  next
    fix y z
    assume yz: "y \<in> dom (a_tree ?s)" "z \<in> dom (a_tree ?s)" "p_term y = p_term z"
    show "related (a_tree ?s) y z"
    proof (cases "p_term y = a_term s c")
      case True
      with yz own [of y] own [of z] show ?thesis by (auto intro: anc_linear)
    next
      case False
      with yz x have "y \<in> dom (a_tree s)" "z \<in> dom (a_tree s)" by auto
      from related_mono [OF G(2) L(3) [OF this yz(3)]] show ?thesis by simp
    qed
  next
    fix t e y
    assume e: "(t, e) \<in> a_sent ?s" and y: "y \<in> dom (a_tree ?s)" "p_term y = t"
    show "related (a_tree ?s) e y"
    proof (cases "y = x")
      case True
      with L(2) [OF c, of e] e y x G(5) show ?thesis by (simp add: related_def)
    next
      case False
      with e y have "related (a_tree s) e y" by (intro L(4)) auto
      from related_mono [OF G(2) this] show ?thesis by simp
    qed
  qed
qed

lemma shape_step:
  assumes "agree_step Q s s'" and "shape s" and "leading s"
  shows "shape s' \<and> leading s'"
  using assms
proof (induction rule: agree_step.induct)
  case (observe s p t)
  note S = shapeD [OF observe(3)] and L = leadingD [OF observe(4)]
  have up: "i \<le> a_term s p \<Longrightarrow> i \<le> t" for i using observe(1) by simp
  show ?case
    unfolding shape_def leading_def using S L by (auto intro!: up)
next
  case (timeout s c)
  note S = shapeD [OF timeout(1)] and L = leadingD [OF timeout(2)]
  show ?case
    unfolding shape_def leading_def using S L by (auto intro: le_SucI simp: less_Suc_eq_le)
next
  case (vote s c p)
  note S = shapeD [OF vote(4)] and L = leadingD [OF vote(5)]
  show ?case
    unfolding shape_def leading_def using vote(1-3) S L by (auto)
next
  case (elect s c A)
  note S = shapeD [OF elect(5)] and L = leadingD [OF elect(6)]
  have fresh: "a_role s d = kLeader \<Longrightarrow> a_term s d \<noteq> a_term s c" "a_tree s x = Some y \<Longrightarrow> p_term x \<noteq> a_term s c"
    "(t, e) \<in> a_sent s \<Longrightarrow> t \<noteq> a_term s c" for d t e x y
    using elect(4) S(4) [OF domI [of _ x y]] S(7) [of t e] S(8) [of d] by auto
  show ?case
    unfolding shape_def leading_def using elect(1-4) S L by (auto dest: fresh)
next
  case (grow s c x)
  show ?case using shape_grow [OF grow(3,4,1,2)] by simp
next
  case (transmit s c e)
  note S = shapeD [OF transmit(3)] and L = leadingD [OF transmit(4)]
  have new: "rooted (a_tree s) e" "p_term e \<le> a_term s c" "\<And>d. a_role s d = kLeader \<Longrightarrow> a_term s d = a_term s c \<Longrightarrow> anc (a_tree s) (a_tip s d) e"
    "\<And>y z. a_tree s y = Some z \<Longrightarrow> p_term y = a_term s c \<Longrightarrow> related (a_tree s) e y"
    using anc_between [OF S(1) transmit(2) S(2)] anc_le(2) [OF S(1) transmit(2)] S(9) [OF _ transmit(1)] S(10) [of c] transmit(2)
      anc_linear [OF transmit(2) L(1) [OF transmit(1) domI]] by (auto intro: order_trans)
  show ?case
    unfolding shape_def leading_def using transmit(1) S L new by auto
next
  case (store s p e)
  note S = shapeD [OF store(4)] and L = leadingD [OF store(5)]
  show ?case
    unfolding shape_def leading_def using store(1-3) S L by (auto)
next
  case (acknowledge X s p)
  note S = shapeD [OF acknowledge(2)] and L = leadingD [OF acknowledge(3)]
  show ?case
    unfolding shape_def leading_def using acknowledge(1) S L by (auto)
next
  case (learn s p z)
  note S = shapeD [OF learn(3)] and L = leadingD [OF learn(4)]
  show ?case
    unfolding shape_def leading_def using S L by (auto)
qed

lemma agree_reach_shape: "agree_reach Q s \<Longrightarrow> shape s \<and> leading s"
proof (induction rule: agree_reach.induct)
  case (next_agree s s')
  then show ?case using shape_step by blast
qed (simp add: shape_init)

section \<open>What can still be chosen\<close>

text \<open>
  A record can still be chosen when a quorum of members has acknowledged it or has not passed its term. Steps only
  ever take this away, because a member acknowledges a record in the record's own term.
\<close>

definition choosable :: "('p set \<Rightarrow> bool) \<Rightarrow> 'p agreement \<Rightarrow> point \<Rightarrow> bool" where
  "choosable Q s x \<longleftrightarrow> (\<exists>A. Q A \<and> (\<forall>p \<in> A. (p, x) \<in> a_acks s \<or> a_term s p \<le> p_term x))"

lemma chosen_choosable: "chosen Q s x \<Longrightarrow> choosable Q s x"
  by (auto simp: chosen_def choosable_def)

lemma choosableI:
  assumes "choosable Q s' x" and "\<And>p. (p, x) \<in> a_acks s' \<or> a_term s' p \<le> p_term x \<Longrightarrow> (p, x) \<in> a_acks s \<or> a_term s p \<le> p_term x"
  shows "choosable Q s x"
  using assms unfolding choosable_def by blast

lemma choosable_back:
  assumes "agree_step Q s s'" and "choosable Q s' x"
  shows "choosable Q s x"
  using assms(2)
proof (rule choosableI)
  fix p
  assume "(p, x) \<in> a_acks s' \<or> a_term s' p \<le> p_term x"
  with assms(1) show "(p, x) \<in> a_acks s \<or> a_term s p \<le> p_term x"
    by (cases rule: agree_step.cases) (auto split: if_splits)
qed

lemma chosen_forward:
  assumes "agree_step Q s s'" and "chosen Q s x"
  shows "chosen Q s' x"
proof -
  from assms(1) have "a_acks s \<subseteq> a_acks s'" by (cases rule: agree_step.cases) auto
  with assms(2) show ?thesis unfolding chosen_def by blast
qed

lemma tree_forward:
  assumes "agree_step Q s s'" and "shape s" and "leading s"
  shows "a_tree s \<subseteq>\<^sub>m a_tree s'"
  using assms(1)
proof (cases rule: agree_step.cases)
  case (grow c x)
  with grow_tree(2) [OF assms(2,3)] show ?thesis by simp
qed simp_all

lemma decided_forward:
  assumes "agree_step Q s s'" and "shape s" and "leading s" and "decided Q s t z" and "t \<le> t'"
  shows "decided Q s' t' z"
proof -
  note le = tree_forward [OF assms(1-3)]
  show ?thesis
    using assms(4) unfolding decided_def
  proof
    assume "\<exists>x. chosen Q s x \<and> x \<in> dom (a_tree s) \<and> p_term x \<le> t \<and> anc (a_tree s) x z"
    then obtain x where "chosen Q s x" "x \<in> dom (a_tree s)" "p_term x \<le> t" "anc (a_tree s) x z" by blast
    with chosen_forward [OF assms(1)] anc_mono [OF le] map_le_implies_dom_le [OF le] assms(5)
    show "z = At 0 0 \<or> (\<exists>x. chosen Q s' x \<and> x \<in> dom (a_tree s') \<and> p_term x \<le> t' \<and> anc (a_tree s') x z)"
      by (metis order_trans subsetD)
  qed simp
qed

text \<open>
  \<open>safe\<close>: a record that can still be chosen is below every record and every leader of a later term, is on one path
  with every message of a later term, and is in the log of every member that has acknowledged it and of every candidate
  that has the vote of such a member.
\<close>

definition safe :: "('p set \<Rightarrow> bool) \<Rightarrow> 'p agreement \<Rightarrow> bool" where
  "safe Q s \<longleftrightarrow> (\<forall>t \<in> a_led s. \<exists>A. Q A \<and> (\<forall>p \<in> A. t \<le> a_term s p)) \<and>
     (\<forall>x \<in> dom (a_tree s). choosable Q s x \<longrightarrow>
       (\<forall>y \<in> dom (a_tree s). p_term x < p_term y \<longrightarrow> anc (a_tree s) y x) \<and>
       (\<forall>c. a_role s c = kLeader \<longrightarrow> p_term x < a_term s c \<longrightarrow> anc (a_tree s) (a_tip s c) x) \<and>
       (\<forall>t e. (t, e) \<in> a_sent s \<longrightarrow> p_term x < t \<longrightarrow> related (a_tree s) e x) \<and>
       (\<forall>p. (p, x) \<in> a_acks s \<longrightarrow> anc (a_tree s) (a_tip s p) x) \<and>
       (\<forall>p c. (p, a_term s c, c) \<in> a_votes s \<longrightarrow> a_role s c = kCandidate \<longrightarrow> p_term x < a_term s c \<longrightarrow>
          (p, x) \<in> a_acks s \<longrightarrow> anc (a_tree s) (a_tip s c) x))"

lemma safeD:
  assumes "safe Q s"
  shows "\<And>t. t \<in> a_led s \<Longrightarrow> \<exists>A. Q A \<and> (\<forall>p \<in> A. t \<le> a_term s p)"
    "\<And>x y. x \<in> dom (a_tree s) \<Longrightarrow> choosable Q s x \<Longrightarrow> y \<in> dom (a_tree s) \<Longrightarrow> p_term x < p_term y \<Longrightarrow> anc (a_tree s) y x"
    "\<And>x c. x \<in> dom (a_tree s) \<Longrightarrow> choosable Q s x \<Longrightarrow> a_role s c = kLeader \<Longrightarrow> p_term x < a_term s c \<Longrightarrow>
       anc (a_tree s) (a_tip s c) x"
    "\<And>x t e. x \<in> dom (a_tree s) \<Longrightarrow> choosable Q s x \<Longrightarrow> (t, e) \<in> a_sent s \<Longrightarrow> p_term x < t \<Longrightarrow> related (a_tree s) e x"
    "\<And>x p. x \<in> dom (a_tree s) \<Longrightarrow> choosable Q s x \<Longrightarrow> (p, x) \<in> a_acks s \<Longrightarrow> anc (a_tree s) (a_tip s p) x"
    "\<And>x p c. x \<in> dom (a_tree s) \<Longrightarrow> choosable Q s x \<Longrightarrow> (p, a_term s c, c) \<in> a_votes s \<Longrightarrow> a_role s c = kCandidate \<Longrightarrow>
       p_term x < a_term s c \<Longrightarrow> (p, x) \<in> a_acks s \<Longrightarrow> anc (a_tree s) (a_tip s c) x"
  using assms unfolding safe_def by blast+

lemma safeI:
  assumes "\<And>t. t \<in> a_led s \<Longrightarrow> \<exists>A. Q A \<and> (\<forall>p \<in> A. t \<le> a_term s p)"
    "\<And>x y. x \<in> dom (a_tree s) \<Longrightarrow> choosable Q s x \<Longrightarrow> y \<in> dom (a_tree s) \<Longrightarrow> p_term x < p_term y \<Longrightarrow> anc (a_tree s) y x"
    "\<And>x c. x \<in> dom (a_tree s) \<Longrightarrow> choosable Q s x \<Longrightarrow> a_role s c = kLeader \<Longrightarrow> p_term x < a_term s c \<Longrightarrow>
       anc (a_tree s) (a_tip s c) x"
    "\<And>x t e. x \<in> dom (a_tree s) \<Longrightarrow> choosable Q s x \<Longrightarrow> (t, e) \<in> a_sent s \<Longrightarrow> p_term x < t \<Longrightarrow> related (a_tree s) e x"
    "\<And>x p. x \<in> dom (a_tree s) \<Longrightarrow> choosable Q s x \<Longrightarrow> (p, x) \<in> a_acks s \<Longrightarrow> anc (a_tree s) (a_tip s p) x"
    "\<And>x p c. x \<in> dom (a_tree s) \<Longrightarrow> choosable Q s x \<Longrightarrow> (p, a_term s c, c) \<in> a_votes s \<Longrightarrow> a_role s c = kCandidate \<Longrightarrow>
       p_term x < a_term s c \<Longrightarrow> (p, x) \<in> a_acks s \<Longrightarrow> anc (a_tree s) (a_tip s c) x"
  shows "safe Q s"
  using assms unfolding safe_def by blast

lemma rooted_dom: "rooted t x \<Longrightarrow> x = At 0 0 \<or> x \<in> dom t"
  by (erule anc_cases) auto

lemma root_below: "tree_ok t \<Longrightarrow> anc t (At 0 0) x \<Longrightarrow> x = At 0 0"
  using anc_same_index [of t "At 0 0" x] by simp

text \<open>A vote follows the log: whoever is up to date with a member has what the member has.\<close>

lemma up_to_date_has:
  assumes sh: "shape s" and ld: "leading s" and sf: "safe Q s" and x: "x \<in> dom (a_tree s)" "choosable Q s x"
    and up: "up_to_date (a_tip s c) (a_tip s p)" and has: "anc (a_tree s) (a_tip s p) x"
  shows "anc (a_tree s) (a_tip s c) x"
proof -
  note S = shapeD [OF sh] and L = leadingD [OF ld]
  let ?C = "a_tip s c" and ?T = "a_tip s p"
  have nr: "At 0 0 \<notin> dom (a_tree s)" using S(1) by (force simp: tree_ok_def)
  have T: "?T \<in> dom (a_tree s)" using rooted_dom [OF S(2) [of p]] root_below [OF S(1), of x] has x(1) nr by metis
  then have pos: "0 < p_index ?T" using S(1) by (force simp: tree_ok_def)
  have le: "p_term x \<le> p_term ?T" using anc_le(2) [OF S(1) has] .
  from up show ?thesis unfolding up_to_date_def
  proof
    assume lt: "p_term ?T < p_term ?C"
    then have "?C \<in> dom (a_tree s)" using rooted_dom [OF S(2) [of c]] by auto
    with safeD(2) [OF sf x] lt le show ?thesis by simp
  next
    assume eq: "p_term ?T = p_term ?C \<and> p_index ?T \<le> p_index ?C"
    then have "?C \<in> dom (a_tree s)" using rooted_dom [OF S(2) [of c]] pos by auto
    then have "related (a_tree s) ?C ?T" using L(3) T eq by simp
    then have "anc (a_tree s) ?C ?T" using anc_same_index [OF S(1), of ?T ?C] eq by (auto simp: related_def)
    then show ?thesis using has by (rule anc_trans)
  qed
qed

text \<open>Commit points are decided and in the log.\<close>

definition committed :: "('p set \<Rightarrow> bool) \<Rightarrow> 'p agreement \<Rightarrow> bool" where
  "committed Q s \<longleftrightarrow> (\<forall>p. decided Q s (a_term s p) (a_commit s p) \<and> anc (a_tree s) (a_tip s p) (a_commit s p))"

lemma terms_forward: "agree_step Q s s' \<Longrightarrow> a_term s p \<le> a_term s' p"
  by (erule agree_step.cases) auto

context quorum_system
begin

lemma not_choosable:
  assumes "shape s" and "safe quorum s" and "x \<notin> dom (a_tree s)" and "t \<in> a_led s" and "p_term x < t"
  shows "\<not> choosable quorum s x"
proof
  assume "choosable quorum s x"
  then obtain A where A: "quorum A" "\<And>p. p \<in> A \<Longrightarrow> (p, x) \<in> a_acks s \<or> a_term s p \<le> p_term x" by (auto simp: choosable_def)
  from safeD(1) [OF assms(2,4)] obtain B where B: "quorum B" "\<And>p. p \<in> B \<Longrightarrow> t \<le> a_term s p" by blast
  from quorums_meet [OF A(1) B(1)] obtain p where "p \<in> A" "p \<in> B" by blast
  with A(2) [of p] B(2) [of p] shapeD(14) [OF assms(1), of p x] assms(3,5) show False by auto
qed

lemma elected_has:
  assumes sh: "shape s" and sf: "safe quorum s" and c: "a_role s c = kCandidate"
    and A: "quorum A" "\<And>p. p \<in> A \<Longrightarrow> (p, a_term s c, c) \<in> a_votes s"
    and x: "x \<in> dom (a_tree s)" "choosable quorum s x" "p_term x < a_term s c"
  shows "anc (a_tree s) (a_tip s c) x"
proof -
  from x(2) obtain B where B: "quorum B" "\<And>p. p \<in> B \<Longrightarrow> (p, x) \<in> a_acks s \<or> a_term s p \<le> p_term x" by (auto simp: choosable_def)
  from quorums_meet [OF A(1) B(1)] obtain p where p: "p \<in> A" "p \<in> B" by blast
  have "a_term s c \<le> a_term s p" by (rule shapeD(12) [OF sh A(2) [OF p(1)]])
  with B(2) [OF p(2)] x(3) have "(p, x) \<in> a_acks s" by auto
  with safeD(6) [OF sf x(1,2) A(2) [OF p(1)] c x(3)] show ?thesis by blast
qed

lemma safe_grow:
  assumes sh: "shape s" and ld: "leading s" and sf: "safe quorum s" and c: "a_role s c = kLeader"
    and x: "x = At (Suc (p_index (a_tip s c))) (a_term s c)"
  shows "safe quorum (s\<lparr>a_tree := (a_tree s)(x \<mapsto> a_tip s c), a_tip := (a_tip s)(c := x)\<rparr>)" (is "safe quorum ?s")
proof -
  note S = shapeD [OF sh] and G = grow_tree [OF sh ld c x] and D = safeD [OF sf] and up = anc_mono [OF grow_tree(2) [OF sh ld c x]]
  have ch: "choosable quorum ?s = choosable quorum s" by (auto simp: choosable_def fun_eq_iff)
  have old: "y \<in> dom (a_tree s)" if "y \<in> dom (a_tree ?s)" "choosable quorum ?s y" "t \<in> a_led s" "p_term y < t" for y t
    using that not_choosable [OF sh sf G(1), of t] ch x by (cases "y = x") auto
  show ?thesis
  proof (rule safeI)
    fix y z
    assume y: "y \<in> dom (a_tree ?s)" "choosable quorum ?s y" and z: "z \<in> dom (a_tree ?s)" "p_term y < p_term z"
    have "p_term z \<in> a_led s" using z(1) S(4) S(8) [OF c] x by (cases "z = x") auto
    with old y z have yd: "y \<in> dom (a_tree s)" by blast
    show "anc (a_tree ?s) z y"
    proof (cases "z = x")
      case True
      with D(3) [OF yd _ c] y z ch x G(5) show ?thesis by simp
    next
      case False
      with D(2) [OF yd] y z ch up show ?thesis by auto
    qed
  next
    fix y d
    assume y: "y \<in> dom (a_tree ?s)" "choosable quorum ?s y" and d: "a_role ?s d = kLeader" "p_term y < a_term ?s d"
    from d S(8) [of d] old y have yd: "y \<in> dom (a_tree s)" by simp
    with D(3) [OF yd, of d] y d ch up G(5) show "anc (a_tree ?s) (a_tip ?s d) y" by auto
  next
    fix y t e
    assume y: "y \<in> dom (a_tree ?s)" "choosable quorum ?s y" and t: "(t, e) \<in> a_sent ?s" "p_term y < t"
    from t S(7) [of t e] old y have yd: "y \<in> dom (a_tree s)" by simp
    from D(4) [OF yd, of t e] y t ch related_mono [OF G(2)] show "related (a_tree ?s) e y" by auto
  next
    fix y p
    assume y: "y \<in> dom (a_tree ?s)" "choosable quorum ?s y" and a: "(p, y) \<in> a_acks ?s"
    from D(5) [OF S(14), of p y p] a y ch up G(5) show "anc (a_tree ?s) (a_tip ?s p) y" by auto
  next
    fix y p d
    assume y: "y \<in> dom (a_tree ?s)" "choosable quorum ?s y" and v: "(p, a_term ?s d, d) \<in> a_votes ?s" "a_role ?s d = kCandidate"
      "p_term y < a_term ?s d" "(p, y) \<in> a_acks ?s"
    from D(6) [OF S(14), of p y p d] v y ch up c show "anc (a_tree ?s) (a_tip ?s d) y" by auto
  qed (use D(1) in simp)
qed

text \<open>A member that stores or acknowledges keeps what it acknowledged, as long as that can be chosen.\<close>

lemma safe_store:
  assumes inv: "shape s" "leading s" "safe quorum s" and e: "(a_term s p, e) \<in> a_sent s" "a_role s p = kFollower" "\<not> anc (a_tree s) (a_tip s p) e"
  shows "safe quorum (s\<lparr>a_tip := (a_tip s)(p := e)\<rparr>)" (is "safe quorum ?s")
proof -
  note S = shapeD [OF inv(1)] and L = leadingD [OF inv(2)] and D = safeD [OF inv(3)]
  have C: "choosable quorum ?s x \<Longrightarrow> choosable quorum s x" for x by (simp add: choosable_def)
  have "anc (a_tree s) e x" if "x \<in> dom (a_tree s)" "choosable quorum ?s x" "(p, x) \<in> a_acks s" for x
  proof -
    have "related (a_tree s) e x"
      using D(4) [OF that(1) C [OF that(2)] e(1)] L(4) [of x e] S(15) [OF that(3)] e(1) that(1)
      by (cases "p_term x = a_term s p") auto
    moreover have "anc (a_tree s) (a_tip s p) x" by (rule D(5) [OF that(1) C [OF that(2)] that(3)])
    ultimately show ?thesis using e(3) by (auto simp: related_def intro: anc_trans)
  qed
  moreover have "a_role s c = kLeader \<Longrightarrow> c \<noteq> p" "a_role s c = kCandidate \<Longrightarrow> c \<noteq> p" for c using e(2) by auto
  ultimately show ?thesis using C D by (intro safeI) (simp; blast)+
qed

lemma safe_acknowledge:
  assumes inv: "shape s" "safe quorum s" and X: "\<And>x. x \<in> X \<Longrightarrow> x \<in> dom (a_tree s) \<and> p_term x = a_term s p \<and> anc (a_tree s) (a_tip s p) x"
  shows "safe quorum (s\<lparr>a_acks := a_acks s \<union> {p} \<times> X\<rparr>)" (is "safe quorum ?s")
proof -
  note S = shapeD [OF inv(1)] and D = safeD [OF inv(2)]
  have "agree_step quorum s ?s" by (rule agree_step.acknowledge [OF X])
  note C = choosable_back [OF this]
  have late: "\<not> p_term x < a_term s c" if "x \<in> X" "(p, a_term s c, c) \<in> a_votes s" for x c
    using X [OF that(1)] S(12) [OF that(2)] by simp
  have eqs: "a_tree ?s = a_tree s" "a_tip ?s = a_tip s" "a_role ?s = a_role s" "a_term ?s = a_term s" "a_votes ?s = a_votes s"
    "a_led ?s = a_led s" "a_sent ?s = a_sent s" "a_acks ?s = a_acks s \<union> {p} \<times> X" by simp_all
  show ?thesis
  proof (rule safeI; unfold eqs)
    fix x q
    assume x: "x \<in> dom (a_tree s)" "choosable quorum ?s x"
    note cx = C [OF x(2)]
    { assume "(q, x) \<in> a_acks s \<union> {p} \<times> X"
      then show "anc (a_tree s) (a_tip s q) x" using D(5) [OF x(1) cx] X by blast }
    show "anc (a_tree s) (a_tip s c) x" if "(q, a_term s c, c) \<in> a_votes s" "a_role s c = kCandidate" "p_term x < a_term s c"
      "(q, x) \<in> a_acks s \<union> {p} \<times> X" for c
      using that D(6) [OF x(1) cx] late by blast
  qed (use C D in blast)+
qed

lemma safe_step:
  assumes "agree_step quorum s s'" and "shape s" and "leading s" and "safe quorum s"
  shows "safe quorum s'"
proof -
  note S = shapeD [OF assms(2)] and L = leadingD [OF assms(3)] and D = safeD [OF assms(4)] and C = choosable_back [OF assms(1)]
  from assms(1) show ?thesis
  proof (cases rule: agree_step.cases)
    case (observe p t)
    have "\<exists>A. quorum A \<and> (\<forall>q \<in> A. u \<le> a_term s' q)" if "u \<in> a_led s'" for u
      using D(1) [of u] that observe(1,2) by (auto, metis order_trans)
    with C D observe(1,2) show ?thesis by (intro safeI) (auto split: if_splits)
  next
    case (timeout c)
    have "\<exists>A. quorum A \<and> (\<forall>q \<in> A. u \<le> a_term s' q)" if "u \<in> a_led s'" for u
      using D(1) [of u] that timeout by (auto, metis le_SucI)
    moreover have "(p, Suc (a_term s c), c) \<notin> a_votes s" for p using S(13) [of p "Suc (a_term s c)" c] by auto
    ultimately show ?thesis using C D timeout by (intro safeI) (auto split: if_splits)
  next
    case (vote c p)
    have "anc (a_tree s) (a_tip s c) x" if "x \<in> dom (a_tree s)" "choosable quorum s' x" "(p, x) \<in> a_acks s" for x
      using up_to_date_has [OF assms(2-4) that(1) C [OF that(2)] vote(4) D(5)] that C by blast
    with C D vote(1) show ?thesis by (intro safeI) (simp; blast)+
  next
    case (elect c A)
    have "anc (a_tree s) (a_tip s c) x" if "x \<in> dom (a_tree s)" "choosable quorum s' x" "p_term x < a_term s c" for x
      using elected_has [OF assms(2,4) elect(2,3,4) that(1) C [OF that(2)] that(3)] .
    moreover have "\<exists>A. quorum A \<and> (\<forall>q \<in> A. u \<le> a_term s' q)" if "u \<in> a_led s'" for u
      using D(1) [of u] that elect(1,3) S(12) [OF elect(4)] by (cases "u = a_term s c") auto
    ultimately show ?thesis using C D elect(1) by (intro safeI) (auto split: if_splits)
  next
    case (grow c x)
    show ?thesis unfolding grow(1) by (rule safe_grow [OF assms(2-4) grow(2,3)])
  next
    case (transmit c e)
    have "related (a_tree s) e x" if "x \<in> dom (a_tree s)" "choosable quorum s' x" "p_term x < a_term s c" for x
      using anc_linear [OF transmit(3) D(3) [OF that(1) C [OF that(2)] transmit(2) that(3)]] .
    with C D transmit(1) show ?thesis by (intro safeI) (simp; blast)+
  next
    case (store p e)
    show ?thesis unfolding store(1) by (rule safe_store [OF assms(2-4) store(2-4)])
  next
    case (acknowledge X p)
    show ?thesis unfolding acknowledge(1) by (rule safe_acknowledge [OF assms(2,4) acknowledge(2)])
  next
    case (learn p z)
    with C D show ?thesis by (intro safeI) auto
  qed
qed

section \<open>Agreement\<close>

lemma chosen_related:
  assumes "shape s" and "leading s" and "safe quorum s" and "chosen quorum s x" "x \<in> dom (a_tree s)"
    and "chosen quorum s y" "y \<in> dom (a_tree s)"
  shows "related (a_tree s) x y"
proof (cases "p_term x" "p_term y" rule: linorder_cases)
  case less
  with safeD(2) [OF assms(3,5) chosen_choosable [OF assms(4)] assms(7)] show ?thesis by (simp add: related_def)
next
  case equal
  with leadingD(3) [OF assms(2,5,7)] show ?thesis by blast
next
  case greater
  with safeD(2) [OF assms(3,7) chosen_choosable [OF assms(6)] assms(5)] show ?thesis by (simp add: related_def)
qed

lemma decided_rooted: "shape s \<Longrightarrow> decided quorum s t z \<Longrightarrow> rooted (a_tree s) z"
  unfolding decided_def
  using anc_between [OF shapeD(1) _ shapeD(3)] by (metis anc_refl le0 point.sel(1))

lemma decided_related:
  assumes inv: "shape s" "leading s" "safe quorum s" and z: "decided quorum s t z" and w: "decided quorum s u w"
  shows "related (a_tree s) z w"
proof (cases "z = At 0 0 \<or> w = At 0 0")
  case True
  with decided_rooted [OF inv(1) z] decided_rooted [OF inv(1) w] show ?thesis by (auto simp: related_def)
next
  case False
  with z obtain x where x: "chosen quorum s x" "x \<in> dom (a_tree s)" "anc (a_tree s) x z" by (auto simp: decided_def)
  from False w obtain y where y: "chosen quorum s y" "y \<in> dom (a_tree s)" "anc (a_tree s) y w" by (auto simp: decided_def)
  from chosen_related [OF inv x(1,2) y(1,2)] have "related (a_tree s) z y" by (rule related_down [OF _ x(3)])
  from related_down [OF related_sym [OF this] y(3)] show ?thesis by (rule related_sym)
qed

text \<open>A message is on one path with everything decided up to its term.\<close>

lemma decided_sent:
  assumes inv: "shape s" "leading s" "safe quorum s" and z: "decided quorum s t z" and e: "(u, e) \<in> a_sent s" and "t \<le> u"
  shows "related (a_tree s) e z"
proof (cases "z = At 0 0")
  case True
  with shapeD(5) [OF inv(1) e] show ?thesis by (simp add: related_def)
next
  case False
  with z obtain x where x: "chosen quorum s x" "x \<in> dom (a_tree s)" "p_term x \<le> t" "anc (a_tree s) x z"
    by (auto simp: decided_def)
  have "related (a_tree s) e x"
    using safeD(4) [OF inv(3) x(2) chosen_choosable [OF x(1)] e] leadingD(4) [OF inv(2), of x e] x(2,3) e assms(6)
    by (cases "p_term x = u") auto
  from related_down [OF related_sym [OF this] x(4)] show ?thesis by (rule related_sym)
qed

text \<open>Leader completeness: a leader has everything decided in its term and before.\<close>

lemma leader_complete:
  assumes inv: "shape s" "leading s" "safe quorum s" and c: "a_role s c = kLeader" and z: "decided quorum s t z" "t \<le> a_term s c"
  shows "anc (a_tree s) (a_tip s c) z"
proof (cases "z = At 0 0")
  case True
  with shapeD(2) [OF inv(1)] show ?thesis by simp
next
  case False
  with z(1) obtain x where x: "chosen quorum s x" "x \<in> dom (a_tree s)" "p_term x \<le> t" "anc (a_tree s) x z"
    by (auto simp: decided_def)
  have "anc (a_tree s) (a_tip s c) x"
    using safeD(3) [OF inv(3) x(2) chosen_choosable [OF x(1)] c] leadingD(1) [OF inv(2) c x(2)] x(3) z(2)
    by (cases "p_term x = a_term s c") auto
  then show ?thesis using x(4) by (rule anc_trans)
qed

lemma committed_step:
  assumes st: "agree_step quorum s s'" and inv: "shape s" "leading s" "safe quorum s" and cm: "committed quorum s"
  shows "committed quorum s'"
proof -
  have D: "decided quorum s (a_term s p) (a_commit s p)" "anc (a_tree s) (a_tip s p) (a_commit s p)" for p
    using cm by (auto simp: committed_def)
  have F: "decided quorum s' (a_term s' p) z" if "decided quorum s (a_term s p) z" for p z
    by (rule decided_forward [OF st inv(1,2) that terms_forward [OF st]])
  have M: "anc (a_tree s') x y" if "anc (a_tree s) x y" for x y by (rule anc_mono [OF tree_forward [OF st inv(1,2)] that])
  have same: "committed quorum s'" if "a_tip s' = a_tip s" "a_commit s' = a_commit s" using that D F M by (simp add: committed_def)
  from st show ?thesis
  proof (cases rule: agree_step.cases)
    case (grow c x)
    have "anc (a_tree s') x (a_commit s c)" using grow_tree(5) [OF inv(1,2) grow(2,3) D(2)] grow(1) by simp
    with grow D F M show ?thesis by (simp add: committed_def)
  next
    case (store p e)
    have "related (a_tree s) e (a_commit s p)" by (rule decided_sent [OF inv D(1) store(2) order_refl])
    then have "anc (a_tree s) e (a_commit s p)" using store(4) D(2) [of p] by (auto simp: related_def intro: anc_trans)
    with store D F M show ?thesis by (simp add: committed_def)
  next
    case (learn p z)
    with D F M show ?thesis by (simp add: committed_def)
  qed (use same in simp_all)
qed

lemma agree_reach_inv: "agree_reach quorum s \<Longrightarrow> shape s \<and> leading s \<and> safe quorum s \<and> committed quorum s"
proof (induction rule: agree_reach.induct)
  case (begin_agree s)
  then show ?case by (simp add: shape_init) (simp add: agree_init_def safe_def committed_def decided_def)
next
  case (next_agree s s')
  then show ?case using shape_step safe_step committed_step by blast
qed

end

end
