(* ===== verification/Probing.thy ===== *)
theory Probing
  imports Agreement
begin

text \<open>
  What a leader knows of the log of another member, in the protocol of \<open>Agreement\<close>. A leader sends what follows an index that
  it believes the member shares with it. When the member has a wrong record, the belief must not be below the first wrong
  record, or else the member would accept a request and keep the wrong records behind it. Here this belief is stated
  on the points of the tree, and shown to survive every step of the protocol, whatever leads to it. \<open>Consensus\<close> shows
  that the next index of the program's leaders is such a belief.
\<close>

section \<open>Points off a path\<close>

text \<open>Either \<open>y\<close> is on the path of \<open>x\<close>, or its own path has left that path at an index up to \<open>h\<close>.\<close>

definition off_path :: "record_tree \<Rightarrow> point \<Rightarrow> point \<Rightarrow> nat \<Rightarrow> bool" where
  "off_path t x y h \<longleftrightarrow> anc t x y \<or> (\<exists>k. anc t y k \<and> \<not> anc t x k \<and> p_index k \<le> h)"

text \<open>The same with a witness of the term of \<open>v\<close> that descends from \<open>v\<close>.\<close>

definition off_since :: "record_tree \<Rightarrow> point \<Rightarrow> point \<Rightarrow> point \<Rightarrow> bool" where
  "off_since t x y v \<longleftrightarrow> anc t x y \<or> (\<exists>k. anc t y k \<and> \<not> anc t x k \<and> p_term k = p_term v \<and> anc t k v)"

text \<open>From index \<open>h\<close> on, the path of \<open>x\<close> is of term \<open>u\<close>.\<close>

definition term_from :: "record_tree \<Rightarrow> point \<Rightarrow> nat \<Rightarrow> nat \<Rightarrow> bool" where
  "term_from t x u h \<longleftrightarrow> (\<forall>w. anc t x w \<longrightarrow> h \<le> p_index w \<longrightarrow> p_term w = u)"

lemma off_path_mono: "off_path t x y h \<Longrightarrow> h \<le> h' \<Longrightarrow> off_path t x y h'"
  unfolding off_path_def by (meson order_trans)

lemma term_from_mono: "term_from t x u h \<Longrightarrow> h \<le> h' \<Longrightarrow> term_from t x u h'"
  unfolding term_from_def by (meson order_trans)

lemma off_path_shared:
  assumes ok: "tree_ok t" and o: "off_path t x y h" and w: "anc t y w" "anc t x w" "h \<le> p_index w"
  shows "anc t x y"
  using o unfolding off_path_def
proof
  assume "\<exists>k. anc t y k \<and> \<not> anc t x k \<and> p_index k \<le> h"
  then obtain k where k: "anc t y k" "\<not> anc t x k" "p_index k \<le> h" by blast
  from anc_between [OF ok w(1) k(1)] k(3) w(3) have "anc t w k" by simp
  with w(2) k(2) show ?thesis using anc_trans by blast
qed

lemma off_path_long: "p_index y \<le> h \<Longrightarrow> off_path t x y h"
  unfolding off_path_def by (metis anc_refl)

lemma anc_at:
  assumes "tree_ok t" and "rooted t x" and "k \<le> p_index x"
  shows "\<exists>w. anc t x w \<and> p_index w = k"
  using assms(2,3)
proof (induction rule: anc_induct)
  case here
  then show ?case by (intro exI [of _ "At 0 0"]) simp
next
  case (parent x y)
  have "p_index x = Suc (p_index y)" using assms(1) parent.hyps(1) unfolding tree_ok_def by blast
  show ?case
  proof (cases "k = p_index x")
    case True
    then show ?thesis by (intro exI [of _ x]) simp
  next
    case False
    with parent.prems \<open>p_index x = Suc (p_index y)\<close> parent.IH obtain w where "anc t y w" "p_index w = k" by auto
    with anc_parent [of t x y w] parent.hyps(1) show ?thesis by blast
  qed
qed

text \<open>It is enough to look at the one ancestor at index \<open>h\<close>.\<close>

lemma off_pathI:
  assumes ok: "tree_ok t" and r: "rooted t y" and at: "\<And>w. anc t y w \<Longrightarrow> p_index w = h \<Longrightarrow> anc t x w \<Longrightarrow> anc t x y"
  shows "off_path t x y h"
proof (cases "p_index y \<le> h")
  case False
  with anc_at [OF ok r, of h] obtain w where w: "anc t y w" "p_index w = h" by auto
  with at show ?thesis unfolding off_path_def by blast
qed (rule off_path_long)

lemma off_path_end:
  assumes "tree_ok t" and "rooted t y" and "p_index x < h"
  shows "off_path t x y h"
  by (rule off_pathI [OF assms(1,2)]) (use anc_le(1) [OF assms(1)] assms(3) in fastforce)

lemma off_path_term:
  assumes "tree_ok t" and "rooted t y" and "term_from t x u h" and "p_term y < u"
  shows "off_path t x y h"
proof (rule off_pathI [OF assms(1,2)])
  fix w
  assume w: "anc t y w" "p_index w = h" "anc t x w"
  then have "p_term w = u" using assms(3) by (simp add: term_from_def)
  with anc_le(2) [OF assms(1) w(1)] assms(4) show "anc t x y" by simp
qed

text \<open>New records leave all this alone, as long as \<open>x\<close> grows only by a record that \<open>y\<close> cannot have.\<close>

lemma off_path_ext:
  assumes ok: "tree_ok t'" and le: "t \<subseteq>\<^sub>m t'" and r: "rooted t x" "rooted t y"
  shows "off_path t' x y h \<longleftrightarrow> off_path t x y h" and "off_since t' x y v \<longleftrightarrow> off_since t x y v"
    and "term_from t' x u h \<longleftrightarrow> term_from t x u h"
proof -
  note X = anc_ext [OF ok le r(1)] and Y = anc_ext [OF ok le r(2)]
  show "off_path t' x y h \<longleftrightarrow> off_path t x y h" by (simp add: off_path_def X Y)
  show "term_from t' x u h \<longleftrightarrow> term_from t x u h" by (simp add: term_from_def X)
  have tok: "tree_ok t" using ok le unfolding tree_ok_def by (metis domI map_le_def)
  have "anc t' k v \<longleftrightarrow> anc t k v" if "anc t y k" for k
    using anc_ext [OF ok le, of k] anc_between [OF tok r(2) that] that anc_between [OF tok that r(2)] by simp
  then show "off_since t' x y v \<longleftrightarrow> off_since t x y v" unfolding off_since_def X Y by blast
qed

lemma anc_grown:
  assumes ok: "tree_ok t" and new: "x' \<notin> dom t" "p_index x' \<noteq> 0" and y: "rooted t y" "anc t y k"
  shows "anc (t(x' \<mapsto> x)) x' k \<longleftrightarrow> anc (t(x' \<mapsto> x)) x k"
proof
  have "rooted t k" using anc_between [OF ok y(2) y(1)] by simp
  then have ne: "k \<noteq> x'" using rooted_dom [of t k] new by auto
  assume "anc (t(x' \<mapsto> x)) x' k"
  then show "anc (t(x' \<mapsto> x)) x k" by (cases rule: anc_cases) (use ne in auto)
qed (auto intro: anc_parent)

lemma off_path_grow:
  assumes ok: "tree_ok t" "tree_ok (t(x' \<mapsto> x))" and new: "x' \<notin> dom t" "p_index x' \<noteq> 0" and r: "rooted t x" "rooted t y"
  shows "off_path t x y h \<Longrightarrow> off_path (t(x' \<mapsto> x)) x' y h" and "off_since t x y v \<Longrightarrow> off_since (t(x' \<mapsto> x)) x' y v"
    and "term_from t x u h \<Longrightarrow> p_term x' = u \<Longrightarrow> term_from (t(x' \<mapsto> x)) x' u h"
proof -
  let ?t = "t(x' \<mapsto> x)"
  have le: "t \<subseteq>\<^sub>m ?t" using new(1) by (auto simp: map_le_def)
  note E = off_path_ext [OF ok(2) le r] and G = anc_grown [OF ok(1) new r(2), of _ x] and Y = anc_ext [OF ok(2) le r(2)]
  have yy: "anc t y k \<Longrightarrow> anc ?t x' k \<longleftrightarrow> anc ?t x k" for k by (rule G)
  have self: "anc ?t x' y \<longleftrightarrow> anc ?t x y" by (rule yy) simp
  show "off_path ?t x' y h" if "off_path t x y h"
    using that unfolding E(1) [symmetric] unfolding off_path_def Y self using yy by blast
  show "off_since ?t x' y v" if "off_since t x y v"
    using that unfolding E(2) [symmetric] unfolding off_since_def Y self using yy by blast
  show "term_from ?t x' u h" if f: "term_from t x u h" and u: "p_term x' = u"
    unfolding term_from_def
  proof (intro allI impI)
    fix w
    assume "anc ?t x' w" and "h \<le> p_index w"
    then show "p_term w = u"
    proof (cases rule: anc_cases)
      case (2 z)
      with f [folded E(3) [of u h]] \<open>h \<le> p_index w\<close> show ?thesis by (simp add: term_from_def)
    qed (use u in simp)
  qed
qed

section \<open>Beliefs of a leader\<close>

text \<open>
  \<open>p\<close> holds no wrong record below index \<open>h\<close> without holding one already there. Before \<open>p\<close> has reached the leader's term the
  leader has not heard of it, and knows only that its own records from \<open>h\<close> on are new.
\<close>

definition ahead :: "'p agreement \<Rightarrow> 'p \<Rightarrow> 'p \<Rightarrow> nat \<Rightarrow> bool" where
  "ahead s c p h \<longleftrightarrow> (a_term s p < a_term s c \<longrightarrow> term_from (a_tree s) (a_tip s c) (a_term s c) h) \<and>
     (a_term s p = a_term s c \<longrightarrow> off_path (a_tree s) (a_tip s c) (a_tip s p) h)"

text \<open>\<open>p\<close> has answered with the first point of the term of a record that the leader does not have.\<close>

definition hinted :: "'p agreement \<Rightarrow> 'p \<Rightarrow> 'p \<Rightarrow> point \<Rightarrow> bool" where
  "hinted s c p v \<longleftrightarrow> a_term s c \<le> a_term s p \<and>
     (a_term s p = a_term s c \<longrightarrow> off_since (a_tree s) (a_tip s c) (a_tip s p) v)"

text \<open>Everything on the path of \<open>x\<close> was sent in term \<open>t\<close>.\<close>

definition vouched :: "'p agreement \<Rightarrow> nat \<Rightarrow> point \<Rightarrow> bool" where
  "vouched s t x \<longleftrightarrow> (\<exists>e. (t, e) \<in> a_sent s \<and> anc (a_tree s) e x)"

text \<open>A request of term \<open>t\<close> to \<open>p\<close>, sent with the tip \<open>x\<close>, for the records from \<open>h\<close> on.\<close>

definition probe :: "'p agreement \<Rightarrow> nat \<Rightarrow> point \<Rightarrow> 'p \<Rightarrow> nat \<Rightarrow> bool" where
  "probe s t x p h \<longleftrightarrow> (t, x) \<in> a_sent s \<and> (a_term s p < t \<longrightarrow> term_from (a_tree s) x t h) \<and>
     (a_term s p = t \<longrightarrow> a_role s p \<noteq> kLeader \<longrightarrow>
       (\<forall>w. anc (a_tree s) (a_tip s p) w \<longrightarrow> anc (a_tree s) x w \<longrightarrow> h \<le> p_index w \<longrightarrow> vouched s t (a_tip s p)))"

text \<open>What is sent in one term is on one path, and no term is zero.\<close>

definition one_path :: "'p agreement \<Rightarrow> bool" where
  "one_path s \<longleftrightarrow> 0 \<notin> a_led s \<and> (\<forall>t e e'. (t, e) \<in> a_sent s \<longrightarrow> (t, e') \<in> a_sent s \<longrightarrow> related (a_tree s) e e')"

lemma one_path_step:
  assumes "agree_step Q s s'" and "shape s" and "leading s" and "one_path s"
  shows "one_path s'"
proof -
  note S = shapeD [OF assms(2)] and L = leadingD [OF assms(3)]
  from assms(1) show ?thesis
  proof (cases rule: agree_step.cases)
    case (elect c A)
    with S(11) [of c] assms(4) show ?thesis by (simp add: one_path_def)
  next
    case (grow c x)
    from grow_tree(2) [OF assms(2,3) grow(2,3)] assms(4) grow(1) show ?thesis by (auto simp: one_path_def intro: related_mono)
  next
    case (transmit c e)
    have "related (a_tree s) e e'" "related (a_tree s) e' e" if "(a_term s c, e') \<in> a_sent s" for e'
      using anc_linear [OF transmit(3) L(2) [OF transmit(2) that]] related_sym by blast+
    with assms(4) transmit(1) show ?thesis by (auto simp: one_path_def related_def)
  qed (use assms(4) in \<open>simp_all add: one_path_def\<close>)
qed

lemma one_path_reach: "agree_reach Q s \<Longrightarrow> one_path s"
proof (induction rule: agree_reach.induct)
  case (next_agree s s')
  then show ?case using one_path_step agree_reach_shape by blast
qed (simp add: agree_init_def one_path_def)

lemma ahead_mono: "ahead s c p h \<Longrightarrow> h \<le> h' \<Longrightarrow> ahead s c p h'"
  unfolding ahead_def using off_path_mono term_from_mono by blast

lemma ahead_self: "ahead s c c h"
  by (simp add: ahead_def off_path_def)

lemma ahead_end:
  assumes "shape s" and "p_index (a_tip s c) < h"
  shows "ahead s c p h"
  using off_path_end [OF shapeD(1,2) [OF assms(1)] assms(2)] anc_le(1) [OF shapeD(1) [OF assms(1)]] assms(2)
  by (fastforce simp: ahead_def term_from_def)

lemma ahead_reached: "a_term s c \<le> a_term s p \<Longrightarrow> p_index (a_tip s p) \<le> h \<Longrightarrow> ahead s c p h"
  by (simp add: ahead_def off_path_long)

lemma ahead_probe:
  assumes "shape s" and "a_role s c = kLeader" and "ahead s c p h" and "(a_term s c, a_tip s c) \<in> a_sent s"
  shows "probe s (a_term s c) (a_tip s c) p h"
  using assms(3,4) off_path_shared [OF shapeD(1) [OF assms(1)]] unfolding probe_def ahead_def vouched_def by blast

text \<open>A member moves to a later term with a log that has nothing of it.\<close>

lemma ahead_reach_term:
  assumes sh: "shape s" and a: "ahead s c p h" and t: "a_term s p < a_term s c"
  shows "off_path (a_tree s) (a_tip s c) (a_tip s p) h"
proof -
  note S = shapeD [OF sh]
  have f: "term_from (a_tree s) (a_tip s c) (a_term s c) h" using a t by (simp add: ahead_def)
  show ?thesis by (rule off_path_term [OF S(1,2) f]) (use S(10) [of p] t in simp)
qed

lemma probe_reach_term:
  assumes sh: "shape s" and pr: "probe s t x p h" and lt: "a_term s p < t" and w: "anc (a_tree s) (a_tip s p) w" "anc (a_tree s) x w"
  shows "p_index w < h"
proof (rule ccontr)
  note S = shapeD [OF sh]
  assume "\<not> p_index w < h"
  then have "p_term w = t" using pr lt w(2) by (simp add: probe_def term_from_def)
  with anc_le(2) [OF S(1) w(1)] S(10) [of p] lt show False by simp
qed

section \<open>Beliefs last\<close>

lemma leader_back:
  assumes "agree_step Q s s'" and "a_role s' c = kLeader" and "a_term s' c \<in> a_led s"
  shows "a_role s c = kLeader" and "a_term s c = a_term s' c" and "a_tip s' c = a_tip s c \<or> a_tree s' = (a_tree s)(a_tip s' c \<mapsto> a_tip s c) \<and>
      a_tip s' c = At (Suc (p_index (a_tip s c))) (a_term s c)"
  using assms by (cases rule: agree_step.cases; auto split: if_splits)+

text \<open>What a step of the protocol can do to a leader \<open>c\<close> and another member \<open>p\<close>, as far as beliefs see it.\<close>

lemma leader_step:
  assumes st: "agree_step Q s s'" and sh: "shape s" and ld: "leading s" and c: "a_role s c = kLeader" "a_role s' c = kLeader"
    "a_term s' c = a_term s c" and p: "a_term s' p \<le> a_term s' c" "p \<noteq> c"
  obtains (same) "a_tree s \<subseteq>\<^sub>m a_tree s'" "tree_ok (a_tree s')" "a_tip s' c = a_tip s c" "a_tip s' p = a_tip s p" "a_term s p \<le> a_term s' p"
  | (grown) "a_tree s' = (a_tree s)(a_tip s' c \<mapsto> a_tip s c)" "a_tip s' c \<notin> dom (a_tree s)" "p_index (a_tip s' c) \<noteq> 0"
    "p_term (a_tip s' c) = a_term s c" "tree_ok (a_tree s')" "a_tip s' p = a_tip s p" "a_term s' p = a_term s p"
  | (stored) "a_tree s' = a_tree s" "a_tip s' c = a_tip s c" "a_term s' p = a_term s p" "(a_term s p, a_tip s' p) \<in> a_sent s"
  | (low) "a_tree s \<subseteq>\<^sub>m a_tree s'" "tree_ok (a_tree s')" "a_tip s' c = a_tip s c" "a_term s p < a_term s c" "a_term s' p < a_term s' c"
proof -
  note S = shapeD [OF sh]
  have ok': "tree_ok (a_tree s')" using shape_step [OF st sh ld] shapeD(1) by blast
  note le = tree_forward [OF st sh ld]
  from st show thesis
  proof (cases rule: agree_step.cases)
    case (grow d x)
    show thesis
    proof (cases "d = c")
      case True
      with grow p grow_tree(1) [OF sh ld grow(2,3)] ok' show thesis by (intro grown) auto
    next
      case False
      show thesis
      proof (cases "d = p")
        case True
        with S(9) [OF grow(2) c(1)] p False grow(1) c(3) have "a_term s p < a_term s c" by force
        with le ok' grow(1) False p c(3) show thesis by (intro low) auto
      next
        case d: False
        with False le ok' grow(1) show thesis by (intro same) auto
      qed
    qed
  next
    case (store q e)
    show thesis
    proof (cases "q = p")
      case True
      with store p show thesis by (intro stored) auto
    next
      case False
      with store c(1) le ok' show thesis by (intro same) auto
    qed
  qed (use c p le ok' in \<open>auto intro!: same split: if_splits\<close>)
qed

lemma ahead_step:
  assumes st: "agree_step Q s s'" and sh: "shape s" and ld: "leading s" and c: "a_role s c = kLeader" "a_role s' c = kLeader"
    "a_term s' c = a_term s c" and a: "ahead s c p h"
  shows "ahead s' c p h"
proof (cases "p = c \<or> a_term s' c < a_term s' p")
  case True
  then show ?thesis by (auto simp: ahead_self) (simp add: ahead_def)
next
  case False
  note S = shapeD [OF sh]
  from False have p: "a_term s' p \<le> a_term s' c" "p \<noteq> c" by auto
  from st sh ld c p show ?thesis
  proof (cases rule: leader_step)
    case same
    note E = off_path_ext [OF same(2,1) S(2) [of c] S(2) [of p]]
    from same(3-5) a ahead_reach_term [OF sh a] c(3) show ?thesis by (auto simp: ahead_def E)
  next
    case grown
    note G = off_path_grow [OF S(1) grown(5) [unfolded grown(1)] grown(2,3) S(2) [of c] S(2) [of p]]
    from grown(1,4,6,7) a c(3) G(1,3) show ?thesis by (simp add: ahead_def)
  next
    case stored
    have "anc (a_tree s) (a_tip s c) (a_tip s' p)" if "a_term s p = a_term s c"
      using leadingD(2) [OF ld c(1)] stored(4) that by simp
    with stored(1-3) a c(3) show ?thesis by (auto simp: ahead_def off_path_def)
  next
    case low
    note E = off_path_ext(3) [OF low(2,1) S(2) [of c] S(2) [of c]]
    from low a c(3) show ?thesis by (simp add: ahead_def E)
  qed
qed

lemma hinted_step:
  assumes st: "agree_step Q s s'" and sh: "shape s" and ld: "leading s" and c: "a_role s c = kLeader" "a_role s' c = kLeader"
    "a_term s' c = a_term s c" and a: "hinted s c p v"
  shows "hinted s' c p v"
proof (cases "p = c \<or> a_term s' c < a_term s' p")
  case True
  then show ?thesis by (auto simp: hinted_def off_since_def)
next
  case False
  note S = shapeD [OF sh] and T = terms_forward [OF st, of p]
  from False have p: "a_term s' p \<le> a_term s' c" "p \<noteq> c" by auto
  from st sh ld c p show ?thesis
  proof (cases rule: leader_step)
    case same
    note E = off_path_ext(2) [OF same(2,1) S(2) [of c] S(2) [of p]]
    from same(3-5) a c(3) show ?thesis by (auto simp: hinted_def E)
  next
    case grown
    note G = off_path_grow(2) [OF S(1) grown(5) [unfolded grown(1)] grown(2,3) S(2) [of c] S(2) [of p]]
    from grown(1,6,7) a c(3) G show ?thesis by (simp add: hinted_def)
  next
    case stored
    have "anc (a_tree s) (a_tip s c) (a_tip s' p)" if "a_term s p = a_term s c"
      using leadingD(2) [OF ld c(1)] stored(4) that by simp
    with stored(1-3) a c(3) show ?thesis by (auto simp: hinted_def off_since_def)
  next
    case low
    with a show ?thesis by (simp add: hinted_def)
  qed
qed

lemma vouched_step:
  assumes "agree_step Q s s'" and "shape s" and "leading s" and "vouched s t x"
  shows "vouched s' t x"
proof -
  have "a_sent s \<subseteq> a_sent s'" using assms(1) by (cases rule: agree_step.cases) auto
  with assms(4) anc_mono [OF tree_forward [OF assms(1-3)]] show ?thesis unfolding vouched_def by blast
qed

text \<open>A request stays what it was for a member that has not led its term: the log only changes to something else sent in the term.\<close>

lemma follower_step:
  assumes st: "agree_step Q s s'" and sh: "shape s" and ld: "leading s" and t: "t \<in> a_led s" "a_term s' p = t" "a_role s' p \<noteq> kLeader"
  shows "vouched s' t (a_tip s' p) \<or> a_term s p \<le> t \<and> a_tip s' p = a_tip s p \<and> (a_term s p = t \<longrightarrow> a_role s p \<noteq> kLeader)"
proof -
  note V = vouched_step [OF st sh ld]
  have now: "(u, a_tip s q) \<in> a_sent s \<Longrightarrow> vouched s u (a_tip s q)" "(u, e) \<in> a_sent s \<Longrightarrow> vouched s u e" for u q e
    using anc_refl unfolding vouched_def by blast+
  from st show ?thesis
  proof (cases rule: agree_step.cases)
    case (observe q u)
    then show ?thesis using t V now(1) [of u p] by (cases "q = p"; cases "a_role s p = kLeader \<and> u = a_term s p") auto
  next
    case (store q e)
    then show ?thesis using t V now(2) [of t e] by (cases "q = p") auto
  qed (use t in \<open>auto split: if_splits\<close>)
qed

lemma probe_step:
  assumes st: "agree_step Q s s'" and sh: "shape s" and ld: "leading s" and pr: "probe s t x p h"
  shows "probe s' t x p h"
proof -
  note S = shapeD [OF sh]
  have x: "(t, x) \<in> a_sent s" using pr by (simp add: probe_def)
  have ok': "tree_ok (a_tree s')" using shape_step [OF st sh ld] shapeD(1) by blast
  note le = tree_forward [OF st sh ld] and X = anc_ext [OF ok' le S(5) [OF x]] and P = anc_ext [OF ok' le S(2) [of p]]
  have "(t, x) \<in> a_sent s'" using st x by (cases rule: agree_step.cases) auto
  moreover have "term_from (a_tree s') x t h" if "a_term s' p < t"
    using pr terms_forward [OF st, of p] that by (simp add: probe_def term_from_def X)
  moreover have "vouched s' t (a_tip s' p)" if t: "a_term s' p = t" "a_role s' p \<noteq> kLeader"
    and w: "anc (a_tree s') (a_tip s' p) w" "anc (a_tree s') x w" "h \<le> p_index w" for w
    using follower_step [OF st sh ld S(7) [OF x] t]
  proof
    assume f: "a_term s p \<le> t \<and> a_tip s' p = a_tip s p \<and> (a_term s p = t \<longrightarrow> a_role s p \<noteq> kLeader)"
    with w X P have w': "anc (a_tree s) (a_tip s p) w" "anc (a_tree s) x w" by simp_all
    from f probe_reach_term [OF sh pr _ w'] w(3) have "a_term s p = t" "a_role s p \<noteq> kLeader" by (auto simp: le_less)
    with pr w' w(3) f vouched_step [OF st sh ld] show ?thesis unfolding probe_def by metis
  qed
  ultimately show ?thesis unfolding probe_def by blast
qed

text \<open>Sequences of steps.\<close>

lemma terms_steps: "(agree_step Q)\<^sup>*\<^sup>* s s' \<Longrightarrow> a_term s p \<le> a_term s' p"
  by (induction rule: rtranclp_induct) (auto intro: order_trans terms_forward)

lemma led_steps: "(agree_step Q)\<^sup>*\<^sup>* s s' \<Longrightarrow> a_led s \<subseteq> a_led s'"
proof (induction rule: rtranclp_induct)
  case (step b c)
  from step(2) have "a_led b \<subseteq> a_led c" by (cases rule: agree_step.cases) auto
  with step show ?case by blast
qed simp

lemma reach_steps: "(agree_step Q)\<^sup>*\<^sup>* s s' \<Longrightarrow> agree_reach Q s \<Longrightarrow> agree_reach Q s'"
  by (induction rule: rtranclp_induct) (auto intro: agree_reach.next_agree)

lemma probe_steps:
  assumes "(agree_step Q)\<^sup>*\<^sup>* s s'" and "agree_reach Q s" and "probe s t x p h"
  shows "probe s' t x p h"
  using assms(1)
proof (induction rule: rtranclp_induct)
  case (step b c)
  have "shape b" "leading b" using agree_reach_shape [OF reach_steps [OF step(1) assms(2)]] by simp_all
  from probe_step [OF step(2) this step.IH] show ?case .
qed (rule assms(3))

lemma beliefs_steps:
  assumes "(agree_step Q)\<^sup>*\<^sup>* s s'" and "agree_reach Q s" and "a_role s' c = kLeader" and "a_term s' c \<in> a_led s"
  shows "a_role s c = kLeader \<and> a_term s c = a_term s' c \<and> (ahead s c p h \<longrightarrow> ahead s' c p h) \<and> (hinted s c p v \<longrightarrow> hinted s' c p v)"
  using assms(1,3,4)
proof (induction rule: rtranclp_induct)
  case (step b d)
  have sh: "shape b" "leading b" using agree_reach_shape [OF reach_steps [OF step(1) assms(2)]] by simp_all
  have "a_term d c \<in> a_led b" using led_steps [OF step(1)] step.prems(2) by blast
  note L = leader_back(1,2) [OF step(2) step.prems(1) this]
  from step.IH L step.prems ahead_step [OF step(2) sh L(1) step.prems(1) L(2) [symmetric]]
    hinted_step [OF step(2) sh L(1) step.prems(1) L(2) [symmetric]] show ?case by auto
qed simp

text \<open>What the sender had committed is on the path of a member that accepts the request.\<close>

lemma probe_related:
  assumes "one_path s" and "probe s t x p h" and "a_term s p = t" and "a_role s p \<noteq> kLeader"
    and w: "anc (a_tree s) (a_tip s p) w" "anc (a_tree s) x w" "h \<le> p_index w" and z: "anc (a_tree s) x z"
  shows "related (a_tree s) (a_tip s p) z"
proof -
  from assms(2-4) w have "vouched s t (a_tip s p)" unfolding probe_def by blast
  then obtain e where e: "(t, e) \<in> a_sent s" "anc (a_tree s) e (a_tip s p)" unfolding vouched_def by blast
  have "related (a_tree s) e x" using assms(1,2) e(1) unfolding one_path_def probe_def by blast
  then show ?thesis unfolding related_def [of _ e]
  proof
    assume "anc (a_tree s) e x"
    from anc_linear [OF e(2) anc_trans [OF this z]] show ?thesis .
  next
    assume "anc (a_tree s) x e"
    from anc_linear [OF anc_trans [OF this e(2)] z] show ?thesis .
  qed
qed

end
