(* ===== verification/LogMatching.thy ===== *)
theory LogMatching
  imports Cluster
begin

text \<open>
  Log matching: in a cluster whose members exchange AppendEntries and InstallSnapshot messages, two logs that have a record of the same
  term at the same index agree in everything before it. The steps are those of \<open>Cluster\<close>, with the messages on the network as
  part of the state. A ghost carries the argument: \<open>born\<close> records for every (index, term) that a leader ever appended the term
  of the record before it and the command; a log is a path through it, so what precedes a record is determined by its
  index and term.
\<close>

section \<open>Paths\<close>

type_synonym births = "u64 \<times> u64 \<Rightarrow> (u64 \<times> string) option"

fun log_chain :: "births \<Rightarrow> u64 \<Rightarrow> LogRecord list \<Rightarrow> bool" where
  "log_chain b t [] \<longleftrightarrow> True"
| "log_chain b t (r # rs) \<longleftrightarrow> b (lr_index r, lr_term r) = Some (t, lr_command r) \<and> log_chain b (lr_term r) rs"

text \<open>The first record of a log is its boundary; nothing is required of its command.\<close>

fun log_path :: "births \<Rightarrow> LogRecord list \<Rightarrow> bool" where
  "log_path b [] \<longleftrightarrow> True"
| "log_path b (r # rs) \<longleftrightarrow> log_chain b (lr_term r) rs"

definition end_term :: "u64 \<Rightarrow> LogRecord list \<Rightarrow> u64" where
  "end_term t rs = (if rs = [] then t else lr_term (last rs))"

lemma chain_append: "log_chain b t (xs @ ys) \<longleftrightarrow> log_chain b t xs \<and> log_chain b (end_term t xs) ys"
  by (induction xs arbitrary: t) (simp_all add: end_term_def)

lemma chain_take: "log_chain b t xs \<Longrightarrow> log_chain b t (take k xs)"
  by (metis append_take_drop_id chain_append)

lemma path_app: "xs \<noteq> [] \<Longrightarrow> log_path b (xs @ ys) \<longleftrightarrow> log_path b xs \<and> log_chain b (lr_term (last xs)) ys"
  by (cases xs) (auto simp: chain_append end_term_def)

lemma path_drop:
  assumes "log_path b l" and "k < length l"
  shows "log_chain b (lr_term (l ! k)) (drop (Suc k) l)"
proof -
  have "l = take (Suc k) l @ drop (Suc k) l" by simp
  moreover have "take (Suc k) l \<noteq> []" "lr_term (last (take (Suc k) l)) = lr_term (l ! k)"
    using assms(2) by (auto simp: last_take_Suc)
  ultimately show ?thesis using assms(1) path_app by metis
qed

lemma path_take: "log_path b l \<Longrightarrow> log_path b (take k l)"
  by (cases l; cases k) (simp_all add: chain_take)

lemma chain_mono: "b \<subseteq>\<^sub>m b' \<Longrightarrow> log_chain b t rs \<Longrightarrow> log_chain b' t rs"
  by (induction rs arbitrary: t) (auto simp: map_le_def dom_def)

lemma path_mono: "b \<subseteq>\<^sub>m b' \<Longrightarrow> log_path b l \<Longrightarrow> log_path b' l"
  by (cases l) (auto intro: chain_mono)

text \<open>The reference merge of \<open>AppendEntries\<close> stays on paths.\<close>

lemma chain_merge: "log_chain b t ls \<Longrightarrow> log_chain b t es \<Longrightarrow> log_chain b t (merge_records ls es)"
  by (induction ls es arbitrary: t rule: merge_records.induct) auto

lemma path_merged_log:
  assumes wf: "log_wf n" and p: "log_path b (log n)" and ok: "prev_ok q n"
    and c: "log_chain b (prev_log_term q) (map record_of_entry (entries q))"
  shows "log_path b (merged_log q n)"
proof -
  let ?j = "unat (prev_log_index q) - unat (last_snapshot_index n)"
  from ok have bd: "last_snapshot_index n \<le> prev_log_index q" "prev_log_index q \<le> LastLogIndexLocked n"
    using log_wf_HasLog [OF wf] by (auto simp: prev_ok_def)
  note at = log_wf_nth [OF wf bd]
  have t: "lr_term (log n ! ?j) = prev_log_term q"
    using ok at(1) TermAtIndexLocked_eq [OF wf, of "prev_log_index q"] by (simp add: prev_ok_def)
  have tk: "take (Suc ?j) (log n) \<noteq> []" "lr_term (last (take (Suc ?j) (log n))) = prev_log_term q"
    using at(2) t by (auto simp: last_take_Suc)
  have "log_chain b (prev_log_term q) (merge_records (drop (Suc ?j) (log n)) (map record_of_entry (entries q)))"
    using path_drop [OF p at(2)] c t by (auto intro: chain_merge)
  then show ?thesis
    using path_take [OF p, of "Suc ?j"] by (simp add: merged_log_def path_app [OF tk(1)] tk(2) Let_def)
qed

lemma path_Compact:
  assumes wf: "log_wf n" and p: "log_path b (log n)"
  shows "log_path b (log (CompactLogPrefixLocked idx trm n))"
proof (cases "idx \<le> last_snapshot_index n")
  case True
  then show ?thesis using p by (simp add: CompactLogPrefixLocked_stale [OF wf])
next
  case False
  then have new: "last_snapshot_index n < idx" by simp
  show ?thesis
  proof (cases "boundary_matches idx trm n")
    case True
    then obtain r where r: "r \<in> set (log n)" "lr_index r = idx" "lr_term r = trm" by (auto simp: boundary_matches_def)
    have at: "LogAtIndexLocked idx n = Some r"
      using r by (simp add: LogAtIndexLocked_Some_iff [OF log_wfD(2) [OF wf]])
    then have "HasLogAtIndexLocked idx n" by (simp add: LogAtIndexLocked_def split: if_splits)
    then have bd: "last_snapshot_index n \<le> idx" "idx \<le> LastLogIndexLocked n" by (simp_all add: log_wf_HasLog [OF wf])
    note nth = log_wf_nth [OF wf bd]
    have "lr_term (log n ! (unat idx - unat (last_snapshot_index n))) = trm" using nth(1) at r(3) by simp
    with path_drop [OF p nth(2)] True show ?thesis
      by (simp add: CompactLogPrefixLocked_new [OF wf new] snapshot_marker_def)
  qed (simp add: CompactLogPrefixLocked_new [OF wf new])
qed

text \<open>A batch is a piece of the leader's log, after the record it names.\<close>

lemma batch_records:
  assumes wf: "log_wf n" and room: "LastLogIndexLocked n < - 1"
    and bq: "BuildAppendEntriesRequest pid t n = (BatchAppend q, n')"
  defines "j \<equiv> unat (prev_log_index q) - unat (last_snapshot_index n)"
  shows "j < length (log n)" and "lr_index (log n ! j) = prev_log_index q" and "lr_term (log n ! j) = prev_log_term q"
    and "\<exists>k. map record_of_entry (entries q) = take k (drop (Suc j) (log n))"
proof -
  note B = Build_request [OF wf room bq]
  have le: "prev_log_index q \<le> LastLogIndexLocked n" using B(7) by (cases "prev_log_index q = 0") auto
  note nth = log_wf_nth [OF wf B(6) le, folded j_def]
  show "j < length (log n)" "lr_index (log n ! j) = prev_log_index q" by (rule nth)+
  show "lr_term (log n ! j) = prev_log_term q"
    using nth(1) B(8) TermAtIndexLocked_eq [OF wf, of "prev_log_index q"] by simp
  have "prev_log_index q < - 1" using le room by simp
  from unat_add_one [OF this] have "log_from (prev_log_index q + 1) n = drop (Suc j) (log n)"
    using B(6) by (simp add: log_from_def u64_simps Suc_diff_le j_def)
  with B(9) obtain k where "entries q = map entry_of_record (take k (drop (Suc j) (log n)))" by auto
  moreover have "record_of_entry (entry_of_record r) = r" for r by (simp add: record_of_entry_def entry_of_record_def)
  ultimately show "\<exists>k. map record_of_entry (entries q) = take k (drop (Suc j) (log n))" by (auto simp: o_def)
qed

lemma path_batch:
  assumes wf: "log_wf n" and room: "LastLogIndexLocked n < - 1" and p: "log_path b (log n)"
    and bq: "BuildAppendEntriesRequest pid t n = (BatchAppend q, n')"
  shows "log_chain b (prev_log_term q) (map record_of_entry (entries q))"
  using batch_records [OF wf room bq] path_drop [OF p, of "unat (prev_log_index q) - unat (last_snapshot_index n)"]
  by (auto simp: chain_take)

section \<open>Two paths agree\<close>

lemma path_agree:
  assumes p: "log_path b l" "log_path b l'" and k: "Suc i < length l" "Suc j < length l'"
    and eq: "lr_index (l ! Suc i) = lr_index (l' ! Suc j)" "lr_term (l ! Suc i) = lr_term (l' ! Suc j)"
  shows "l ! Suc i = l' ! Suc j" and "lr_term (l ! i) = lr_term (l' ! j)"
proof -
  have "log_chain b (lr_term (l ! i)) (l ! Suc i # drop (Suc (Suc i)) l)"
    using path_drop [OF p(1), of i] k(1) by (simp add: Cons_nth_drop_Suc)
  moreover have "log_chain b (lr_term (l' ! j)) (l' ! Suc j # drop (Suc (Suc j)) l')"
    using path_drop [OF p(2), of j] k(2) by (simp add: Cons_nth_drop_Suc)
  ultimately have "lr_term (l ! i) = lr_term (l' ! j) \<and> lr_command (l ! Suc i) = lr_command (l' ! Suc j)"
    using eq by simp
  then show "l ! Suc i = l' ! Suc j" and "lr_term (l ! i) = lr_term (l' ! j)" using eq by simp_all
qed

text \<open>Downwards from a common index and term: same terms everywhere, same records above both boundaries.\<close>

lemma path_prefix_agree:
  assumes p: "log_path b l" "log_path b l'" and c: "consecutive l" "consecutive l'"
    and k: "i < length l" "j < length l'" and eq: "lr_index (l ! i) = lr_index (l' ! j)" "lr_term (l ! i) = lr_term (l' ! j)"
    and d: "d \<le> i" "d \<le> j"
  shows "lr_term (l ! (i - d)) = lr_term (l' ! (j - d)) \<and> (d < i \<and> d < j \<longrightarrow> l ! (i - d) = l' ! (j - d))"
  using d
proof (induction d)
  case 0
  from eq(2) show ?case
  proof (cases "0 < i \<and> 0 < j")
    case True
    then obtain i' j' where s: "i = Suc i'" "j = Suc j'" by (metis gr0_implies_Suc)
    from path_agree(1) [OF p, of i' j'] k eq s eq(2) show ?thesis by simp
  qed auto
next
  case (Suc d)
  then have IH: "lr_term (l ! (i - d)) = lr_term (l' ! (j - d))" by simp
  let ?i = "i - Suc d" and ?j = "j - Suc d"
  have s: "i - d = Suc ?i" "j - d = Suc ?j" using Suc.prems by simp_all
  have ix: "lr_index (l ! (i - m)) = lr_index (l' ! (j - m))" if "m \<le> i" "m \<le> j" for m
    using consecutive_nth [OF c(1), of i] consecutive_nth [OF c(2), of j] consecutive_nth [OF c(1), of "i - m"]
      consecutive_nth [OF c(2), of "j - m"] k eq(1) that by (simp add: word_unat_eq_iff)
  have t: "lr_term (l ! ?i) = lr_term (l' ! ?j)"
    using path_agree(2) [OF p, of ?i ?j] s k ix [of d] IH Suc.prems by simp
  moreover have "l ! ?i = l' ! ?j" if "Suc d < i" "Suc d < j"
  proof -
    have "?i = Suc (?i - 1)" "?j = Suc (?j - 1)" using that by simp_all
    with path_agree(1) [OF p, of "?i - 1" "?j - 1"] k ix [of "Suc d"] t that show ?thesis by simp
  qed
  ultimately show ?case by simp
qed

section \<open>The cluster with its messages\<close>

record ('w, 'm) repl =
  base :: "('w, 'm) cluster"
  born :: births
  sent :: "AppendEntriesRequest set"
  offered :: "InstallSnapshotRequest set"
  installing :: "int \<Rightarrow> InstallSnapshotRequest set"

abbreviation node_of :: "('w, 'm) repl \<Rightarrow> int \<Rightarrow> ('w, 'm) raft_node" where
  "node_of s i \<equiv> nodes (base s) i"

abbreviation put_node :: "int \<Rightarrow> ('w, 'm) raft_node \<Rightarrow> ('w, 'm) repl \<Rightarrow> ('w, 'm) repl" where
  "put_node i n s \<equiv> s\<lparr>base := set_node i n (base s)\<rparr>"

definition same_log :: "('w, 'm) raft_node \<Rightarrow> ('w, 'm) raft_node \<Rightarrow> bool" where
  "same_log n n' \<longleftrightarrow> log n' = log n \<and> last_snapshot_index n' = last_snapshot_index n \<and>
     last_snapshot_term n' = last_snapshot_term n"

text \<open>
  \<open>quiet\<close> covers every step of \<open>Cluster\<close> that leaves the logs alone: elections, votes, answers, applying, restarts. A message
  may be delivered at any time and any number of times. An installation begins and ends in two locked sections, and
  other steps may come in between. A leader compacts only to a boundary that is in its log: what it has applied
  is.
\<close>

inductive repl_step :: "('w, 'm) interfaces \<Rightarrow> int set \<Rightarrow> ('w, 'm) repl \<Rightarrow> ('w, 'm) repl \<Rightarrow> bool"
  for I :: "('w, 'm) interfaces" and M :: "int set" where
  quiet: "cluster_step I M (base s) c' \<Longrightarrow> (\<And>i. same_log (node_of s i) (nodes c' i)) \<Longrightarrow> repl_step I M s (s\<lparr>base := c'\<rparr>)"
| append: "c \<in> M \<Longrightarrow> role (node_of s c) = kLeader \<Longrightarrow> LastLogIndexLocked (node_of s c) < - 1 \<Longrightarrow>
    AppendLocalLogUnlocked I cmd (node_of s c) = (i, n') \<Longrightarrow> i \<noteq> 0 \<Longrightarrow>
    repl_step I M s ((put_node c n' s)\<lparr>born := (born s)((i, current_term (node_of s c)) \<mapsto> (LastLogTermLocked (node_of s c), cmd))\<rparr>)"
| send: "c \<in> M \<Longrightarrow> LastLogIndexLocked (node_of s c) < - 1 \<Longrightarrow>
    BuildAppendEntriesRequest pid t (node_of s c) = (BatchAppend q, n') \<Longrightarrow>
    repl_step I M s ((put_node c n' s)\<lparr>sent := insert q (sent s)\<rparr>)"
| deliver: "p \<in> M \<Longrightarrow> q \<in> sent s \<Longrightarrow> repl_step I M s (put_node p (snd (snd (OnAppendEntriesLocked I q (node_of s p)))) s)"
| offer: "c \<in> M \<Longrightarrow> role (node_of s c) = kLeader \<Longrightarrow> iq_leader_id iq = c \<Longrightarrow> iq_term iq = current_term (node_of s c) \<Longrightarrow>
    repl_step I M s (s\<lparr>offered := insert iq (offered s)\<rparr>)"
| begin_install: "p \<in> M \<Longrightarrow> iq \<in> offered s \<Longrightarrow> iq_leader_id iq \<noteq> p \<Longrightarrow> install_begin I iq (node_of s p) = (Inr r, n') \<Longrightarrow>
    repl_step I M s ((put_node p n' s)\<lparr>installing := (installing s)(p := insert iq (installing s p))\<rparr>)"
| finish_install: "p \<in> M \<Longrightarrow> iq \<in> installing s p \<Longrightarrow>
    repl_step I M s (put_node p (snd (install_finish I iq r (node_of s p))) s)"
| compact: "p \<in> M \<Longrightarrow> (role (node_of s p) = kLeader \<Longrightarrow> boundary_matches i t (node_of s p)) \<Longrightarrow>
    repl_step I M s (put_node p (worker_compact I i t (node_of s p)) s)"

text \<open>A fresh cluster: every log is the bootstrap record.\<close>

definition repl_init :: "int set \<Rightarrow> ('w, 'm) repl \<Rightarrow> bool" where
  "repl_init M s \<longleftrightarrow> cluster_init M (base s) \<and>
     (\<forall>i \<in> M. log (node_of s i) = [bootstrap_record] \<and> last_snapshot_index (node_of s i) = 0 \<and> last_snapshot_term (node_of s i) = 0) \<and>
     born s = (\<lambda>_. None) \<and> sent s = {} \<and> offered s = {} \<and> installing s = (\<lambda>_. {})"

inductive repl_reach :: "('w, 'm) interfaces \<Rightarrow> int set \<Rightarrow> ('w, 'm) repl \<Rightarrow> bool"
  for I :: "('w, 'm) interfaces" and M :: "int set" where
  init: "repl_init M s \<Longrightarrow> repl_reach I M s"
| step: "repl_reach I M s \<Longrightarrow> repl_step I M s s' \<Longrightarrow> repl_reach I M s'"

text \<open>Forgetting the messages gives a run of \<open>Cluster\<close>, so elections are safe.\<close>

lemma repl_step_base:
  assumes "repl_step I M s s'"
  shows "cluster_step I M (base s) (base s') \<or> base s' = base s"
  using assms
proof (induction rule: repl_step.induct)
  case (append c s cmd i n')
  then have "n' = snd (AppendLocalLogUnlocked I cmd (node_of s c))" by simp
  with append(1) show ?case by (auto intro: cluster_step.other local_step.append_local)
next
  case (send c s pid t q n')
  then have "n' = snd (BuildAppendEntriesRequest pid t (node_of s c))" by simp
  with send(1) show ?case by (auto intro: cluster_step.other local_step.build_request)
next
  case (begin_install p iq s r n')
  then have "n' = snd (install_begin I iq (node_of s p))" by simp
  with begin_install(1) show ?case by (auto intro: cluster_step.other local_step.install_begin)
qed (auto intro: cluster_step.other local_step.intros)

lemma repl_reach_base: "repl_reach I M s \<Longrightarrow> reachable I M (base s)"
proof (induction rule: repl_reach.induct)
  case (init s)
  then show ?case by (simp add: repl_init_def reachable.reach_init)
next
  case (step s s')
  with repl_step_base [OF step.hyps(2)] show ?case by (metis reachable.reach_step)
qed

section \<open>Roles and terms\<close>

text \<open>What a step of the cluster does to terms, roles and the history of leaders.\<close>

definition role_step :: "('w, 'm) cluster \<Rightarrow> ('w, 'm) cluster \<Rightarrow> bool" where
  "role_step s s' \<longleftrightarrow> (\<forall>c. current_term (nodes s c) \<le> current_term (nodes s' c)) \<and>
     (\<forall>c. role (nodes s' c) = kCandidate \<longrightarrow>
        role (nodes s c) = kCandidate \<and> current_term (nodes s' c) = current_term (nodes s c)
        \<or> current_term (nodes s c) < current_term (nodes s' c)) \<and>
     (\<forall>c. role (nodes s' c) = kLeader \<longrightarrow> current_term (nodes s' c) = current_term (nodes s c) \<and>
        (role (nodes s c) = kLeader \<or> role (nodes s c) = kCandidate)) \<and>
     (\<forall>c t. (c, t) \<in> led s' \<longleftrightarrow> (c, t) \<in> led s \<or>
        role (nodes s c) = kCandidate \<and> role (nodes s' c) = kLeader \<and> t = current_term (nodes s c))"

lemma calm_terms: "calm n n' \<Longrightarrow> current_term n \<le> current_term n'"
  by (auto simp: calm_def vote_le_def)

lemma role_step_calm:
  assumes "calm (nodes s i) n'" and "led s' = led s" and "nodes s' = (nodes s)(i := n')"
  shows "role_step s s'"
proof -
  have "role n' = kLeader \<Longrightarrow> role (nodes s i) = kLeader \<and> current_term n' = current_term (nodes s i)"
    "role n' = kCandidate \<Longrightarrow> role (nodes s i) = kCandidate \<and> current_term n' = current_term (nodes s i)"
    using assms(1) by (auto simp: calm_def)
  then show ?thesis
    using calm_terms [OF assms(1)] unfolding role_step_def assms(2,3) by auto
qed

lemma cluster_step_roles:
  assumes "cluster_step I M s s'"
  shows "role_step s s'"
  using assms
proof (induction rule: cluster_step.induct)
  case (timeout_started c s gen e n')
  from OnElectionTimeout_Some [OF timeout_started(3)] less_plus_one [OF timeout_started(2)]
  have "role n' = kCandidate" "current_term (nodes s c) < current_term n'" by simp_all
  then show ?case unfolding role_step_def by auto
next
  case (timeout_ignored c s gen n')
  then show ?case by (intro role_step_calm [OF calm_timeout_ignored]) auto
next
  case (vote_request c p s t e r n')
  have "calm (nodes s p) n'" using calm_OnRequestVote [of "nodes s p" I "election_request e (nodes s c)"] vote_request(5) by simp
  then show ?case by (rule role_step_calm) simp_all
next
  case (vote_answer c t p r s e won e' n')
  have "calm (nodes s c) n'" using calm_vote_reply [of "nodes s c" I e r] vote_answer(5) by simp
  then show ?case by (rule role_step_calm) simp_all
next
  case (election_won c s t e n')
  then have "role n' = kLeader" "current_term n' = t" "current_term (nodes s c) = t" "role (nodes s c) = kCandidate"
    by (auto simp: OnElectionWonLocked_def split: if_splits)
  then show ?case unfolding role_step_def by auto
next
  case (other i s n')
  then show ?case by (intro role_step_calm [OF calm_local_step]) auto
qed

section \<open>The invariant\<close>

text \<open>A birth belongs to a leader of its term, and while that leader leads, it is in its log.\<close>

definition birth_ok :: "int set \<Rightarrow> ('w, 'm) cluster \<Rightarrow> u64 \<times> u64 \<Rightarrow> bool" where
  "birth_ok M b k \<longleftrightarrow> (\<exists>c \<in> M. (c, snd k) \<in> led b \<and>
     (role (nodes b c) = kLeader \<and> current_term (nodes b c) = snd k \<longrightarrow> fst k \<le> LastLogIndexLocked (nodes b c)))"

definition repl_inv :: "int set \<Rightarrow> ('w, 'm) repl \<Rightarrow> bool" where
  "repl_inv M s \<longleftrightarrow>
     (\<forall>i \<in> M. log_wf (node_of s i) \<and> log_path (born s) (log (node_of s i))) \<and>
     (\<forall>k \<in> dom (born s). birth_ok M (base s) k) \<and>
     (\<forall>c t. (c, t) \<in> led (base s) \<longrightarrow> t \<le> current_term (node_of s c) \<and>
        (current_term (node_of s c) = t \<longrightarrow> role (node_of s c) \<noteq> kCandidate)) \<and>
     (\<forall>q \<in> sent s. log_chain (born s) (prev_log_term q) (map record_of_entry (entries q)) \<and>
        entries_after (prev_log_index q) (entries q)) \<and>
     (\<forall>iq \<in> offered s. (iq_leader_id iq, iq_term iq) \<in> led (base s)) \<and>
     (\<forall>p. \<forall>iq \<in> installing s p. iq_term iq \<le> current_term (node_of s p) \<and> iq_leader_id iq \<noteq> p \<and>
        (iq_leader_id iq, iq_term iq) \<in> led (base s))"

lemma repl_invD:
  assumes "repl_inv M s"
  shows "\<And>i. i \<in> M \<Longrightarrow> log_wf (node_of s i)" "\<And>i. i \<in> M \<Longrightarrow> log_path (born s) (log (node_of s i))"
    "\<And>k. k \<in> dom (born s) \<Longrightarrow> birth_ok M (base s) k"
    "\<And>c t. (c, t) \<in> led (base s) \<Longrightarrow> t \<le> current_term (node_of s c)"
    "\<And>c. (c, current_term (node_of s c)) \<in> led (base s) \<Longrightarrow> role (node_of s c) \<noteq> kCandidate"
    "\<And>q. q \<in> sent s \<Longrightarrow> log_chain (born s) (prev_log_term q) (map record_of_entry (entries q))"
    "\<And>q. q \<in> sent s \<Longrightarrow> entries_after (prev_log_index q) (entries q)"
    "\<And>iq. iq \<in> offered s \<Longrightarrow> (iq_leader_id iq, iq_term iq) \<in> led (base s)"
    "\<And>p iq. iq \<in> installing s p \<Longrightarrow> iq_term iq \<le> current_term (node_of s p)"
    "\<And>p iq. iq \<in> installing s p \<Longrightarrow> iq_leader_id iq \<noteq> p"
    "\<And>p iq. iq \<in> installing s p \<Longrightarrow> (iq_leader_id iq, iq_term iq) \<in> led (base s)"
  using assms unfolding repl_inv_def by auto

lemma repl_invI:
  assumes "\<And>i. i \<in> M \<Longrightarrow> log_wf (node_of s i)" "\<And>i. i \<in> M \<Longrightarrow> log_path (born s) (log (node_of s i))"
    "\<And>k. k \<in> dom (born s) \<Longrightarrow> birth_ok M (base s) k"
    "\<And>c t. (c, t) \<in> led (base s) \<Longrightarrow> t \<le> current_term (node_of s c)"
    "\<And>c. (c, current_term (node_of s c)) \<in> led (base s) \<Longrightarrow> role (node_of s c) \<noteq> kCandidate"
    "\<And>q. q \<in> sent s \<Longrightarrow> log_chain (born s) (prev_log_term q) (map record_of_entry (entries q))"
    "\<And>q. q \<in> sent s \<Longrightarrow> entries_after (prev_log_index q) (entries q)"
    "\<And>iq. iq \<in> offered s \<Longrightarrow> (iq_leader_id iq, iq_term iq) \<in> led (base s)"
    "\<And>p iq. iq \<in> installing s p \<Longrightarrow> iq_term iq \<le> current_term (node_of s p)"
    "\<And>p iq. iq \<in> installing s p \<Longrightarrow> iq_leader_id iq \<noteq> p"
    "\<And>p iq. iq \<in> installing s p \<Longrightarrow> (iq_leader_id iq, iq_term iq) \<in> led (base s)"
  shows "repl_inv M s"
  using assms unfolding repl_inv_def by blast

text \<open>The frame: a step of the cluster that keeps the logs on paths and shortens no leader's log.\<close>

lemma repl_inv_frame:
  assumes inv: "repl_inv M s" and rs: "role_step (base s) b" and ext: "born s \<subseteq>\<^sub>m bn"
    and wf: "\<And>i. i \<in> M \<Longrightarrow> log_wf (nodes b i)" and pt: "\<And>i. i \<in> M \<Longrightarrow> log_path bn (log (nodes b i))"
    and up: "\<And>c. c \<in> M \<Longrightarrow> role (nodes b c) = kLeader \<Longrightarrow> role (node_of s c) = kLeader \<Longrightarrow>
      LastLogIndexLocked (node_of s c) \<le> LastLogIndexLocked (nodes b c)"
    and nb: "\<And>k. k \<in> dom bn \<Longrightarrow> k \<notin> dom (born s) \<Longrightarrow> birth_ok M b k"
  shows "repl_inv M (s\<lparr>base := b, born := bn\<rparr>)"
proof -
  let ?s = "s\<lparr>base := b, born := bn\<rparr>"
  have eqs: "base ?s = b" "born ?s = bn" "sent ?s = sent s" "offered ?s = offered s" "installing ?s = installing s" by simp_all
  note D = repl_invD [OF inv]
  from rs have mono: "current_term (node_of s c) \<le> current_term (nodes b c)"
    and ld: "(c, t) \<in> led b \<longleftrightarrow> (c, t) \<in> led (base s) \<or>
        role (node_of s c) = kCandidate \<and> role (nodes b c) = kLeader \<and> t = current_term (node_of s c)"
    and lead: "role (nodes b c) = kLeader \<Longrightarrow> current_term (nodes b c) = current_term (node_of s c) \<and>
        (role (node_of s c) = kLeader \<or> role (node_of s c) = kCandidate)"
    and cand: "role (nodes b c) = kCandidate \<Longrightarrow>
        role (node_of s c) = kCandidate \<and> current_term (nodes b c) = current_term (node_of s c)
        \<or> current_term (node_of s c) < current_term (nodes b c)" for c t
    unfolding role_step_def by blast+
  show ?thesis
  proof (rule repl_invI; unfold eqs)
    show "log_wf (nodes b i)" "log_path bn (log (nodes b i))" if "i \<in> M" for i using wf pt that by blast+
    show "birth_ok M b k" if k: "k \<in> dom bn" for k
    proof (cases "k \<in> dom (born s)")
      case True
      from D(3) [OF this] obtain c where c: "c \<in> M" "(c, snd k) \<in> led (base s)"
        "role (node_of s c) = kLeader \<and> current_term (node_of s c) = snd k \<longrightarrow> fst k \<le> LastLogIndexLocked (node_of s c)"
        by (auto simp: birth_ok_def)
      have "fst k \<le> LastLogIndexLocked (nodes b c)" if l: "role (nodes b c) = kLeader" "current_term (nodes b c) = snd k"
      proof -
        from lead [OF l(1)] l(2) have t: "current_term (node_of s c) = snd k"
          and r: "role (node_of s c) = kLeader \<or> role (node_of s c) = kCandidate" by simp_all
        from D(5) [of c] c(2) t r have "role (node_of s c) = kLeader" by auto
        with c(3) t up [OF c(1) l(1)] show ?thesis by (auto intro: order_trans)
      qed
      with c(1,2) ld show ?thesis by (auto simp: birth_ok_def)
    next
      case False
      with nb k show ?thesis by blast
    qed
    show tm: "t \<le> current_term (nodes b c)" if "(c, t) \<in> led b" for c t
      using that ld D(4) mono by (blast intro: order_trans)
    show "role (nodes b c) \<noteq> kCandidate" if l: "(c, current_term (nodes b c)) \<in> led b" for c
    proof
      assume r: "role (nodes b c) = kCandidate"
      with l ld have "(c, current_term (nodes b c)) \<in> led (base s)" by auto
      with D(4) mono [of c] have "current_term (nodes b c) = current_term (node_of s c)" by (meson order_antisym)
      with cand [OF r] D(5) [of c] \<open>(c, current_term (nodes b c)) \<in> led (base s)\<close> show False by auto
    qed
    show "log_chain bn (prev_log_term q) (map record_of_entry (entries q))" if "q \<in> sent s" for q
      using chain_mono [OF ext D(6) [OF that]] .
    show "(iq_leader_id iq, iq_term iq) \<in> led b" if "iq \<in> offered s" for iq using D(8) [OF that] ld by blast
    show "iq_term iq \<le> current_term (nodes b p)" "iq_leader_id iq \<noteq> p" "(iq_leader_id iq, iq_term iq) \<in> led b"
      if "iq \<in> installing s p" for p iq
      using D(9-11) [OF that] mono [of p] ld by (blast intro: order_trans)+
  qed (use D(7) in blast)
qed

lemma repl_inv_node:
  assumes inv: "repl_inv M s" and st: "cluster_step I M (base s) (set_node p n' (base s))"
    and n': "log_wf n'" "log_path (born s) (log n')"
    and up: "role n' = kLeader \<Longrightarrow> role (node_of s p) = kLeader \<Longrightarrow> LastLogIndexLocked (node_of s p) \<le> LastLogIndexLocked n'"
  shows "repl_inv M (put_node p n' s)"
proof -
  have "repl_inv M (s\<lparr>base := set_node p n' (base s), born := born s\<rparr>)"
    by (rule repl_inv_frame [OF inv cluster_step_roles [OF st] map_le_refl])
      (use repl_invD(1,2) [OF inv] n' up in \<open>auto split: if_splits\<close>)
  then show ?thesis by simp
qed

lemma Last_Compact:
  assumes wf: "log_wf n" and b: "boundary_matches idx trm n"
  shows "LastLogIndexLocked (CompactLogPrefixLocked idx trm n) = LastLogIndexLocked n"
proof (cases "idx \<le> last_snapshot_index n")
  case True
  then show ?thesis by (simp add: CompactLogPrefixLocked_stale [OF wf])
next
  case False
  then have new: "last_snapshot_index n < idx" by simp
  have "HasLogAtIndexLocked idx n"
    using b by (auto simp: boundary_matches_def HasLog_iff_ex [OF log_wfD(2) [OF wf]] in_set_conv_nth)
  then have "idx \<le> LastLogIndexLocked n" by (simp add: log_wf_HasLog [OF wf])
  moreover note log_wf_last [OF log_wf_Compact [OF wf, of idx trm]] log_wf_last [OF wf]
  ultimately have "unat (LastLogIndexLocked (CompactLogPrefixLocked idx trm n)) = unat (LastLogIndexLocked n)"
    using new b by (simp add: CompactLogPrefixLocked_new [OF wf new] u64_simps)
  then show ?thesis by (simp add: word_unat_eq_iff)
qed

lemma inv_append:
  assumes inv: "repl_inv M s" and el: "election_inv M (base s)" and c: "c \<in> M" "role (node_of s c) = kLeader"
    and room: "LastLogIndexLocked (node_of s c) < - 1"
    and ap: "AppendLocalLogUnlocked I cmd (node_of s c) = (i, n')" and i: "i \<noteq> 0"
  shows "repl_inv M ((put_node c n' s)\<lparr>born := (born s)((i, current_term (node_of s c)) \<mapsto> (LastLogTermLocked (node_of s c), cmd))\<rparr>)"
proof -
  let ?n = "node_of s c" and ?k = "(i, current_term (node_of s c))"
  let ?bn = "(born s)(?k \<mapsto> (LastLogTermLocked ?n, cmd))" and ?b = "set_node c n' (base s)"
  note D = repl_invD [OF inv]
  have n': "n' = snd (AppendLocalLogUnlocked I cmd ?n)" "i = fst (AppendLocalLogUnlocked I cmd ?n)" using ap by simp_all
  have ix: "i = SafeAddOne (LastLogIndexLocked ?n)" using i n'(2) by (simp add: Append_result split: if_splits)
  then have gt: "LastLogIndexLocked ?n < i" using SafeAddOne_eq_Suc [OF room] by (simp add: u64_simps)
  have lg: "log n' = log ?n @ [\<lparr>lr_index = i, lr_term = current_term ?n, lr_command = cmd\<rparr>]"
    using i n' ix by (simp add: Append_log)
  have led: "(c, current_term ?n) \<in> led (base s)" by (rule election_invD(10) [OF el c])
  have fresh: "?k \<notin> dom (born s)"
  proof
    assume "?k \<in> dom (born s)"
    from D(3) [OF this] obtain d where d: "(d, current_term ?n) \<in> led (base s)"
      "role (node_of s d) = kLeader \<and> current_term (node_of s d) = current_term ?n \<longrightarrow> i \<le> LastLogIndexLocked (node_of s d)"
      by (auto simp: birth_ok_def)
    from election_inv_safe [OF el d(1) led] d(2) c(2) gt show False by simp
  qed
  then have ext: "born s \<subseteq>\<^sub>m ?bn" by (auto simp: map_le_def)
  have st: "cluster_step I M (base s) ?b" using c(1) n'(1) by (auto intro: cluster_step.other local_step.append_local)
  have wf: "log_wf n'" unfolding n'(1) by (rule log_wf_Append [OF D(1) [OF c(1)] room])
  have "log ?n \<noteq> []" using log_wfD(1) [OF D(1) [OF c(1)]] .
  then have pt: "log_path ?bn (log n')"
    using path_mono [OF ext D(2) [OF c(1)]] by (simp add: lg path_app LastLogTermLocked_def)
  have last: "LastLogIndexLocked n' = i" by (simp add: LastLogIndexLocked_def lg)
  have nb: "birth_ok M ?b ?k" using c(1) led last n'(1) by (auto simp: birth_ok_def)
  have "repl_inv M (s\<lparr>base := ?b, born := ?bn\<rparr>)"
  proof (rule repl_inv_frame [OF inv cluster_step_roles [OF st] ext])
    show "log_wf (nodes ?b j)" if "j \<in> M" for j using that wf D(1) by simp
    show "log_path ?bn (log (nodes ?b j))" if "j \<in> M" for j using that pt path_mono [OF ext D(2)] by simp
    show "LastLogIndexLocked (node_of s d) \<le> LastLogIndexLocked (nodes ?b d)" for d using gt last by auto
    show "birth_ok M ?b k" if "k \<in> dom ?bn" "k \<notin> dom (born s)" for k using that nb by (auto split: if_splits)
  qed
  then show ?thesis by simp
qed

lemma inv_deliver:
  assumes inv: "repl_inv M s" and p: "p \<in> M" and q: "q \<in> sent s"
  shows "repl_inv M (put_node p (snd (snd (OnAppendEntriesLocked I q (node_of s p)))) s)"
proof -
  let ?n = "node_of s p" and ?n' = "snd (snd (OnAppendEntriesLocked I q (node_of s p)))"
  note D = repl_invD [OF inv]
  have st: "cluster_step I M (base s) (set_node p ?n' (base s))" by (rule cluster_step.other [OF p local_step.append_entries])
  have "log ?n' = log ?n \<or> prev_ok q ?n \<and> log ?n' = merged_log q ?n"
    using OnAppendEntriesLocked_cases [OF D(1) [OF p] D(7) [OF q], of I] by (auto simp: Let_def split_def)
  then have "log_path (born s) (log ?n')"
    using D(2) [OF p] path_merged_log [OF D(1,2) [OF p] _ D(6) [OF q]] by auto
  moreover have "LastLogIndexLocked ?n \<le> LastLogIndexLocked ?n'" if "role ?n' = kLeader"
  proof -
    from that have "aq_term q < current_term ?n" by (simp add: OnAppendEntriesLocked_role split: if_splits)
    then show ?thesis by (simp add: OnAppendEntriesLocked_def)
  qed
  ultimately show ?thesis by (intro repl_inv_node [OF inv st] log_wf_OnAppendEntriesLocked [OF D(1) [OF p]])
qed

lemma inv_finish_install:
  assumes inv: "repl_inv M s" and el: "election_inv M (base s)" and p: "p \<in> M" and iq: "iq \<in> installing s p"
  shows "repl_inv M (put_node p (snd (install_finish I iq r (node_of s p))) s)"
proof -
  let ?n = "node_of s p" and ?n' = "snd (install_finish I iq r (node_of s p))"
  note D = repl_invD [OF inv]
  have st: "cluster_step I M (base s) (set_node p ?n' (base s))" by (rule cluster_step.other [OF p local_step.install_finish])
  have lg: "log ?n' = (if iq_term iq < current_term ?n then log ?n
      else log (CompactLogPrefixLocked (iq_last_included_index iq) (iq_last_included_term iq) ?n))"
    by (simp add: install_finish_def Let_def split_def split: option.split)
  have "iq_term iq < current_term ?n" if "role ?n = kLeader"
  proof (rule ccontr)
    assume "\<not> iq_term iq < current_term ?n"
    with D(9) [OF iq] have "iq_term iq = current_term ?n" by simp
    with D(11) [OF iq] election_invD(10) [OF el p that] election_inv_safe [OF el] D(10) [OF iq] show False by metis
  qed
  then have "LastLogIndexLocked ?n \<le> LastLogIndexLocked ?n'" if "role ?n = kLeader"
    using that by (simp add: install_finish_def)
  moreover have "log_path (born s) (log ?n')" using lg D(2) [OF p] path_Compact [OF D(1,2) [OF p]] by simp
  moreover have "log_wf ?n'" using D(1) [OF p] log_wf_Compact [OF D(1) [OF p], of "iq_last_included_index iq" "iq_last_included_term iq"]
    by (simp add: install_finish_def Let_def split_def log_wf_def split: option.split)
  ultimately show ?thesis by (intro repl_inv_node [OF inv st]) blast+
qed

lemma inv_compact:
  assumes inv: "repl_inv M s" and p: "p \<in> M" and b: "role (node_of s p) = kLeader \<Longrightarrow> boundary_matches i t (node_of s p)"
  shows "repl_inv M (put_node p (worker_compact I i t (node_of s p)) s)"
proof -
  let ?n = "node_of s p" and ?c = "CompactLogPrefixLocked i t (node_of s p)"
  note D = repl_invD [OF inv]
  have st: "cluster_step I M (base s) (set_node p (worker_compact I i t ?n) (base s))"
    by (rule cluster_step.other [OF p local_step.worker_compact])
  have last: "LastLogIndexLocked (snd (PersistStateLocked I ?c)) = LastLogIndexLocked ?c"
    by (simp add: LastLogIndexLocked_def)
  show ?thesis
  proof (rule repl_inv_node [OF inv st])
    show "log_wf (worker_compact I i t ?n)"
      using D(1) [OF p] log_wf_Compact [OF D(1) [OF p], of i t] by (simp add: worker_compact_def log_wf_def)
    show "log_path (born s) (log (worker_compact I i t ?n))"
      using D(2) [OF p] path_Compact [OF D(1,2) [OF p]] by (simp add: worker_compact_def)
    show "LastLogIndexLocked ?n \<le> LastLogIndexLocked (worker_compact I i t ?n)" if "role ?n = kLeader"
      using Last_Compact [OF D(1) [OF p] b [OF that]] last by (simp add: worker_compact_def)
  qed
qed

lemma install_begin_accepted:
  assumes "install_begin I iq n = (Inr r, n')"
  shows "iq_term iq \<le> current_term n'" and "same_log n n'" and "role n' = kFollower"
  using assms
  by (auto simp: install_begin_def same_log_def Let_def split_def node_defs max_def not_less split: if_splits)

lemma same_log_wf: "same_log n n' \<Longrightarrow> log_wf n' = log_wf n" "same_log n n' \<Longrightarrow> LastLogIndexLocked n' = LastLogIndexLocked n"
  by (simp_all add: same_log_def log_wf_def LastLogIndexLocked_def)

lemma repl_inv_same:
  assumes inv: "repl_inv M s" and st: "cluster_step I M (base s) b" and same: "\<And>i. same_log (node_of s i) (nodes b i)"
  shows "repl_inv M (s\<lparr>base := b\<rparr>)"
proof -
  have "log (nodes b i) = log (node_of s i)" for i using same by (simp add: same_log_def)
  then have "repl_inv M (s\<lparr>base := b, born := born s\<rparr>)"
    by (intro repl_inv_frame [OF inv cluster_step_roles [OF st] map_le_refl])
      (use repl_invD(1,2) [OF inv] same_log_wf [OF same] in \<open>auto split: if_splits\<close>)
  then show ?thesis by simp
qed

lemma repl_inv_sent:
  assumes "repl_inv M s" and "log_chain (born s) (prev_log_term q) (map record_of_entry (entries q))"
    and "entries_after (prev_log_index q) (entries q)"
  shows "repl_inv M (s\<lparr>sent := insert q (sent s)\<rparr>)"
  using assms by (simp add: repl_inv_def)

lemma repl_inv_offered:
  assumes "repl_inv M s" and "(iq_leader_id iq, iq_term iq) \<in> led (base s)"
  shows "repl_inv M (s\<lparr>offered := insert iq (offered s)\<rparr>)"
  using assms by (simp add: repl_inv_def)

lemma repl_inv_installing:
  assumes "repl_inv M s" and "(iq_leader_id iq, iq_term iq) \<in> led (base s)" and "iq_leader_id iq \<noteq> p"
    and "iq_term iq \<le> current_term (node_of s p)"
  shows "repl_inv M (s\<lparr>installing := (installing s)(p := insert iq (installing s p))\<rparr>)"
  using assms by (auto simp: repl_inv_def)

lemma inv_send:
  assumes inv: "repl_inv M s" and c: "c \<in> M" and room: "LastLogIndexLocked (node_of s c) < - 1"
    and b: "BuildAppendEntriesRequest pid t (node_of s c) = (BatchAppend q, n')"
  shows "repl_inv M ((put_node c n' s)\<lparr>sent := insert q (sent s)\<rparr>)"
proof -
  note D = repl_invD [OF inv]
  have n': "n' = snd (BuildAppendEntriesRequest pid t (node_of s c))" using b by simp
  have st: "cluster_step I M (base s) (set_node c n' (base s))" for I
    unfolding n' by (rule cluster_step.other [OF c local_step.build_request])
  have "same_log (node_of s c) n'" unfolding n' by (simp add: same_log_def BuildAppendEntriesRequest_def Let_def)
  then have "same_log (node_of s i) (nodes (set_node c n' (base s)) i)" for i by (simp add: same_log_def)
  from repl_inv_same [OF inv st this] have "repl_inv M (put_node c n' s)" .
  from repl_inv_sent [OF this] path_batch [OF D(1) [OF c] room D(2) [OF c] b] Build_request(10) [OF D(1) [OF c] room b]
  show ?thesis by simp
qed

lemma inv_begin_install:
  assumes inv: "repl_inv M s" and p: "p \<in> M" and iq: "iq \<in> offered s" "iq_leader_id iq \<noteq> p"
    and b: "install_begin I iq (node_of s p) = (Inr r, n')"
  shows "repl_inv M ((put_node p n' s)\<lparr>installing := (installing s)(p := insert iq (installing s p))\<rparr>)"
proof -
  note D = repl_invD [OF inv] and B = install_begin_accepted [OF b]
  have n': "n' = snd (install_begin I iq (node_of s p))" using b by simp
  have st: "cluster_step I M (base s) (set_node p n' (base s))"
    unfolding n' by (rule cluster_step.other [OF p local_step.install_begin])
  have "same_log (node_of s i) (nodes (set_node p n' (base s)) i)" for i using B(2) by (simp add: same_log_def)
  from repl_inv_same [OF inv st this] have "repl_inv M (put_node p n' s)" .
  from repl_inv_installing [OF this, of iq p] D(8) [OF iq(1)] iq(2) B(1) show ?thesis by simp
qed

lemma repl_inv_init: "repl_init M s \<Longrightarrow> repl_inv M s"
  by (auto simp: repl_init_def repl_inv_def cluster_init_def log_wf_def bootstrap_record_def)

lemma repl_inv_step:
  assumes "repl_step I M s s'" and "repl_inv M s" and "election_inv M (base s)"
  shows "repl_inv M s'"
  using assms
proof (induction rule: repl_step.induct)
  case (quiet s c')
  then show ?case by (intro repl_inv_same)
next
  case (append c s cmd i n')
  then show ?case by (intro inv_append)
next
  case (send c s pid t q n')
  then show ?case by (intro inv_send)
next
  case (deliver p q s)
  then show ?case by (intro inv_deliver)
next
  case (offer c s iq)
  then show ?case by (intro repl_inv_offered) (simp_all add: election_invD(10))
next
  case (begin_install p iq s r n')
  then show ?case by (intro inv_begin_install)
next
  case (finish_install p iq s r)
  then show ?case by (intro inv_finish_install)
next
  case (compact p s i t)
  then show ?case by (intro inv_compact)
qed

lemma repl_inv_reach: "repl_reach I M s \<Longrightarrow> repl_inv M s"
proof (induction rule: repl_reach.induct)
  case (init s)
  then show ?case by (rule repl_inv_init)
next
  case (step s s')
  then show ?case by (metis repl_inv_step election_inv_reachable repl_reach_base)
qed

section \<open>Log matching\<close>

lemma log_at_offset:
  assumes wf: "log_wf n" and at: "LogAtIndexLocked x n = Some r"
  shows "unat x - unat (last_snapshot_index n) < length (log n)" "log n ! (unat x - unat (last_snapshot_index n)) = r"
    "unat (last_snapshot_index n) \<le> unat x" "lr_index r = x"
proof -
  have "HasLogAtIndexLocked x n" using at by (simp add: LogAtIndexLocked_def split: if_splits)
  then have b: "last_snapshot_index n \<le> x" "x \<le> LastLogIndexLocked n" by (simp_all add: log_wf_HasLog [OF wf])
  from log_wf_nth [OF wf b] at b show "unat x - unat (last_snapshot_index n) < length (log n)"
    "log n ! (unat x - unat (last_snapshot_index n)) = r" "unat (last_snapshot_index n) \<le> unat x" "lr_index r = x"
    by (simp_all add: u64_simps)
qed

lemma path_matching:
  assumes wf: "log_wf n" "log_wf n'" and p: "log_path b (log n)" "log_path b (log n')"
    and x: "LogAtIndexLocked x n = Some r" "LogAtIndexLocked x n' = Some r'" "lr_term r = lr_term r'"
    and y: "y \<le> x" "LogAtIndexLocked y n = Some u" "LogAtIndexLocked y n' = Some v"
  shows "lr_term u = lr_term v" and "last_snapshot_index n < y \<Longrightarrow> last_snapshot_index n' < y \<Longrightarrow> u = v"
proof -
  note X = log_at_offset [OF wf(1) x(1)] log_at_offset [OF wf(2) x(2)]
  note Y = log_at_offset [OF wf(1) y(2)] log_at_offset [OF wf(2) y(3)]
  define d where "d = unat x - unat y"
  let ?i = "unat x - unat (last_snapshot_index n)" and ?j = "unat x - unat (last_snapshot_index n')"
  have le: "unat y \<le> unat x" using y(1) by (simp add: u64_simps)
  have off: "?i - d = unat y - unat (last_snapshot_index n)" "?j - d = unat y - unat (last_snapshot_index n')"
    "d \<le> ?i" "d \<le> ?j" using le Y(3,7) by (simp_all add: d_def)
  have "lr_index (log n ! ?i) = lr_index (log n' ! ?j)" "lr_term (log n ! ?i) = lr_term (log n' ! ?j)"
    using X x(3) by simp_all
  note ag = path_prefix_agree [OF p log_wfD(2) [OF wf(1)] log_wfD(2) [OF wf(2)] X(1,5) this off(3,4)]
  from ag off Y show "lr_term u = lr_term v" by simp
  assume "last_snapshot_index n < y" "last_snapshot_index n' < y"
  then have "d < ?i" "d < ?j" using le by (auto simp: d_def u64_simps)
  with ag off Y show "u = v" by simp
qed

end
