(* ===== verification/Runs.thy ===== *)
theory Runs
  imports Probing LogMatching
begin

text \<open>
  Runs of a cluster with everything that moves the commit indexes. The cluster of \<open>LogMatching\<close> is extended with the answers
  to AppendEntries and InstallSnapshot messages: what a member answered, successfully or not, is on the network until the
  leader takes it, any number of times or never. Records, logs and requests are read as points and paths of
  the tree of \<open>Agreement\<close>.
\<close>

section \<open>Points\<close>

definition rpoint :: "LogRecord \<Rightarrow> point" where
  "rpoint r = At (unat (lr_index r)) (unat (lr_term r))"

definition tip :: "('w, 'm) raft_node \<Rightarrow> point" where
  "tip n = At (unat (LastLogIndexLocked n)) (unat (LastLogTermLocked n))"

definition boundary :: "('w, 'm) raft_node \<Rightarrow> point" where
  "boundary n = At (unat (last_snapshot_index n)) (unat (last_snapshot_term n))"

text \<open>A request as a piece of log: the record before the entries, and the entries.\<close>

definition request_log :: "AppendEntriesRequest \<Rightarrow> LogRecord list" where
  "request_log q = \<lparr>lr_index = prev_log_index q, lr_term = prev_log_term q, lr_command = []\<rparr> # map record_of_entry (entries q)"

definition request_end :: "AppendEntriesRequest \<Rightarrow> point" where
  "request_end q = rpoint (last (request_log q))"

definition snapshot_point :: "InstallSnapshotRequest \<Rightarrow> point" where
  "snapshot_point iq = At (unat (iq_last_included_index iq)) (unat (iq_last_included_term iq))"

text \<open>The tree holds the births.\<close>

definition grows :: "births \<Rightarrow> record_tree \<Rightarrow> bool" where
  "grows b t \<longleftrightarrow> (\<forall>i u v c. b (i, u) = Some (v, c) \<longrightarrow> i \<noteq> 0 \<and> t (At (unat i) (unat u)) = Some (At (unat i - 1) (unat v)))"

lemma grows_mono:
  assumes "grows b t" and "t \<subseteq>\<^sub>m t'"
  shows "grows b t'"
proof -
  have "t' x = Some y" if "t x = Some y" for x y using assms(2) that by (metis domI map_le_def)
  with assms(1) show ?thesis unfolding grows_def by blast
qed

lemma tip_last: "log_wf n \<Longrightarrow> tip n = rpoint (last (log n))"
  by (simp add: tip_def rpoint_def LastLogIndexLocked_def LastLogTermLocked_def log_wf_def)

lemma boundary_hd: "log_wf n \<Longrightarrow> boundary n = rpoint (log n ! 0)"
  by (auto simp: boundary_def rpoint_def log_wf_def simp flip: hd_conv_nth)

lemma path_anc:
  assumes p: "log_path b l" and c: "consecutive l" and g: "grows b t" and k: "k \<le> m" "m < length l"
  shows "anc t (rpoint (l ! m)) (rpoint (l ! k))"
  using k
proof (induction m)
  case (Suc m)
  show ?case
  proof (cases "k = Suc m")
    case False
    with Suc have IH: "anc t (rpoint (l ! m)) (rpoint (l ! k))" by simp
    have "log_chain b (lr_term (l ! m)) (l ! Suc m # drop (Suc (Suc m)) l)"
      using path_drop [OF p, of m] Suc.prems by (simp add: Cons_nth_drop_Suc)
    with g have "t (rpoint (l ! Suc m)) = Some (At (unat (lr_index (l ! Suc m)) - 1) (unat (lr_term (l ! m))))"
      by (simp add: grows_def rpoint_def)
    moreover have "unat (lr_index (l ! Suc m)) - 1 = unat (lr_index (l ! m))"
      using consecutive_nth [OF c, of m] consecutive_nth [OF c, of "Suc m"] Suc.prems by simp
    ultimately have "t (rpoint (l ! Suc m)) = Some (rpoint (l ! m))" by (simp add: rpoint_def)
    then show ?thesis using IH by (rule anc_parent)
  qed simp
qed simp

lemma log_anc:
  assumes "log_wf n" and "log_path b (log n)" and "grows b t" and "k < length (log n)"
  shows "anc t (tip n) (rpoint (log n ! k))"
  using path_anc [OF assms(2) log_wfD(2) [OF assms(1)] assms(3), of k "length (log n) - 1"] assms(4) log_wfD(1) [OF assms(1)]
  by (simp add: tip_last [OF assms(1)] last_conv_nth)

lemma anc_boundary: "log_wf n \<Longrightarrow> log_path b (log n) \<Longrightarrow> grows b t \<Longrightarrow> anc t (tip n) (boundary n)"
  using log_anc [of n b t 0] by (simp add: boundary_hd log_wfD(1))

text \<open>Above the boundary, what the tip descends from is in the log.\<close>

lemma anc_in_log:
  assumes ok: "tree_ok t" and wf: "log_wf n" and p: "log_path b (log n)" and g: "grows b t"
    and x: "anc t (tip n) x" "unat (last_snapshot_index n) \<le> p_index x"
  shows "p_index x - unat (last_snapshot_index n) < length (log n)"
    and "rpoint (log n ! (p_index x - unat (last_snapshot_index n))) = x"
proof -
  let ?k = "p_index x - unat (last_snapshot_index n)"
  have "p_index x \<le> unat (LastLogIndexLocked n)" using anc_le(1) [OF ok x(1)] by (simp add: tip_def)
  with log_wf_last [OF wf] log_wfD(1) [OF wf] show k: "?k < length (log n)" by (cases "log n") auto
  note a = log_anc [OF wf p g k]
  have i: "p_index (rpoint (log n ! ?k)) = p_index x"
    using consecutive_nth [OF log_wfD(2) [OF wf] k] log_wfD(3) [OF wf] x(2) by (simp add: rpoint_def)
  from anc_between [OF ok a x(1)] i have "anc t (rpoint (log n ! ?k)) x" by simp
  from anc_same_index [OF ok this] i show "rpoint (log n ! ?k) = x" by simp
qed

lemma request_path:
  assumes "log_chain b (prev_log_term q) (map record_of_entry (entries q))" and "entries_after (prev_log_index q) (entries q)"
  shows "log_path b (request_log q)" and "consecutive (request_log q)"
proof -
  show "log_path b (request_log q)" using assms(1) by (simp add: request_log_def)
  show "consecutive (request_log q)"
    unfolding consecutive_def
  proof (intro allI impI)
    fix i
    assume "i < length (request_log q)"
    then show "unat (lr_index (request_log q ! i)) = unat (lr_index (hd (request_log q))) + i"
      using assms(2) by (cases i) (auto simp: request_log_def entries_after_def record_of_entry_def)
  qed
qed

lemma request_end_index:
  assumes "entries_after (prev_log_index q) (entries q)"
  shows "p_index (request_end q) = unat (prev_log_index q) + length (entries q)"
    and "p_index (request_end q) = unat (if entries q = [] then prev_log_index q else le_index (last (entries q)))"
  using assms by (auto simp: request_end_def request_log_def rpoint_def last_map record_of_entry_def entries_after_def last_conv_nth)

section \<open>What a request does to the tip\<close>

lemma merge_records_cases:
  "if take (length es) (map lr_term ls) = map lr_term es then merge_records ls es = ls
   else es \<noteq> [] \<and> merge_records ls es \<noteq> [] \<and> last (merge_records ls es) = last es"
  by (induction ls es rule: merge_records.induct) (auto split: if_splits)


text \<open>The tip stays when it descends from the last entry of the request; else that entry becomes the tip.\<close>

lemma request_offset:
  assumes wf: "log_wf n" and ok: "prev_ok q n"
  shows "unat (last_snapshot_index n) \<le> unat (prev_log_index q)"
    and "unat (prev_log_index q) - unat (last_snapshot_index n) < length (log n)"
    and "rpoint (log n ! (unat (prev_log_index q) - unat (last_snapshot_index n))) = rpoint (request_log q ! 0)"
proof -
  from ok have bd: "last_snapshot_index n \<le> prev_log_index q" "prev_log_index q \<le> LastLogIndexLocked n"
    using log_wf_HasLog [OF wf] by (auto simp: prev_ok_def)
  note at = log_wf_nth [OF wf bd]
  show "unat (last_snapshot_index n) \<le> unat (prev_log_index q)" using bd(1) by (simp add: u64_simps)
  show "unat (prev_log_index q) - unat (last_snapshot_index n) < length (log n)" by (rule at(2))
  show "rpoint (log n ! (unat (prev_log_index q) - unat (last_snapshot_index n))) = rpoint (request_log q ! 0)"
    using ok at(1,3) TermAtIndexLocked_eq [OF wf, of "prev_log_index q"] by (simp add: prev_ok_def rpoint_def request_log_def)
qed

lemma request_terms:
  assumes ok: "tree_ok t" and wf: "log_wf n" and p: "log_path b (log n)" and g: "grows b t" and pok: "prev_ok q n"
    and c: "log_chain b (prev_log_term q) (map record_of_entry (entries q))"
    and ea: "entries_after (prev_log_index q) (entries q)" and a: "anc t (tip n) (request_end q)"
  defines "k \<equiv> Suc (unat (prev_log_index q) - unat (last_snapshot_index n))"
  shows "take (length (entries q)) (map lr_term (drop k (log n))) = map lr_term (map record_of_entry (entries q))"
proof -
  let ?m = "length (entries q)"
  note P = request_path [OF c ea] and Off = request_offset [OF wf pok]
  have i: "p_index (request_end q) - unat (last_snapshot_index n) = k - 1 + ?m"
    using request_end_index(1) [OF ea] Off(1) by (simp add: k_def)
  have "unat (last_snapshot_index n) \<le> p_index (request_end q)" using request_end_index(1) [OF ea] Off(1) by simp
  from anc_in_log [OF ok wf p g a this] i have in_log: "k - 1 + ?m < length (log n)" "rpoint (log n ! (k - 1 + ?m)) = request_end q"
    by simp_all
  have same: "lr_term (log n ! (k + j)) = lr_term (request_log q ! Suc j)" if j: "j < ?m" for j
  proof -
    have x: "anc t (request_end q) (rpoint (log n ! (k + j)))"
      using path_anc [OF p log_wfD(2) [OF wf] g, of "k + j" "k - 1 + ?m"] in_log j by (simp add: k_def)
    have "request_log q ! ?m = last (request_log q)" by (simp add: request_log_def last_conv_nth nth_Cons')
    with path_anc [OF P g, of "Suc j" ?m] j have y: "anc t (request_end q) (rpoint (request_log q ! Suc j))"
      by (simp add: request_end_def request_log_def)
    have "p_index (rpoint (log n ! (k + j))) = p_index (rpoint (request_log q ! Suc j))"
      using consecutive_nth [OF log_wfD(2) [OF wf], of "k + j"] consecutive_nth [OF P(2), of "Suc j"] log_wfD(3) [OF wf] in_log(1) j Off(1)
      by (simp add: rpoint_def k_def request_log_def)
    with anc_same_index [OF ok anc_between [OF ok x y]] have "rpoint (log n ! (k + j)) = rpoint (request_log q ! Suc j)" by simp
    then show ?thesis by (simp add: rpoint_def word_unat_eq_iff)
  qed
  show ?thesis
    by (rule nth_equalityI) (use in_log(1) same in \<open>auto simp: k_def request_log_def\<close>)
qed

lemma merged_tip:
  assumes ok: "tree_ok t" and wf: "log_wf n" and p: "log_path b (log n)" and g: "grows b t" and pok: "prev_ok q n"
    and c: "log_chain b (prev_log_term q) (map record_of_entry (entries q))"
    and ea: "entries_after (prev_log_index q) (entries q)"
  shows "if anc t (tip n) (request_end q) then merged_log q n = log n else rpoint (last (merged_log q n)) = request_end q"
proof -
  let ?k = "Suc (unat (prev_log_index q) - unat (last_snapshot_index n))" and ?es = "map record_of_entry (entries q)"
  note Off = request_offset [OF wf pok] and M = merge_records_cases [of ?es "drop ?k (log n)"]
  have mg: "merged_log q n = take ?k (log n) @ merge_records (drop ?k (log n)) ?es" by (simp add: merged_log_def Let_def)
  show ?thesis
  proof (cases "take (length ?es) (map lr_term (drop ?k (log n))) = map lr_term ?es")
    case True
    with M mg have "merged_log q n = log n" by simp
    moreover have "anc t (tip n) (request_end q)"
    proof -
      have len: "length (entries q) \<le> length (log n) - ?k" using arg_cong [OF True, of length] by simp
      have "rpoint (log n ! (?k - 1 + length (entries q))) = request_end q"
      proof (cases "entries q" rule: rev_cases)
        case (snoc es e)
        from arg_cong [OF True, of "\<lambda>l. l ! length es"] snoc len
        have "lr_term (log n ! (?k + length es)) = le_term e" by (simp add: nth_append record_of_entry_def)
        moreover have "unat (lr_index (log n ! (?k + length es))) = unat (le_index e)"
          using consecutive_nth [OF log_wfD(2) [OF wf], of "?k + length es"] log_wfD(3) [OF wf] Off(1) snoc len ea
          by (auto simp: entries_after_def nth_append)
        ultimately show ?thesis using snoc by (simp add: request_end_def request_log_def rpoint_def record_of_entry_def)
      qed (use Off(3) in \<open>simp add: request_end_def request_log_def\<close>)
      with log_anc [OF wf p g, of "?k - 1 + length (entries q)"] len Off(2) show ?thesis by simp
    qed
    ultimately show ?thesis by simp
  next
    case False
    with request_terms [OF assms] have "\<not> anc t (tip n) (request_end q)" by auto
    moreover have "rpoint (last (merged_log q n)) = request_end q"
      using M mg False by (simp add: request_end_def request_log_def last_map)
    ultimately show ?thesis by simp
  qed
qed


section \<open>Runs with answers\<close>

text \<open>
  The network, next to that of \<open>LogMatching\<close>:
  \<^item> \<open>acked\<close>: the successful answers, as (term of the request, member, match index);
  \<^item> \<open>posted\<close>: the requests with the member they are for; \<open>refused\<close>: the other answers to them, with the term of the request;
  \<^item> \<open>asked\<close>: the members that a leader of a term decided to send a snapshot to; \<open>handed\<close>: the snapshots on their way;
  \<^item> \<open>declined\<close>: the other answers to these, as (term of the request, member, term and last log index of the answer).

  A snapshot that is offered is of a record that the leader holds and has committed, and a member compacts to a record that it
  holds and has committed: snapshots are taken of what was applied. An installation that was begun can fail with the answer
  of its first section, or finish.
\<close>

record ('w, 'm) run =
  rep :: "('w, 'm) repl"
  acked :: "(u64 \<times> int \<times> u64) set"
  posted :: "(int \<times> AppendEntriesRequest) set"
  refused :: "(u64 \<times> int \<times> AppendEntriesResponse) set"
  asked :: "(u64 \<times> int) set"
  handed :: "(int \<times> InstallSnapshotRequest) set"
  declined :: "(u64 \<times> int \<times> u64 \<times> u64) set"

abbreviation member :: "('w, 'm) run \<Rightarrow> int \<Rightarrow> ('w, 'm) raft_node" where
  "member s p \<equiv> node_of (rep s) p"

abbreviation put_member :: "int \<Rightarrow> ('w, 'm) raft_node \<Rightarrow> ('w, 'm) run \<Rightarrow> ('w, 'm) run" where
  "put_member p n s \<equiv> s\<lparr>rep := put_node p n (rep s)\<rparr>"

text \<open>A step keeps what a leader knows of the other members, and commits nothing.\<close>

definition kept :: "int \<Rightarrow> ('w, 'm) raft_node \<Rightarrow> ('w, 'm) raft_node \<Rightarrow> bool" where
  "kept p n n' \<longleftrightarrow> commit_index n' \<le> commit_index n \<and> (role n = kLeader \<and> role n' = kLeader \<longrightarrow>
     (\<forall>i. i \<noteq> p \<longrightarrow> match_index n' i = match_index n i \<and> next_index n' i = next_index n i))"

text \<open>The answers of a member, sorted by success.\<close>

definition append_answer :: "AppendEntriesRequest \<Rightarrow> int \<Rightarrow> AppendEntriesResponse \<Rightarrow> ('w, 'm) run \<Rightarrow> ('w, 'm) run" where
  "append_answer q p r s = (if as_success r then s\<lparr>acked := insert (aq_term q, p, as_match_index r) (acked s)\<rparr>
     else s\<lparr>refused := insert (aq_term q, p, r) (refused s)\<rparr>)"

definition install_answer :: "InstallSnapshotRequest \<Rightarrow> int \<Rightarrow> InstallSnapshotResponse \<Rightarrow> ('w, 'm) run \<Rightarrow> ('w, 'm) run" where
  "install_answer iq p r s = (if is_success r then s\<lparr>acked := insert (iq_term iq, p, iq_last_included_index iq) (acked s)\<rparr>
     else s\<lparr>declined := insert (iq_term iq, p, is_term r, is_last_log_index r) (declined s)\<rparr>)"

inductive run_step :: "('w, 'm) interfaces \<Rightarrow> int set \<Rightarrow> ('w, 'm) run \<Rightarrow> ('w, 'm) run \<Rightarrow> bool"
  for I :: "('w, 'm) interfaces" and M :: "int set" where
  run_quiet: "cluster_step I M (base (rep s)) c' \<Longrightarrow> (\<And>i. same_log (member s i) (nodes c' i)) \<Longrightarrow> (\<And>i. kept i (member s i) (nodes c' i)) \<Longrightarrow>
    run_step I M s (s\<lparr>rep := (rep s)\<lparr>base := c'\<rparr>\<rparr>)"
| run_append: "c \<in> M \<Longrightarrow> role (member s c) = kLeader \<Longrightarrow> LastLogIndexLocked (member s c) < - 1 \<Longrightarrow>
    AppendLocalLogUnlocked I cmd (member s c) = (i, n') \<Longrightarrow> i \<noteq> 0 \<Longrightarrow>
    run_step I M s (s\<lparr>rep := (put_node c n' (rep s))\<lparr>born := (born (rep s))((i, current_term (member s c)) \<mapsto> (LastLogTermLocked (member s c), cmd))\<rparr>\<rparr>)"
| run_send: "c \<in> M \<Longrightarrow> LastLogIndexLocked (member s c) < - 1 \<Longrightarrow> BuildAppendEntriesRequest pid t (member s c) = (BatchAppend q, n') \<Longrightarrow>
    run_step I M s (s\<lparr>rep := (put_node c n' (rep s))\<lparr>sent := insert q (sent (rep s))\<rparr>, posted := insert (pid, q) (posted s)\<rparr>)"
| run_deliver: "p \<in> M \<Longrightarrow> (p, q) \<in> posted s \<Longrightarrow> OnAppendEntriesLocked I q (member s p) = (r, ap, n') \<Longrightarrow>
    run_step I M s (append_answer q p r (put_member p n' s))"
| run_answer: "c \<in> M \<Longrightarrow> (if as_success r then (t, pid, as_match_index r) \<in> acked s else (t, pid, r) \<in> refused s) \<Longrightarrow>
    run_step I M s (put_member c (snd (snd (HandleAppendEntriesResponse I pid t tgt r (member s c)))) s)"
| run_commit: "c \<in> M \<Longrightarrow> run_step I M s (put_member c (AdvanceCommitIndexUnlocked I (member s c)) s)"
| run_ask: "c \<in> M \<Longrightarrow> LastLogIndexLocked (member s c) < - 1 \<Longrightarrow> BuildAppendEntriesRequest pid t (member s c) = (BatchSnapshot, n') \<Longrightarrow>
    run_step I M s ((put_member c n' s)\<lparr>asked := insert (t, pid) (asked s)\<rparr>)"
| run_offer: "c \<in> M \<Longrightarrow> role (member s c) = kLeader \<Longrightarrow> iq_leader_id iq = c \<Longrightarrow> iq_term iq = current_term (member s c) \<Longrightarrow>
    (iq_term iq, pid) \<in> asked s \<Longrightarrow> boundary_matches (iq_last_included_index iq) (iq_last_included_term iq) (member s c) \<Longrightarrow>
    iq_last_included_index iq \<le> commit_index (member s c) \<Longrightarrow>
    run_step I M s (s\<lparr>rep := (rep s)\<lparr>offered := insert iq (offered (rep s))\<rparr>, handed := insert (pid, iq) (handed s)\<rparr>)"
| run_install_begin: "p \<in> M \<Longrightarrow> (p, iq) \<in> handed s \<Longrightarrow> iq_leader_id iq \<noteq> p \<Longrightarrow> install_begin I iq (member s p) = (Inr r, n') \<Longrightarrow>
    run_step I M s (install_answer iq p r
      (s\<lparr>rep := (put_node p n' (rep s))\<lparr>installing := (installing (rep s))(p := insert iq (installing (rep s) p))\<rparr>\<rparr>))"
| run_install_refused: "p \<in> M \<Longrightarrow> (p, iq) \<in> handed s \<Longrightarrow> install_begin I iq (member s p) = (Inl r, n') \<Longrightarrow>
    run_step I M s (install_answer iq p r (put_member p n' s))"
| run_install_finish: "p \<in> M \<Longrightarrow> iq \<in> installing (rep s) p \<Longrightarrow> \<not> is_success r0 \<Longrightarrow> install_finish I iq r0 (member s p) = (r, n') \<Longrightarrow>
    run_step I M s (install_answer iq p r (put_member p n' s))"
| run_snapshot_answer: "c \<in> M \<Longrightarrow>
    (if is_success r then (t, pid, last_included_index meta) \<in> acked s else (t, pid, is_term r, is_last_log_index r) \<in> declined s) \<Longrightarrow>
    run_step I M s (put_member c (snd (snapshot_answer I pid t meta r (member s c))) s)"
| run_compact: "p \<in> M \<Longrightarrow> boundary_matches i t (member s p) \<Longrightarrow> i \<le> commit_index (member s p) \<Longrightarrow>
    run_step I M s (put_member p (worker_compact I i t (member s p)) s)"

text \<open>A fresh cluster: nothing in the logs, nothing committed, nothing on the network.\<close>

definition run_init :: "int set \<Rightarrow> ('w, 'm) run \<Rightarrow> bool" where
  "run_init M s \<longleftrightarrow> repl_init M (rep s) \<and> (\<forall>p \<in> M. commit_index (member s p) = 0) \<and>
     acked s = {} \<and> posted s = {} \<and> refused s = {} \<and> asked s = {} \<and> handed s = {} \<and> declined s = {}"

inductive run_reach :: "('w, 'm) interfaces \<Rightarrow> int set \<Rightarrow> ('w, 'm) run \<Rightarrow> bool"
  for I :: "('w, 'm) interfaces" and M :: "int set" where
  begin_run: "run_init M s \<Longrightarrow> run_reach I M s"
| next_run: "run_reach I M s \<Longrightarrow> run_step I M s s' \<Longrightarrow> run_reach I M s'"

section \<open>A run is a run of the replication model\<close>

lemma same_log_refl: "same_log n n"
  by (simp add: same_log_def)

lemma repl_quiet_node:
  assumes "p \<in> M" and "local_step I (node_of s p) n'" and "same_log (node_of s p) n'"
  shows "repl_step I M s (put_node p n' s)"
  by (rule repl_step.quiet) (use assms in \<open>auto intro: cluster_step.other simp: same_log_refl\<close>)

lemma same_log_steps:
  shows "same_log n (snd (snd (HandleAppendEntriesResponse I pid t tgt r n)))"
    "same_log n (AdvanceCommitIndexUnlocked I n)" "same_log n (snd (snapshot_answer I pid t meta sr n))"
    "same_log n (snd (install_begin I iq n))" "same_log n (snd (BuildAppendEntriesRequest pid t n))"
  by (simp_all add: same_log_def HandleAppendEntriesResponse_def snapshot_answer_def install_begin_def BuildAppendEntriesRequest_def
      node_defs Let_def split_def)

lemma answer_rep [simp]: "rep (append_answer q p r s) = rep s" "rep (install_answer iq p x s) = rep s"
  by (simp_all add: append_answer_def install_answer_def)

text \<open>What is on its way was sent.\<close>

definition addressed :: "('w, 'm) run \<Rightarrow> bool" where
  "addressed s \<longleftrightarrow> (\<forall>(p, q) \<in> posted s. q \<in> sent (rep s)) \<and> (\<forall>(p, iq) \<in> handed s. iq \<in> offered (rep s) \<and> (iq_term iq, p) \<in> asked s)"

lemma addressed_step:
  assumes "run_step I M s s'" and "addressed s"
  shows "addressed s'"
  using assms by (induction rule: run_step.induct) (auto simp: addressed_def append_answer_def install_answer_def)

lemma addressed_reach: "run_reach I M s \<Longrightarrow> addressed s"
proof (induction rule: run_reach.induct)
  case (next_run s s')
  then show ?case using addressed_step by blast
qed (simp add: addressed_def run_init_def)

lemma run_step_rep:
  assumes "run_step I M s s'" and "addressed s"
  shows "repl_step I M (rep s) (rep s')"
  using assms
proof (induction rule: run_step.induct)
  case (run_deliver p q s r ap n')
  then have "n' = snd (snd (OnAppendEntriesLocked I q (member s p)))" "q \<in> sent (rep s)" by (auto simp: addressed_def)
  with run_deliver(1) show ?case by (auto intro: repl_step.deliver)
next
  case (run_ask c s pid t n')
  then have "n' = snd (BuildAppendEntriesRequest pid t (member s c))" by simp
  with run_ask(1) show ?case by (auto intro: repl_quiet_node local_step.build_request same_log_steps)
next
  case (run_install_begin p iq s r n')
  then have "iq \<in> offered (rep s)" by (auto simp: addressed_def)
  with run_install_begin show ?case by (auto intro: repl_step.intros)
next
  case (run_install_refused p iq s r n')
  then have "n' = snd (install_begin I iq (member s p))" by simp
  with run_install_refused(1) show ?case
    by (auto intro: repl_quiet_node local_step.install_begin same_log_steps)
next
  case (run_install_finish p iq s r0 r n')
  then have "n' = snd (install_finish I iq r0 (member s p))" by simp
  with run_install_finish(1,2) show ?case by (auto intro: repl_step.finish_install)
qed (auto intro: repl_step.intros repl_quiet_node local_step.intros same_log_steps)

lemma run_reach_rep: "run_reach I M s \<Longrightarrow> repl_reach I M (rep s)"
proof (induction rule: run_reach.induct)
  case (begin_run s)
  then show ?case by (simp add: run_init_def repl_reach.init)
next
  case (next_run s s')
  then show ?case using run_step_rep addressed_reach repl_reach.step by blast
qed

end
