(* ===== verification/Simulation.thy ===== *)
theory Simulation
  imports Runs
begin

text \<open>
  The nodes of the program follow the protocol of \<open>Agreement\<close>: a relation between runs and states of the protocol, whose quorums
  are the majorities the code counts, and for every kind of step the steps of the protocol that keep it. A delivery is
  simulated when its request was built on a belief (\<open>probe\<close>) about the member's log; \<open>Consensus\<close> shows that all are.
\<close>

section \<open>The simulation relation\<close>

abbreviation agree_steps :: "int set \<Rightarrow> int agreement \<Rightarrow> int agreement \<Rightarrow> bool" where
  "agree_steps M \<equiv> (agree_step (is_majority M))\<^sup>*\<^sup>*"

abbreviation agree_inv :: "int set \<Rightarrow> int agreement \<Rightarrow> bool" where
  "agree_inv M a \<equiv> shape a \<and> leading a \<and> safe (is_majority M) a \<and> committed (is_majority M) a"

text \<open>\<open>p\<close> has acknowledged everything of term \<open>t\<close> that \<open>e\<close> descends from.\<close>

definition stored :: "int agreement \<Rightarrow> nat \<Rightarrow> int \<Rightarrow> point \<Rightarrow> bool" where
  "stored a t p e \<longleftrightarrow> (\<forall>y. anc (a_tree a) e y \<longrightarrow> y \<noteq> At 0 0 \<longrightarrow> p_term y = t \<longrightarrow> (p, y) \<in> a_acks a)"

definition like_core :: "int set \<Rightarrow> int agreement \<Rightarrow> int \<Rightarrow> ('w, 'm) raft_node \<Rightarrow> bool" where
  "like_core M a p n \<longleftrightarrow> a_term a p = unat (current_term n) \<and> a_role a p = role n \<and> a_tip a p = tip n \<and>
     decided (is_majority M) a (a_term a p) (boundary n) \<and>
     (role n = kLeader \<longrightarrow> stored a (a_term a p) p (tip n) \<and>
        (\<forall>i m. i \<noteq> p \<longrightarrow> match_index n i = Some m \<longrightarrow> m \<noteq> 0 \<longrightarrow>
          (\<exists>e. anc (a_tree a) (tip n) e \<and> p_index e = unat m \<and> stored a (a_term a p) i e)))"

lemma like_coreD:
  assumes "like_core M a p n"
  shows "a_term a p = unat (current_term n)" "a_role a p = role n" "a_tip a p = tip n"
    "decided (is_majority M) a (a_term a p) (boundary n)" "role n = kLeader \<Longrightarrow> stored a (a_term a p) p (tip n)"
    "\<And>i m. role n = kLeader \<Longrightarrow> i \<noteq> p \<Longrightarrow> match_index n i = Some m \<Longrightarrow> m \<noteq> 0 \<Longrightarrow>
       \<exists>e. anc (a_tree a) (tip n) e \<and> p_index e = unat m \<and> stored a (a_term a p) i e"
  using assms unfolding like_core_def by blast+

definition like_node :: "int set \<Rightarrow> int agreement \<Rightarrow> int \<Rightarrow> ('w, 'm) raft_node \<Rightarrow> bool" where
  "like_node M a p n \<longleftrightarrow> like_core M a p n \<and> p_index (a_commit a p) = unat (commit_index n)"

definition messages :: "int set \<Rightarrow> ('w, 'm) repl \<Rightarrow> (u64 \<times> int \<times> u64) set \<Rightarrow> int agreement \<Rightarrow> bool" where
  "messages M s ak a \<longleftrightarrow> grows (born s) (a_tree a) \<and>
     (\<forall>q \<in> sent s. (unat (aq_term q), request_end q) \<in> a_sent a) \<and>
     (\<forall>iq. iq \<in> offered s \<or> (\<exists>p. iq \<in> installing s p) \<longrightarrow> (unat (iq_term iq), snapshot_point iq) \<in> a_sent a \<and>
        decided (is_majority M) a (unat (iq_term iq)) (snapshot_point iq)) \<and>
     (\<forall>t p m. (t, p, m) \<in> ak \<longrightarrow> (\<exists>e. (unat t, e) \<in> a_sent a \<and> p_index e = unat m \<and> stored a (unat t) p e))"

definition ballots :: "int set \<Rightarrow> ('w, 'm) repl \<Rightarrow> int agreement \<Rightarrow> bool" where
  "ballots M s a \<longleftrightarrow> (\<forall>t \<in> a_led a. \<exists>c u. (c, u) \<in> led (base s) \<and> unat u = t) \<and>
     (\<forall>c \<in> M. role (node_of s c) = kCandidate \<longrightarrow>
        (\<forall>p. voted (base s) p (current_term (node_of s c)) c \<longrightarrow> (p, unat (current_term (node_of s c)), c) \<in> a_votes a) \<and>
        (\<forall>e. elections (base s) c (current_term (node_of s c)) = Some e \<longrightarrow>
           At (unat (el_last_log_index e)) (unat (el_last_log_term e)) = tip (node_of s c))) \<and>
     (\<forall>p \<in> M. \<forall>iq \<in> installing s p. iq_term iq = current_term (node_of s p) \<longrightarrow> role (node_of s p) = kFollower)"

definition sim :: "int set \<Rightarrow> ('w, 'm) run \<Rightarrow> int agreement \<Rightarrow> bool" where
  "sim M s a \<longleftrightarrow> (\<forall>p \<in> M. like_node M a p (member s p)) \<and> messages M (rep s) (acked s) a \<and> ballots M (rep s) a"

lemma agree_steps_reach: "agree_steps M a a' \<Longrightarrow> agree_reach (is_majority M) a \<Longrightarrow> agree_reach (is_majority M) a'"
  by (induction rule: rtranclp_induct) (auto intro: agree_reach.next_agree)

text \<open>What the protocol has established stays.\<close>

lemma steps_forward:
  assumes st: "agree_steps M a a'" and r: "agree_reach (is_majority M) a"
  shows "a_tree a \<subseteq>\<^sub>m a_tree a'" and "a_sent a \<subseteq> a_sent a'" and "a_acks a \<subseteq> a_acks a'" and "a_votes a \<subseteq> a_votes a'"
    and "decided (is_majority M) a t z \<Longrightarrow> t \<le> t' \<Longrightarrow> decided (is_majority M) a' t' z"
proof -
  have "a_tree a \<subseteq>\<^sub>m a_tree a' \<and> a_sent a \<subseteq> a_sent a' \<and> a_acks a \<subseteq> a_acks a' \<and> a_votes a \<subseteq> a_votes a' \<and>
      (\<forall>t z t'. decided (is_majority M) a t z \<longrightarrow> t \<le> t' \<longrightarrow> decided (is_majority M) a' t' z)"
    using st
  proof (induction rule: rtranclp_induct)
    case base
    show ?case by (auto simp: decided_def intro: order_trans)
  next
    case (step b c)
    from agree_steps_reach [OF step(1) r] have inv: "shape b" "leading b" using agree_reach_shape by blast+
    have "a_sent b \<subseteq> a_sent c \<and> a_acks b \<subseteq> a_acks c \<and> a_votes b \<subseteq> a_votes c"
      using step(2) by (cases rule: agree_step.cases) auto
    moreover note tree_forward [OF step(2) inv] decided_forward [OF step(2) inv _ order_refl]
    ultimately show ?case using step.IH by (meson map_le_trans order_trans)
  qed
  then show "a_tree a \<subseteq>\<^sub>m a_tree a'" "a_sent a \<subseteq> a_sent a'" "a_acks a \<subseteq> a_acks a'" "a_votes a \<subseteq> a_votes a'"
    "decided (is_majority M) a t z \<Longrightarrow> t \<le> t' \<Longrightarrow> decided (is_majority M) a' t' z" by blast+
qed

lemma stored_forward:
  assumes st: "agree_steps M a a'" and r: "agree_reach (is_majority M) a" and e: "rooted (a_tree a) e" and "stored a t p e"
  shows "stored a' t p e"
proof -
  have "tree_ok (a_tree a')" using agree_reach_shape [OF agree_steps_reach [OF st r]] shapeD(1) by blast
  from anc_ext [OF this steps_forward(1) [OF st r] e] steps_forward(3) [OF st r] assms(4) show ?thesis
    by (auto simp: stored_def)
qed

lemma reach_inv: "agree_reach (is_majority M) a \<Longrightarrow> agree_inv M a"
  by (rule maj.agree_reach_inv)

lemma reach_invD:
  assumes "agree_reach (is_majority M) a"
  shows "shape a" "leading a" "safe (is_majority M) a" "committed (is_majority M) a"
  using reach_inv [OF assms] by simp_all

lemma commitD:
  assumes "agree_reach (is_majority M) a"
  shows "decided (is_majority M) a (a_term a p) (a_commit a p)" "anc (a_tree a) (a_tip a p) (a_commit a p)"
  using reach_invD(4) [OF assms] by (simp_all add: committed_def)

lemma rooted_below: "tree_ok t \<Longrightarrow> rooted t x \<Longrightarrow> anc t x y \<Longrightarrow> rooted t y"
  using anc_between [of t x y "At 0 0"] by simp

lemma messages_forward:
  assumes st: "agree_steps M a a'" and r: "agree_reach (is_majority M) a" and m: "messages M s ak a"
  shows "messages M s ak a'"
proof -
  note F = steps_forward [OF st r]
  have root: "rooted (a_tree a) e" if "(t, e) \<in> a_sent a" for t e using reach_inv [OF r] shapeD(5) that by blast
  have "grows (born s) (a_tree a')" using m grows_mono [OF _ F(1)] unfolding messages_def by blast
  moreover have "\<exists>e. (unat t, e) \<in> a_sent a' \<and> p_index e = unat m \<and> stored a' (unat t) p e" if "(t, p, m) \<in> ak" for t p m
  proof -
    from m that obtain e where e: "(unat t, e) \<in> a_sent a" "p_index e = unat m" "stored a (unat t) p e"
      unfolding messages_def by blast
    from stored_forward [OF st r root [OF e(1)] e(3)] e F(2) show ?thesis by blast
  qed
  moreover have "(unat (aq_term q), request_end q) \<in> a_sent a'" if "q \<in> sent s" for q
    using m that F(2) unfolding messages_def by blast
  moreover have "(unat (iq_term iq), snapshot_point iq) \<in> a_sent a' \<and> decided (is_majority M) a' (unat (iq_term iq)) (snapshot_point iq)"
    if "iq \<in> offered s \<or> (\<exists>p. iq \<in> installing s p)" for iq
  proof -
    have "(unat (iq_term iq), snapshot_point iq) \<in> a_sent a" "decided (is_majority M) a (unat (iq_term iq)) (snapshot_point iq)"
      using m that unfolding messages_def by blast+
    with F(2) F(5) [OF _ order_refl] show ?thesis by blast
  qed
  ultimately show ?thesis unfolding messages_def by blast
qed

lemma like_core_forward:
  assumes st: "agree_steps M a a'" and r: "agree_reach (is_majority M) a" and l: "like_core M a p n"
    and same: "a_term a' p = a_term a p" "a_role a' p = a_role a p" "a_tip a' p = a_tip a p"
  shows "like_core M a' p n"
proof -
  note F = steps_forward [OF st r]
  have ok: "tree_ok (a_tree a)" and root: "rooted (a_tree a) (tip n)"
    using shapeD(1) [of a] shapeD(2) [of a p] reach_inv [OF r] l by (auto simp: like_core_def)
  have "\<exists>e. anc (a_tree a') (tip n) e \<and> p_index e = unat m \<and> stored a' (a_term a p) i e"
    if "role n = kLeader" "i \<noteq> p" "match_index n i = Some m" "m \<noteq> 0" for i m
  proof -
    from l that obtain e where e: "anc (a_tree a) (tip n) e" "p_index e = unat m" "stored a (a_term a p) i e"
      unfolding like_core_def by blast
    from stored_forward [OF st r rooted_below [OF ok root e(1)] e(3)] e anc_mono [OF F(1) e(1)] show ?thesis by blast
  qed
  with l same F(5) [OF _ order_refl] stored_forward [OF st r root] show ?thesis unfolding like_core_def by metis
qed

text \<open>Steps that concern one member.\<close>

definition others :: "int \<Rightarrow> int agreement \<Rightarrow> int agreement \<Rightarrow> bool" where
  "others p a a' \<longleftrightarrow> (\<forall>i. i \<noteq> p \<longrightarrow> a_term a' i = a_term a i \<and> a_role a' i = a_role a i \<and> a_tip a' i = a_tip a i \<and>
     a_commit a' i = a_commit a i)"

definition only :: "int \<Rightarrow> int agreement \<Rightarrow> int agreement \<Rightarrow> bool" where
  "only p a a' \<longleftrightarrow> others p a a' \<and> a_led a' = a_led a"

lemma only_refl: "only p a a"
  by (simp add: only_def others_def)

lemma only_trans: "only p a b \<Longrightarrow> only p b c \<Longrightarrow> only p a c"
  by (simp add: only_def others_def)

lemma same_tip: "same_log n n' \<Longrightarrow> tip n' = tip n" "same_log n n' \<Longrightarrow> boundary n' = boundary n"
  by (simp_all add: same_log_def tip_def boundary_def LastLogIndexLocked_def LastLogTermLocked_def)

text \<open>A step keeps the match indexes of the other members, and commits nothing.\<close>

definition held :: "int \<Rightarrow> ('w, 'm) raft_node \<Rightarrow> ('w, 'm) raft_node \<Rightarrow> bool" where
  "held p n n' \<longleftrightarrow> commit_index n' \<le> commit_index n \<and>
     (role n = kLeader \<and> role n' = kLeader \<longrightarrow> (\<forall>i. i \<noteq> p \<longrightarrow> match_index n' i = match_index n i))"

lemma kept_held: "kept p n n' \<Longrightarrow> held p n n'"
  by (simp add: kept_def held_def)

lemma core_same:
  assumes "like_core M a p n" and "same_log n n'" and "role n' = role n" and "current_term n' = current_term n"
    and "\<And>i. role n = kLeader \<Longrightarrow> i \<noteq> p \<Longrightarrow> match_index n' i = match_index n i"
  shows "like_core M a p n'"
  using assms(1,3-5) same_tip [OF assms(2)] by (auto simp: like_core_def)

lemma core_send:
  assumes core: "like_core M a c n" and r: "agree_reach (is_majority M) a" and L: "role n = kLeader" and e: "anc (a_tree a) (tip n) e"
  shows "\<exists>a'. agree_steps M a a' \<and> like_core M a' c n \<and> others c a a' \<and> a_led a' = a_led a \<and> a_commit a' = a_commit a \<and>
    a_tip a' = a_tip a \<and> (a_term a' c, e) \<in> a_sent a'"
proof -
  let ?a = "a\<lparr>a_sent := insert (a_term a c, e) (a_sent a)\<rparr>"
  have st: "agree_steps M a ?a" by (intro r_into_rtranclp agree_step.transmit) (use core L e in \<open>simp_all add: like_core_def\<close>)
  have "like_core M ?a c n" by (rule like_core_forward [OF st r core]) simp_all
  with st show ?thesis by (intro exI [of _ ?a]) (simp add: others_def)
qed

text \<open>A leader that leaves its term behind, or only its role, has sent its tip.\<close>

lemma core_observe:
  assumes l: "like_core M a p n" and r: "agree_reach (is_majority M) a" and s: "same_log n n'"
    and "role n' = kFollower" and t: "current_term n \<le> current_term n'"
  shows "\<exists>a'. agree_steps M a a' \<and> like_core M a' p n' \<and> only p a a' \<and> a_commit a' = a_commit a"
proof -
  have "\<exists>b. agree_steps M a b \<and> like_core M b p n \<and> only p a b \<and> a_commit b = a_commit a \<and> (role n = kLeader \<longrightarrow> (a_term b p, a_tip b p) \<in> a_sent b)"
  proof (cases "role n = kLeader")
    case True
    with core_send [OF l r _ anc_refl] like_coreD(3) [OF l] show ?thesis by (auto simp: only_def)
  qed (use l only_refl in blast)
  then obtain b where b: "agree_steps M a b" "like_core M b p n" "only p a b" "a_commit b = a_commit a"
    "role n = kLeader \<longrightarrow> (a_term b p, a_tip b p) \<in> a_sent b" by blast
  note rb = agree_steps_reach [OF b(1) r]
  let ?a = "b\<lparr>a_term := (a_term b)(p := unat (current_term n')), a_role := (a_role b)(p := kFollower)\<rparr>"
  have le: "a_term b p \<le> unat (current_term n')" using b(2) t by (simp add: like_core_def word_le_nat_alt)
  then have st: "agree_steps M b ?a"
    by (intro r_into_rtranclp agree_step.observe) (use b(5) like_coreD(2) [OF b(2)] in simp_all)
  have "decided (is_majority M) b (a_term b p) (boundary n')"
    using b(2) unfolding same_tip(2) [OF s] like_core_def by blast
  from steps_forward(5) [OF st rb this le] have "like_core M ?a p n'"
    using b(2) assms(4) same_tip [OF s] by (simp add: like_core_def)
  with st b(1,3,4) show ?thesis by (intro exI [of _ ?a]) (auto simp: only_def others_def)
qed

lemma decided_down: "decided Q a t z \<Longrightarrow> tree_ok (a_tree a) \<Longrightarrow> anc (a_tree a) z w \<Longrightarrow> decided Q a t w"
  unfolding decided_def using root_below anc_trans by metis

text \<open>The commit point of a member moves to a decided point of its log.\<close>

lemma node_learn:
  assumes l: "like_core M a p n" and r: "agree_reach (is_majority M) a" and z: "decided (is_majority M) a (a_term a p) z"
    "anc (a_tree a) (a_tip a p) z" "p_index z = unat (commit_index n)"
  shows "\<exists>a'. agree_steps M a a' \<and> like_node M a' p n \<and> only p a a'"
proof -
  let ?a = "a\<lparr>a_commit := (a_commit a)(p := z)\<rparr>"
  have st: "agree_steps M a ?a" by (intro r_into_rtranclp agree_step.learn z)
  moreover have "like_core M ?a p n" by (rule like_core_forward [OF st r l]) simp_all
  ultimately show ?thesis using z(3) by (intro exI [of _ ?a]) (simp add: only_def others_def like_node_def)
qed

lemma node_lower:
  assumes l: "like_core M a p n" and r: "agree_reach (is_majority M) a" and c: "unat (commit_index n) \<le> p_index (a_commit a p)"
  shows "\<exists>a'. agree_steps M a a' \<and> like_node M a' p n \<and> only p a a'"
proof -
  note S = shapeD(1,2) [OF reach_invD(1) [OF r]] and cm = commitD [OF r, of p]
  then have ok: "tree_ok (a_tree a)" and root: "rooted (a_tree a) (a_tip a p)" by simp_all
  from anc_at [OF ok rooted_below [OF ok root cm(2)] c] obtain w where w: "anc (a_tree a) (a_commit a p) w" "p_index w = unat (commit_index n)"
    by blast
  show ?thesis by (rule node_learn [OF l r decided_down [OF cm(1) ok w(1)] anc_trans [OF cm(2) w(1)] w(2)])
qed

lemma node_quiet:
  assumes l: "like_node M a p n" and r: "agree_reach (is_majority M) a" and c: "calm n n'" and s: "same_log n n'" and k: "held p n n'"
  shows "\<exists>a'. agree_steps M a a' \<and> like_node M a' p n' \<and> only p a a'"
proof -
  have core: "like_core M a p n" and ci: "p_index (a_commit a p) = unat (commit_index n)" using l by (simp_all add: like_node_def)
  have le: "unat (commit_index n') \<le> p_index (a_commit a p)" using k ci by (simp add: held_def word_le_nat_alt)
  have "\<exists>b. agree_steps M a b \<and> like_core M b p n' \<and> only p a b \<and> a_commit b = a_commit a"
  proof (cases "role n' = kFollower")
    case True
    show ?thesis by (rule core_observe [OF core r s True calm_terms [OF c]])
  next
    case False
    with c have "role n' = role n" "current_term n' = current_term n" by (simp_all add: calm_def)
    with core_same [OF core s] k have "like_core M a p n'" by (simp add: held_def)
    then show ?thesis by (intro exI [of _ a]) (simp add: only_refl)
  qed
  then obtain b where b: "agree_steps M a b" "like_core M b p n'" "only p a b" "a_commit b = a_commit a" by blast
  from node_lower [OF b(2) agree_steps_reach [OF b(1) r]] le b(4)
  obtain a' where "agree_steps M b a'" "like_node M a' p n'" "only p b a'" by auto
  with b show ?thesis by (meson only_trans rtranclp_trans)
qed


section \<open>One member moves\<close>

lemma simD:
  assumes "sim M s a"
  shows "\<And>p. p \<in> M \<Longrightarrow> like_node M a p (member s p)" "messages M (rep s) (acked s) a" "ballots M (rep s) a"
  using assms by (simp_all add: sim_def)

lemma like_others:
  assumes sim: "sim M s a" and r: "agree_reach (is_majority M) a" and st: "agree_steps M a a'" and o: "others p a a'"
    and l: "like_node M a' p n'" and i: "i \<in> M"
  shows "like_node M a' i (((nodes (base (rep s)))(p := n')) i)"
proof (cases "i = p")
  case False
  with o have eqs: "a_term a' i = a_term a i" "a_role a' i = a_role a i" "a_tip a' i = a_tip a i" "a_commit a' i = a_commit a i"
    by (simp_all add: others_def)
  have "like_core M a i (member s i)" using simD(1) [OF sim i] by (simp add: like_node_def)
  from like_core_forward [OF st r this eqs(1-3)] simD(1) [OF sim i] eqs(4) False show ?thesis by (simp add: like_node_def)
qed (use l in simp)

text \<open>Ballots of a step that calls no election and grants no vote.\<close>

lemma ballots_calm:
  assumes b: "ballots M s a" and st: "agree_steps M a a'" and r: "agree_reach (is_majority M) a" and o: "only p a a'"
    and c: "calm (node_of s p) n'" and same: "role n' = kCandidate \<Longrightarrow> tip n' = tip (node_of s p)"
    and base: "base s' = set_node p n' (base s)"
    and ins: "\<And>i iq. iq \<in> installing s' i \<Longrightarrow> iq \<in> installing s i \<or> i = p \<and> role n' = kFollower"
  shows "ballots M s' a'"
proof -
  have v: "voted (set_node p n' (base s)) = voted (base s)" by (simp add: voted_def fun_eq_iff)
  have led: "a_led a' = a_led a" and votes: "a_votes a \<subseteq> a_votes a'" using o steps_forward(4) [OF st r] by (simp_all add: only_def others_def)
  have cand: "role n' = kCandidate \<Longrightarrow> role (node_of s p) = kCandidate \<and> current_term n' = current_term (node_of s p)"
    and foll: "role n' \<noteq> kFollower \<Longrightarrow> role n' = role (node_of s p) \<and> current_term n' = current_term (node_of s p)"
    using c by (auto simp: calm_def)
  show ?thesis
    unfolding ballots_def base led
  proof (intro conjI ballI allI impI)
    show "\<exists>c u. (c, u) \<in> led (set_node p n' (base s)) \<and> unat u = t" if "t \<in> a_led a" for t
      using b that by (simp add: ballots_def)
  next
    fix d i
    assume d: "d \<in> M" "role (nodes (set_node p n' (base s)) d) = kCandidate"
      "voted (set_node p n' (base s)) i (current_term (nodes (set_node p n' (base s)) d)) d"
    then show "(i, unat (current_term (nodes (set_node p n' (base s)) d)), d) \<in> a_votes a'"
      using b votes cand unfolding ballots_def v by (cases "d = p") auto
  next
    fix d e
    assume "d \<in> M" "role (nodes (set_node p n' (base s)) d) = kCandidate"
      "elections (set_node p n' (base s)) d (current_term (nodes (set_node p n' (base s)) d)) = Some e"
    then show "At (unat (el_last_log_index e)) (unat (el_last_log_term e)) = tip (nodes (set_node p n' (base s)) d)"
      using b cand same unfolding ballots_def by (cases "d = p") auto
  next
    fix i iq
    assume i: "i \<in> M" "iq \<in> installing s' i" "iq_term iq = current_term (nodes (set_node p n' (base s)) i)"
    have old: "role (node_of s i) = kFollower" if "iq \<in> installing s i" "iq_term iq = current_term (node_of s i)"
      using b i(1) that unfolding ballots_def by blast
    show "role (nodes (set_node p n' (base s)) i) = kFollower"
    proof (rule ccontr)
      assume "role (nodes (set_node p n' (base s)) i) \<noteq> kFollower"
      with ins [OF i(2)] old i(3) foll show False by (cases "i = p") auto
    qed
  qed
qed

lemma sim_calm:
  assumes sim: "sim M s a" and r: "agree_reach (is_majority M) a" and st: "agree_steps M a a'" and o: "only p a a'"
    and l: "like_node M a' p n'" and c: "calm (member s p) n'" and same: "role n' = kCandidate \<Longrightarrow> tip n' = tip (member s p)"
    and base: "base (rep s') = set_node p n' (base (rep s))"
    and ins: "\<And>i iq. iq \<in> installing (rep s') i \<Longrightarrow> iq \<in> installing (rep s) i \<or> i = p \<and> role n' = kFollower"
    and m: "messages M (rep s') (acked s') a'"
  shows "sim M s' a'"
  using like_others [OF sim r st _ l] o [unfolded only_def] ballots_calm [OF simD(3) [OF sim] st r o c same base ins] m
  by (simp add: sim_def base)

lemma sim_quiet_node:
  assumes sim: "sim M s a" and r: "agree_reach (is_majority M) a" and p: "p \<in> M"
    and c: "calm (member s p) n'" and s: "same_log (member s p) n'" and k: "held p (member s p) n'"
  shows "\<exists>a'. agree_steps M a a' \<and> sim M (put_member p n' s) a'"
proof -
  from node_quiet [OF simD(1) [OF sim p] r c s k] obtain a' where a': "agree_steps M a a'" "like_node M a' p n'" "only p a a'" by blast
  have "messages M (put_node p n' (rep s)) (acked s) a'"
    using messages_forward [OF a'(1) r simD(2) [OF sim]] by (simp add: messages_def)
  with sim_calm [OF sim r a'(1,3,2) c, of "put_member p n' s"] same_tip(1) [OF s] a'(1) show ?thesis by auto
qed


section \<open>Elections\<close>

lemma replies_elected:
  assumes "reachable I M s" and "(c, t, p, r) \<in> replies s"
  shows "elections s c t \<noteq> None"
  using assms
proof (induction arbitrary: c t p r rule: reachable.induct)
  case (reach_init s)
  then show ?case by (simp add: cluster_init_def)
next
  case (reach_step s s')
  from reach_step.hyps(2) reach_step.prems reach_step.IH show ?case
    by (cases rule: cluster_step.cases) (auto split: if_splits)
qed

lemma elected_terms:
  assumes "election_inv M s" and "elections s c t \<noteq> None"
  shows "t \<le> current_term (nodes s c)"
proof -
  have "voted s c t c" using assms(2) by (simp add: voted_def)
  from election_invD(6) [OF assms(1) this] show ?thesis by (auto simp: vote_recorded_def)
qed

lemma OnElectionTimeout_tip:
  assumes "OnElectionTimeout I gen n = (Some e, n')"
  shows "At (unat (el_last_log_index e)) (unat (el_last_log_term e)) = tip n"
proof -
  from OnElectionTimeout_cases [OF assms] obtain m where m: "log m = log n" "last_snapshot_index m = last_snapshot_index n"
    "last_snapshot_term m = last_snapshot_term n" "StartElectionLocked I m = (Some e, n')" by auto
  from StartElection_Some(10,11) [OF m(4)] m(1-3) show ?thesis by (simp add: tip_def LastLogIndexLocked_def LastLogTermLocked_def)
qed

text \<open>A member that calls an election has its own vote, and no other yet.\<close>

lemma ballots_timeout:
  assumes bl: "ballots M s a" and reach: "reachable I M (base s)" and inv: "repl_inv M s" and c: "c \<in> M" "current_term (node_of s c) \<noteq> - 1"
    and ot: "OnElectionTimeout I gen (node_of s c) = (Some e, n')" and sl: "same_log (node_of s c) n'" and led: "a_led a' = a_led a"
    and v: "(c, unat (current_term n'), c) \<in> a_votes a'" and votes: "a_votes a \<subseteq> a_votes a'"
  defines "b \<equiv> (set_node c n' (base s))\<lparr>elections := (elections (base s))(c := (elections (base s) c)(el_term e \<mapsto> e)),
      answered := (answered (base s))(c := (answered (base s) c)(el_term e := {}))\<rparr>"
  shows "ballots M (s\<lparr>base := b\<rparr>) a'"
proof -
  note E = OnElectionTimeout_Some [OF ot] and ei = election_inv_reachable [OF reach]
  note B = bl [unfolded ballots_def]
  have nb: "nodes b d = (if d = c then n' else node_of s d)" for d by (simp add: b_def)
  have old: "voted (base s) i t d = voted b i t d" if "(d, t) \<noteq> (c, el_term e)" for i t d
    using that by (auto simp: voted_def b_def)
  have new: "i = c" if "voted b i (el_term e) c" for i
    using that replies_elected [OF reach, of c "el_term e"] elected_terms [OF ei, of c "el_term e"] E(5) less_plus_one [OF c(2)]
    by (auto simp: voted_def b_def)
  show ?thesis
    unfolding ballots_def
  proof (intro conjI ballI allI impI; simp)
    show "\<exists>d u. (d, u) \<in> led b \<and> unat u = t" if "t \<in> a_led a'" for t using B led that by (simp add: b_def)
  next
    fix d i
    assume d: "d \<in> M" "role (nodes b d) = kCandidate" "voted b i (current_term (nodes b d)) d"
    show "(i, unat (current_term (nodes b d)), d) \<in> a_votes a'"
    proof (cases "d = c")
      case True
      with d(3) nb E(1,5) new [of i] v show ?thesis by simp
    next
      case False
      with d(2,3) nb old [of d] have "role (node_of s d) = kCandidate" "voted (base s) i (current_term (node_of s d)) d" by simp_all
      with B d(1) votes nb False show ?thesis by auto
    qed
  next
    fix d f
    assume "d \<in> M" "role (nodes b d) = kCandidate" "elections b d (current_term (nodes b d)) = Some f"
    then show "At (unat (el_last_log_index f)) (unat (el_last_log_term f)) = tip (nodes b d)"
      using B OnElectionTimeout_tip [OF ot] same_tip(1) [OF sl] E(1,5) by (auto simp: b_def split: if_splits)
  next
    fix i iq
    assume i: "i \<in> M" "iq \<in> installing s i" "iq_term iq = current_term (nodes b i)"
    show "role (nodes b i) = kFollower"
    proof (cases "i = c")
      case True
      with repl_invD(9) [OF inv, of iq c] i nb E(1) less_plus_one [OF c(2)] show ?thesis by simp
    next
      case False
      with i B nb show ?thesis by auto
    qed
  qed
qed

lemma sim_timeout:
  assumes sim: "sim M s a" and r: "agree_reach (is_majority M) a" and reach: "reachable I M (base (rep s))"
    and inv: "repl_inv M (rep s)" and c: "c \<in> M" "current_term (member s c) \<noteq> - 1" and ot: "OnElectionTimeout I gen (member s c) = (Some e, n')"
    and sl: "same_log (member s c) n'" and k: "held c (member s c) n'"
  defines "b \<equiv> (set_node c n' (base (rep s)))\<lparr>elections := (elections (base (rep s)))(c := (elections (base (rep s)) c)(el_term e \<mapsto> e)),
      answered := (answered (base (rep s)))(c := (answered (base (rep s)) c)(el_term e := {}))\<rparr>"
  shows "\<exists>a'. agree_steps M a a' \<and> sim M (s\<lparr>rep := (rep s)\<lparr>base := b\<rparr>\<rparr>) a'"
proof -
  let ?n = "member s c"
  note E = OnElectionTimeout_Some [OF ot]
  let ?a = "a\<lparr>a_term := (a_term a)(c := Suc (a_term a c)), a_role := (a_role a)(c := kCandidate),
      a_votes := insert (c, Suc (a_term a c), c) (a_votes a)\<rparr>"
  have core: "like_core M a c ?n" and ci: "p_index (a_commit a c) = unat (commit_index ?n)"
    using simD(1) [OF sim c(1)] by (simp_all add: like_node_def)
  have up: "unat (current_term n') = Suc (unat (current_term ?n))"
    using unat_add_one [OF less_plus_one [OF c(2)]] E(1) by simp
  have st: "agree_steps M a ?a" by (intro r_into_rtranclp agree_step.timeout)
  have "decided (is_majority M) a (a_term a c) (boundary n')" using core unfolding same_tip(2) [OF sl] like_core_def by blast
  from steps_forward(5) [OF st r this] have core': "like_core M ?a c n'"
    using core up E(3) same_tip [OF sl] by (simp add: like_core_def)
  have "unat (commit_index n') \<le> p_index (a_commit ?a c)" using k ci by (simp add: held_def word_le_nat_alt)
  from node_lower [OF core' agree_steps_reach [OF st r] this]
  obtain a' where a': "agree_steps M ?a a'" "like_node M a' c n'" "only c ?a a'" by blast
  have st': "agree_steps M a a'" using st a'(1) by (rule rtranclp_trans)
  have o: "only c a a'" using a'(3) by (simp add: only_def others_def)
  have v: "(c, unat (current_term n'), c) \<in> a_votes a'"
    using steps_forward(4) [OF a'(1) agree_steps_reach [OF st r]] core up by (auto simp: like_core_def)
  have votes: "a_votes a \<subseteq> a_votes a'" using steps_forward(4) [OF st' r] .
  have "ballots M ((rep s)\<lparr>base := b\<rparr>) a'"
    unfolding b_def by (rule ballots_timeout [OF simD(3) [OF sim] reach inv c ot sl _ v votes]) (use o in \<open>simp add: only_def\<close>)
  moreover have "messages M ((rep s)\<lparr>base := b\<rparr>) (acked s) a'"
    using messages_forward [OF st' r simD(2) [OF sim]] by (simp add: messages_def)
  moreover have "like_node M a' i (nodes b i)" if "i \<in> M" for i
    using like_others [OF sim r st' _ a'(2) that] o by (simp add: b_def only_def)
  ultimately show ?thesis using st' by (auto simp: sim_def)
qed


text \<open>A new answer matters while the candidate runs for its term.\<close>

lemma ballots_reply:
  assumes b: "ballots M s a" and v: "a_votes a \<subseteq> a_votes a'" "a_led a' = a_led a"
    and new: "vote_granted x \<Longrightarrow> role (node_of s c) = kCandidate \<Longrightarrow> current_term (node_of s c) = t \<Longrightarrow> (p, unat t, c) \<in> a_votes a'"
  shows "ballots M (s\<lparr>base := (base s)\<lparr>replies := insert (c, t, p, x) (replies (base s))\<rparr>\<rparr>) a'" (is "ballots M ?s a'")
proof -
  have "(i, unat (current_term (node_of s d)), d) \<in> a_votes a'"
    if d: "d \<in> M" "role (node_of s d) = kCandidate" "voted (base ?s) i (current_term (node_of s d)) d" for i d
  proof (cases "voted (base s) i (current_term (node_of s d)) d")
    case True
    with b d(1,2) v(1) show ?thesis unfolding ballots_def by blast
  next
    case False
    with d(3) have "i = p" "d = c" "current_term (node_of s d) = t" "vote_granted x" by (auto simp: voted_def)
    with new d(2) show ?thesis by simp
  qed
  with b v(2) show ?thesis unfolding ballots_def by simp
qed

lemma sim_reply:
  assumes sim: "sim M s a" and r: "agree_reach (is_majority M) a" and M: "c \<in> M" "p \<in> M"
    and up: "vote_granted x \<Longrightarrow> role (member s c) = kCandidate \<Longrightarrow> current_term (member s c) = t \<Longrightarrow>
      current_term (member s p) = t \<and> up_to_date (tip (member s c)) (tip (member s p))"
  shows "\<exists>a'. agree_steps M a a' \<and> sim M (s\<lparr>rep := (rep s)\<lparr>base := (base (rep s))\<lparr>replies := insert (c, t, p, x) (replies (base (rep s)))\<rparr>\<rparr>\<rparr>) a'"
    (is "\<exists>a'. _ \<and> sim M ?s a'")
proof (cases "vote_granted x \<and> role (member s c) = kCandidate \<and> current_term (member s c) = t")
  case True
  let ?a = "a\<lparr>a_votes := insert (p, a_term a c, c) (a_votes a)\<rparr>"
  have core: "like_core M a c (member s c)" "like_core M a p (member s p)" using simD(1) [OF sim] M by (simp_all add: like_node_def)
  have st: "agree_steps M a ?a"
    by (intro r_into_rtranclp agree_step.vote) (use core True up in \<open>auto simp: like_core_def\<close>)
  have "like_node M ?a i (member s i)" if "i \<in> M" for i
  proof -
    have "like_core M a i (member s i)" using simD(1) [OF sim that] by (simp add: like_node_def)
    from like_core_forward [OF st r this] simD(1) [OF sim that] show ?thesis by (simp add: like_node_def)
  qed
  moreover have "messages M (rep ?s) (acked s) ?a"
    using messages_forward [OF st r simD(2) [OF sim]] by (simp add: messages_def)
  moreover have "ballots M (rep ?s) ?a"
    using ballots_reply [OF simD(3) [OF sim], of ?a x c t p] True core by (simp add: like_core_def subset_insertI)
  ultimately have "sim M ?s ?a" by (simp add: sim_def)
  with st show ?thesis by blast
next
  case False
  have "ballots M (rep ?s) a" using ballots_reply [OF simD(3) [OF sim], of a x c t p] False by auto
  with simD(1,2) [OF sim] have "sim M ?s a" by (simp add: sim_def messages_def)
  then show ?thesis by blast
qed

lemma sim_vote_request:
  assumes sim: "sim M s a" and r: "agree_reach (is_majority M) a" and ei: "election_inv M (base (rep s))"
    and M: "c \<in> M" "p \<in> M" "p \<noteq> c" and e: "elections (base (rep s)) c t = Some e"
    and rv: "OnRequestVote I (election_request e (member s c)) (member s p) = (x, n')"
    and sl: "same_log (member s p) n'" and k: "held p (member s p) n'"
  shows "\<exists>a'. agree_steps M a a' \<and>
    sim M (s\<lparr>rep := (rep s)\<lparr>base := (set_node p n' (base (rep s)))\<lparr>replies := insert (c, t, p, x) (replies (base (rep s)))\<rparr>\<rparr>\<rparr>) a'"
proof -
  let ?q = "election_request e (member s c)"
  have n': "n' = snd (OnRequestVote I ?q (member s p))" "x = fst (OnRequestVote I ?q (member s p))" using rv by simp_all
  have "calm (member s p) n'" unfolding n' by (rule calm_OnRequestVote)
  from sim_quiet_node [OF sim r M(2) this sl k] obtain b where b: "agree_steps M a b" "sim M (put_member p n' s) b" by blast
  have et: "el_term e = t" using election_invD(8) [OF ei e] by (simp add: tally_ok_def)
  have up: "current_term n' = t \<and> up_to_date (tip (member s c)) (tip n')"
    if g: "vote_granted x" "role (member s c) = kCandidate" "current_term (member s c) = t"
  proof -
    from g(1) have G: "vote_granted (fst (OnRequestVote I ?q (member s p)))" by (simp add: n')
    have tm: "current_term n' = t" using OnRequestVote_granted(1) [OF G] by (simp add: n'(1) et election_request_def)
    have "IsCandidateLogUpToDateLocked (el_last_log_index e) (el_last_log_term e) (member s p)"
      using OnRequestVote_granted(5) [OF G] by (simp add: election_request_def)
    then have "up_to_date (At (unat (el_last_log_index e)) (unat (el_last_log_term e))) (tip (member s p))"
      by (auto simp: IsCandidateLogUpToDateLocked_def up_to_date_def tip_def Let_def word_less_nat_alt word_le_nat_alt split: if_splits)
    moreover have "At (unat (el_last_log_index e)) (unat (el_last_log_term e)) = tip (member s c)"
      using simD(3) [OF sim] M(1) g(2,3) e unfolding ballots_def by blast
    ultimately show ?thesis using tm same_tip(1) [OF sl] by simp
  qed
  from sim_reply [OF b(2) agree_steps_reach [OF b(1) r] M(1,2), of x t] up M(3)
  obtain a' where "agree_steps M b a'" "sim M (s\<lparr>rep := (rep s)\<lparr>base := (set_node p n' (base (rep s)))
      \<lparr>replies := insert (c, t, p, x) (replies (base (rep s)))\<rparr>\<rparr>\<rparr>) a'" by auto
  with b(1) show ?thesis by (blast intro: rtranclp_trans)
qed


lemma sim_tally:
  assumes sim: "sim M s a" and e: "elections (base (rep s)) c t = Some e"
    and e': "el_last_log_index e' = el_last_log_index e" "el_last_log_term e' = el_last_log_term e"
  shows "sim M (s\<lparr>rep := (rep s)\<lparr>base := (base (rep s))\<lparr>elections := (elections (base (rep s)))(c := (elections (base (rep s)) c)(t \<mapsto> e')),
      answered := A\<rparr>\<rparr>\<rparr>) a" (is "sim M ?s a")
proof -
  have "voted (base (rep ?s)) = voted (base (rep s))" using e by (auto simp: voted_def fun_eq_iff)
  moreover have "At (unat (el_last_log_index f)) (unat (el_last_log_term f)) = tip (member s d)"
    if "d \<in> M" "role (member s d) = kCandidate" "elections (base (rep ?s)) d (current_term (member s d)) = Some f" for d f
    using simD(3) [OF sim] that e e' unfolding ballots_def by (auto split: if_splits)
  ultimately have "ballots M (rep ?s) a" using simD(3) [OF sim] unfolding ballots_def by simp
  with simD(1,2) [OF sim] show ?thesis by (simp add: sim_def messages_def)
qed

lemma vote_reply_last:
  assumes "vote_reply I e r n = (won, e', n')"
  shows "el_last_log_index e' = el_last_log_index e" "el_last_log_term e' = el_last_log_term e"
  using assms by (auto simp: vote_reply_def Let_def split: if_splits)

lemma init_peer_progress_match:
  "match_index (init_peer_progress l ps n) i = (if i \<in> peer_id ` set ps then Some 0 else match_index n i)"
  by (induction ps arbitrary: n) (auto simp: GetOrCreateReplicatorLocked_def split: option.split)

lemma BecomeLeader_match: "match_index (BecomeLeaderLocked n) i = Some m \<Longrightarrow> i \<noteq> node_id n \<Longrightarrow> m = 0"
  by (auto simp: BecomeLeaderLocked_def init_peer_progress_match node_defs Let_def split: if_splits)

lemma sim_won:
  assumes sim: "sim M s a" and r: "agree_reach (is_majority M) a" and ei: "election_inv M (base (rep s))"
    and inv: "repl_inv M (rep s)" and ei': "election_inv M ((set_node c n' (base (rep s)))\<lparr>led := insert (c, t) (led (base (rep s)))\<rparr>)"
    and c: "c \<in> M" and e: "elections (base (rep s)) c t = Some e" "el_won e \<or> el_quorum e \<le> 1"
    and won: "OnElectionWonLocked t (member s c) = (True, n')" and sl: "same_log (member s c) n'" and k: "held c (member s c) n'"
  shows "\<exists>a'. agree_steps M a a' \<and>
    sim M (s\<lparr>rep := (rep s)\<lparr>base := (set_node c n' (base (rep s)))\<lparr>led := insert (c, t) (led (base (rep s)))\<rparr>\<rparr>\<rparr>) a'"
    (is "\<exists>a'. _ \<and> sim M ?s a'")
proof -
  let ?n = "member s c" and ?a = "a\<lparr>a_role := (a_role a)(c := kLeader), a_led := insert (a_term a c) (a_led a)\<rparr>"
  from won have W: "role ?n = kCandidate" "current_term ?n = t" "n' = BecomeLeaderLocked ?n"
    by (auto simp: OnElectionWonLocked_def split: if_splits)
  have rt: "role n' = kLeader" "current_term n' = t" using W by simp_all
  have core: "like_core M a c ?n" and ci: "p_index (a_commit a c) = unat (commit_index ?n)"
    using simD(1) [OF sim c] by (simp_all add: like_node_def)
  have at: "a_term a c = unat t" "a_role a c = kCandidate" "a_tip a c = tip n'" using core W same_tip(1) [OF sl] by (simp_all add: like_core_def)
  note B = simD(3) [OF sim, unfolded ballots_def]
  have "el_quorum e \<le> el_votes e" using election_invD(8) [OF ei e(1)] e(2) by (auto simp: tally_ok_def)
  from winner_majority [OF ei e(1) this] have maj: "is_majority M {p \<in> M. voted (base (rep s)) p t c}" .
  have vt: "(p, a_term a c, c) \<in> a_votes a" if "p \<in> {p \<in> M. voted (base (rep s)) p t c}" for p
    using B c W(1,2) at(1) that by auto
  have fresh: "a_term a c \<notin> a_led a"
  proof
    assume "a_term a c \<in> a_led a"
    with B obtain d u where d: "(d, u) \<in> led (base (rep s))" "unat u = a_term a c" by blast
    then have "u = t" using at(1) by (simp add: word_unat_eq_iff)
    with d(1) election_inv_safe [OF ei', of d t c] have "(c, t) \<in> led (base (rep s))" by auto
    with repl_invD(5) [OF inv, of c] W(1,2) show False by simp
  qed
  have st: "agree_steps M a ?a" by (rule r_into_rtranclp, rule agree_step.elect) (use at(2) maj vt fresh in blast)+
  note inv' = reach_inv [OF agree_steps_reach [OF st r]] and S = shapeD [OF reach_invD(1) [OF r]]
  have none: "\<not> (anc (a_tree a) (tip n') y \<and> p_term y = a_term a c)" for y
    using anc_le(2) [OF S(1), of "tip n'" y] S(11) [OF at(2)] at(3) by auto
  have "decided (is_majority M) a (a_term a c) (boundary n')" using core unfolding same_tip(2) [OF sl] like_core_def by blast
  from steps_forward(5) [OF st r this order_refl] have core': "like_core M ?a c n'"
    using at rt none BecomeLeader_match [of ?n] W(3) election_invD(3) [OF ei c] by (auto simp: like_core_def stored_def member_ok_def)
  have "unat (commit_index n') \<le> p_index (a_commit ?a c)" using k ci by (simp add: held_def word_le_nat_alt)
  from node_lower [OF core' agree_steps_reach [OF st r] this]
  obtain a' where a': "agree_steps M ?a a'" "like_node M a' c n'" "only c ?a a'" by blast
  have st': "agree_steps M a a'" using st a'(1) by (rule rtranclp_trans)
  have "others c a a'" using a'(3) by (simp add: only_def others_def)
  from like_others [OF sim r st' this a'(2)] have "like_node M a' i (member ?s i)" if "i \<in> M" for i using that by simp
  moreover have "messages M (rep ?s) (acked s) a'" using messages_forward [OF st' r simD(2) [OF sim]] by (simp add: messages_def)
  moreover have "ballots M (rep ?s) a'"
  proof -
    have "voted (base (rep ?s)) = voted (base (rep s))" by (simp add: voted_def fun_eq_iff)
    moreover have "a_led a' = insert (unat t) (a_led a)" using a'(3) at(1) by (simp add: only_def others_def)
    moreover have "iq \<notin> installing (rep s) c" if "iq_term iq = t" for iq
      using B c W(1,2) that by auto
    moreover have "\<exists>d v. (d, v) \<in> led (base (rep ?s)) \<and> unat v = u" if "u \<in> insert (unat t) (a_led a)" for u
      using conjunct1 [OF B] that by (cases "u = unat t") (simp, blast)+
    ultimately show ?thesis using B steps_forward(4) [OF st' r] rt unfolding ballots_def by auto
  qed
  ultimately have "sim M ?s a'" by (simp add: sim_def)
  with st' show ?thesis by blast
qed


text \<open>Every step of the cluster that keeps logs, commit indexes and match indexes.\<close>

lemma sim_quiet:
  assumes sim: "sim M s a" and r: "agree_reach (is_majority M) a" and reach: "reachable I M (base (rep s))"
    and inv: "repl_inv M (rep s)" and st: "cluster_step I M (base (rep s)) b"
    and sl: "\<And>i. same_log (member s i) (nodes b i)" and k: "\<And>i. held i (member s i) (nodes b i)"
  shows "\<exists>a'. agree_steps M a a' \<and> sim M (s\<lparr>rep := (rep s)\<lparr>base := b\<rparr>\<rparr>) a'"
proof -
  note ei = election_inv_reachable [OF reach] and ei' = election_inv_reachable [OF reachable.reach_step [OF reach st]]
  have one: "same_log (member s p) n' \<and> held p (member s p) n'" if "nodes b = (nodes (base (rep s)))(p := n')" for p n'
    using sl [of p] k [of p] that by simp
  from st show ?thesis
  proof (cases rule: cluster_step.cases)
    case (timeout_started c gen e n')
    with one [of c n'] sim_timeout [OF sim r reach inv timeout_started(2-4)] show ?thesis by simp
  next
    case (timeout_ignored c gen n')
    with one [of c n'] sim_quiet_node [OF sim r timeout_ignored(2) calm_timeout_ignored [OF timeout_ignored(3)]] show ?thesis by simp
  next
    case (vote_request c p t e x n')
    with one [of p n'] sim_vote_request [OF sim r ei vote_request(2-6)] show ?thesis by simp
  next
    case (vote_answer c t p x e won e' n')
    have "calm (member s c) n'" using calm_vote_reply [of "member s c" I e x] vote_answer(6) by simp
    with one [of c n'] vote_answer sim_quiet_node [OF sim r vote_answer(2)]
    obtain a' where a': "agree_steps M a a'" "sim M (put_member c n' s) a'" by auto
    from sim_tally [OF a'(2), of c t e e'] vote_answer vote_reply_last [OF vote_answer(6)] a'(1) show ?thesis by auto
  next
    case (election_won c t e n')
    with one [of c n'] ei' sim_won [OF sim r ei inv _ election_won(2-5)] show ?thesis by simp
  next
    case (other i n')
    with one [of i n'] sim_quiet_node [OF sim r other(2) calm_local_step [OF other(3)]] show ?thesis by simp
  qed
qed


section \<open>Appending and sending\<close>

lemma node_ack:
  assumes r: "agree_reach (is_majority M) a"
  shows "\<exists>X. agree_steps M a (a\<lparr>a_acks := X\<rparr>) \<and> (\<forall>e. anc (a_tree a) (a_tip a p) e \<longrightarrow> stored (a\<lparr>a_acks := X\<rparr>) (a_term a p) p e)"
proof -
  let ?X = "{y. anc (a_tree a) (a_tip a p) y \<and> y \<noteq> At 0 0 \<and> p_term y = a_term a p}"
  have S: "tree_ok (a_tree a)" "rooted (a_tree a) (a_tip a p)" using shapeD(1,2) [OF reach_invD(1) [OF r]] by simp_all
  have "x \<in> dom (a_tree a) \<and> p_term x = a_term a p \<and> anc (a_tree a) (a_tip a p) x" if "x \<in> ?X" for x
    using that rooted_dom [OF rooted_below [OF S, of x]] by simp
  then have "agree_step (is_majority M) a (a\<lparr>a_acks := a_acks a \<union> {p} \<times> ?X\<rparr>)" by (rule agree_step.acknowledge)
  moreover have "stored (a\<lparr>a_acks := a_acks a \<union> {p} \<times> ?X\<rparr>) (a_term a p) p e" if "anc (a_tree a) (a_tip a p) e" for e
    using that by (auto simp: stored_def intro: anc_trans)
  ultimately show ?thesis by (blast intro: r_into_rtranclp)
qed

lemma node_grow:
  assumes l: "like_node M a c n" and r: "agree_reach (is_majority M) a" and L: "role n = kLeader"
    and n': "role n' = kLeader" "current_term n' = current_term n" "commit_index n' = commit_index n" "boundary n' = boundary n"
      "\<And>i. i \<noteq> c \<Longrightarrow> match_index n' i = match_index n i"
    and t: "tip n' = At (Suc (p_index (tip n))) (a_term a c)"
  shows "\<exists>a'. agree_steps M a a' \<and> like_node M a' c n' \<and> only c a a' \<and> a_tree a' (tip n') = Some (tip n)"
proof -
  let ?a = "a\<lparr>a_tree := (a_tree a)(tip n' \<mapsto> a_tip a c), a_tip := (a_tip a)(c := tip n')\<rparr>"
  have core: "like_core M a c n" and ci: "p_index (a_commit a c) = unat (commit_index n)" using l by (simp_all add: like_node_def)
  have at: "a_role a c = kLeader" "a_tip a c = tip n" using core L by (simp_all add: like_core_def)
  have x: "tip n' = At (Suc (p_index (a_tip a c))) (a_term a c)" using t at(2) by simp
  have g: "agree_steps M a ?a" by (intro r_into_rtranclp agree_step.grow at(1) x)
  note rg = agree_steps_reach [OF g r]
  from node_ack [OF rg, of c] obtain X where X: "agree_steps M ?a (?a\<lparr>a_acks := X\<rparr>)"
    "\<And>e. anc (a_tree ?a) (a_tip ?a c) e \<Longrightarrow> stored (?a\<lparr>a_acks := X\<rparr>) (a_term ?a c) c e" by blast
  let ?b = "?a\<lparr>a_acks := X\<rparr>"
  have st: "agree_steps M a ?b" using g X(1) by (rule rtranclp_trans)
  note F = steps_forward [OF st r] and S = shapeD [OF reach_invD(1) [OF r]]
  have down: "anc (a_tree ?b) (tip n') e" if "anc (a_tree a) (tip n) e" for e
    by (rule anc_parent [of _ _ "tip n"]) (use that anc_mono [OF F(1)] at(2) in simp_all)
  have "decided (is_majority M) ?b (a_term ?b c) (boundary n')"
    using F(5) [OF like_coreD(4) [OF core] order_refl] n'(4) by simp
  moreover have "\<exists>e. anc (a_tree ?b) (tip n') e \<and> p_index e = unat m \<and> stored ?b (a_term ?b c) i e"
    if i: "i \<noteq> c" "match_index n' i = Some m" "m \<noteq> 0" for i m
  proof -
    have "match_index n i = Some m" using i n'(5) by simp
    with core L i obtain e where e: "anc (a_tree a) (tip n) e" "p_index e = unat m" "stored a (a_term a c) i e"
      unfolding like_core_def by blast
    have "rooted (a_tree a) e" using rooted_below [OF S(1) S(2) [of c]] e(1) at(2) by simp
    from stored_forward [OF st r this e(3)] e(2) down [OF e(1)] show ?thesis by auto
  qed
  moreover have "stored ?b (a_term ?b c) c (tip n')" using X(2) [of "tip n'"] by simp
  ultimately have "like_node M ?b c n'" using core ci at n'(1-3) by (simp add: like_node_def like_core_def)
  with st show ?thesis using at(2) by (intro exI [of _ ?b]) (simp add: only_def others_def)
qed


lemma sim_append:
  assumes sim: "sim M s a" and r: "agree_reach (is_majority M) a" and ei: "election_inv M (base (rep s))" and inv: "repl_inv M (rep s)"
    and c: "c \<in> M" "role (member s c) = kLeader" and room: "LastLogIndexLocked (member s c) < - 1"
    and ap: "AppendLocalLogUnlocked I cmd (member s c) = (i, n')" and i: "i \<noteq> 0"
  shows "\<exists>a'. agree_steps M a a' \<and> sim M (s\<lparr>rep := (put_node c n' (rep s))
    \<lparr>born := (born (rep s))((i, current_term (member s c)) \<mapsto> (LastLogTermLocked (member s c), cmd))\<rparr>\<rparr>) a'"
    (is "\<exists>a'. _ \<and> sim M ?s a'")
proof -
  let ?n = "member s c"
  have n': "n' = snd (AppendLocalLogUnlocked I cmd ?n)" "i = fst (AppendLocalLogUnlocked I cmd ?n)" using ap by simp_all
  have ix: "i = SafeAddOne (LastLogIndexLocked ?n)" using i n'(2) by (simp add: Append_result split: if_splits)
  then have ui: "unat i = Suc (unat (LastLogIndexLocked ?n))" using SafeAddOne_eq_Suc [OF room] by simp
  have lg: "log n' = log ?n @ [\<lparr>lr_index = i, lr_term = current_term ?n, lr_command = cmd\<rparr>]"
    using i n' ix by (simp add: Append_log)
  have l: "like_node M a c ?n" by (rule simD(1) [OF sim c(1)])
  have at: "a_term a c = unat (current_term ?n)" using l by (simp add: like_node_def like_core_def)
  have id: "node_id ?n = c" using election_invD(3) [OF ei c(1)] by (simp add: member_ok_def)
  have tp: "tip n' = At (Suc (p_index (tip ?n))) (a_term a c)"
    using lg ui at by (simp add: tip_def LastLogIndexLocked_def LastLogTermLocked_def)
  have ca: "calm ?n n'" unfolding n'(1) by (rule calm_simple)
  have mt: "match_index n' j = match_index ?n j" if "j \<noteq> c" for j
    using that id unfolding n'(1) by (simp add: AppendLocalLogUnlocked_def Let_def split_def split: option.split)
  obtain a' where a': "agree_steps M a a'" "like_node M a' c n'" "only c a a'" "a_tree a' (tip n') = Some (tip ?n)"
    using node_grow [OF l r c(2) _ _ _ _ mt tp] n'(1) c(2) by (auto simp: boundary_def)
  have "grows (born (rep ?s)) (a_tree a')"
    using messages_forward [OF a'(1) r simD(2) [OF sim]] a'(4) i ui at tp
    by (auto simp: messages_def grows_def tip_def)
  then have "messages M (rep ?s) (acked ?s) a'"
    using messages_forward [OF a'(1) r simD(2) [OF sim]] by (simp add: messages_def)
  from sim_calm [OF sim r a'(1,3,2) ca _ _ _ this] c(2) n'(1) have "sim M ?s a'" by auto
  with a'(1) show ?thesis by blast
qed

lemma batch_end:
  assumes wf: "log_wf n" and room: "LastLogIndexLocked n < - 1" and p: "log_path b (log n)" and g: "grows b t"
    and bq: "BuildAppendEntriesRequest pid u n = (BatchAppend q, n')"
  shows "anc t (tip n) (request_end q)"
proof -
  let ?j = "unat (prev_log_index q) - unat (last_snapshot_index n)"
  note B = batch_records [OF wf room bq]
  from B(4) obtain k where k: "map record_of_entry (entries q) = take k (drop (Suc ?j) (log n))" by blast
  have "\<exists>m < length (log n). rpoint (log n ! m) = request_end q"
  proof (cases "entries q = []")
    case True
    with B(1-3) show ?thesis by (intro exI [of _ ?j]) (simp add: request_end_def request_log_def rpoint_def)
  next
    case False
    let ?l = "take k (drop (Suc ?j) (log n))"
    have ne: "?l \<noteq> []" using False unfolding k [symmetric] by simp
    then have "last ?l = log n ! (Suc ?j + (length ?l - 1))" "Suc ?j + (length ?l - 1) < length (log n)"
      by (auto simp: last_conv_nth)
    moreover have "request_end q = rpoint (last ?l)" unfolding request_end_def request_log_def k last_ConsR [OF ne] ..
    ultimately show ?thesis by metis
  qed
  with log_anc [OF wf p g] show ?thesis by metis
qed

lemma node_send:
  assumes l: "like_node M a c n" and r: "agree_reach (is_majority M) a" and L: "role n = kLeader" and e: "anc (a_tree a) (tip n) e"
  shows "\<exists>a'. agree_steps M a a' \<and> like_node M a' c n \<and> only c a a' \<and> (a_term a c, e) \<in> a_sent a'"
proof -
  have core: "like_core M a c n" using l by (simp add: like_node_def)
  from core_send [OF core r L e] obtain a' where "agree_steps M a a'" "like_core M a' c n" "others c a a'" "a_led a' = a_led a"
    "a_commit a' = a_commit a" "(a_term a' c, e) \<in> a_sent a'" by blast
  with l like_coreD(1) [OF core] like_coreD(1) [of M a' c n] show ?thesis by (intro exI [of _ a']) (auto simp: only_def like_node_def)
qed

text \<open>A leader can send its tip at any time.\<close>

lemma sim_transmit:
  assumes sim: "sim M s a" and r: "agree_reach (is_majority M) a" and c: "c \<in> M" "role (member s c) = kLeader"
  shows "\<exists>a'. agree_steps M a a' \<and> sim M s a' \<and> (a_term a' c, a_tip a' c) \<in> a_sent a'"
proof -
  let ?n = "member s c"
  have l: "like_node M a c ?n" by (rule simD(1) [OF sim c(1)])
  from node_send [OF l r c(2) anc_refl] obtain a' where a': "agree_steps M a a'" "like_node M a' c ?n" "only c a a'"
    "(a_term a c, tip ?n) \<in> a_sent a'" by blast
  have "messages M (rep s) (acked s) a'" by (rule messages_forward [OF a'(1) r simD(2) [OF sim]])
  from sim_calm [OF sim r a'(1,3,2) calm_same _ _ _ this] have "sim M s a'" by simp
  moreover have "(a_term a' c, a_tip a' c) \<in> a_sent a'" using a'(2,4) l by (simp add: like_node_def like_core_def)
  ultimately show ?thesis using a'(1) by blast
qed

lemma sim_send:
  assumes sim: "sim M s a" and r: "agree_reach (is_majority M) a" and inv: "repl_inv M (rep s)" and c: "c \<in> M"
    and room: "LastLogIndexLocked (member s c) < - 1" and b: "BuildAppendEntriesRequest pid t (member s c) = (BatchAppend q, n')"
  shows "\<exists>a'. agree_steps M a a' \<and> sim M (s\<lparr>rep := (put_node c n' (rep s))\<lparr>sent := insert q (sent (rep s))\<rparr>\<rparr>) a'"
    (is "\<exists>a'. _ \<and> sim M ?s a'")
proof -
  let ?n = "member s c"
  note D = repl_invD(1,2) [OF inv c] and B = Build_request [OF repl_invD(1) [OF inv c] room b]
  have n': "n' = snd (BuildAppendEntriesRequest pid t ?n)" using b by simp
  have same: "same_log ?n n'" "held c ?n n'" "role n' = role ?n" "current_term n' = current_term ?n" "commit_index n' = commit_index ?n"
    unfolding n' by (simp_all add: same_log_def held_def BuildAppendEntriesRequest_def Let_def)
  have ca: "calm ?n n'" unfolding n' by (rule calm_simple)
  have l: "like_node M a c ?n" by (rule simD(1) [OF sim c])
  have "grows (born (rep s)) (a_tree a)" using simD(2) [OF sim] by (simp add: messages_def)
  note e = batch_end [OF D(1) room D(2) this b]
  from node_send [OF l r B(1) e] obtain a' where a': "agree_steps M a a'" "like_node M a' c ?n" "only c a a'"
    "(a_term a c, request_end q) \<in> a_sent a'" by blast
  have core': "like_core M a' c n'" by (rule core_same [of _ _ _ ?n]) (use a'(2) same in \<open>auto simp: like_node_def held_def\<close>)
  then have l': "like_node M a' c n'" using a'(2) same(5) by (simp add: like_node_def)
  have at: "a_term a c = unat (aq_term q)" using l B(2,3) by (simp add: like_node_def like_core_def)
  have "messages M (rep ?s) (acked ?s) a'"
    using messages_forward [OF a'(1) r simD(2) [OF sim]] a'(4) at by (auto simp: messages_def)
  from sim_calm [OF sim r a'(1,3) l' ca _ _ _ this] same_tip(1) [OF same(1)] have "sim M ?s a'" by auto
  with a'(1) show ?thesis by blast
qed


lemma calm_refl: "calm n n"
  by (rule calm_same) simp_all

lemma matches_in_log:
  assumes "log_wf n" and "log_path b (log n)" and "grows b t" and "boundary_matches i u n"
  shows "anc t (tip n) (At (unat i) (unat u))"
proof -
  from assms(4) obtain k where "k < length (log n)" "rpoint (log n ! k) = At (unat i) (unat u)"
    by (auto simp: boundary_matches_def in_set_conv_nth rpoint_def)
  with log_anc [OF assms(1-3)] show ?thesis by metis
qed

lemma below_commit:
  assumes r: "agree_reach (is_majority M) a" and x: "anc (a_tree a) (a_tip a p) x" "p_index x \<le> p_index (a_commit a p)"
  shows "decided (is_majority M) a (a_term a p) x"
proof -
  have ok: "tree_ok (a_tree a)" using shapeD(1) [OF reach_invD(1) [OF r]] .
  show ?thesis by (rule decided_down [OF commitD(1) [OF r] ok anc_between [OF ok commitD(2) [OF r] x]])
qed

lemma sim_offer:
  assumes sim: "sim M s a" and r: "agree_reach (is_majority M) a" and inv: "repl_inv M (rep s)"
    and c: "c \<in> M" "role (member s c) = kLeader" "iq_term iq = current_term (member s c)"
    and b: "boundary_matches (iq_last_included_index iq) (iq_last_included_term iq) (member s c)"
    and cm: "iq_last_included_index iq \<le> commit_index (member s c)"
  shows "\<exists>a'. agree_steps M a a' \<and> sim M (s\<lparr>rep := (rep s)\<lparr>offered := insert iq (offered (rep s))\<rparr>\<rparr>) a'" (is "\<exists>a'. _ \<and> sim M ?s a'")
proof -
  let ?n = "member s c"
  have l: "like_node M a c ?n" by (rule simD(1) [OF sim c(1)])
  then have core: "like_core M a c ?n" by (simp add: like_node_def)
  have "grows (born (rep s)) (a_tree a)" using simD(2) [OF sim] by (simp add: messages_def)
  from matches_in_log [OF repl_invD(1,2) [OF inv c(1)] this b] have e: "anc (a_tree a) (tip ?n) (snapshot_point iq)"
    by (simp add: snapshot_point_def)
  from node_send [OF l r c(2) e] obtain a' where a': "agree_steps M a a'" "like_node M a' c ?n" "only c a a'"
    "(a_term a c, snapshot_point iq) \<in> a_sent a'" by blast
  have at: "a_term a c = unat (iq_term iq)" using like_coreD(1) [OF core] c(3) by simp
  have "p_index (snapshot_point iq) \<le> p_index (a_commit a c)"
    using cm l by (simp add: like_node_def snapshot_point_def word_le_nat_alt)
  from below_commit [OF r _ this] e like_coreD(3) [OF core] have "decided (is_majority M) a (a_term a c) (snapshot_point iq)" by simp
  from steps_forward(5) [OF a'(1) r this order_refl] have "messages M (rep ?s) (acked ?s) a'"
    using messages_forward [OF a'(1) r simD(2) [OF sim]] a'(4) at by (auto simp: messages_def)
  from sim_calm [OF sim r a'(1,3,2) calm_refl _ _ _ this] have "sim M ?s a'" by simp
  with a'(1) show ?thesis by blast
qed

section \<open>Delivering\<close>

text \<open>A follower in the term of a message takes its point, unless it has it.\<close>

lemma node_store:
  assumes core: "like_core M a p n" and r: "agree_reach (is_majority M) a" and f: "role n = kFollower" "role n' = kFollower"
    and e: "(a_term a p, e) \<in> a_sent a" and t: "current_term n' = current_term n"
    and bd: "decided (is_majority M) a (a_term a p) (boundary n')"
    and tp: "tip n' = (if anc (a_tree a) (tip n) e then tip n else e)"
  shows "\<exists>a'. agree_steps M a a' \<and> like_core M a' p n' \<and> only p a a' \<and> a_commit a' = a_commit a \<and> anc (a_tree a') (tip n') e"
proof (cases "anc (a_tree a) (tip n) e")
  case True
  have "like_core M a p n'" using like_coreD(1-3) [OF core] f t bd tp True by (simp add: like_core_def)
  with True tp show ?thesis by (intro exI [of _ a]) (simp add: only_refl)
next
  case False
  let ?a = "a\<lparr>a_tip := (a_tip a)(p := e)\<rparr>"
  have st: "agree_steps M a ?a"
    by (intro r_into_rtranclp agree_step.store) (use like_coreD(2,3) [OF core] f e False in simp_all)
  from steps_forward(5) [OF st r bd order_refl] have "like_core M ?a p n'"
    using like_coreD(1,2) [OF core] f t tp False by (simp add: like_core_def)
  with st tp False show ?thesis by (intro exI [of _ ?a]) (simp add: only_def others_def)
qed

text \<open>A member acknowledges a point of its log, if it wants to, and learns the commit index.\<close>

lemma node_answer:
  assumes core: "like_core M a p n" and r: "agree_reach (is_majority M) a" and e: "anc (a_tree a) (tip n) e"
    and z: "unat (commit_index n) \<le> p_index (a_commit a p) \<or> (\<exists>z. decided (is_majority M) a (a_term a p) z \<and> anc (a_tree a) (tip n) z \<and>
      p_index z = unat (commit_index n))"
  shows "\<exists>a'. agree_steps M a a' \<and> like_node M a' p n \<and> only p a a' \<and> stored a' (unat (current_term n)) p e"
proof -
  note C = like_coreD [OF core]
  from node_ack [OF r, of p] obtain X where X: "agree_steps M a (a\<lparr>a_acks := X\<rparr>)"
    "\<And>e. anc (a_tree a) (a_tip a p) e \<Longrightarrow> stored (a\<lparr>a_acks := X\<rparr>) (a_term a p) p e" by blast
  let ?b = "a\<lparr>a_acks := X\<rparr>"
  note rb = agree_steps_reach [OF X(1) r]
  have core': "like_core M ?b p n" by (rule like_core_forward [OF X(1) r core]) simp_all
  have "\<exists>a'. agree_steps M ?b a' \<and> like_node M a' p n \<and> only p ?b a'"
    using z
  proof
    assume "unat (commit_index n) \<le> p_index (a_commit a p)"
    then show ?thesis using node_lower [OF core' rb] by simp
  next
    assume "\<exists>z. decided (is_majority M) a (a_term a p) z \<and> anc (a_tree a) (tip n) z \<and> p_index z = unat (commit_index n)"
    then obtain z where z: "decided (is_majority M) a (a_term a p) z" "anc (a_tree a) (tip n) z" "p_index z = unat (commit_index n)" by blast
    from steps_forward(5) [OF X(1) r z(1) order_refl] z C(3) show ?thesis by (intro node_learn [OF core' rb]) simp_all
  qed
  then obtain a' where a': "agree_steps M ?b a'" "like_node M a' p n" "only p ?b a'" by blast
  have "rooted (a_tree a) e" using rooted_below [OF shapeD(1,2) [OF reach_invD(1) [OF r]], of p e] e C(3) by simp
  with stored_forward [OF a'(1) rb _ X(2) [of e]] e C(1,3) have "stored a' (unat (current_term n)) p e" by simp
  with a' X(1) show ?thesis by (intro exI [of _ a']) (auto simp: only_def others_def)
qed


lemma append_follow_term:
  assumes "fst (append_follow I q n)" and "current_term n \<le> aq_term q"
  shows "current_term (snd (append_follow I q n)) = aq_term q"
  using assms by (auto simp: append_follow_def node_defs Let_def split_def split: if_splits option.splits)

lemma deliver_facts:
  assumes h: "OnAppendEntriesLocked I q n = (r, ap, n')" and t: "current_term n \<le> aq_term q"
  shows "role n' = kFollower" and "boundary n' = boundary n" and "current_term n \<le> current_term n'"
    and "as_success r \<or> log n' \<noteq> log n \<Longrightarrow> current_term n' = aq_term q"
proof -
  have n': "n' = snd (snd (OnAppendEntriesLocked I q n))" "r = fst (OnAppendEntriesLocked I q n)" using h by simp_all
  have nl: "\<not> aq_term q < current_term n" using t by simp
  show "role n' = kFollower" using nl by (simp add: n' OnAppendEntriesLocked_role)
  show "boundary n' = boundary n" by (simp add: n' boundary_def OnAppendEntriesLocked_frame)
  show "current_term n \<le> current_term n'" using calm_terms [OF calm_append_entries [of n I q]] by (simp add: n')
  assume s: "as_success r \<or> log n' \<noteq> log n"
  have "fst (append_follow I q n)"
  proof (rule ccontr)
    assume "\<not> fst (append_follow I q n)"
    then have "\<not> as_success r \<and> log n' = log n" using nl by (simp add: n' OnAppendEntriesLocked_def Let_def split_def)
    with s show False by blast
  qed
  with append_follow_term [OF this t] nl show "current_term n' = aq_term q"
    by (simp add: n' OnAppendEntriesLocked_def Let_def split_def append_merge_frame)
qed


text \<open>What the request says of the commit index is decided and in the log, as far as the request goes.\<close>

lemma request_commit:
  assumes ok: "tree_ok (a_tree a)" and z: "p_index z = unat lc" "decided Q a t z" "related (a_tree a) tp z"
    and k: "k = min (unat lc) (p_index tp)"
  shows "\<exists>w. decided Q a t w \<and> anc (a_tree a) tp w \<and> p_index w = k"
proof (cases "unat lc \<le> p_index tp")
  case True
  then have "anc (a_tree a) tp z" using z(1,3) anc_same_index [OF ok, of z tp] by (auto simp: related_def)
  with z(1,2) True k show ?thesis by (intro exI [of _ z]) auto
next
  case False
  then have "anc (a_tree a) z tp" using z(1,3) anc_le(1) [OF ok, of tp z] by (auto simp: related_def)
  with decided_down [OF z(2) ok] False k show ?thesis by (intro exI [of _ tp]) auto
qed

lemma deliver_tip:
  assumes ok: "tree_ok t" and wf: "log_wf n" and p: "log_path b (log n)" and g: "grows b t"
    and c: "log_chain b (prev_log_term q) (map record_of_entry (entries q))"
    and ea: "entries_after (prev_log_index q) (entries q)" and h: "OnAppendEntriesLocked I q n = (r, ap, n')"
  shows "tip n' = (if log n' = log n \<or> anc t (tip n) (request_end q) then tip n else request_end q)"
    and "as_success r \<Longrightarrow> log n' = log n \<Longrightarrow> anc t (tip n) (request_end q)"
proof -
  have n': "n' = snd (snd (OnAppendEntriesLocked I q n))" "r = fst (OnAppendEntriesLocked I q n)" using h by simp_all
  have wf': "log_wf n'" unfolding n' by (rule log_wf_OnAppendEntriesLocked [OF wf])
  have cs: "log n' = log n \<and> \<not> as_success r \<or> prev_ok q n \<and> log n' = merged_log q n"
    using OnAppendEntriesLocked_cases [OF wf ea, of I] h by (auto simp: Let_def)
  note M = merged_tip [OF ok wf p g _ c ea]
  have keep: "tip n' = tip n" if "log n' = log n" using that tip_last [OF wf] tip_last [OF wf'] by simp
  show "tip n' = (if log n' = log n \<or> anc t (tip n) (request_end q) then tip n else request_end q)"
  proof (cases "log n' = log n")
    case False
    with cs have "prev_ok q n" "log n' = merged_log q n" by auto
    with M [OF this(1)] False tip_last [OF wf'] show ?thesis by (simp split: if_splits)
  qed (use keep in simp)
  assume "as_success r" and l: "log n' = log n"
  with cs have "prev_ok q n" "log n = merged_log q n" by auto
  with M [OF this(1)] tip_last [OF wf] show "anc t (tip n) (request_end q)" by (metis anc_refl)
qed

lemma deliver_commit:
  assumes wf: "log_wf n" and ea: "entries_after (prev_log_index q) (entries q)" and h: "OnAppendEntriesLocked I q n = (r, ap, n')"
  shows "commit_index n' = commit_index n \<or> as_success r \<and> unat (commit_index n') = min (unat (leader_commit q)) (p_index (tip n'))
      \<and> commit_index n < commit_index n'"
    and "as_success r \<Longrightarrow> unat (as_match_index r) = p_index (request_end q)"
proof -
  have n': "n' = snd (snd (OnAppendEntriesLocked I q n))" using h by simp
  have wf': "log_wf n'" unfolding n' by (rule log_wf_OnAppendEntriesLocked [OF wf])
  have C: "as_success r \<and> log n' = merged_log q n \<and> as_match_index r = (if entries q = [] then prev_log_index q else le_index (last (entries q)))
      \<and> commit_index n' = max (commit_index n) (min (leader_commit q) (lr_index (last (log n')))) \<or> \<not> as_success r \<and> commit_index n' = commit_index n"
    using OnAppendEntriesLocked_cases [OF wf ea, of I] h by (auto simp: Let_def)
  show "as_success r \<Longrightarrow> unat (as_match_index r) = p_index (request_end q)" using C request_end_index(2) [OF ea] by auto
  have "p_index (tip n') = unat (lr_index (last (log n')))" by (simp add: tip_last [OF wf'] rpoint_def)
  moreover have "max x y = x \<or> max x y = y \<and> x < max x y" for x y :: u64 by (auto simp: max_def)
  moreover have "unat (min x y) = min (unat x) (unat y)" for x y :: u64 by (auto simp: min_def word_le_nat_alt)
  ultimately show "commit_index n' = commit_index n \<or> as_success r \<and> unat (commit_index n') = min (unat (leader_commit q)) (p_index (tip n'))
      \<and> commit_index n < commit_index n'"
    using C by metis
qed


text \<open>The tip after an accepted request is on one path with what the sender had committed.\<close>

lemma accepted_related:
  assumes op: "one_path a" and pr: "probe a t y p (Suc k)" and p: "a_term a p = t" "a_role a p \<noteq> kLeader"
    and tp: "tp = (if anc (a_tree a) (a_tip a p) e then a_tip a p else e)"
    and y: "anc (a_tree a) y e" "es = [] \<Longrightarrow> y = e" "p_index e = k + length es" and z: "anc (a_tree a) y z"
  shows "related (a_tree a) tp z"
proof (cases "anc (a_tree a) (a_tip a p) e")
  case True
  show ?thesis
  proof (cases "es = []")
    case nil: True
    from anc_trans [OF True z [unfolded y(2) [OF nil]]] True tp show ?thesis by (simp add: related_def)
  next
    case False
    then have "Suc k \<le> p_index e" using y(3) by (cases es) auto
    from probe_related [OF op pr p True y(1) this z] True tp show ?thesis by simp
  qed
next
  case False
  from anc_linear [OF y(1) z] False tp show ?thesis by simp
qed

text \<open>A member in the term of a request that accepts it.\<close>

lemma node_accept:
  assumes core: "like_core M a p n" and r: "agree_reach (is_majority M) a" and f: "role n = kFollower" "role n' = kFollower"
    and t: "current_term n = aq_term q" "current_term n' = current_term n" and bn: "boundary n' = boundary n"
    and sent: "(unat (aq_term q), request_end q) \<in> a_sent a" and ea: "entries_after (prev_log_index q) (entries q)"
    and tp: "tip n' = (if anc (a_tree a) (tip n) (request_end q) then tip n else request_end q)"
    and z: "p_index z = unat (leader_commit q)" "decided (is_majority M) a (unat (aq_term q)) z" "anc (a_tree a) y z"
    and y: "anc (a_tree a) y (request_end q)" "entries q = [] \<Longrightarrow> y = request_end q" "probe a (unat (aq_term q)) y p (Suc (unat (prev_log_index q)))"
    and k: "unat (commit_index n') \<le> p_index (a_commit a p) \<or> unat (commit_index n') = min (unat (leader_commit q)) (p_index (tip n'))"
  shows "\<exists>a'. agree_steps M a a' \<and> like_node M a' p n' \<and> only p a a' \<and> stored a' (unat (aq_term q)) p (request_end q)"
proof -
  note L = like_coreD [OF core]
  have at: "a_term a p = unat (aq_term q)" using L(1) t(1) by simp
  have bd: "decided (is_majority M) a (a_term a p) (boundary n')" using L(4) bn by simp
  from node_store [OF core r f _ t(2) bd tp] sent at obtain b where b: "agree_steps M a b" "like_core M b p n'"
    "only p a b" "a_commit b = a_commit a" "anc (a_tree b) (tip n') (request_end q)" by auto
  note rb = agree_steps_reach [OF b(1) r] and F = steps_forward [OF b(1) r]
  have bt: "a_term b p = unat (aq_term q)" using like_coreD(1) [OF b(2)] t by simp
  have "related (a_tree a) (tip n') z"
    by (rule accepted_related [OF one_path_reach [OF r] y(3) at _ _ y(1,2) request_end_index(1) [OF ea] z(3)]) (use L(2,3) f tp in simp_all)
  note C = request_commit [OF shapeD(1) [OF reach_invD(1) [OF rb]] z(1) F(5) [OF z(2) order_refl] related_mono [OF F(1) this]]
  have "unat (commit_index n') \<le> p_index (a_commit b p) \<or> (\<exists>z. decided (is_majority M) b (a_term b p) z \<and>
      anc (a_tree b) (tip n') z \<and> p_index z = unat (commit_index n'))" using k C bt b(4) by auto
  from node_answer [OF b(2) rb b(5) this] obtain a' where "agree_steps M b a'" "like_node M a' p n'" "only p b a'"
    "stored a' (unat (aq_term q)) p (request_end q)" using t by auto
  with b(1,3) show ?thesis by (meson only_trans rtranclp_trans)
qed

lemma node_deliver:
  assumes l: "like_node M a p n" and r: "agree_reach (is_majority M) a" and wf: "log_wf n" and pt: "log_path b (log n)"
    and g: "grows b (a_tree a)" and c: "log_chain b (prev_log_term q) (map record_of_entry (entries q))"
    and ea: "entries_after (prev_log_index q) (entries q)"
    and sent: "(unat (aq_term q), request_end q) \<in> a_sent a"
    and z: "p_index z = unat (leader_commit q)" "decided (is_majority M) a (unat (aq_term q)) z" "anc (a_tree a) y z"
    and y: "anc (a_tree a) y (request_end q)" "entries q = [] \<Longrightarrow> y = request_end q" "probe a (unat (aq_term q)) y p (Suc (unat (prev_log_index q)))"
    and h: "OnAppendEntriesLocked I q n = (x, ap, n')" and t: "current_term n \<le> aq_term q"
  shows "\<exists>a'. agree_steps M a a' \<and> like_node M a' p n' \<and> only p a a' \<and>
    (as_success x \<longrightarrow> stored a' (unat (aq_term q)) p (request_end q))"
proof -
  note F = deliver_facts [OF h t] and ok = shapeD(1) [OF reach_invD(1) [OF r]] and L = like_coreD [of M a p n]
  note T = deliver_tip [OF ok wf pt g c ea h] and C = deliver_commit [OF wf ea h]
  have core: "like_core M a p n" and ci: "p_index (a_commit a p) = unat (commit_index n)" using l by (simp_all add: like_node_def)
  let ?n1 = "n'\<lparr>log := log n\<rparr>"
  have "same_log n ?n1" using F(2) by (simp add: same_log_def boundary_def word_unat_eq_iff)
  moreover have "role ?n1 = kFollower" "current_term n \<le> current_term ?n1" using F(1,3) by simp_all
  ultimately obtain b1 where b1: "agree_steps M a b1" "like_core M b1 p ?n1" "only p a b1" "a_commit b1 = a_commit a"
    using core_observe [OF core r] by blast
  note r1 = agree_steps_reach [OF b1(1) r] and F1 = steps_forward [OF b1(1) r]
  have tip1: "tip ?n1 = tip n" using \<open>same_log n ?n1\<close> by (rule same_tip)
  show ?thesis
  proof (cases "as_success x \<or> log n' \<noteq> log n")
    case False
    then have lg: "log n' = log n" and ns: "\<not> as_success x" by auto
    then have "n'\<lparr>log := log n\<rparr> = n'" by (simp add: lg [symmetric])
    then have "like_core M b1 p n'" using b1(2) by simp
    from node_lower [OF this r1] C(1) ns ci b1(4) obtain a' where "agree_steps M b1 a'" "like_node M a' p n'" "only p b1 a'" by auto
    with b1(1,3) ns show ?thesis by (meson only_trans rtranclp_trans)
  next
    case True
    have t': "current_term n' = aq_term q" by (rule F(4) [OF True])
    have e1: "(unat (aq_term q), request_end q) \<in> a_sent b1" using sent F1(2) by auto
    have anc1: "anc (a_tree b1) (tip n) (request_end q) \<longleftrightarrow> anc (a_tree a) (tip n) (request_end q)"
      using anc_ext [OF shapeD(1) [OF reach_invD(1) [OF r1]] F1(1)] shapeD(2) [OF reach_invD(1) [OF r], of p] L(3) [OF core] by simp
    have tp: "tip n' = (if anc (a_tree b1) (tip ?n1) (request_end q) then tip ?n1 else request_end q)"
      using T True tip1 anc1 by auto
    have "\<exists>a'. agree_steps M b1 a' \<and> like_node M a' p n' \<and> only p b1 a' \<and> stored a' (unat (aq_term q)) p (request_end q)"
      by (rule node_accept [OF b1(2) r1 _ F(1) _ _ _ e1 ea tp z(1) F1(5) [OF z(2) order_refl] anc_mono [OF F1(1) z(3)]
            anc_mono [OF F1(1) y(1)] y(2) probe_steps [OF b1(1) r y(3)]])
        (use F(1) t' C(1) ci b1(4) in \<open>auto simp: boundary_def\<close>)
    with b1(1,3) show ?thesis by (meson only_trans rtranclp_trans)
  qed
qed


lemma messages_snapshot:
  assumes "messages M s ak a" and "iq \<in> offered s \<or> iq \<in> installing s p"
  shows "(unat (iq_term iq), snapshot_point iq) \<in> a_sent a" "decided (is_majority M) a (unat (iq_term iq)) (snapshot_point iq)"
  using assms unfolding messages_def by blast+

lemma messages_acked:
  assumes "messages M s ak a" and "b \<longrightarrow> (\<exists>e. (unat t, e) \<in> a_sent a \<and> p_index e = unat m \<and> stored a (unat t) p e)"
  shows "messages M s (if b then insert (t, p, m) ak else ak) a"
  using assms unfolding messages_def by auto

lemma messages_base: "messages M (s\<lparr>base := b\<rparr>) ak a = messages M s ak a"
  by (simp add: messages_def)

lemma sim_deliver:
  assumes sim: "sim M s a" and r: "agree_reach (is_majority M) a" and inv: "repl_inv M (rep s)" and p: "p \<in> M"
    and q: "q \<in> sent (rep s)" and h: "OnAppendEntriesLocked I q (member s p) = (x, ap, n')"
    and y: "anc (a_tree a) y (request_end q)" "entries q = [] \<Longrightarrow> y = request_end q" "probe a (unat (aq_term q)) y p (Suc (unat (prev_log_index q)))"
    and z: "p_index z = unat (leader_commit q)" "decided (is_majority M) a (unat (aq_term q)) z" "anc (a_tree a) y z"
  shows "\<exists>a'. agree_steps M a a' \<and> sim M ((put_member p n' s)
    \<lparr>acked := (if as_success x then insert (aq_term q, p, as_match_index x) (acked s) else acked s)\<rparr>) a'" (is "\<exists>a'. _ \<and> sim M ?s a'")
proof -
  let ?n = "member s p"
  note D = repl_invD [OF inv] and ms = simD(2) [OF sim]
  have n': "n' = snd (snd (OnAppendEntriesLocked I q ?n))" using h by simp
  have ca: "calm ?n n'" unfolding n' by (rule calm_append_entries)
  have g: "grows (born (rep s)) (a_tree a)" using ms by (simp add: messages_def)
  have sn: "(unat (aq_term q), request_end q) \<in> a_sent a" using ms q by (simp add: messages_def)
  have ex: "\<exists>a'. agree_steps M a a' \<and> like_node M a' p n' \<and> only p a a' \<and>
      (as_success x \<longrightarrow> stored a' (unat (aq_term q)) p (request_end q)) \<and> (role n' = kCandidate \<longrightarrow> tip n' = tip ?n)"
  proof (cases "aq_term q < current_term ?n")
    case True
    with h have "n' = ?n" "\<not> as_success x" by (auto simp: OnAppendEntriesLocked_def)
    then show ?thesis using simD(1) [OF sim p] by (intro exI [of _ a]) (simp add: only_refl)
  next
    case False
    then have t: "current_term ?n \<le> aq_term q" by simp
    from node_deliver [OF simD(1) [OF sim p] r D(1,2) [OF p] g D(6,7) [OF q] sn z y h t] deliver_facts(1) [OF h t] show ?thesis by auto
  qed
  then obtain a' where a': "agree_steps M a a'" "like_node M a' p n'" "only p a a'"
    "as_success x \<longrightarrow> stored a' (unat (aq_term q)) p (request_end q)" "role n' = kCandidate \<longrightarrow> tip n' = tip ?n" by blast
  have "as_success x \<longrightarrow> (\<exists>e. (unat (aq_term q), e) \<in> a_sent a' \<and> p_index e = unat (as_match_index x) \<and> stored a' (unat (aq_term q)) p e)"
    using a'(4) sn steps_forward(2) [OF a'(1) r] deliver_commit(2) [OF D(1) [OF p] D(7) [OF q] h] by auto
  from messages_acked [OF messages_forward [OF a'(1) r ms] this] have "messages M (rep ?s) (acked ?s) a'" by (simp add: messages_base)
  from sim_calm [OF sim r a'(1,3,2) ca _ _ _ this] a'(5) have "sim M ?s a'" by simp
  with a'(1) show ?thesis by blast
qed

section \<open>Snapshots\<close>

lemma stored_boundary:
  assumes r: "agree_reach (is_majority M) a" and core: "like_core M a p n" and wf: "log_wf n" and pt: "log_path b (log n)"
    and g: "grows b (a_tree a)" and e: "(a_term a p, e) \<in> a_sent a" and i: "p_index e \<le> unat (last_snapshot_index n)"
  shows "anc (a_tree a) (tip n) e"
proof -
  note I = reach_invD [OF r] and ok = shapeD(1) [OF reach_invD(1) [OF r]]
  have "related (a_tree a) e (boundary n)"
    by (rule maj.decided_sent [OF I(1-3) like_coreD(4) [OF core] e order_refl])
  then have "anc (a_tree a) (boundary n) e"
    using i anc_same_index [OF ok, of e "boundary n"] by (auto simp: related_def boundary_def)
  with anc_boundary [OF wf pt g] show ?thesis by (rule anc_trans)
qed

lemma install_refused_facts:
  assumes "install_begin I iq n = (Inl x, n')" and "is_success x"
  shows "current_term n' = iq_term iq" and "role n' = kFollower" and "iq_last_included_index iq \<le> last_snapshot_index n'"
  using assms by (auto simp: install_begin_def install_reply_def node_defs Let_def split_def not_less split: if_splits option.splits)

lemma sim_install_refused:
  assumes sim: "sim M s a" and r: "agree_reach (is_majority M) a" and inv: "repl_inv M (rep s)" and p: "p \<in> M"
    and iq: "iq \<in> offered (rep s)" and h: "install_begin I iq (member s p) = (Inl x, n')"
  shows "\<exists>a'. agree_steps M a a' \<and> sim M ((put_member p n' s)
    \<lparr>acked := (if is_success x then insert (iq_term iq, p, iq_last_included_index iq) (acked s) else acked s)\<rparr>) a'" (is "\<exists>a'. _ \<and> sim M ?s a'")
proof -
  let ?n = "member s p"
  have n': "n' = snd (install_begin I iq ?n)" using h by simp
  have sl: "same_log ?n n'" unfolding n' by (rule same_log_steps)
  have k: "held p ?n n'" unfolding n' by (simp add: held_def install_begin_def node_defs Let_def split_def)
  have ca: "calm ?n n'" unfolding n' by (rule calm_install_begin)
  from node_quiet [OF simD(1) [OF sim p] r ca sl k] obtain b where b: "agree_steps M a b" "like_node M b p n'" "only p a b" by blast
  note rb = agree_steps_reach [OF b(1) r] and mb = messages_forward [OF b(1) r simD(2) [OF sim]]
  have core: "like_core M b p n'" using b(2) by (simp add: like_node_def)
  have g: "grows (born (rep s)) (a_tree b)" using mb by (simp add: messages_def)
  have wf: "log_wf n'" "log_path (born (rep s)) (log n')"
    using repl_invD(1,2) [OF inv p] sl same_log_wf(1) [OF sl] by (simp_all add: same_log_def)
  note sn = messages_snapshot [OF mb disjI1 [OF iq]]
  have ex: "\<exists>a'. agree_steps M b a' \<and> like_node M a' p n' \<and> only p b a' \<and> (is_success x \<longrightarrow> stored a' (unat (iq_term iq)) p (snapshot_point iq))"
  proof (cases "is_success x")
    case True
    note R = install_refused_facts [OF h True]
    have e: "anc (a_tree b) (tip n') (snapshot_point iq)"
      by (rule stored_boundary [OF rb core wf g])
        (use sn(1) R like_coreD(1) [OF core] in \<open>simp_all add: snapshot_point_def word_le_nat_alt\<close>)
    have "unat (commit_index n') \<le> p_index (a_commit b p)" using b(2) by (simp add: like_node_def)
    from node_answer [OF core rb e disjI1 [OF this]] R(1) show ?thesis by auto
  qed (use b(2) in \<open>auto simp: only_refl intro: exI [of _ b]\<close>)
  then obtain a' where a': "agree_steps M b a'" "like_node M a' p n'" "only p b a'"
    "is_success x \<longrightarrow> stored a' (unat (iq_term iq)) p (snapshot_point iq)" by blast
  have st: "agree_steps M a a'" "only p a a'" using b(1,3) a'(1,3) by (blast intro: rtranclp_trans only_trans)+
  have "is_success x \<longrightarrow> (\<exists>e. (unat (iq_term iq), e) \<in> a_sent a' \<and> p_index e = unat (iq_last_included_index iq) \<and> stored a' (unat (iq_term iq)) p e)"
    using a'(4) sn(1) steps_forward(2) [OF a'(1) rb] by (auto simp: snapshot_point_def)
  from messages_acked [OF messages_forward [OF a'(1) rb mb] this] have "messages M (rep ?s) (acked ?s) a'" by (simp add: messages_base)
  from sim_calm [OF sim r st a'(2) ca _ _ _ this] same_tip(1) [OF sl] have "sim M ?s a'" by simp
  with st(1) show ?thesis by blast
qed

lemma sim_install_begin:
  assumes sim: "sim M s a" and r: "agree_reach (is_majority M) a" and p: "p \<in> M" and iq: "iq \<in> offered (rep s)"
    and h: "install_begin I iq (member s p) = (Inr x, n')"
  shows "\<exists>a'. agree_steps M a a' \<and>
    sim M (s\<lparr>rep := (put_node p n' (rep s))\<lparr>installing := (installing (rep s))(p := insert iq (installing (rep s) p))\<rparr>\<rparr>) a'" (is "\<exists>a'. _ \<and> sim M ?s a'")
proof -
  let ?n = "member s p"
  have n': "n' = snd (install_begin I iq ?n)" using h by simp
  have sl: "same_log ?n n'" unfolding n' by (rule same_log_steps)
  have k: "held p ?n n'" unfolding n' by (simp add: held_def install_begin_def node_defs Let_def split_def)
  have ca: "calm ?n n'" unfolding n' by (rule calm_install_begin)
  from node_quiet [OF simD(1) [OF sim p] r ca sl k] obtain a' where a': "agree_steps M a a'" "like_node M a' p n'" "only p a a'" by blast
  have "messages M (rep ?s) (acked ?s) a'"
    using messages_forward [OF a'(1) r simD(2) [OF sim]] iq by (auto simp: messages_def split: if_splits)
  from sim_calm [OF sim r a'(1,3,2) ca _ _ _ this] same_tip(1) [OF sl] install_begin_accepted(3) [OF h]
  have "sim M ?s a'" by (auto split: if_splits)
  with a'(1) show ?thesis by blast
qed


text \<open>Compaction keeps the tip when the boundary is in the log, and leaves the boundary otherwise.\<close>

lemma Compact_tip:
  fixes idx trm :: u64
  assumes ok: "tree_ok t" and wf: "log_wf n" and p: "log_path b (log n)" and g: "grows b t" and new: "last_snapshot_index n < idx"
  defines "e \<equiv> At (unat idx) (unat trm)"
  shows "tip (CompactLogPrefixLocked idx trm n) = (if anc t (tip n) e then tip n else e)"
    and "boundary (CompactLogPrefixLocked idx trm n) = e"
proof -
  let ?n = "CompactLogPrefixLocked idx trm n"
  note C = CompactLogPrefixLocked_new [OF wf new, of trm] and wf' = log_wf_Compact [OF wf, of idx trm]
  show "boundary ?n = e" by (simp add: C boundary_def e_def)
  have le: "unat (last_snapshot_index n) \<le> p_index e" using new by (simp add: e_def word_less_nat_alt)
  have iff: "boundary_matches idx trm n \<longleftrightarrow> anc t (tip n) e"
  proof
    assume "boundary_matches idx trm n"
    from matches_in_log [OF wf p g this] show "anc t (tip n) e" by (simp add: e_def)
  next
    assume "anc t (tip n) e"
    from anc_in_log [OF ok wf p g this le] show "boundary_matches idx trm n"
      by (auto simp: boundary_matches_def rpoint_def e_def word_unat_eq_iff intro!: bexI [OF _ nth_mem])
  qed
  show "tip ?n = (if anc t (tip n) e then tip n else e)"
  proof (cases "boundary_matches idx trm n")
    case True
    have i: "LastLogIndexLocked ?n = LastLogIndexLocked n" by (rule Last_Compact [OF wf True])
    have "rpoint (last (log ?n)) = rpoint (last (log n))"
    proof (cases "drop (Suc (unat idx - unat (last_snapshot_index n))) (log n) = []")
      case False
      with True show ?thesis by (simp add: C)
    next
      case nil: True
      with True have "tip ?n = e" by (simp add: C tip_def LastLogIndexLocked_def LastLogTermLocked_def snapshot_marker_def e_def)
      with i have "p_index e = p_index (tip n)" by (metis point.sel(1) tip_def)
      with anc_same_index [OF ok, of "tip n" e] iff True have "tip n = e" by simp
      with \<open>tip ?n = e\<close> tip_last [OF wf] tip_last [OF wf'] show ?thesis by simp
    qed
    with tip_last [OF wf] tip_last [OF wf'] iff True show ?thesis by simp
  next
    case False
    then have "tip ?n = e" by (simp add: C tip_def LastLogIndexLocked_def LastLogTermLocked_def snapshot_marker_def e_def)
    with iff False show ?thesis by simp
  qed
qed


lemma install_finish_facts:
  assumes h: "install_finish I iq x0 n = (x, n')" and x0: "\<not> is_success x0"
  defines "c \<equiv> CompactLogPrefixLocked (iq_last_included_index iq) (iq_last_included_term iq) n"
  shows "iq_term iq < current_term n \<Longrightarrow> n' = n \<and> \<not> is_success x"
    and "\<not> iq_term iq < current_term n \<Longrightarrow> same_log c n' \<and> role n' = role n \<and> current_term n' = current_term n \<and>
      commit_index n' = max (commit_index c) (iq_last_included_index iq)"
proof -
  have n': "n' = snd (install_finish I iq x0 n)" "x = fst (install_finish I iq x0 n)" using h by simp_all
  show "iq_term iq < current_term n \<Longrightarrow> n' = n \<and> \<not> is_success x"
    using x0 unfolding n' by (simp add: install_finish_def install_reply_def)
  show "\<not> iq_term iq < current_term n \<Longrightarrow> same_log c n' \<and> role n' = role n \<and> current_term n' = current_term n \<and>
      commit_index n' = max (commit_index c) (iq_last_included_index iq)"
    unfolding n' c_def by (simp add: install_finish_def same_log_def Let_def split_def split: option.split)
qed


text \<open>The node after an installation is one that stored the snapshot's point.\<close>

lemma install_shape:
  assumes r: "agree_reach (is_majority M) a" and core: "like_core M a p n" and wf: "log_wf n" and pt: "log_path b (log n)"
    and g: "grows b (a_tree a)" and t: "a_term a p = unat (iq_term iq)"
    and sn: "(unat (iq_term iq), snapshot_point iq) \<in> a_sent a" "decided (is_majority M) a (unat (iq_term iq)) (snapshot_point iq)"
  defines "c \<equiv> CompactLogPrefixLocked (iq_last_included_index iq) (iq_last_included_term iq) n"
  shows "tip c = (if anc (a_tree a) (tip n) (snapshot_point iq) then tip n else snapshot_point iq)"
    and "decided (is_majority M) a (a_term a p) (boundary c)"
    and "commit_index c = commit_index n \<or> commit_index c = iq_last_included_index iq"
proof -
  let ?i = "iq_last_included_index iq"
  have ok: "tree_ok (a_tree a)" using shapeD(1) [OF reach_invD(1) [OF r]] .
  have "tip c = (if anc (a_tree a) (tip n) (snapshot_point iq) then tip n else snapshot_point iq) \<and>
    decided (is_majority M) a (a_term a p) (boundary c) \<and> (commit_index c = commit_index n \<or> commit_index c = ?i)"
  proof (cases "?i \<le> last_snapshot_index n")
    case True
    then have "c = n" unfolding c_def by (rule CompactLogPrefixLocked_stale [OF wf])
    moreover have "anc (a_tree a) (tip n) (snapshot_point iq)"
      by (rule stored_boundary [OF r core wf pt g]) (use sn(1) t True in \<open>simp_all add: snapshot_point_def word_le_nat_alt\<close>)
    ultimately show ?thesis using like_coreD(4) [OF core] by simp
  next
    case False
    then have new: "last_snapshot_index n < ?i" by simp
    from Compact_tip [OF ok wf pt g new, of "iq_last_included_term iq"] sn(2) t
    show ?thesis by (auto simp: c_def snapshot_point_def CompactLogPrefixLocked_new [OF wf new] max_def)
  qed
  then show "tip c = (if anc (a_tree a) (tip n) (snapshot_point iq) then tip n else snapshot_point iq)"
    "decided (is_majority M) a (a_term a p) (boundary c)" "commit_index c = commit_index n \<or> commit_index c = ?i" by simp_all
qed

lemma sim_install_finish:
  assumes sim: "sim M s a" and r: "agree_reach (is_majority M) a" and inv: "repl_inv M (rep s)" and p: "p \<in> M"
    and iq: "iq \<in> installing (rep s) p" and x0: "\<not> is_success x0" and h: "install_finish I iq x0 (member s p) = (x, n')"
  shows "\<exists>a'. agree_steps M a a' \<and> sim M ((put_member p n' s)
    \<lparr>acked := (if is_success x then insert (iq_term iq, p, iq_last_included_index iq) (acked s) else acked s)\<rparr>) a'" (is "\<exists>a'. _ \<and> sim M ?s a'")
proof -
  let ?n = "member s p" and ?e = "snapshot_point iq"
  let ?c = "CompactLogPrefixLocked (iq_last_included_index iq) (iq_last_included_term iq) ?n"
  note F = install_finish_facts [OF h x0] and ms = simD(2) [OF sim] and D = repl_invD [OF inv]
  have ca: "calm ?n n'" using calm_install_finish [of ?n I iq x0] h by simp
  have l: "like_node M a p ?n" by (rule simD(1) [OF sim p])
  then have core: "like_core M a p ?n" and ci: "p_index (a_commit a p) = unat (commit_index ?n)" by (simp_all add: like_node_def)
  note sn = messages_snapshot [OF ms disjI2 [OF iq]]
  have g: "grows (born (rep s)) (a_tree a)" using ms by (simp add: messages_def)
  have ex: "\<exists>a'. agree_steps M a a' \<and> like_node M a' p n' \<and> only p a a' \<and>
      (is_success x \<longrightarrow> stored a' (unat (iq_term iq)) p ?e) \<and> (role n' = kCandidate \<longrightarrow> tip n' = tip ?n)"
  proof (cases "iq_term iq < current_term ?n")
    case True
    from F(1) [OF True] l show ?thesis by (intro exI [of _ a]) (simp add: only_refl)
  next
    case False
    note F' = F(2) [OF False]
    have t: "iq_term iq = current_term ?n" using False D(9) [OF iq] by simp
    have f: "role ?n = kFollower" using simD(3) [OF sim] p iq t unfolding ballots_def by blast
    have at: "a_term a p = unat (iq_term iq)" using like_coreD(1) [OF core] t by simp
    note S = install_shape [OF r core D(1,2) [OF p] g at sn]
    have tb: "tip n' = tip ?c" "boundary n' = boundary ?c" using F' same_tip [of ?c n'] by simp_all
    from node_store [OF core r f, of n' ?e] F' f sn(1) S(1,2) tb at obtain b where b: "agree_steps M a b" "like_core M b p n'"
      "only p a b" "a_commit b = a_commit a" "anc (a_tree b) (tip n') ?e" by auto
    note rb = agree_steps_reach [OF b(1) r]
    have "commit_index n' = commit_index ?n \<or> commit_index n' = iq_last_included_index iq" using F' S(3) by (auto simp: max_def)
    then have "unat (commit_index n') \<le> p_index (a_commit b p) \<or> (\<exists>z. decided (is_majority M) b (a_term b p) z \<and>
        anc (a_tree b) (tip n') z \<and> p_index z = unat (commit_index n'))"
    proof
      assume "commit_index n' = commit_index ?n"
      then show ?thesis using ci b(4) by simp
    next
      assume "commit_index n' = iq_last_included_index iq"
      moreover have "a_term b p = unat (iq_term iq)" using like_coreD(1) [OF b(2)] F' t by simp
      ultimately show ?thesis using steps_forward(5) [OF b(1) r sn(2) order_refl] b(5) by (auto simp: snapshot_point_def)
    qed
    from node_answer [OF b(2) rb b(5) this] F' t obtain a' where "agree_steps M b a'" "like_node M a' p n'" "only p b a'"
      "stored a' (unat (iq_term iq)) p ?e" by auto
    with b(1,3) F' f show ?thesis by (intro exI [of _ a']) (auto intro: rtranclp_trans only_trans)
  qed
  then obtain a' where a': "agree_steps M a a'" "like_node M a' p n'" "only p a a'"
    "is_success x \<longrightarrow> stored a' (unat (iq_term iq)) p ?e" "role n' = kCandidate \<longrightarrow> tip n' = tip ?n" by blast
  have "is_success x \<longrightarrow> (\<exists>e. (unat (iq_term iq), e) \<in> a_sent a' \<and> p_index e = unat (iq_last_included_index iq) \<and> stored a' (unat (iq_term iq)) p e)"
    using a'(4) sn(1) steps_forward(2) [OF a'(1) r] by (auto simp: snapshot_point_def)
  from messages_acked [OF messages_forward [OF a'(1) r ms] this] have "messages M (rep ?s) (acked ?s) a'" by (simp add: messages_base)
  from sim_calm [OF sim r a'(1,3,2) ca _ _ _ this] a'(5) have "sim M ?s a'" by simp
  with a'(1) show ?thesis by blast
qed


lemma sim_compact:
  assumes sim: "sim M s a" and r: "agree_reach (is_majority M) a" and inv: "repl_inv M (rep s)" and p: "p \<in> M"
    and b: "boundary_matches i t (member s p)" and c: "i \<le> commit_index (member s p)"
  shows "\<exists>a'. agree_steps M a a' \<and> sim M (put_member p (worker_compact I i t (member s p)) s) a'"
proof (cases "last_snapshot_index (member s p) < i")
  case True
  let ?n = "member s p" and ?n' = "worker_compact I i t (member s p)" and ?e = "At (unat i) (unat t)"
  note D = repl_invD(1,2) [OF inv p] and ok = shapeD(1) [OF reach_invD(1) [OF r]]
  have l: "like_node M a p ?n" by (rule simD(1) [OF sim p])
  then have core: "like_core M a p ?n" and ci: "p_index (a_commit a p) = unat (commit_index ?n)" by (simp_all add: like_node_def)
  have g: "grows (born (rep s)) (a_tree a)" using simD(2) [OF sim] by (simp add: messages_def)
  have e: "anc (a_tree a) (tip ?n) ?e" by (rule matches_in_log [OF D g b])
  have dc: "decided (is_majority M) a (a_term a p) ?e"
    by (rule below_commit [OF r]) (use e c ci like_coreD(3) [OF core] in \<open>simp_all add: word_le_nat_alt\<close>)
  have n': "same_log (CompactLogPrefixLocked i t ?n) ?n'" "role ?n' = role ?n" "current_term ?n' = current_term ?n"
    "match_index ?n' = match_index ?n" "commit_index ?n' = commit_index ?n"
    using True c by (simp_all add: worker_compact_def same_log_def CompactLogPrefixLocked_new [OF D(1) True] max_absorb1)
  have tb: "tip ?n' = tip ?n" "boundary ?n' = ?e"
    using same_tip [OF n'(1)] Compact_tip [OF ok D g True, of t] e by simp_all
  have "like_node M a p ?n'"
    using l n' tb dc like_coreD [OF core] unfolding like_node_def like_core_def by simp
  moreover have "calm ?n ?n'" by (rule calm_simple)
  ultimately have "sim M (put_member p ?n' s) a"
    by (intro sim_calm [OF sim r _ only_refl]) (use tb simD(2) [OF sim] in \<open>simp_all add: messages_base\<close>)
  then show ?thesis by blast
next
  case False
  then have "put_member p (worker_compact I i t (member s p)) s = s" by (simp add: worker_compact_def)
  with sim show ?thesis by auto
qed

section \<open>The leader's commit index\<close>

text \<open>The majority that the code counts is a quorum, and it has acknowledged the record.\<close>

lemma replicated_majority:
  assumes M: "finite M" "c \<in> M" "member_ok M c (config n)" and k: "majority n \<le> replicated_count i n"
  shows "is_majority M (insert c {p \<in> M - {c}. \<exists>m. match_index n p = Some m \<and> i \<le> m})"
proof -
  let ?P = "\<lambda>p. \<exists>m. match_index n p = Some m \<and> i \<le> m"
  have ids: "distinct (map peer_id (peers n))" "set (map peer_id (peers n)) = M - {c}" using M(3) by (simp_all add: member_ok_def)
  have eq: "(case match_index n p of None \<Rightarrow> False | Some m \<Rightarrow> m \<ge> i) \<longleftrightarrow> ?P p" for p by (cases "match_index n p") auto
  have "replicated_count i n = 1 + length (filter ?P (map peer_id (peers n)))"
    by (simp add: replicated_count_def filter_map o_def eq)
  also have "length (filter ?P (map peer_id (peers n))) = card (set (filter ?P (map peer_id (peers n))))"
    by (rule distinct_card [OF distinct_filter [OF ids(1)], symmetric])
  also have "set (filter ?P (map peer_id (peers n))) = {p \<in> M - {c}. ?P p}" using ids(2) by auto
  finally have "card (insert c {p \<in> M - {c}. ?P p}) = replicated_count i n" using M(1) by simp
  with k majority_card [OF M] M show ?thesis by (auto simp: is_majority_def)
qed

lemma advance_decided:
  assumes core: "like_core M a c n" and r: "agree_reach (is_majority M) a" and wf: "log_wf n" and pt: "log_path b (log n)"
    and g: "grows b (a_tree a)" and M: "finite M" "c \<in> M" "member_ok M c (config n)" and L: "role n = kLeader"
    and up: "commit_index n < commit_index (AdvanceCommitIndexUnlocked I n)"
  defines "y \<equiv> At (unat (commit_index (AdvanceCommitIndexUnlocked I n))) (unat (current_term n))"
  shows "anc (a_tree a) (tip n) y" and "chosen (is_majority M) a y" and "decided (is_majority M) a (a_term a c) y"
proof -
  let ?i = "commit_index (AdvanceCommitIndexUnlocked I n)"
  note C = like_coreD [OF core] and S = shapeD [OF reach_invD(1) [OF r]]
  obtain i where i: "commit_candidate (LastLogIndexLocked n) n = Some i" "?i = i"
    using up by (auto simp: AdvanceCommitIndexUnlocked_def split: if_splits option.splits)
  from commit_candidate_Some [OF i(1)] have ct: "commit_test i n" "commit_index n < i" by simp_all
  then have has: "HasLogAtIndexLocked i n" and tm: "TermAtIndexLocked i n = current_term n" and mj: "majority n \<le> replicated_count i n"
    by (simp_all add: commit_test_def)
  have bd: "last_snapshot_index n \<le> i" "i \<le> LastLogIndexLocked n" using has by (simp_all add: log_wf_HasLog [OF wf])
  note nth = log_wf_nth [OF wf bd]
  have "rpoint (log n ! (unat i - unat (last_snapshot_index n))) = y"
    using nth(1,3) tm i(2) TermAtIndexLocked_eq [OF wf, of i] by (simp add: rpoint_def y_def)
  with log_anc [OF wf pt g nth(2)] show y: "anc (a_tree a) (tip n) y" by simp
  have ne: "y \<noteq> At 0 0" using ct(2) i(2) by (auto simp: y_def word_less_nat_alt)
  have py: "p_term y = a_term a c" "p_index y = unat i" using C(1) i(2) by (simp_all add: y_def)
  have "(p, y) \<in> a_acks a" if p: "p \<in> insert c {p \<in> M - {c}. \<exists>m. match_index n p = Some m \<and> i \<le> m}" for p
  proof (cases "p = c")
    case True
    with C(5) [OF L] y ne py(1) show ?thesis by (auto simp: stored_def)
  next
    case False
    with p obtain m where m: "match_index n p = Some m" "i \<le> m" by auto
    then have "m \<noteq> 0" using ct(2) by (auto simp: word_le_nat_alt word_less_nat_alt)
    with C(6) [OF L False m(1)] obtain e where e: "anc (a_tree a) (tip n) e" "p_index e = unat m" "stored a (a_term a c) p e" by blast
    have "anc (a_tree a) e y" by (rule anc_between [OF S(1) e(1) y]) (use e(2) py(2) m(2) in \<open>simp add: word_le_nat_alt\<close>)
    with e(3) ne py(1) show ?thesis by (auto simp: stored_def)
  qed
  with replicated_majority [OF M mj] show ch: "chosen (is_majority M) a y" unfolding chosen_def by blast
  have "rooted (a_tree a) y" using rooted_below [OF S(1) S(2) [of c]] y C(3) by simp
  then have "y \<in> dom (a_tree a)" using rooted_dom ne by blast
  with ch py(1) show "decided (is_majority M) a (a_term a c) y" unfolding decided_def by (metis anc_refl order_refl)
qed


text \<open>A leader takes note of a successful answer.\<close>

lemma core_match:
  assumes core: "like_core M a c n" and r: "agree_reach (is_majority M) a" and L: "role n = kLeader"
    and ack: "(unat (current_term n), e) \<in> a_sent a" "p_index e = unat m" "stored a (unat (current_term n)) i e"
    and n': "same_log n n'" "role n' = role n" "current_term n' = current_term n"
      "match_index n' = (match_index n)(i \<mapsto> max (case match_index n i of None \<Rightarrow> 0 | Some x \<Rightarrow> x) m)"
  shows "like_core M a c n'"
proof -
  note C = like_coreD [OF core]
  have e: "anc (a_tree a) (tip n) e"
    using leadingD(2) [OF reach_invD(2) [OF r], of c e] C(1-3) L ack(1) by simp
  have "\<exists>e. anc (a_tree a) (tip n) e \<and> p_index e = unat x \<and> stored a (a_term a c) j e"
    if "j \<noteq> c" "match_index n' j = Some x" "x \<noteq> 0" for j x
  proof (cases "j = i \<and> x = m")
    case True
    with e ack(2,3) C(1) show ?thesis by auto
  next
    case False
    with that n'(4) have "match_index n j = Some x" by (auto simp: max_def split: if_splits option.splits)
    with C(6) [OF L that(1) _ that(3)] show ?thesis by blast
  qed
  with C(1-5) show ?thesis unfolding like_core_def same_tip [OF n'(1)] n'(2,3) by blast
qed

lemma node_advance:
  assumes core: "like_core M a c n" and ci: "p_index (a_commit a c) = unat (commit_index n)" and r: "agree_reach (is_majority M) a"
    and wf: "log_wf n" and pt: "log_path b (log n)" and g: "grows b (a_tree a)" and M: "finite M" "c \<in> M" "member_ok M c (config n)"
  shows "\<exists>a'. agree_steps M a a' \<and> like_node M a' c (AdvanceCommitIndexUnlocked I n) \<and> only c a a'"
proof -
  let ?n' = "AdvanceCommitIndexUnlocked I n"
  have same: "same_log n ?n'" "role ?n' = role n" "current_term ?n' = current_term n" "match_index ?n' = match_index n"
    by (simp_all add: same_log_def AdvanceCommitIndexUnlocked_def split: option.split)
  have core': "like_core M a c ?n'" by (rule core_same [OF core same(1-3)]) (simp add: same(4))
  show ?thesis
  proof (cases "commit_index n < commit_index ?n'")
    case True
    then have L: "role n = kLeader" by (auto simp: AdvanceCommitIndexUnlocked_def split: if_splits)
    note A = advance_decided [OF core r wf pt g M L True]
    show ?thesis by (rule node_learn [OF core' r A(3)]) (use A(1) like_coreD(3) [OF core] in simp_all)
  next
    case False
    then have "unat (commit_index ?n') \<le> p_index (a_commit a c)" using ci by (simp add: not_less word_le_nat_alt)
    then show ?thesis by (rule node_lower [OF core' r])
  qed
qed

lemma sim_node:
  assumes sim: "sim M s a" and r: "agree_reach (is_majority M) a" and a': "agree_steps M a a'" "like_node M a' p n'" "only p a a'"
    and ca: "calm (member s p) n'" and sl: "same_log (member s p) n'"
  shows "sim M (put_member p n' s) a'"
  by (rule sim_calm [OF sim r a'(1,3,2) ca])
    (use same_tip(1) [OF sl] messages_forward [OF a'(1) r simD(2) [OF sim]] in \<open>simp_all add: messages_base\<close>)

lemma sim_commit:
  assumes sim: "sim M s a" and r: "agree_reach (is_majority M) a" and inv: "repl_inv M (rep s)" and ei: "election_inv M (base (rep s))" and c: "c \<in> M"
  shows "\<exists>a'. agree_steps M a a' \<and> sim M (put_member c (AdvanceCommitIndexUnlocked I (member s c)) s) a'"
proof -
  have g: "grows (born (rep s)) (a_tree a)" using simD(2) [OF sim] by (simp add: messages_def)
  have l: "like_core M a c (member s c)" "p_index (a_commit a c) = unat (commit_index (member s c))"
    using simD(1) [OF sim c] by (simp_all add: like_node_def)
  from node_advance [OF l r repl_invD(1,2) [OF inv c] g election_invD(1) [OF ei] c election_invD(3) [OF ei c]]
  obtain a' where "agree_steps M a a'" "like_node M a' c (AdvanceCommitIndexUnlocked I (member s c))" "only c a a'" by blast
  with sim_node [OF sim r this calm_simple(5) same_log_steps(2)] show ?thesis by blast
qed

lemma sim_snapshot_answer:
  assumes sim: "sim M s a" and r: "agree_reach (is_majority M) a" and c: "c \<in> M"
    and ak: "is_success x \<Longrightarrow> (t, pid, last_included_index meta) \<in> acked s"
  shows "\<exists>a'. agree_steps M a a' \<and> sim M (put_member c (snd (snapshot_answer I pid t meta x (member s c))) s) a'"
proof -
  let ?n = "member s c" and ?n' = "snd (snapshot_answer I pid t meta x (member s c))"
  show ?thesis
  proof (cases "\<not> is_term x > current_term ?n \<and> running ?n \<and> role ?n = kLeader \<and> current_term ?n = t \<and> is_success x")
    case True
    then have n': "role ?n' = role ?n" "current_term ?n' = current_term ?n" "commit_index ?n' = commit_index ?n"
      "match_index ?n' = (match_index ?n)(pid \<mapsto> max (case match_index ?n pid of None \<Rightarrow> 0 | Some m \<Rightarrow> m) (last_included_index meta))"
      by (auto simp: snapshot_answer_def Let_def)
    from ak True simD(2) [OF sim] obtain e where e: "(unat t, e) \<in> a_sent a" "p_index e = unat (last_included_index meta)" "stored a (unat t) pid e"
      unfolding messages_def by blast
    have l: "like_core M a c ?n" "p_index (a_commit a c) = unat (commit_index ?n)" using simD(1) [OF sim c] by (simp_all add: like_node_def)
    have "like_core M a c ?n'"
      by (rule core_match [OF l(1) r _ _ e(2) _ same_log_steps(3) n'(1,2,4)]) (use True e in simp_all)
    then have "like_node M a c ?n'" using l(2) n'(3) by (simp add: like_node_def)
    with sim_node [OF sim r _ this only_refl calm_snapshot_answer same_log_steps(3)] show ?thesis by blast
  next
    case False
    then have "held c ?n ?n'" by (auto simp: held_def snapshot_answer_def Let_def)
    from sim_quiet_node [OF sim r c calm_snapshot_answer same_log_steps(3) this] show ?thesis .
  qed
qed

lemma sim_answer:
  assumes sim: "sim M s a" and r: "agree_reach (is_majority M) a" and inv: "repl_inv M (rep s)" and ei: "election_inv M (base (rep s))" and c: "c \<in> M"
    and ak: "as_success x \<Longrightarrow> (t, pid, as_match_index x) \<in> acked s"
  shows "\<exists>a'. agree_steps M a a' \<and> sim M (put_member c (snd (snd (HandleAppendEntriesResponse I pid t tgt x (member s c)))) s) a'"
proof -
  let ?n = "member s c" and ?n' = "snd (snd (HandleAppendEntriesResponse I pid t tgt x (member s c)))"
  show ?thesis
  proof (cases "running ?n \<and> \<not> as_term x > current_term ?n \<and> role ?n = kLeader \<and> current_term ?n = t \<and> as_success x")
    case True
    from ak True simD(2) [OF sim] obtain e where e: "(unat t, e) \<in> a_sent a" "p_index e = unat (as_match_index x)" "stored a (unat t) pid e"
      unfolding messages_def by blast
    have l: "like_core M a c ?n" "p_index (a_commit a c) = unat (commit_index ?n)" using simD(1) [OF sim c] by (simp_all add: like_node_def)
    obtain n1 where n1: "?n' = AdvanceCommitIndexUnlocked I n1" "same_log ?n n1" "role n1 = role ?n" "current_term n1 = current_term ?n"
      "match_index n1 = (match_index ?n)(pid \<mapsto> max (case match_index ?n pid of None \<Rightarrow> 0 | Some m \<Rightarrow> m) (as_match_index x))"
      "commit_index n1 = commit_index ?n" "config n1 = config ?n"
      using True by (auto simp: HandleAppendEntriesResponse_def same_log_def Let_def)
    have core: "like_core M a c n1" by (rule core_match [OF l(1) r _ _ e(2) _ n1(2-5)]) (use True e in simp_all)
    have g: "grows (born (rep s)) (a_tree a)" using simD(2) [OF sim] by (simp add: messages_def)
    have wf: "log_wf n1" "log_path (born (rep s)) (log n1)" "member_ok M c (config n1)"
      using repl_invD(1,2) [OF inv c] same_log_wf(1) [OF n1(2)] n1(2,7) election_invD(3) [OF ei c] by (simp_all add: same_log_def)
    from node_advance [OF core _ r wf(1,2) g election_invD(1) [OF ei] c wf(3), of I] l(2) n1(1,6)
    obtain a' where "agree_steps M a a'" "like_node M a' c ?n'" "only c a a'" by auto
    with sim_node [OF sim r this calm_Handle same_log_steps(1)] show ?thesis by blast
  next
    case False
    then have "held c ?n ?n'" by (auto simp: held_def HandleAppendEntriesResponse_def Let_def)
    from sim_quiet_node [OF sim r c calm_Handle same_log_steps(1) this] show ?thesis .
  qed
qed



end
