(* ===== verification/Consensus.thy ===== *)
theory Consensus
  imports Simulation
begin

text \<open>
  The nodes of the program agree on what is committed. The next index that a leader keeps for a member never falls below the
  first wrong record of that member, unless the leader knows it to have none: so a request that a member accepts
  removes its wrong records, and the commit index it learns is of the leader's records. With this, every run is simulated
  by the protocol of \<open>Agreement\<close>; so the commit indexes of all members are on one path, whoever led, and a leader has
  what was committed before it.
\<close>

section \<open>What leaders and the network know\<close>

text \<open>The next index as the code reads it, and the index from which on a batch can start.\<close>

definition next_of :: "('w, 'm) raft_node \<Rightarrow> int \<Rightarrow> nat" where
  "next_of n p = (let i = (case next_index n p of None \<Rightarrow> 0 | Some i \<Rightarrow> i)
     in if i = 0 then Suc (unat (LastLogIndexLocked n)) else unat i)"

definition guess :: "('w, 'm) raft_node \<Rightarrow> int \<Rightarrow> nat" where
  "guess n p = max (next_of n p) (unat (last_snapshot_index n))"

abbreviation snap_at :: "('w, 'm) run \<Rightarrow> int \<Rightarrow> nat" where
  "snap_at s c \<equiv> unat (last_snapshot_index (member s c))"

definition heads :: "int set \<Rightarrow> ('w, 'm) run \<Rightarrow> int \<Rightarrow> bool" where
  "heads M s c \<longleftrightarrow> c \<in> M \<and> role (member s c) = kLeader \<and> LastLogIndexLocked (member s c) < - 1"

text \<open>Beyond its own log a leader knows nothing, and has not heard of the member or been told so.\<close>

definition known :: "('w, 'm) raft_node \<Rightarrow> int \<Rightarrow> bool" where
  "known n p \<longleftrightarrow> (\<exists>i. next_index n p = Some i \<and> i \<noteq> 0)"

definition belief :: "('w, 'm) run \<Rightarrow> int agreement \<Rightarrow> int \<Rightarrow> int \<Rightarrow> bool" where
  "belief s a c p \<longleftrightarrow> (p \<noteq> c \<longrightarrow> known (member s c) p) \<and> ahead a c p (guess (member s c) p) \<and>
     (Suc (unat (LastLogIndexLocked (member s c))) < next_of (member s c) p \<longrightarrow> a_term a p < a_term a c \<longrightarrow> ahead a c p (snap_at s c))"

text \<open>A message of term \<open>t\<close> tells the leader of that term, if there still is one.\<close>

definition told :: "int set \<Rightarrow> ('w, 'm) run \<Rightarrow> int agreement \<Rightarrow> u64 \<Rightarrow> (int \<Rightarrow> bool) \<Rightarrow> bool" where
  "told M s a t P \<longleftrightarrow> unat t \<in> a_led a \<and> (\<forall>c. heads M s c \<longrightarrow> current_term (member s c) = t \<longrightarrow> P c)"

definition posted_ok :: "int set \<Rightarrow> ('w, 'm) run \<Rightarrow> int agreement \<Rightarrow> int \<Rightarrow> AppendEntriesRequest \<Rightarrow> bool" where
  "posted_ok M s a p q \<longleftrightarrow> told M s a (aq_term q) (\<lambda>c. ahead a c p (Suc (unat (prev_log_index q)))) \<and>
     (\<exists>y z. anc (a_tree a) y (request_end q) \<and> (entries q = [] \<longrightarrow> y = request_end q) \<and>
        probe a (unat (aq_term q)) y p (Suc (unat (prev_log_index q))) \<and>
        anc (a_tree a) y z \<and> p_index z = unat (leader_commit q) \<and> decided (is_majority M) a (unat (aq_term q)) z)"

definition asked_ok :: "int set \<Rightarrow> ('w, 'm) run \<Rightarrow> int agreement \<Rightarrow> u64 \<Rightarrow> int \<Rightarrow> bool" where
  "asked_ok M s a t p \<longleftrightarrow> told M s a t (\<lambda>c. a_term a p < a_term a c \<longrightarrow> ahead a c p (snap_at s c))"

definition refusal :: "int agreement \<Rightarrow> int \<Rightarrow> int \<Rightarrow> AppendEntriesResponse \<Rightarrow> bool" where
  "refusal a c p r \<longleftrightarrow> (if conflict_term r \<noteq> 0 then hinted a c p (At (unat (conflict_index r)) (unat (conflict_term r)))
     else a_term a c \<le> a_term a p \<and>
       ahead a c p (unat (if conflict_index r \<noteq> 0 then conflict_index r else SafeAddOne (as_last_log_index r))))"

definition refused_ok :: "int set \<Rightarrow> ('w, 'm) run \<Rightarrow> int agreement \<Rightarrow> u64 \<Rightarrow> int \<Rightarrow> AppendEntriesResponse \<Rightarrow> bool" where
  "refused_ok M s a t p r \<longleftrightarrow> (as_term r \<le> t \<longrightarrow> told M s a t (\<lambda>c. refusal a c p r))"

definition declined_ok :: "int set \<Rightarrow> ('w, 'm) run \<Rightarrow> int agreement \<Rightarrow> u64 \<Rightarrow> int \<Rightarrow> u64 \<Rightarrow> u64 \<Rightarrow> bool" where
  "declined_ok M s a t p u l \<longleftrightarrow> (u \<le> t \<longrightarrow>
     told M s a t (\<lambda>c. ahead a c p (if a_term a p < a_term a c then snap_at s c else max (unat (SafeAddOne l)) (snap_at s c))))"

definition progress :: "int set \<Rightarrow> ('w, 'm) run \<Rightarrow> int agreement \<Rightarrow> bool" where
  "progress M s a \<longleftrightarrow> (\<forall>c p. heads M s c \<longrightarrow> p \<in> M \<longrightarrow> belief s a c p) \<and>
     (\<forall>p q. p \<in> M \<longrightarrow> (p, q) \<in> posted s \<longrightarrow> posted_ok M s a p q) \<and>
     (\<forall>t p. p \<in> M \<longrightarrow> (t, p) \<in> asked s \<longrightarrow> asked_ok M s a t p) \<and>
     (\<forall>t p r. p \<in> M \<longrightarrow> (t, p, r) \<in> refused s \<longrightarrow> refused_ok M s a t p r) \<and>
     (\<forall>t p u l. p \<in> M \<longrightarrow> (t, p, u, l) \<in> declined s \<longrightarrow> declined_ok M s a t p u l) \<and>
     (\<forall>t p m. p \<in> M \<longrightarrow> (t, p, m) \<in> acked s \<longrightarrow> unat t \<le> a_term a p)"

lemma progressD:
  assumes "progress M s a"
  shows "\<And>c p. heads M s c \<Longrightarrow> p \<in> M \<Longrightarrow> belief s a c p" "\<And>p q. p \<in> M \<Longrightarrow> (p, q) \<in> posted s \<Longrightarrow> posted_ok M s a p q"
    "\<And>t p. p \<in> M \<Longrightarrow> (t, p) \<in> asked s \<Longrightarrow> asked_ok M s a t p"
    "\<And>t p r. p \<in> M \<Longrightarrow> (t, p, r) \<in> refused s \<Longrightarrow> refused_ok M s a t p r"
    "\<And>t p u l. p \<in> M \<Longrightarrow> (t, p, u, l) \<in> declined s \<Longrightarrow> declined_ok M s a t p u l"
    "\<And>t p m. p \<in> M \<Longrightarrow> (t, p, m) \<in> acked s \<Longrightarrow> unat t \<le> a_term a p"
  using assms unfolding progress_def by blast+

section \<open>Knowledge lasts\<close>

text \<open>One step of the run with the steps of the protocol that simulate it. A leader only ever adds to its log.\<close>

definition onward :: "int set \<Rightarrow> ('w, 'm) run \<Rightarrow> int agreement \<Rightarrow> ('w, 'm) run \<Rightarrow> int agreement \<Rightarrow> bool" where
  "onward M s a s' a' \<longleftrightarrow> sim M s a \<and> agree_reach (is_majority M) a \<and> agree_steps M a a' \<and> sim M s' a' \<and>
     (\<forall>c \<in> M. role (member s c) = kLeader \<longrightarrow> role (member s' c) = kLeader \<longrightarrow> current_term (member s' c) = current_term (member s c) \<longrightarrow>
        LastLogIndexLocked (member s c) \<le> LastLogIndexLocked (member s' c) \<and> last_snapshot_index (member s c) \<le> last_snapshot_index (member s' c))"

lemma sim_fields:
  assumes "sim M s a" and "p \<in> M"
  shows "a_term a p = unat (current_term (member s p))" "a_role a p = role (member s p)" "a_tip a p = tip (member s p)"
  using simD(1) [OF assms] by (simp_all add: like_node_def like_core_def)

lemma onwardD:
  assumes "onward M s a s' a'"
  shows "sim M s a" "agree_reach (is_majority M) a" "agree_steps M a a'" "sim M s' a'" "agree_reach (is_majority M) a'"
    "\<And>c. c \<in> M \<Longrightarrow> role (member s c) = kLeader \<Longrightarrow> role (member s' c) = kLeader \<Longrightarrow> current_term (member s' c) = current_term (member s c) \<Longrightarrow>
        LastLogIndexLocked (member s c) \<le> LastLogIndexLocked (member s' c) \<and> last_snapshot_index (member s c) \<le> last_snapshot_index (member s' c)"
  using assms agree_steps_reach unfolding onward_def by blast+

text \<open>A leader of a term that had a leader before the step is that leader, and still believes what it did.\<close>

lemma onward_leader:
  assumes o: "onward M s a s' a'" and c: "heads M s' c" and t: "unat (current_term (member s' c)) \<in> a_led a"
  shows "heads M s c" "current_term (member s c) = current_term (member s' c)" "snap_at s c \<le> snap_at s' c"
    "LastLogIndexLocked (member s c) \<le> LastLogIndexLocked (member s' c)"
    "ahead a c p h \<Longrightarrow> ahead a' c p h" "hinted a c p v \<Longrightarrow> hinted a' c p v" "a_term a c = a_term a' c"
proof -
  note O = onwardD [OF o]
  from c have M: "c \<in> M" and L: "role (member s' c) = kLeader" by (simp_all add: heads_def)
  note F = sim_fields [OF O(1) M] and F' = sim_fields [OF O(4) M]
  note B = beliefs_steps [OF O(3,2), of c p h v] beliefs_steps [OF O(3,2), of c]
  have B': "a_role a c = kLeader" "a_term a c = a_term a' c" using B(2) F' L t by simp_all
  then have n: "role (member s c) = kLeader" "current_term (member s c) = current_term (member s' c)"
    using F F' by (simp_all add: word_unat_eq_iff)
  from O(6) [OF M n(1) L n(2) [symmetric]] have le: "LastLogIndexLocked (member s c) \<le> LastLogIndexLocked (member s' c)"
    "last_snapshot_index (member s c) \<le> last_snapshot_index (member s' c)" by simp_all
  then show "heads M s c" using c n(1) by (auto simp: heads_def)
  show "current_term (member s c) = current_term (member s' c)" by (rule n(2))
  show "snap_at s c \<le> snap_at s' c" using le(2) by (simp add: word_le_nat_alt)
  show "LastLogIndexLocked (member s c) \<le> LastLogIndexLocked (member s' c)" by (rule le(1))
  show "ahead a c p h \<Longrightarrow> ahead a' c p h" "hinted a c p v \<Longrightarrow> hinted a' c p v" using B(1) F' L t by auto
  show "a_term a c = a_term a' c" by (rule B'(2))
qed

lemma told_forward:
  assumes o: "onward M s a s' a'" and t: "told M s a t P"
    and P: "\<And>c. heads M s c \<Longrightarrow> heads M s' c \<Longrightarrow> current_term (member s' c) = t \<Longrightarrow> unat (current_term (member s' c)) \<in> a_led a \<Longrightarrow> P c \<Longrightarrow> P' c"
  shows "told M s' a' t P'"
proof -
  have led: "unat t \<in> a_led a" using t by (simp add: told_def)
  have "P' c" if c: "heads M s' c" "current_term (member s' c) = t" for c
  proof -
    note L = onward_leader(1,2) [OF o c(1), unfolded c(2), OF led]
    with t have "P c" by (simp add: told_def)
    with L(1) c led show ?thesis by (intro P) simp_all
  qed
  with led led_steps [OF onwardD(3) [OF o]] show ?thesis unfolding told_def by blast
qed

lemma lower_before:
  assumes o: "onward M s a s' a'" and c: "heads M s' c" "unat (current_term (member s' c)) \<in> a_led a" and p: "a_term a' p < a_term a' c"
  shows "a_term a p < a_term a c"
  using p terms_steps [OF onwardD(3) [OF o], of p] onward_leader(7) [OF o c] by simp

lemma items_forward:
  assumes o: "onward M s a s' a'"
  shows "posted_ok M s a p q \<Longrightarrow> posted_ok M s' a' p q" and "asked_ok M s a t p \<Longrightarrow> asked_ok M s' a' t p"
    and "refused_ok M s a t p r \<Longrightarrow> refused_ok M s' a' t p r" and "declined_ok M s a t p u l \<Longrightarrow> declined_ok M s' a' t p u l"
    and "unat t \<le> a_term a p \<Longrightarrow> unat t \<le> a_term a' p"
proof -
  note O = onwardD [OF o] and L = onward_leader [OF o] and T = terms_steps [OF onwardD(3) [OF o]]
  note low = lower_before [OF o]
  show "unat t \<le> a_term a p \<Longrightarrow> unat t \<le> a_term a' p" using T [of p] by simp
  { assume q: "posted_ok M s a p q"
    then have "told M s' a' (aq_term q) (\<lambda>c. ahead a' c p (Suc (unat (prev_log_index q))))"
      unfolding posted_ok_def by (blast intro: told_forward [OF o] L(5))
    moreover from q obtain y z where "anc (a_tree a) y (request_end q)" "entries q = [] \<longrightarrow> y = request_end q"
      "probe a (unat (aq_term q)) y p (Suc (unat (prev_log_index q)))" "anc (a_tree a) y z" "p_index z = unat (leader_commit q)"
      "decided (is_majority M) a (unat (aq_term q)) z" unfolding posted_ok_def by blast
    moreover note anc_mono [OF steps_forward(1) [OF O(3,2)]] probe_steps [OF O(3,2)] steps_forward(5) [OF O(3,2) _ order_refl]
    ultimately show "posted_ok M s' a' p q" unfolding posted_ok_def by blast }
  show "asked_ok M s a t p \<Longrightarrow> asked_ok M s' a' t p"
    unfolding asked_ok_def by (erule told_forward [OF o]) (meson L(3,5) ahead_mono low)
  have r: "refusal a' c p r" if c: "heads M s' c" "unat (current_term (member s' c)) \<in> a_led a" and "refusal a c p r" for c
    using that(3) L(5,6,7) [OF c] T [of p] unfolding refusal_def by (auto split: if_splits)
  show "refused_ok M s a t p r \<Longrightarrow> refused_ok M s' a' t p r"
    unfolding refused_ok_def using told_forward [OF o, of t "\<lambda>c. refusal a c p r" "\<lambda>c. refusal a' c p r"] r by blast
  show "declined_ok M s' a' t p u l" if d: "declined_ok M s a t p u l"
    unfolding declined_ok_def
  proof
    assume "u \<le> t"
    with d have "told M s a t (\<lambda>c. ahead a c p (if a_term a p < a_term a c then snap_at s c else max (unat (SafeAddOne l)) (snap_at s c)))"
      by (simp add: declined_ok_def)
    then show "told M s' a' t (\<lambda>c. ahead a' c p (if a_term a' p < a_term a' c then snap_at s' c else max (unat (SafeAddOne l)) (snap_at s' c)))"
    proof (rule told_forward [OF o])
      fix c
      assume c: "heads M s' c" "unat (current_term (member s' c)) \<in> a_led a"
        and h: "ahead a c p (if a_term a p < a_term a c then snap_at s c else max (unat (SafeAddOne l)) (snap_at s c))"
      show "ahead a' c p (if a_term a' p < a_term a' c then snap_at s' c else max (unat (SafeAddOne l)) (snap_at s' c))"
      proof (cases "a_term a' p < a_term a' c")
        case True
        with low [OF c True] h L(5) [OF c] have "ahead a' c p (snap_at s c)" by simp
        with True L(3) [OF c] show ?thesis by (auto intro: ahead_mono)
      next
        case False
        have "ahead a' c p (if a_term a p < a_term a c then snap_at s c else max (unat (SafeAddOne l)) (snap_at s c))" by (rule L(5) [OF c h])
        with False L(3) [OF c] show ?thesis by (auto intro: ahead_mono split: if_splits)
      qed
    qed
  qed
qed

definition keeps_next :: "('w, 'm) raft_node \<Rightarrow> ('w, 'm) raft_node \<Rightarrow> int \<Rightarrow> bool" where
  "keeps_next n n' p \<longleftrightarrow> role n = kLeader \<and> current_term n = current_term n' \<and>
     (next_index n' p = next_index n p \<or> LastLogIndexLocked n' = LastLogIndexLocked n \<and> next_of n' p = next_of n p \<and> known n' p)"

lemma next_of_grows:
  assumes "keeps_next n n' p" and "LastLogIndexLocked n \<le> LastLogIndexLocked n'"
  shows "next_of n p \<le> next_of n' p"
    and "Suc (unat (LastLogIndexLocked n')) < next_of n' p \<Longrightarrow> Suc (unat (LastLogIndexLocked n)) < next_of n p"
  using assms by (auto simp: keeps_next_def next_of_def Let_def word_le_nat_alt split: if_splits option.splits)

lemma belief_forward:
  assumes o: "onward M s a s' a'" and c: "heads M s' c" and k: "keeps_next (member s c) (member s' c) p"
    and b: "belief s a c p"
  shows "belief s' a' c p"
proof -
  note O = onwardD [OF o]
  have M: "c \<in> M" using c by (simp add: heads_def)
  have "a_role a c = kLeader" "a_term a c = unat (current_term (member s' c))"
    using sim_fields [OF O(1) M] k by (simp_all add: keeps_next_def)
  with shapeD(8) [OF reach_invD(1) [OF O(2)]] have t: "unat (current_term (member s' c)) \<in> a_led a" by metis
  note W = onward_leader [OF o c t] and N = next_of_grows [OF k onward_leader(4) [OF o c t]]
  have "guess (member s c) p \<le> guess (member s' c) p" using N(1) W(3) unfolding guess_def by (rule max.mono)
  with b W(5) have "ahead a' c p (guess (member s' c) p)" unfolding belief_def by (blast intro: ahead_mono)
  moreover have "ahead a' c p (snap_at s' c)" if "Suc (unat (LastLogIndexLocked (member s' c))) < next_of (member s' c) p" "a_term a' p < a_term a' c"
    using b N(2) [OF that(1)] lower_before [OF o c t that(2)] W(3,5) unfolding belief_def by (blast intro: ahead_mono)
  moreover have "p \<noteq> c \<longrightarrow> known (member s' c) p" using b k by (auto simp: belief_def keeps_next_def known_def)
  ultimately show ?thesis by (simp add: belief_def)
qed

text \<open>A new leader starts behind its own log.\<close>

lemma belief_new:
  assumes "sim M s a" and "agree_reach (is_majority M) a" and "c \<in> M" and "known (member s c) p" and "next_of (member s c) p = Suc (unat (LastLogIndexLocked (member s c)))"
  shows "belief s a c p"
proof -
  have "p_index (a_tip a c) < guess (member s c) p" using sim_fields(3) [OF assms(1,3)] assms(5) by (simp add: guess_def tip_def)
  from ahead_end [OF reach_invD(1) [OF assms(2)] this] assms(4,5) show ?thesis by (simp add: belief_def)
qed

lemma progress_step:
  assumes o: "onward M s a s' a'" and pr: "progress M s a"
    and b: "\<And>c p. heads M s' c \<Longrightarrow> p \<in> M \<Longrightarrow> p \<noteq> c \<Longrightarrow> keeps_next (member s c) (member s' c) p \<or> belief s' a' c p"
    and new: "\<And>p q. p \<in> M \<Longrightarrow> (p, q) \<in> posted s' \<Longrightarrow> (p, q) \<in> posted s \<or> posted_ok M s' a' p q"
      "\<And>t p. p \<in> M \<Longrightarrow> (t, p) \<in> asked s' \<Longrightarrow> (t, p) \<in> asked s \<or> asked_ok M s' a' t p"
      "\<And>t p r. p \<in> M \<Longrightarrow> (t, p, r) \<in> refused s' \<Longrightarrow> (t, p, r) \<in> refused s \<or> refused_ok M s' a' t p r"
      "\<And>t p u l. p \<in> M \<Longrightarrow> (t, p, u, l) \<in> declined s' \<Longrightarrow> (t, p, u, l) \<in> declined s \<or> declined_ok M s' a' t p u l"
      "\<And>t p m. p \<in> M \<Longrightarrow> (t, p, m) \<in> acked s' \<Longrightarrow> (t, p, m) \<in> acked s \<or> unat t \<le> a_term a' p"
  shows "progress M s' a'"
proof -
  note P = progressD [OF pr] and F = items_forward [OF o]
  have "belief s' a' c p" if c: "heads M s' c" and p: "p \<in> M" for c p
  proof (cases "p = c")
    case True
    then show ?thesis by (simp add: belief_def ahead_self)
  next
    case False
    from b [OF c p False] show ?thesis
    proof
      assume n: "keeps_next (member s c) (member s' c) p"
      have M: "c \<in> M" using c by (simp add: heads_def)
      with n c onwardD(6) [OF o M] have "heads M s c" by (auto simp: heads_def keeps_next_def)
      with belief_forward [OF o c n] P(1) [OF _ p] show ?thesis by blast
    qed
  qed
  with P F new show ?thesis unfolding progress_def by meson
qed

text \<open>The step of one member.\<close>

lemma onward_node:
  assumes sim: "sim M s a" and r: "agree_reach (is_majority M) a" and st: "agree_steps M a a'" and sim': "sim M s' a'"
    and m: "\<And>c. member s' c = (if c = x then n' else member s c)"
    and g: "role (member s x) = kLeader \<Longrightarrow> role n' = kLeader \<Longrightarrow> LastLogIndexLocked (member s x) \<le> LastLogIndexLocked n' \<and>
      last_snapshot_index (member s x) \<le> last_snapshot_index n'"
  shows "onward M s a s' a'"
  unfolding onward_def using assms by auto

lemma progress_node:
  assumes o: "onward M s a s' a'" and pr: "progress M s a" and m: "\<And>c. member s' c = (if c = x then n' else member s c)"
    and b: "\<And>p. p \<in> M \<Longrightarrow> p \<noteq> x \<Longrightarrow> heads M s' x \<Longrightarrow> keeps_next (member s x) n' p \<or> belief s' a' x p"
    and new: "\<And>p q. p \<in> M \<Longrightarrow> (p, q) \<in> posted s' \<Longrightarrow> (p, q) \<in> posted s \<or> posted_ok M s' a' p q"
      "\<And>t p. p \<in> M \<Longrightarrow> (t, p) \<in> asked s' \<Longrightarrow> (t, p) \<in> asked s \<or> asked_ok M s' a' t p"
      "\<And>t p r. p \<in> M \<Longrightarrow> (t, p, r) \<in> refused s' \<Longrightarrow> (t, p, r) \<in> refused s \<or> refused_ok M s' a' t p r"
      "\<And>t p u l. p \<in> M \<Longrightarrow> (t, p, u, l) \<in> declined s' \<Longrightarrow> (t, p, u, l) \<in> declined s \<or> declined_ok M s' a' t p u l"
      "\<And>t p k. p \<in> M \<Longrightarrow> (t, p, k) \<in> acked s' \<Longrightarrow> (t, p, k) \<in> acked s \<or> unat t \<le> a_term a' p"
  shows "progress M s' a'"
proof (rule progress_step [OF o pr])
  fix c p
  assume c: "heads M s' c" and p: "p \<in> M" "p \<noteq> c"
  show "keeps_next (member s c) (member s' c) p \<or> belief s' a' c p"
  proof (cases "c = x")
    case True
    with b [OF p(1)] p(2) c m [of x] show ?thesis by simp
  next
    case False
    with m [of c] c show ?thesis by (simp add: heads_def keeps_next_def)
  qed
qed (fact new)+

section \<open>Every step keeps the simulation and the knowledge\<close>

abbreviation follows :: "int set \<Rightarrow> int agreement \<Rightarrow> ('w, 'm) run \<Rightarrow> bool" where
  "follows M a s' \<equiv> \<exists>a'. agree_steps M a a' \<and> sim M s' a' \<and> progress M s' a'"

lemma sim_cong: "rep s' = rep s \<Longrightarrow> acked s' = acked s \<Longrightarrow> sim M s' a = sim M s a"
  by (simp add: sim_def)

lemma sim_answers:
  "sim M (append_answer q p x s) a = sim M (s\<lparr>acked := (if as_success x then insert (aq_term q, p, as_match_index x) (acked s) else acked s)\<rparr>) a"
  "sim M (install_answer iq p r s) a =
     sim M (s\<lparr>acked := (if is_success r then insert (iq_term iq, p, iq_last_included_index iq) (acked s) else acked s)\<rparr>) a"
  by (rule sim_cong; simp add: append_answer_def install_answer_def)+

lemma calm_leader: "calm n n' \<Longrightarrow> role n' = kLeader \<Longrightarrow> role n = kLeader \<and> current_term n = current_term n'"
  by (auto simp: calm_def)

text \<open>A step of one member that sends and answers nothing, and does not change the next indexes of the others.\<close>

lemma follows_node:
  assumes pr: "progress M s a" and sim: "sim M s a" and r: "agree_reach (is_majority M) a"
    and ex: "\<exists>a'. agree_steps M a a' \<and> sim M s' a'" and s': "s' = put_member x n' s \<or> (\<exists>b. s' = s\<lparr>rep := (put_node x n' (rep s))\<lparr>born := b\<rparr>\<rparr>)"
    and c: "calm (member s x) n'" and k: "\<And>p. p \<noteq> x \<Longrightarrow> role n' = kLeader \<Longrightarrow> keeps_next (member s x) n' p"
    and g: "LastLogIndexLocked (member s x) \<le> LastLogIndexLocked n' \<or> role n' \<noteq> kLeader"
      "last_snapshot_index (member s x) \<le> last_snapshot_index n' \<or> role n' \<noteq> kLeader"
  shows "follows M a s'"
proof -
  from ex obtain a' where a': "agree_steps M a a'" "sim M s' a'" by blast
  have m: "member s' i = (if i = x then n' else member s i)" for i using s' by auto
  have o: "onward M s a s' a'" by (rule onward_node [OF sim r a' m]) (use g in auto)
  have "progress M s' a'"
    by (rule progress_node [OF o pr m]) (use k s' m in \<open>auto simp: heads_def\<close>)
  with a' show ?thesis by blast
qed

lemma same_log_last: "same_log n n' \<Longrightarrow> LastLogIndexLocked n' = LastLogIndexLocked n" "same_log n n' \<Longrightarrow> last_snapshot_index n' = last_snapshot_index n"
  by (simp_all add: same_log_def LastLogIndexLocked_def)

lemma advance_fields:
  "next_index (AdvanceCommitIndexUnlocked I n) = next_index n" "role (AdvanceCommitIndexUnlocked I n) = role n"
  "current_term (AdvanceCommitIndexUnlocked I n) = current_term n"
  by (simp_all add: AdvanceCommitIndexUnlocked_def split: option.split)

lemma follows_commit:
  assumes pr: "progress M s a" and sim: "sim M s a" and r: "agree_reach (is_majority M) a" and inv: "repl_inv M (rep s)"
    and ei: "election_inv M (base (rep s))" and c: "c \<in> M"
  shows "follows M a (put_member c (AdvanceCommitIndexUnlocked I (member s c)) s)"
  by (rule follows_node [OF pr sim r sim_commit [OF sim r inv ei c] disjI1 [OF refl] calm_simple(5)])
    (auto simp: keeps_next_def advance_fields same_log_last [OF same_log_steps(2)])

lemma follows_append:
  assumes pr: "progress M s a" and sim: "sim M s a" and r: "agree_reach (is_majority M) a" and inv: "repl_inv M (rep s)"
    and ei: "election_inv M (base (rep s))" and c: "c \<in> M" "role (member s c) = kLeader" and room: "LastLogIndexLocked (member s c) < - 1"
    and ap: "AppendLocalLogUnlocked I cmd (member s c) = (i, n')" and i: "i \<noteq> 0"
  shows "follows M a (s\<lparr>rep := (put_node c n' (rep s))\<lparr>born := (born (rep s))((i, current_term (member s c)) \<mapsto> (LastLogTermLocked (member s c), cmd))\<rparr>\<rparr>)"
proof -
  let ?n = "member s c"
  have n': "n' = snd (AppendLocalLogUnlocked I cmd ?n)" "i = fst (AppendLocalLogUnlocked I cmd ?n)" using ap by simp_all
  have ix: "i = SafeAddOne (LastLogIndexLocked ?n)" using i n'(2) by (simp add: Append_result split: if_splits)
  have "log n' = log ?n @ [\<lparr>lr_index = i, lr_term = current_term ?n, lr_command = cmd\<rparr>]" using i n' ix by (simp add: Append_log)
  then have last: "LastLogIndexLocked n' = i" by (simp add: LastLogIndexLocked_def)
  have le: "LastLogIndexLocked ?n \<le> i" using SafeAddOne_eq_Suc [OF room] ix by (simp add: word_le_nat_alt)
  have id: "node_id ?n = c" using election_invD(3) [OF ei c(1)] by (simp add: member_ok_def)
  have nx: "next_index n' p = next_index ?n p" if "p \<noteq> c" for p
    using that id unfolding n'(1) by (simp add: AppendLocalLogUnlocked_def Let_def split_def split: option.split)
  have ca: "calm ?n n'" unfolding n'(1) by (rule calm_simple)
  have b: "last_snapshot_index n' = last_snapshot_index ?n" unfolding n'(1) by simp
  show ?thesis
    by (rule follows_node [OF pr sim r sim_append [OF sim r ei inv c room ap i] _ ca], rule disjI2, rule exI, rule refl)
      (use nx last le b calm_leader [OF ca] in \<open>auto simp: keeps_next_def\<close>)
qed

lemma follows_compact:
  assumes pr: "progress M s a" and sim: "sim M s a" and r: "agree_reach (is_majority M) a" and inv: "repl_inv M (rep s)" and p: "p \<in> M"
    and b: "boundary_matches i t (member s p)" and c: "i \<le> commit_index (member s p)"
  shows "follows M a (put_member p (worker_compact I i t (member s p)) s)"
proof -
  note wf = repl_invD(1) [OF inv p]
  let ?n = "member s p" and ?n' = "worker_compact I i t (member s p)"
  have n': "role ?n' = role ?n" "current_term ?n' = current_term ?n" "next_index ?n' = next_index ?n"
    by (simp_all add: worker_compact_def CompactLogPrefixLocked_def RestoreLogAfterSnapshotLocked_def Let_def)
  have "LastLogIndexLocked ?n' = LastLogIndexLocked ?n \<and> last_snapshot_index ?n \<le> last_snapshot_index ?n'"
  proof (cases "last_snapshot_index ?n < i")
    case True
    with CompactLogPrefixLocked_new [OF wf True] Last_Compact [OF wf b] show ?thesis
      by (simp add: worker_compact_def LastLogIndexLocked_def)
  qed (simp add: worker_compact_def)
  then show ?thesis
    by (intro follows_node [OF pr sim r sim_compact [OF sim r inv p b c] disjI1 [OF refl] calm_simple(7)])
      (use n' in \<open>auto simp: keeps_next_def\<close>)
qed

text \<open>Steps of the cluster: the only new leader is the winner of an election, and it starts behind its log.\<close>

lemma quiet_leader:
  assumes "cluster_step I M b b'" and "role (nodes b' c) = kLeader"
  shows "role (nodes b c) = kLeader \<and> current_term (nodes b c) = current_term (nodes b' c) \<or> nodes b' c = BecomeLeaderLocked (nodes b c)"
  using assms(1)
proof (cases rule: cluster_step.cases)
  case (timeout_started d gen e n')
  with assms(2) OnElectionTimeout_Some(3) [OF timeout_started(4)] show ?thesis by (auto split: if_splits)
next
  case (timeout_ignored d gen n')
  with assms(2) calm_leader [OF calm_timeout_ignored [OF timeout_ignored(3)]] show ?thesis by (auto split: if_splits)
next
  case (vote_request d p t e x n')
  have "calm (nodes b p) n'" using calm_OnRequestVote [of "nodes b p" I "election_request e (nodes b d)"] vote_request(6) by simp
  from calm_leader [OF this] vote_request(1) assms(2) show ?thesis by (auto split: if_splits)
next
  case (vote_answer d t p x e won e' n')
  have "calm (nodes b d) n'" using calm_vote_reply [of "nodes b d" I e x] vote_answer(6) by simp
  from calm_leader [OF this] vote_answer(1) assms(2) show ?thesis by (auto split: if_splits)
next
  case (election_won d t e n')
  from election_won(5) have "n' = BecomeLeaderLocked (nodes b d)" by (auto simp: OnElectionWonLocked_def split: if_splits)
  with election_won(1) assms(2) show ?thesis by (auto split: if_splits)
next
  case (other i n')
  from calm_leader [OF calm_local_step [OF other(3)]] other(1) assms(2) show ?thesis by (auto split: if_splits)
qed

lemma init_peer_progress_next:
  "next_index (init_peer_progress l ps n) i = (if i \<in> peer_id ` set ps then Some (SafeAddOne l) else next_index n i)"
  by (induction ps arbitrary: n) (auto simp: GetOrCreateReplicatorLocked_def split: option.split)

lemma BecomeLeader_next:
  assumes "i \<in> peer_id ` set (peers n)" and "LastLogIndexLocked n < - 1"
  shows "next_of (BecomeLeaderLocked n) i = Suc (unat (LastLogIndexLocked n))" and "known (BecomeLeaderLocked n) i"
proof -
  have "next_index (BecomeLeaderLocked n) i = Some (SafeAddOne (LastLogIndexLocked n))"
    using assms(1) by (simp add: BecomeLeaderLocked_def init_peer_progress_next LastLogIndexLocked_def node_defs Let_def)
  then show "next_of (BecomeLeaderLocked n) i = Suc (unat (LastLogIndexLocked n))" "known (BecomeLeaderLocked n) i"
    using SafeAddOne_eq_Suc [OF assms(2)] by (simp_all add: next_of_def known_def)
qed

lemma follows_quiet:
  assumes pr: "progress M s a" and sim: "sim M s a" and r: "agree_reach (is_majority M) a" and rb: "reachable I M (base (rep s))"
    and inv: "repl_inv M (rep s)" and st: "cluster_step I M (base (rep s)) b"
    and sl: "\<And>i. same_log (member s i) (nodes b i)" and k: "\<And>i. kept i (member s i) (nodes b i)"
  shows "follows M a (s\<lparr>rep := (rep s)\<lparr>base := b\<rparr>\<rparr>)" (is "follows M a ?s")
proof -
  note ei = election_inv_reachable [OF rb]
  from sim_quiet [OF sim r rb inv st sl kept_held [OF k]] obtain a' where a': "agree_steps M a a'" "sim M ?s a'" by blast
  have o: "onward M s a ?s a'" unfolding onward_def using sim r a' same_log_last [OF sl] by simp
  have "progress M ?s a'"
  proof (rule progress_step [OF o pr])
    fix c p
    assume c: "heads M ?s c" and p: "p \<in> M" "p \<noteq> c"
    then have M: "c \<in> M" "role (nodes b c) = kLeader" "LastLogIndexLocked (nodes b c) < - 1" by (simp_all add: heads_def)
    have peer: "p \<in> peer_id ` set (peers (member s c))" using election_invD(3) [OF ei M(1)] p by (simp add: member_ok_def)
    from quiet_leader [OF st M(2)] show "keeps_next (member s c) (member ?s c) p \<or> belief ?s a' c p"
    proof
      assume "role (member s c) = kLeader \<and> current_term (member s c) = current_term (nodes b c)"
      with k [of c] M(2) p(2) show ?thesis by (simp add: kept_def keeps_next_def)
    next
      assume n: "nodes b c = BecomeLeaderLocked (member s c)"
      have "known (member ?s c) p" "next_of (member ?s c) p = Suc (unat (LastLogIndexLocked (member ?s c)))"
        using BecomeLeader_next [OF peer] n same_log_last(1) [OF sl [of c]] M(3) by simp_all
      with belief_new [OF a'(2) onwardD(5) [OF o] M(1)] show ?thesis by simp
    qed
  qed simp_all
  with a' show ?thesis by blast
qed

lemma follows_offer:
  assumes pr: "progress M s a" and sim: "sim M s a" and r: "agree_reach (is_majority M) a" and inv: "repl_inv M (rep s)"
    and c: "c \<in> M" "role (member s c) = kLeader" "iq_term iq = current_term (member s c)"
    and b: "boundary_matches (iq_last_included_index iq) (iq_last_included_term iq) (member s c)"
    and cm: "iq_last_included_index iq \<le> commit_index (member s c)"
  shows "follows M a (s\<lparr>rep := (rep s)\<lparr>offered := insert iq (offered (rep s))\<rparr>, handed := h\<rparr>)" (is "follows M a ?s")
proof -
  from sim_offer [OF sim r inv c b cm] obtain a' where a': "agree_steps M a a'"
    "sim M (s\<lparr>rep := (rep s)\<lparr>offered := insert iq (offered (rep s))\<rparr>\<rparr>) a'" by blast
  then have s': "sim M ?s a'" by (simp add: sim_def)
  have o: "onward M s a ?s a'" unfolding onward_def using sim r a'(1) s' by simp
  have "progress M ?s a'" by (rule progress_step [OF o pr]) (simp_all add: keeps_next_def heads_def)
  with a'(1) s' show ?thesis by blast
qed

section \<open>What a leader sends\<close>

lemma build_next:
  assumes b: "BuildAppendEntriesRequest pid t n = (B, n')" "B \<noteq> BatchNone" and wf: "log_wf n" and room: "LastLogIndexLocked n < - 1"
  obtains ni where "role n = kLeader" "current_term n = t" "n' = n\<lparr>next_index := (next_index n)(pid \<mapsto> ni)\<rparr>" "ni \<noteq> 0" "unat ni = next_of n pid"
    "\<And>q. B = BatchAppend q \<Longrightarrow> prev_log_index q = ni - 1"
    "B = BatchSnapshot \<Longrightarrow> ni \<le> last_snapshot_index n \<or> TermAtIndexLocked (ni - 1) n = 0 \<and> ni - 1 \<noteq> 0"
proof -
  let ?st = "case next_index n pid of None \<Rightarrow> 0 | Some i \<Rightarrow> i"
  let ?ni = "if ?st = 0 then SafeAddOne (LastLogIndexLocked n) else ?st"
  have f: "FirstLogIndexLocked (n\<lparr>next_index := x\<rparr>) = last_snapshot_index n" "TermAtIndexLocked i (n\<lparr>next_index := x\<rparr>) = TermAtIndexLocked i n" for x i
    using log_wfD(3) [OF wf] log_wfD(1) [OF wf] by (simp_all add: FirstLogIndexLocked_def TermAtIndexLocked_def LogAtIndexLocked_def HasLogAtIndexLocked_def LogOffsetLocked_def LastLogIndexLocked_def)
  have "unat ?ni = next_of n pid" using SafeAddOne_eq_Suc [OF room] by (simp add: next_of_def)
  then show thesis
    using b by (intro that [of ?ni]) (auto simp: BuildAppendEntriesRequest_def f Let_def split: if_splits)
qed

lemma leader_unique:
  assumes sim: "sim M s a" and r: "agree_reach (is_majority M) a" and c: "c \<in> M" "role (member s c) = kLeader"
    and d: "heads M s d" "current_term (member s d) = current_term (member s c)"
  shows "d = c"
  using shapeD(9) [OF reach_invD(1) [OF r], of d c] sim_fields [OF sim c(1)] sim_fields [OF sim, of d] c(2) d by (simp add: heads_def)

lemma leader_led:
  assumes "sim M s a" and "agree_reach (is_majority M) a" and "c \<in> M" "role (member s c) = kLeader"
  shows "unat (current_term (member s c)) \<in> a_led a"
  using shapeD(8) [OF reach_invD(1) [OF assms(2)], of c] sim_fields [OF assms(1,3)] assms(4) by simp

lemma told_leader:
  assumes "sim M s a" and "agree_reach (is_majority M) a" and "c \<in> M" "role (member s c) = kLeader" and "t = current_term (member s c)" and "P c"
  shows "told M s a t P"
  unfolding told_def using leader_led [OF assms(1-4)] leader_unique [OF assms(1-4)] assms(5,6) by auto

text \<open>A batch is built on the leader's belief; a snapshot is called for when the belief is below the log, or beyond it.\<close>

lemma batch_posted:
  assumes sim: "sim M s a" and r: "agree_reach (is_majority M) a" and inv: "repl_inv M (rep s)" and c: "heads M s c"
    and p: "p \<in> M" and b: "belief s a c p" and sn: "(a_term a c, a_tip a c) \<in> a_sent a"
    and bq: "BuildAppendEntriesRequest p t (member s c) = (BatchAppend q, n')"
  shows "posted_ok M s a p q"
proof -
  let ?n = "member s c"
  from c have C: "c \<in> M" "role ?n = kLeader" "LastLogIndexLocked ?n < - 1" by (simp_all add: heads_def)
  note D = repl_invD(1,2) [OF inv C(1)] and F = sim_fields [OF sim C(1)]
  note B = Build_request [OF D(1) C(3) bq] and R = batch_records [OF D(1) C(3) bq]
  have g: "grows (born (rep s)) (a_tree a)" using simD(2) [OF sim] by (simp add: messages_def)
  obtain ni where ni: "ni \<noteq> 0" "unat ni = next_of ?n p" "prev_log_index q = ni - 1"
    using build_next [OF bq _ D(1) C(3)] by (metis batch.distinct(3))
  then have nx: "next_of ?n p = Suc (unat (prev_log_index q))"
    using unat_minus_one [of 0 ni] unat_gt_0 [of ni] by (simp add: word_gt_0 flip: ni(2))
  have lo: "unat (last_snapshot_index ?n) \<le> unat (prev_log_index q)" using B(6) by (simp add: word_le_nat_alt)
  have ah: "ahead a c p (Suc (unat (prev_log_index q)))" using b nx lo by (simp add: belief_def guess_def max_absorb1)
  have tm: "a_term a c = unat (aq_term q)" using F(1) B(2,3) by simp
  have pr: "probe a (unat (aq_term q)) (a_tip a c) p (Suc (unat (prev_log_index q)))"
    using ahead_probe [OF reach_invD(1) [OF r] _ ah sn] F(2) C(2) tm by simp
  have e: "anc (a_tree a) (a_tip a c) (request_end q)" using batch_end [OF D(1) C(3) D(2) g bq] F(3) by simp
  have nil: "a_tip a c = request_end q" if "entries q = []"
  proof -
    have "prev_log_index q \<le> LastLogIndexLocked ?n" using B(7) by (cases "prev_log_index q = 0") auto
    moreover have "\<not> prev_log_index q < LastLogIndexLocked ?n"
    proof
      assume lt: "prev_log_index q < LastLogIndexLocked ?n"
      with B(9) that obtain k where k: "take k (log_from (prev_log_index q + 1) ?n) = []" "0 < k" by auto
      have up: "unat (prev_log_index q + 1) = Suc (unat (prev_log_index q))" by (rule unat_add_one [OF lt])
      with k log_wf_last [OF D(1)] lt lo show False by (auto simp: log_from_def word_less_nat_alt)
    qed
    ultimately have "p_index (request_end q) = p_index (a_tip a c)"
      using request_end_index(1) [OF B(10)] that F(3) by (simp add: tip_def)
    with anc_same_index [OF shapeD(1) [OF reach_invD(1) [OF r]] e] show ?thesis by simp
  qed
  have z: "anc (a_tree a) (a_tip a c) (a_commit a c)" "decided (is_majority M) a (unat (aq_term q)) (a_commit a c)"
    using commitD [OF r, of c] tm by simp_all
  have "p_index (a_commit a c) = unat (leader_commit q)" using simD(1) [OF sim C(1)] B(5) by (simp add: like_node_def)
  with told_leader [OF sim r C(1,2), of "aq_term q" "\<lambda>c. ahead a c p (Suc (unat (prev_log_index q)))"] ah B(2,3) pr e nil z
  show ?thesis unfolding posted_ok_def by blast
qed

lemma snapshot_asked:
  assumes sim: "sim M s a" and r: "agree_reach (is_majority M) a" and inv: "repl_inv M (rep s)" and c: "heads M s c"
    and b: "belief s a c p" and bq: "BuildAppendEntriesRequest p t (member s c) = (BatchSnapshot, n')"
  shows "asked_ok M s a t p"
proof -
  let ?n = "member s c"
  from c have C: "c \<in> M" "role ?n = kLeader" "LastLogIndexLocked ?n < - 1" by (simp_all add: heads_def)
  note D = repl_invD(1,2) [OF inv C(1)] and F = sim_fields [OF sim C(1)]
  have g: "grows (born (rep s)) (a_tree a)" using simD(2) [OF sim] by (simp add: messages_def)
  obtain ni where ni: "current_term ?n = t" "ni \<noteq> 0" "unat ni = next_of ?n p"
    "ni \<le> last_snapshot_index ?n \<or> TermAtIndexLocked (ni - 1) ?n = 0 \<and> ni - 1 \<noteq> 0"
    using build_next [OF bq _ D(1) C(3)] by (metis batch.distinct(1))
  have "ahead a c p (snap_at s c)" if lt: "a_term a p < a_term a c"
  proof (cases "ni \<le> last_snapshot_index ?n")
    case True
    with b ni(3) show ?thesis by (simp add: belief_def guess_def max_absorb2 word_le_nat_alt)
  next
    case False
    then have lo: "last_snapshot_index ?n \<le> ni - 1" and i: "unat (ni - 1) = unat ni - 1"
      using unat_minus_one [of "last_snapshot_index ?n" ni] by (auto simp: word_le_nat_alt word_less_nat_alt not_le)
    have "LastLogIndexLocked ?n < ni - 1"
    proof (rule ccontr)
      assume "\<not> LastLogIndexLocked ?n < ni - 1"
      then have hi: "ni - 1 \<le> LastLogIndexLocked ?n" by simp
      note nth = log_wf_nth [OF D(1) lo hi]
      let ?x = "rpoint (log ?n ! (unat (ni - 1) - unat (last_snapshot_index ?n)))"
      have x: "?x = At (unat (ni - 1)) 0"
        using nth(1,3) ni(4) False TermAtIndexLocked_eq [OF D(1), of "ni - 1"] by (simp add: rpoint_def)
      have "rooted (a_tree a) ?x"
        using rooted_below [OF shapeD(1,2) [OF reach_invD(1) [OF r]], of c] log_anc [OF D g nth(2)] F(3) by simp
      then have "?x \<in> dom (a_tree a)" using rooted_dom ni(4) False x by (fastforce simp: unat_eq_zero)
      from shapeD(4) [OF reach_invD(1) [OF r] this] x one_path_reach [OF r] show False by (simp add: one_path_def)
    qed
    then have "Suc (unat (LastLogIndexLocked ?n)) < next_of ?n p" using i ni(3) by (simp add: word_less_nat_alt)
    with b lt show ?thesis by (simp add: belief_def)
  qed
  with told_leader [OF sim r C(1,2) ni(1) [symmetric], of "\<lambda>c. a_term a p < a_term a c \<longrightarrow> ahead a c p (snap_at s c)"] show ?thesis by (simp add: asked_ok_def)
qed

text \<open>Building a request stores the next index as it was read.\<close>

lemma build_keeps:
  assumes b: "BuildAppendEntriesRequest pid t n = (B, n')" "B \<noteq> BatchNone" and wf: "log_wf n" and room: "LastLogIndexLocked n < - 1"
  shows "keeps_next n n' p" and "same_log n n'" and "held c n n'" and "calm n n'"
proof -
  have n': "n' = snd (BuildAppendEntriesRequest pid t n)" using b(1) by simp
  from build_next [OF assms] obtain ni where ni: "role n = kLeader" "n' = n\<lparr>next_index := (next_index n)(pid \<mapsto> ni)\<rparr>" "ni \<noteq> 0"
    "unat ni = next_of n pid" by metis
  show "keeps_next n n' p"
  proof (cases "p = pid")
    case True
    have "next_of n' pid = next_of n pid" "known n' pid" using ni(2-4) by (simp_all add: next_of_def known_def)
    with True ni(1,2) show ?thesis by (simp add: keeps_next_def LastLogIndexLocked_def)
  qed (use ni(1,2) in \<open>simp add: keeps_next_def\<close>)
  show "same_log n n'" "calm n n'" unfolding n' by (rule same_log_steps, rule calm_simple)
  show "held c n n'" using ni(2) by (simp add: held_def)
qed

lemma follows_ask:
  assumes pr: "progress M s a" and sim: "sim M s a" and r: "agree_reach (is_majority M) a" and inv: "repl_inv M (rep s)" and c: "c \<in> M"
    and room: "LastLogIndexLocked (member s c) < - 1" and bq: "BuildAppendEntriesRequest pid t (member s c) = (BatchSnapshot, n')"
  shows "follows M a ((put_member c n' s)\<lparr>asked := insert (t, pid) (asked s)\<rparr>)" (is "follows M a ?s")
proof -
  note K = build_keeps [OF bq _ repl_invD(1) [OF inv c] room] and L = calm_leader
  from sim_quiet_node [OF sim r c K(4,2,3)] obtain a' where a': "agree_steps M a a'" "sim M ?s a'" by (auto simp: sim_def)
  have rl: "role (member s c) = kLeader" using K(1) by (simp add: keeps_next_def)
  have ld: "heads M s c" using c room rl by (simp add: heads_def)
  have m: "member ?s i = (if i = c then n' else member s i)" for i by simp
  have o: "onward M s a ?s a'" by (rule onward_node [OF sim r a' m]) (use K(2) same_log_last [of "member s c" n'] in simp)
  have "progress M ?s a'"
  proof (rule progress_node [OF o pr m])
    fix u p
    assume "p \<in> M" and "(u, p) \<in> asked ?s"
    then show "(u, p) \<in> asked s \<or> asked_ok M ?s a' u p"
      using items_forward(2) [OF o snapshot_asked [OF sim r inv ld progressD(1) [OF pr ld] bq]] by auto
  qed (use K(1) in auto)
  with a' show ?thesis by blast
qed

lemma follows_send:
  assumes pr: "progress M s a" and sim: "sim M s a" and r: "agree_reach (is_majority M) a" and inv: "repl_inv M (rep s)" and c: "c \<in> M"
    and room: "LastLogIndexLocked (member s c) < - 1" and bq: "BuildAppendEntriesRequest pid t (member s c) = (BatchAppend q, n')"
  shows "follows M a (s\<lparr>rep := (put_node c n' (rep s))\<lparr>sent := insert q (sent (rep s))\<rparr>, posted := insert (pid, q) (posted s)\<rparr>)" (is "follows M a ?s")
proof -
  note K = build_keeps [OF bq _ repl_invD(1) [OF inv c] room]
  have rl: "role (member s c) = kLeader" using K(1) by (simp add: keeps_next_def)
  have ld: "heads M s c" using c room rl by (simp add: heads_def)
  from sim_transmit [OF sim r c rl] obtain b where b: "agree_steps M a b" "sim M s b" "(a_term b c, a_tip b c) \<in> a_sent b" by blast
  note rb = agree_steps_reach [OF b(1) r]
  have ob: "onward M s a s b" unfolding onward_def using sim r b by simp
  have pb: "progress M s b" by (rule progress_step [OF ob pr]) (simp_all add: keeps_next_def heads_def)
  from sim_send [OF b(2) rb inv c room bq] obtain a' where a': "agree_steps M b a'" "sim M ?s a'" by (auto simp: sim_def)
  have m: "member ?s i = (if i = c then n' else member s i)" for i by simp
  have o: "onward M s b ?s a'" by (rule onward_node [OF b(2) rb a' m]) (use K(2) same_log_last [of "member s c" n'] in simp)
  have "progress M ?s a'"
  proof (rule progress_node [OF o pb m])
    fix p q'
    assume "p \<in> M" and "(p, q') \<in> posted ?s"
    then show "(p, q') \<in> posted s \<or> posted_ok M ?s a' p q'"
      using items_forward(1) [OF o batch_posted [OF b(2) rb inv ld _ progressD(1) [OF pb ld] b(3) bq]] by auto
  qed (use K(1) in auto)
  with a' b(1) show ?thesis by (blast intro: rtranclp_trans)
qed

section \<open>What a member answers\<close>

lemma append_follow_raises:
  assumes "current_term n \<le> aq_term q"
  shows "current_term (snd (append_follow I q n)) = aq_term q"
  using assms by (auto simp: append_follow_def node_defs Let_def split_def split: if_splits option.splits)

lemma append_commit_refused:
  assumes "append_commit I q k r0 n = (r, ap, n')" and "\<not> as_success r"
  shows "conflict_index r = conflict_index r0 \<and> conflict_term r = conflict_term r0 \<and> as_last_log_index r = LastLogIndexLocked n'"
  using assms by (auto simp: append_commit_def Let_def split: if_splits prod.splits option.splits)

text \<open>A refusal carries the hint of the consistency check, or no hint and the last index of the log.\<close>

lemma refused_reply:
  assumes h: "OnAppendEntriesLocked I q n = (r, ap, n')" and wf: "log_wf n" and ea: "entries_after (prev_log_index q) (entries q)"
    and t: "current_term n \<le> aq_term q"
  shows "current_term n' = aq_term q"
    and "\<not> as_success r \<Longrightarrow> conflict_index r = 0 \<and> conflict_term r = 0 \<and> as_last_log_index r = LastLogIndexLocked n' \<or>
      same_log n n' \<and> \<not> prev_ok q n' \<and> (\<exists>r0. r = SetAppendEntriesConflictHintLocked (prev_log_index q) n' r0)"
proof -
  let ?n1 = "snd (append_follow I q n)"
  let ?r = "\<lparr>as_term = current_term n, as_success = False, as_match_index = last_snapshot_index n,
    as_last_log_index = LastLogIndexLocked n, conflict_index = 0, conflict_term = 0\<rparr>"
  have nl: "\<not> aq_term q < current_term n" using t by simp
  have n': "n' = snd (snd (OnAppendEntriesLocked I q n))" "r = fst (OnAppendEntriesLocked I q n)" using h by simp_all
  show "current_term n' = aq_term q"
    using nl append_follow_raises [OF t, of I] by (simp add: n'(1) OnAppendEntriesLocked_def Let_def split_def append_merge_frame)
  have wf1: "log_wf ?n1" using wf by (simp add: log_wf_def)
  have sl: "same_log n ?n1" by (simp add: same_log_def)
  assume ns: "\<not> as_success r"
  consider "\<not> fst (append_follow I q n)" | "fst (append_follow I q n)" "\<not> prev_ok q ?n1" | "fst (append_follow I q n)" "prev_ok q ?n1" by blast
  then show "conflict_index r = 0 \<and> conflict_term r = 0 \<and> as_last_log_index r = LastLogIndexLocked n' \<or>
      same_log n n' \<and> \<not> prev_ok q n' \<and> (\<exists>r0. r = SetAppendEntriesConflictHintLocked (prev_log_index q) n' r0)"
  proof cases
    case 1
    with nl h show ?thesis by (auto simp: OnAppendEntriesLocked_def Let_def split_def)
  next
    case 2
    with nl h sl show ?thesis by (auto simp: OnAppendEntriesLocked_def Let_def split_def)
  next
    case 3
    with nl have m: "append_merge I q ?r ?n1 = (r, ap, n')" using h by (simp add: OnAppendEntriesLocked_def Let_def split_def)
    have bd: "last_snapshot_index ?n1 \<le> prev_log_index q" "prev_log_index q \<le> LastLogIndexLocked ?n1"
      using 3(2) log_wf_HasLog [OF wf1] by (auto simp: prev_ok_def)
    obtain st m1 where l: "append_loop (entries q) \<lparr>old_log = None, log_changed = False, run_match = prev_log_index q\<rparr> ?n1 = (Inr st, m1)"
      using append_loop_merge [OF wf1 ea bd, of "\<lparr>old_log = None, log_changed = False, run_match = prev_log_index q\<rparr>"] by auto
    from m [unfolded append_merge_def l] ns have "conflict_index r = 0 \<and> conflict_term r = 0 \<and> as_last_log_index r = LastLogIndexLocked n'"
      using append_commit_refused [of I q "run_match st" ?r _ r ap n'] by (auto simp: Let_def split: if_splits prod.splits option.splits)
    then show ?thesis ..
  qed
qed

lemma first_index_in_log:
  "k < length l \<Longrightarrow> lr_term (l ! k) = t \<Longrightarrow> \<exists>j \<le> k. lr_index (l ! j) = first_index_of_term t l \<and> lr_term (l ! j) = t"
proof (induction l arbitrary: k)
  case (Cons x l)
  show ?case
  proof (cases "lr_term x = t")
    case True
    then show ?thesis by (intro exI [of _ 0]) simp
  next
    case False
    with Cons.prems obtain m where m: "k = Suc m" by (cases k) auto
    with Cons.IH [of m] Cons.prems obtain j where "j \<le> m" "lr_index (l ! j) = first_index_of_term t l" "lr_term (l ! j) = t" by auto
    with False m show ?thesis by (intro exI [of _ "Suc j"]) simp
  qed
qed simp

text \<open>The conflicting record of the member is off the leader's path, and so is the first of its term.\<close>

lemma hint_conflict:
  assumes ok: "tree_ok (a_tree a)" and root: "\<And>p. rooted (a_tree a) (a_tip a p)" and op: "one_path a"
    and led: "\<And>x. x \<in> dom (a_tree a) \<Longrightarrow> p_term x \<in> a_led a"
    and wf: "log_wf n" and pt: "log_path b (log n)" and g: "grows b (a_tree a)" and tp: "a_tip a p = tip n"
    and pv: "anc (a_tree a) (a_tip a c) (At (unat (prev_log_index q)) (unat (prev_log_term q)))"
    and h: "\<not> prev_log_index q < last_snapshot_index n" "HasLogAtIndexLocked (prev_log_index q) n" and no: "\<not> prev_ok q n"
  defines "u \<equiv> TermAtIndexLocked (prev_log_index q) n"
  shows "u \<noteq> 0" and "off_since (a_tree a) (a_tip a c) (a_tip a p) (At (unat (FirstIndexOfTermLocked u n)) (unat u))"
proof -
  let ?k = "prev_log_index q"
  have bd: "last_snapshot_index n \<le> ?k" "?k \<le> LastLogIndexLocked n" using h log_wf_HasLog [OF wf] by auto
  note nth = log_wf_nth [OF wf bd]
  let ?j = "unat ?k - unat (last_snapshot_index n)"
  have u: "lr_term (log n ! ?j) = u" using nth(1) by (simp add: u_def TermAtIndexLocked_eq [OF wf])
  then have x: "rpoint (log n ! ?j) = At (unat ?k) (unat u)" using nth(3) by (simp add: rpoint_def)
  have on: "anc (a_tree a) (a_tip a p) (At (unat ?k) (unat u))" using log_anc [OF wf pt g nth(2)] x tp by simp
  have ne: "u \<noteq> prev_log_term q" using no h by (auto simp: prev_ok_def u_def)
  have off: "\<not> anc (a_tree a) (a_tip a c) (At (unat ?k) (unat u))"
  proof
    assume "anc (a_tree a) (a_tip a c) (At (unat ?k) (unat u))"
    from anc_same_index [OF ok anc_between [OF ok pv this]] ne show False by (simp add: word_unat_eq_iff)
  qed
  show "u \<noteq> 0"
  proof
    assume "u = 0"
    then have "At (unat ?k) (unat u) \<notin> dom (a_tree a)" using led op by (fastforce simp: one_path_def)
    with rooted_dom rooted_below [OF ok root on] have "At (unat ?k) (unat u) = At 0 0" by blast
    with off root [of c] show False by simp
  qed
  from first_index_in_log [OF nth(2) u] obtain i where i: "i \<le> ?j" "lr_index (log n ! i) = FirstIndexOfTermLocked u n"
    "lr_term (log n ! i) = u" by (auto simp: FirstIndexOfTermLocked_def)
  have "anc (a_tree a) (At (unat ?k) (unat u)) (At (unat (FirstIndexOfTermLocked u n)) (unat u))"
    using path_anc [OF pt log_wfD(2) [OF wf] g i(1) nth(2)] x i(2,3) by (simp add: rpoint_def)
  with on off show "off_since (a_tree a) (a_tip a c) (a_tip a p) (At (unat (FirstIndexOfTermLocked u n)) (unat u))"
    unfolding off_since_def by auto
qed

text \<open>The answer of the consistency check, for the leader of the request's term.\<close>

lemma hint_refusal:
  assumes sim: "sim M s a" and r: "agree_reach (is_majority M) a" and inv: "repl_inv M (rep s)" and p: "p \<in> M" and c: "heads M s c"
    and t: "current_term (member s p) = current_term (member s c)" and ah: "ahead a c p (Suc (unat (prev_log_index q)))"
    and pv: "anc (a_tree a) (a_tip a c) (At (unat (prev_log_index q)) (unat (prev_log_term q)))" and no: "\<not> prev_ok q (member s p)"
  shows "refusal a c p (SetAppendEntriesConflictHintLocked (prev_log_index q) (member s p) r0)"
proof -
  let ?n = "member s p" and ?k = "prev_log_index q"
  note D = repl_invD(1,2) [OF inv p] and I = reach_invD [OF r] and S = shapeD [OF reach_invD(1) [OF r]]
  have C: "c \<in> M" "role (member s c) = kLeader" using c by (simp_all add: heads_def)
  note F = sim_fields [OF sim p] and G = sim_fields [OF sim C(1)]
  have tm: "a_term a p = a_term a c" using F(1) G(1) t by simp
  have g: "grows (born (rep s)) (a_tree a)" using simD(2) [OF sim] by (simp add: messages_def)
  consider "?k < last_snapshot_index ?n" | "\<not> ?k < last_snapshot_index ?n" "\<not> HasLogAtIndexLocked ?k ?n"
    | "\<not> ?k < last_snapshot_index ?n" "HasLogAtIndexLocked ?k ?n" by blast
  then show ?thesis
  proof cases
    case 1
    have core: "like_core M a p ?n" using simD(1) [OF sim p] by (simp add: like_node_def)
    have "anc (a_tree a) (a_tip a c) (boundary ?n)"
      by (rule maj.leader_complete [OF I(1-3) _ like_coreD(4) [OF core]]) (use G(2) C(2) tm in simp_all)
    moreover have "anc (a_tree a) (a_tip a p) (boundary ?n)" using anc_boundary [OF D g] F(3) by simp
    moreover have "Suc (unat ?k) \<le> p_index (boundary ?n)" using 1 by (simp add: boundary_def word_less_nat_alt)
    moreover have "off_path (a_tree a) (a_tip a c) (a_tip a p) (Suc (unat ?k))" using ah tm by (simp add: ahead_def)
    ultimately have "anc (a_tree a) (a_tip a c) (a_tip a p)" using off_path_shared [OF S(1)] by blast
    with 1 tm show ?thesis by (simp add: SetAppendEntriesConflictHintLocked_def refusal_def ahead_def off_path_def Let_def)
  next
    case 2
    have "p_index (a_tip a p) \<le> unat (SafeAddOne (LastLogIndexLocked ?n))" using F(3) le_SafeAddOne by (simp add: tip_def word_le_nat_alt)
    with 2 tm show ?thesis by (simp add: SetAppendEntriesConflictHintLocked_def refusal_def ahead_reached Let_def)
  next
    case 3
    from hint_conflict [OF S(1,2) one_path_reach [OF r] S(4) D g F(3) pv 3 no]
    show ?thesis using 3 tm by (auto simp: SetAppendEntriesConflictHintLocked_def refusal_def hinted_def Let_def)
  qed
qed

lemma request_prev:
  assumes "log_chain b (prev_log_term q) (map record_of_entry (entries q))" and "entries_after (prev_log_index q) (entries q)" and "grows b t"
  shows "anc t (request_end q) (At (unat (prev_log_index q)) (unat (prev_log_term q)))"
proof -
  have "anc t (rpoint (request_log q ! length (entries q))) (rpoint (request_log q ! 0))"
    by (rule path_anc [OF request_path [OF assms(1,2)] assms(3)]) (simp_all add: request_log_def)
  moreover have "request_log q ! length (entries q) = last (request_log q)" by (simp add: request_log_def last_conv_nth nth_Cons')
  ultimately show ?thesis by (simp add: request_end_def request_log_def rpoint_def)
qed

lemma deliver_refused:
  assumes sim: "sim M s a" and r: "agree_reach (is_majority M) a" and inv: "repl_inv M (rep s)" and p: "p \<in> M"
    and q: "q \<in> sent (rep s)" "posted_ok M s a p q" and wf: "log_wf n"
    and h: "OnAppendEntriesLocked I q n = (x, ap, member s p)" and no: "\<not> as_success x"
  shows "refused_ok M s a (aq_term q) p x"
  unfolding refused_ok_def
proof
  assume u: "as_term x \<le> aq_term q"
  have t: "current_term n \<le> aq_term q"
  proof (rule ccontr)
    assume "\<not> current_term n \<le> aq_term q"
    with h have "as_term x = current_term n" by (auto simp: OnAppendEntriesLocked_def Let_def not_le)
    with u \<open>\<not> current_term n \<le> aq_term q\<close> show False by simp
  qed
  note D = repl_invD(6,7) [OF inv q(1)]
  note R = refused_reply(1) [OF h wf D(2) t] refused_reply(2) [OF h wf D(2) t no]
  have g: "grows (born (rep s)) (a_tree a)" and sn: "(unat (aq_term q), request_end q) \<in> a_sent a"
    using simD(2) [OF sim] q(1) by (simp_all add: messages_def)
  have "refusal a c p x" if c: "heads M s c" "current_term (member s c) = aq_term q" and ah: "ahead a c p (Suc (unat (prev_log_index q)))" for c
  proof -
    have C: "c \<in> M" "role (member s c) = kLeader" using c(1) by (simp_all add: heads_def)
    note F = sim_fields [OF sim p] and G = sim_fields [OF sim C(1)]
    have tm: "a_term a p = a_term a c" using F(1) G(1) R(1) c(2) by simp
    from R(2) show ?thesis
    proof
      assume x: "conflict_index x = 0 \<and> conflict_term x = 0 \<and> as_last_log_index x = LastLogIndexLocked (member s p)"
      have "p_index (a_tip a p) \<le> unat (SafeAddOne (LastLogIndexLocked (member s p)))"
        using F(3) le_SafeAddOne by (simp add: tip_def word_le_nat_alt)
      with x tm show ?thesis by (simp add: refusal_def ahead_reached)
    next
      assume x: "same_log n (member s p) \<and> \<not> prev_ok q (member s p) \<and>
        (\<exists>r0. x = SetAppendEntriesConflictHintLocked (prev_log_index q) (member s p) r0)"
      have "anc (a_tree a) (a_tip a c) (request_end q)"
        using leadingD(2) [OF reach_invD(2) [OF r], of c] G C(2) c(2) sn by simp
      note pv = anc_trans [OF this request_prev [OF D g]]
      have "current_term (member s p) = current_term (member s c)" using R(1) c(2) by simp
      from hint_refusal [OF sim r inv p c(1) this ah pv] x show ?thesis by auto
    qed
  qed
  with q(2) show "told M s a (aq_term q) (\<lambda>c. refusal a c p x)" by (simp add: posted_ok_def told_def)
qed

lemma follows_deliver:
  assumes pr: "progress M s a" and sim: "sim M s a" and r: "agree_reach (is_majority M) a" and inv: "repl_inv M (rep s)" and p: "p \<in> M"
    and q: "(p, q) \<in> posted s" "q \<in> sent (rep s)" and h: "OnAppendEntriesLocked I q (member s p) = (x, ap, n')"
    and inv': "repl_inv M (put_node p n' (rep s))"
  shows "follows M a (append_answer q p x (put_member p n' s))" (is "follows M a ?s")
proof -
  let ?n = "member s p"
  note wf = repl_invD(1) [OF inv p] and ea = repl_invD(7) [OF inv q(2)]
  from progressD(2) [OF pr p q(1)] obtain y z where yz: "anc (a_tree a) y (request_end q)" "entries q = [] \<Longrightarrow> y = request_end q"
    "probe a (unat (aq_term q)) y p (Suc (unat (prev_log_index q)))" "p_index z = unat (leader_commit q)"
    "decided (is_majority M) a (unat (aq_term q)) z" "anc (a_tree a) y z" unfolding posted_ok_def by blast
  from sim_deliver [OF sim r inv p q(2) h yz] obtain a' where a': "agree_steps M a a'" "sim M ?s a'" by (auto simp: sim_answers cong: if_cong)
  have m: "member ?s i = (if i = p then n' else member s i)" for i by simp
  have lead: "n' = ?n" if "role n' = kLeader"
  proof (rule ccontr)
    assume "n' \<noteq> ?n"
    then have "\<not> aq_term q < current_term ?n" using h by (auto simp: OnAppendEntriesLocked_def)
    then have "current_term ?n \<le> aq_term q" by simp
    from deliver_facts(1) [OF h this] that show False by simp
  qed
  have o: "onward M s a ?s a'" by (rule onward_node [OF sim r a' m]) (use lead in auto)
  note r' = onwardD(5) [OF o]
  have ack: "unat (aq_term q) \<le> a_term a' p" if ok: "as_success x"
  proof -
    have "current_term ?n \<le> aq_term q" using ok h by (cases "aq_term q < current_term ?n") (auto simp: OnAppendEntriesLocked_def)
    with deliver_facts(4) [OF h this] ok sim_fields(1) [OF a'(2) p] show ?thesis by simp
  qed
  have ref: "refused_ok M ?s a' (aq_term q) p x" if "\<not> as_success x"
    by (rule deliver_refused [OF a'(2) r' _ p _ items_forward(1) [OF o progressD(2) [OF pr p q(1)]] wf _ that]) (use inv' q(2) h in simp_all)
  have "progress M ?s a'"
    by (rule progress_node [OF o pr m]) (use lead ack ref in \<open>auto simp: heads_def keeps_next_def append_answer_def split: if_splits\<close>)
  with a' show ?thesis by blast
qed

section \<open>What a leader makes of an answer\<close>

lemma last_of_term_cases:
  obtains (found) j where "j < length l" "lr_term (l ! j) = t" "\<And>i. i < length l \<Longrightarrow> j < i \<Longrightarrow> lr_term (l ! i) \<noteq> t"
    "last_of_term t (rev l) = SafeAddOne (lr_index (l ! j))"
  | (none) "\<And>i. i < length l \<Longrightarrow> lr_term (l ! i) \<noteq> t" "last_of_term t (rev l) = 0"
proof (induction l arbitrary: thesis rule: rev_induct)
  case Nil
  then show ?case by simp
next
  case (snoc x l)
  show ?case
  proof (cases "lr_term x = t")
    case True
    then show ?thesis by (intro snoc.prems(1) [of "length l"]) auto
  next
    case False
    show ?thesis
    proof (rule snoc.IH)
      fix j
      assume "j < length l" "lr_term (l ! j) = t" "\<And>i. i < length l \<Longrightarrow> j < i \<Longrightarrow> lr_term (l ! i) \<noteq> t"
        "last_of_term t (rev l) = SafeAddOne (lr_index (l ! j))"
      with False show thesis by (intro snoc.prems(1) [of j]) (auto simp: nth_append less_Suc_eq)
    next
      assume "\<And>i. i < length l \<Longrightarrow> lr_term (l ! i) \<noteq> t" "last_of_term t (rev l) = 0"
      with False show thesis by (intro snoc.prems(2)) (auto simp: nth_append less_Suc_eq)
    qed
  qed
qed

text \<open>Following a hint does not go below the member's first wrong record, nor below the leader's snapshot.\<close>

lemma hint_off:
  assumes ok: "tree_ok t" and wf: "log_wf n" and pt: "log_path b (log n)" and g: "grows b t" and room: "LastLogIndexLocked n < - 1"
    and k: "anc t y k" "\<not> anc t (tip n) k" "rooted t k" "p_term k = unat u" "anc t k (At (unat f) (unat u))"
    and h: "h = (let i = last_of_term u (rev (log n)) in if i = 0 then f else i)"
  shows "off_path t (tip n) y (max (unat h) (unat (last_snapshot_index n)))" (is "off_path t _ y ?H")
proof (cases "p_index k \<le> ?H")
  case True
  with k(1,2) show ?thesis unfolding off_path_def by blast
next
  case False
  then have "?H \<le> p_index k" by linarith
  from anc_at [OF ok k(3) this] obtain w where w: "anc t k w" "p_index w = ?H" by blast
  have "\<not> anc t (tip n) w"
  proof
    assume a: "anc t (tip n) w"
    let ?i = "p_index w - unat (last_snapshot_index n)"
    note L = anc_in_log [OF ok wf pt g a] and le = anc_le(2) [OF ok w(1)]
    have i: "?i < length (log n)" "rpoint (log n ! ?i) = w" using L w(2) by simp_all
    have eq: "lr_term (log n ! ?i) = u" if "unat u \<le> p_term w"
      using that le k(4) arg_cong [OF i(2), of p_term] by (simp add: rpoint_def word_unat_eq_iff)
    show False
    proof (cases rule: last_of_term_cases [where l = "log n" and t = u])
      case (found j)
      have jx: "unat (lr_index (log n ! j)) = unat (last_snapshot_index n) + j"
        using consecutive_nth [OF log_wfD(2) [OF wf] found(1)] log_wfD(3) [OF wf] by simp
      have "lr_index (log n ! j) < - 1"
        using jx found(1) log_wf_last [OF wf] room unat_u64_max by (simp add: word_less_nat_alt)
      from SafeAddOne_eq_Suc [OF this] have up: "unat (last_snapshot_index n) + j < p_index w" using h found(4) w(2) jx by simp
      have "anc t w (rpoint (log n ! j))"
        by (rule anc_between [OF ok a log_anc [OF wf pt g found(1)]]) (use up jx in \<open>simp add: rpoint_def\<close>)
      from anc_le(2) [OF ok this] found(2) have "unat u \<le> p_term w" by (simp add: rpoint_def)
      from eq [OF this] found(3) [OF i(1)] up show False by simp
    next
      case none
      have "anc t w (At (unat f) (unat u))" by (rule anc_between [OF ok w(1) k(5)]) (use w(2) h none(2) in simp)
      from anc_le(2) [OF ok this] have "unat u \<le> p_term w" by simp
      from eq [OF this] none(1) [OF i(1)] show False by simp
    qed
  qed
  with w anc_trans [OF k(1) w(1)] show ?thesis unfolding off_path_def by (metis order_refl)
qed

lemma refusal_ahead:
  assumes sim: "sim M s a" and r: "agree_reach (is_majority M) a" and inv: "repl_inv M (rep s)" and c: "heads M s c" and rf: "refusal a c p x"
  shows "(\<forall>h. ahead a c p h) \<or> hinted_next x (member s c) \<noteq> 0 \<and> ahead a c p (max (unat (hinted_next x (member s c))) (snap_at s c))"
    and "a_term a c \<le> a_term a p"
proof -
  let ?n = "member s c" and ?u = "conflict_term x" and ?f = "conflict_index x"
  let ?i = "last_of_term ?u (rev (log ?n))"
  let ?h = "if ?u \<noteq> 0 then if ?i = 0 then ?f else ?i else if ?f \<noteq> 0 then ?f else SafeAddOne (as_last_log_index x)"
  have C: "c \<in> M" "LastLogIndexLocked ?n < - 1" using c by (simp_all add: heads_def)
  note D = repl_invD(1,2) [OF inv C(1)] and S = shapeD [OF reach_invD(1) [OF r]] and F = sim_fields [OF sim C(1)]
  have g: "grows (born (rep s)) (a_tree a)" using simD(2) [OF sim] by (simp add: messages_def)
  show le: "a_term a c \<le> a_term a p" using rf by (auto simp: refusal_def hinted_def split: if_splits)
  have hn: "hinted_next x ?n = (if ?h > SafeAddOne (LastLogIndexLocked ?n) then SafeAddOne (LastLogIndexLocked ?n) else ?h)"
    by (simp add: hinted_next_def Let_def)
  show "(\<forall>h. ahead a c p h) \<or> hinted_next x ?n \<noteq> 0 \<and> ahead a c p (max (unat (hinted_next x ?n)) (snap_at s c))"
  proof (cases "?h > SafeAddOne (LastLogIndexLocked ?n)")
    case True
    have "p_index (a_tip a c) < max (unat (SafeAddOne (LastLogIndexLocked ?n))) (snap_at s c)"
      using SafeAddOne_eq_Suc [OF C(2)] F(3) by (simp add: tip_def)
    with ahead_end [OF reach_invD(1) [OF r] this] True hn show ?thesis by simp
  next
    case False
    with hn have hh: "hinted_next x ?n = ?h" by simp
    show ?thesis
    proof (cases "?u = 0")
      case True
      with rf have "ahead a c p (unat ?h)" by (simp add: refusal_def)
      then have "ahead a c p (max (unat ?h) (snap_at s c))" by (rule ahead_mono) simp
      with True hh show ?thesis by simp
    next
      case u: False
      with rf have "hinted a c p (At (unat ?f) (unat ?u))" by (simp add: refusal_def)
      then consider "a_term a c < a_term a p" | "a_term a p = a_term a c" "anc (a_tree a) (a_tip a c) (a_tip a p)"
        | k where "a_term a p = a_term a c" "anc (a_tree a) (a_tip a p) k" "\<not> anc (a_tree a) (a_tip a c) k" "p_term k = unat ?u"
          "anc (a_tree a) k (At (unat ?f) (unat ?u))"
        unfolding hinted_def off_since_def by (metis le_neq_implies_less point.sel(2))
      then show ?thesis
      proof cases
        case (3 k)
        have rk: "rooted (a_tree a) k" by (rule rooted_below [OF S(1,2) 3(2)])
        have "At (unat ?f) (unat ?u) \<noteq> At 0 0" using u by (simp add: unat_eq_zero)
        moreover have "rooted (a_tree a) (At (unat ?f) (unat ?u))" by (rule rooted_below [OF S(1) rk 3(5)])
        ultimately have "?f \<noteq> 0" using anc_same_index [OF S(1), of "At (unat ?f) (unat ?u)" "At 0 0"] by auto
        moreover have "off_path (a_tree a) (a_tip a c) (a_tip a p) (max (unat ?h) (snap_at s c))"
          unfolding F(3) by (rule hint_off [OF S(1) D g C(2) 3(2) _ rk 3(4,5)]) (use 3(3) F(3) u in \<open>simp_all add: Let_def\<close>)
        ultimately show ?thesis using hh u 3(1) by (simp add: ahead_def)
      qed (simp_all add: ahead_def off_path_def)
    qed
  qed
qed

lemma BecomeFollower_next: "next_index (snd (BecomeFollowerLocked I t l n)) = next_index n"
  by (simp add: BecomeFollowerLocked_def node_defs Let_def split_def)

lemma answer_next:
  assumes "\<not> (running n \<and> \<not> u > current_term n \<and> current_term n = t \<and> p = pid)"
  shows "u = as_term x \<Longrightarrow> next_index (snd (snd (HandleAppendEntriesResponse I pid t tgt x n))) p = next_index n p"
    and "u = is_term r \<Longrightarrow> next_index (snd (snapshot_answer I pid t meta r n)) p = next_index n p"
proof -
  show "next_index (snd (snd (HandleAppendEntriesResponse I pid t tgt x n))) p = next_index n p" if "u = as_term x"
    by (cases "running n"; cases "as_term x > current_term n"; cases "current_term n = t"; cases "p = pid")
      (use assms that in \<open>simp_all add: HandleAppendEntriesResponse_def BecomeFollower_next advance_fields Let_def\<close>)
  show "next_index (snd (snapshot_answer I pid t meta r n)) p = next_index n p" if "u = is_term r"
    by (cases "running n"; cases "is_term r > current_term n"; cases "current_term n = t"; cases "p = pid")
      (use assms that in \<open>simp_all add: snapshot_answer_def BecomeFollower_next Let_def\<close>)
qed

text \<open>A new next index, and the cases that give it.\<close>

lemma belief_set:
  assumes "next_index (member s c) p = Some i" and "i \<noteq> 0" and "ahead a c p (max (unat i) (snap_at s c))"
    and "a_term a p < a_term a c \<Longrightarrow> ahead a c p (snap_at s c)"
  shows "belief s a c p"
  using assms by (simp add: belief_def known_def guess_def next_of_def)

lemma belief_raised:
  assumes o: "onward M s a s' a'" and b: "belief s a c p" and c: "heads M s' c" "heads M s c" "current_term (member s' c) = current_term (member s c)"
    and p: "p \<noteq> c" and n: "next_index (member s' c) p = Some (max (case next_index (member s c) p of None \<Rightarrow> 0 | Some i \<Rightarrow> i) j)"
    and t: "a_term a' c \<le> a_term a' p"
  shows "belief s' a' c p"
proof -
  note O = onwardD [OF o]
  have C: "c \<in> M" "role (member s c) = kLeader" using c(2) by (simp_all add: heads_def)
  note L = onward_leader [OF o c(1) leader_led [OF O(1,2) C, folded c(3)]]
  from b p obtain i where i: "next_index (member s c) p = Some i" "i \<noteq> 0" by (auto simp: belief_def known_def)
  have "ahead a c p (max (unat i) (snap_at s c))" using b i by (simp add: belief_def guess_def next_of_def)
  from L(5) [OF this] have "ahead a' c p (max (unat (max i j)) (snap_at s' c))"
    by (rule ahead_mono) (use L(3) in \<open>auto simp: max_def word_le_nat_alt\<close>)
  moreover have "max i j \<noteq> 0" using i(2) by (auto simp: max_def word_le_nat_alt unat_eq_zero)
  ultimately show ?thesis using n i(1) t by (intro belief_set) auto
qed

lemma follows_answer:
  assumes pr: "progress M s a" and sim: "sim M s a" and r: "agree_reach (is_majority M) a" and inv: "repl_inv M (rep s)"
    and ei: "election_inv M (base (rep s))" and c: "c \<in> M"
    and x: "if as_success x then (t, pid, as_match_index x) \<in> acked s else (t, pid, x) \<in> refused s"
    and inv': "repl_inv M (rep (put_member c (snd (snd (HandleAppendEntriesResponse I pid t tgt x (member s c)))) s))"
  shows "follows M a (put_member c (snd (snd (HandleAppendEntriesResponse I pid t tgt x (member s c)))) s)"
proof -
  let ?n = "member s c" and ?n' = "snd (snd (HandleAppendEntriesResponse I pid t tgt x (member s c)))"
  let ?s = "put_member c ?n' s" and ?st = "case next_index ?n pid of None \<Rightarrow> 0 | Some i \<Rightarrow> i"
  from sim_answer [OF sim r inv ei c] x obtain a' where a': "agree_steps M a a'" "sim M ?s a'" by (metis (full_types))
  have m: "member ?s i = (if i = c then ?n' else member s i)" for i by simp
  note sl = same_log_steps(1) [of ?n I pid t tgt x] and L = calm_leader [OF calm_Handle [of ?n I pid t tgt x]]
  have o: "onward M s a ?s a'" by (rule onward_node [OF sim r a' m]) (use same_log_last [OF sl] in simp)
  note r' = onwardD(5) [OF o] and F = items_forward [OF o]
  have "progress M ?s a'"
  proof (rule progress_node [OF o pr m])
    fix p
    assume p: "p \<in> M" "p \<noteq> c" and ld': "heads M ?s c"
    then have rl: "role ?n' = kLeader" by (simp add: heads_def)
    note n = L [OF rl]
    have ld: "heads M s c" using ld' n same_log_last(1) [OF sl] by (simp add: heads_def)
    show "keeps_next ?n ?n' p \<or> belief ?s a' c p"
    proof (cases "running ?n \<and> \<not> as_term x > current_term ?n \<and> current_term ?n = t \<and> p = pid")
      case False
      then have "next_index ?n' p = next_index ?n p" by (rule answer_next) simp
      with n show ?thesis by (simp add: keeps_next_def)
    next
      case True
      show ?thesis
      proof (cases "as_success x")
        case ok: True
        with True conjunct1 [OF n] have nx: "next_index ?n' p = Some (max ?st (SafeAddOne (as_match_index x)))"
          by (auto simp: HandleAppendEntriesResponse_def Let_def advance_fields)
        have "unat t \<le> a_term a' p" using F(5) [OF progressD(6) [OF pr p(1)]] x ok True by auto
        then have "a_term a' c \<le> a_term a' p" using sim_fields(1) [OF a'(2) c] n True by simp
        from belief_raised [OF o progressD(1) [OF pr ld p(1)] ld' ld _ p(2) _ this] nx n True show ?thesis by simp
      next
        case no: False
        let ?h = "hinted_next x ?n"
        have hn: "hinted_next x (member ?s c) = ?h" using sl by (simp add: hinted_next_def same_log_def LastLogIndexLocked_def)
        have nx: "next_index ?n' p = Some (if ?h > 0 then ?h else if ?st > 1 then ?st - 1 else 1)"
          using True no conjunct1 [OF n] by (cases "t < as_term x") (auto simp: HandleAppendEntriesResponse_def Let_def)
        have "refused_ok M ?s a' t p x" using F(3) [OF progressD(4) [OF pr p(1)]] x no True by auto
        with True ld' n have rf: "refusal a' c p x" by (auto simp: refused_ok_def told_def not_less)
        note R = refusal_ahead [OF a'(2) r' inv' ld' rf, unfolded hn]
        have nz: "(if ?h > 0 then ?h else if ?st > 1 then ?st - 1 else 1) \<noteq> 0" by (auto simp: word_gt_0)
        have "belief ?s a' c p"
          by (rule belief_set [OF _ nz]) (use nx R in \<open>auto simp: word_gt_0\<close>)
        then show ?thesis ..
      qed
    qed
  qed simp_all
  with a' show ?thesis by blast
qed

lemma follows_snapshot_answer:
  assumes pr: "progress M s a" and sim: "sim M s a" and r: "agree_reach (is_majority M) a" and c: "c \<in> M"
    and x: "if is_success x then (t, pid, last_included_index meta) \<in> acked s else (t, pid, is_term x, is_last_log_index x) \<in> declined s"
  shows "follows M a (put_member c (snd (snapshot_answer I pid t meta x (member s c))) s)"
proof -
  let ?n = "member s c" and ?n' = "snd (snapshot_answer I pid t meta x (member s c))"
  let ?s = "put_member c ?n' s" and ?st = "case next_index ?n pid of None \<Rightarrow> 0 | Some i \<Rightarrow> i"
  from sim_snapshot_answer [OF sim r c] x obtain a' where a': "agree_steps M a a'" "sim M ?s a'" by (metis (full_types))
  have m: "member ?s i = (if i = c then ?n' else member s i)" for i by simp
  note sl = same_log_steps(3) [of ?n I pid t meta x] and L = calm_leader [OF calm_snapshot_answer [of ?n I pid t meta x]]
  have o: "onward M s a ?s a'" by (rule onward_node [OF sim r a' m]) (use same_log_last [OF sl] in simp)
  note F = items_forward [OF o]
  have "progress M ?s a'"
  proof (rule progress_node [OF o pr m])
    fix p
    assume p: "p \<in> M" "p \<noteq> c" and ld': "heads M ?s c"
    then have rl: "role ?n' = kLeader" by (simp add: heads_def)
    note n = L [OF rl]
    have ld: "heads M s c" using ld' n same_log_last(1) [OF sl] by (simp add: heads_def)
    show "keeps_next ?n ?n' p \<or> belief ?s a' c p"
    proof (cases "running ?n \<and> \<not> is_term x > current_term ?n \<and> current_term ?n = t \<and> p = pid")
      case False
      then have "next_index ?n' p = next_index ?n p" by (rule answer_next) simp
      with n show ?thesis by (simp add: keeps_next_def)
    next
      case True
      show ?thesis
      proof (cases "is_success x")
        case ok: True
        with True conjunct1 [OF n] have nx: "next_index ?n' p = Some (max ?st (SafeAddOne (last_included_index meta)))"
          by (auto simp: snapshot_answer_def Let_def)
        have "unat t \<le> a_term a' p" using F(5) [OF progressD(6) [OF pr p(1)]] x ok True by auto
        then have "a_term a' c \<le> a_term a' p" using sim_fields(1) [OF a'(2) c] n True by simp
        from belief_raised [OF o progressD(1) [OF pr ld p(1)] ld' ld _ p(2) _ this] nx n True show ?thesis by simp
      next
        case no: False
        let ?l = "is_last_log_index x"
        have nx: "next_index ?n' p = Some (SafeAddOne ?l)" using True no conjunct1 [OF n] by (auto simp: snapshot_answer_def Let_def word_gt_0)
        have "declined_ok M ?s a' t p (is_term x) ?l" using F(4) [OF progressD(5) [OF pr p(1)]] x no True by auto
        with True ld' n have d: "ahead a' c p (if a_term a' p < a_term a' c then snap_at ?s c else max (unat (SafeAddOne ?l)) (snap_at ?s c))"
          by (auto simp: declined_ok_def told_def not_less)
        have "belief ?s a' c p"
          by (rule belief_set [where i = "SafeAddOne ?l"]) (use nx d in \<open>auto intro: ahead_mono split: if_splits\<close>)
        then show ?thesis ..
      qed
    qed
  qed simp_all
  with a' show ?thesis by blast
qed

section \<open>Snapshots\<close>

lemma declined_new:
  assumes sim: "sim M s a" and p: "p \<in> M" and l: "LastLogIndexLocked (member s p) \<le> l"
    and t: "told M s a t (\<lambda>c. a_term a p < a_term a c \<longrightarrow> ahead a c p (snap_at s c))"
  shows "declined_ok M s a t p u l"
proof -
  have "p_index (a_tip a p) \<le> unat (SafeAddOne l)"
    using sim_fields(3) [OF sim p] l le_SafeAddOne [of l] by (simp add: tip_def word_le_nat_alt)
  then have "ahead a c p (max (unat (SafeAddOne l)) (snap_at s c))" if "\<not> a_term a p < a_term a c" for c
    using that by (intro ahead_reached) auto
  with t show ?thesis by (auto simp: declined_ok_def told_def)
qed

lemma install_begin_last:
  "install_begin I iq n = (Inl r, n') \<Longrightarrow> \<not> is_success r \<Longrightarrow> is_last_log_index r = LastLogIndexLocked n"
  "install_begin I iq n = (Inr r, n') \<Longrightarrow> \<not> is_success r \<and> is_last_log_index r = LastLogIndexLocked n"
  by (auto simp: install_begin_def install_reply_def Let_def split: if_splits prod.splits)

lemma install_begin_next: "next_index (snd (install_begin I iq n)) = next_index n"
  by (simp add: install_begin_def BecomeFollower_next node_defs Let_def split_def)

lemma follows_install:
  assumes pr: "progress M s a" and sim: "sim M s a" and r: "agree_reach (is_majority M) a" and p: "p \<in> M" and ak: "(iq_term iq, p) \<in> asked s"
    and n': "n' = snd (install_begin I iq (member s p))" and x: "\<not> is_success x \<Longrightarrow> is_last_log_index x = LastLogIndexLocked (member s p)"
      "is_success x \<Longrightarrow> current_term n' = iq_term iq"
    and s': "s' = install_answer iq p x (s\<lparr>rep := (put_node p n' (rep s))\<lparr>installing := J\<rparr>\<rparr>)"
    and ex: "\<exists>a'. agree_steps M a a' \<and> sim M s' a'"
  shows "follows M a s'"
proof -
  from ex obtain a' where a': "agree_steps M a a'" "sim M s' a'" by blast
  have m: "member s' i = (if i = p then n' else member s i)" for i by (simp add: s')
  have sl: "same_log (member s p) n'" unfolding n' by (rule same_log_steps)
  have ca: "calm (member s p) n'" unfolding n' by (rule calm_install_begin)
  have nx: "next_index n' = next_index (member s p)" unfolding n' by (rule install_begin_next)
  have o: "onward M s a s' a'" by (rule onward_node [OF sim r a' m]) (use same_log_last [OF sl] in simp)
  have dc: "declined_ok M s' a' (iq_term iq) p (is_term x) (is_last_log_index x)" if "\<not> is_success x"
    using declined_new [OF a'(2) p _ items_forward(2) [OF o progressD(3) [OF pr p ak], unfolded asked_ok_def]]
      x(1) [OF that] same_log_last(1) [OF sl] m [of p] by simp
  have ac: "unat (iq_term iq) \<le> a_term a' p" if "is_success x"
    using sim_fields(1) [OF a'(2) p] m [of p] x(2) [OF that] by simp
  have "progress M s' a'"
    by (rule progress_node [OF o pr m])
      (use dc ac calm_leader [OF ca] nx m [of p] in \<open>auto simp: s' heads_def keeps_next_def install_answer_def split: if_splits\<close>)
  with a' show ?thesis by blast
qed

lemma follows_install_begin:
  assumes pr: "progress M s a" and sim: "sim M s a" and r: "agree_reach (is_majority M) a" and p: "p \<in> M"
    and iq: "iq \<in> offered (rep s)" "(iq_term iq, p) \<in> asked s" and h: "install_begin I iq (member s p) = (Inr x, n')"
  shows "follows M a (install_answer iq p x
      (s\<lparr>rep := (put_node p n' (rep s))\<lparr>installing := (installing (rep s))(p := insert iq (installing (rep s) p))\<rparr>\<rparr>))" (is "follows M a ?s")
proof -
  note L = install_begin_last(2) [OF h]
  from sim_install_begin [OF sim r p iq(1) h] L have "\<exists>a'. agree_steps M a a' \<and> sim M ?s a'" by (simp add: sim_answers)
  with follows_install [OF pr sim r p iq(2) _ _ _ refl, of n' I x] h L show ?thesis by simp
qed

lemma follows_install_refused:
  assumes pr: "progress M s a" and sim: "sim M s a" and r: "agree_reach (is_majority M) a" and inv: "repl_inv M (rep s)" and p: "p \<in> M"
    and iq: "iq \<in> offered (rep s)" "(iq_term iq, p) \<in> asked s" and h: "install_begin I iq (member s p) = (Inl x, n')"
  shows "follows M a (install_answer iq p x (put_member p n' s))" (is "follows M a ?s")
proof -
  have same: "put_node p n' (rep s) = (put_node p n' (rep s))\<lparr>installing := installing (rep s)\<rparr>" by simp
  from sim_install_refused [OF sim r inv p iq(1) h] have "\<exists>a'. agree_steps M a a' \<and> sim M ?s a'" by (simp add: sim_answers cong: if_cong)
  with follows_install [OF pr sim r p iq(2) _ _ _ _ this, of n' I x "installing (rep s)"] h install_begin_last(1) [OF h] install_refused_facts(1) [OF h]
  show ?thesis unfolding same [symmetric] by simp
qed

lemma follows_install_finish:
  assumes pr: "progress M s a" and sim: "sim M s a" and r: "agree_reach (is_majority M) a" and inv: "repl_inv M (rep s)" and p: "p \<in> M"
    and iq: "iq \<in> installing (rep s) p" and x0: "\<not> is_success x0" and h: "install_finish I iq x0 (member s p) = (x, n')"
  shows "follows M a (install_answer iq p x (put_member p n' s))" (is "follows M a ?s")
proof -
  let ?n = "member s p"
  note F = install_finish_facts [OF h x0] and D = repl_invD(9) [OF inv iq]
  from sim_install_finish [OF sim r inv p iq x0 h] obtain a' where a': "agree_steps M a a'" "sim M ?s a'" by (auto simp: sim_answers cong: if_cong)
  have m: "member ?s i = (if i = p then n' else member s i)" for i by simp
  have t: "iq_term iq = current_term ?n" if "\<not> iq_term iq < current_term ?n" using that D by simp
  have lead: "n' = ?n" if "role n' = kLeader"
  proof (rule ccontr)
    assume ne: "n' \<noteq> ?n"
    with F(1) t have e: "iq_term iq = current_term ?n" "role n' = role ?n" using F(2) by auto
    have "role ?n = kFollower" using simD(3) [OF sim] p iq e(1) unfolding ballots_def by blast
    with e(2) that show False by simp
  qed
  have o: "onward M s a ?s a'" by (rule onward_node [OF sim r a' m]) (use lead in auto)
  have led: "unat (iq_term iq) \<in> a_led a'"
    using messages_snapshot(1) [OF simD(2) [OF sim] disjI2 [OF iq]] shapeD(7) [OF reach_invD(1) [OF r]] led_steps [OF a'(1)] by blast
  have at: "a_term a' p = unat (current_term n')" using sim_fields(1) [OF a'(2) p] by simp
  have dc: "declined_ok M ?s a' (iq_term iq) p (is_term x) (is_last_log_index x)" if no: "\<not> is_success x"
  proof (cases "iq_term iq < current_term ?n")
    case True
    with h have "is_term x = current_term ?n" by (auto simp: install_finish_def install_reply_def)
    with True show ?thesis by (auto simp: declined_ok_def)
  next
    case False
    with F(2) t have e: "a_term a' p = unat (iq_term iq)" using at by simp
    have "is_last_log_index x = LastLogIndexLocked n'"
      using h no False by (auto simp: install_finish_def install_reply_def Let_def split: prod.splits option.splits)
    then have "LastLogIndexLocked (member ?s p) \<le> is_last_log_index x" by simp
    moreover have "\<not> a_term a' p < a_term a' c" if "heads M ?s c" "current_term (member ?s c) = iq_term iq" for c
      using sim_fields(1) [OF a'(2), of c] that e by (simp add: heads_def)
    ultimately show ?thesis using led by (intro declined_new [OF a'(2) p]) (auto simp: told_def)
  qed
  have ac: "unat (iq_term iq) \<le> a_term a' p" if "is_success x"
    using F t at that by (cases "iq_term iq < current_term ?n") auto
  have "progress M ?s a'"
    by (rule progress_node [OF o pr m])
      (use dc ac lead in \<open>auto simp: heads_def keeps_next_def install_answer_def split: if_splits\<close>)
  with a' show ?thesis by blast
qed

section \<open>Every run is simulated\<close>

lemma progress_init:
  assumes "run_init M s" and "sim M s a"
  shows "progress M s a"
proof -
  have "\<not> heads M s c" for c using assms(1) by (auto simp: run_init_def repl_init_def cluster_init_def heads_def)
  with assms(1) show ?thesis by (simp add: progress_def run_init_def)
qed

lemma sim_init:
  assumes "run_init M s"
  shows "\<exists>a. agree_init a \<and> sim M s a"
proof -
  let ?a = "\<lparr>a_term = (\<lambda>p. unat (current_term (member s p))), a_role = (\<lambda>_. kFollower), a_tip = (\<lambda>_. At 0 0), a_commit = (\<lambda>_. At 0 0),
    a_tree = (\<lambda>_. None), a_votes = {}, a_led = {}, a_sent = {}, a_acks = {}\<rparr>"
  have "like_node M ?a p (member s p)" if "p \<in> M" for p
  proof -
    from assms that have "log (member s p) = [bootstrap_record]" "last_snapshot_index (member s p) = 0" "last_snapshot_term (member s p) = 0"
      "role (member s p) = kFollower" "commit_index (member s p) = 0"
      by (simp_all add: run_init_def repl_init_def cluster_init_def)
    then show ?thesis
      by (simp add: like_node_def like_core_def tip_def boundary_def LastLogIndexLocked_def LastLogTermLocked_def bootstrap_record_def decided_def)
  qed
  moreover have "messages M (rep s) (acked s) ?a" "ballots M (rep s) ?a"
    using assms by (simp_all add: run_init_def repl_init_def cluster_init_def messages_def ballots_def grows_def)
  ultimately have "sim M s ?a" by (simp add: sim_def)
  moreover have "agree_init ?a" by (simp add: agree_init_def)
  ultimately show ?thesis by blast
qed

lemma run_followed:
  assumes st: "run_step I M s s'" and reach: "run_reach I M s" and sim: "sim M s a" and pr: "progress M s a" and r: "agree_reach (is_majority M) a"
  shows "follows M a s'"
proof -
  have rr: "repl_reach I M (rep s)" by (rule run_reach_rep [OF reach])
  have inv: "repl_inv M (rep s)" by (rule repl_inv_reach [OF rr])
  have inv': "repl_inv M (rep s')" by (rule repl_inv_reach [OF run_reach_rep [OF run_reach.next_run [OF reach st]]])
  have rb: "reachable I M (base (rep s))" by (rule repl_reach_base [OF rr])
  have ad: "addressed s" by (rule addressed_reach [OF reach])
  note ei = election_inv_reachable [OF rb] and A = pr sim r
  from st show ?thesis
  proof (cases rule: run_step.cases)
    case (run_quiet c')
    then show ?thesis using follows_quiet [OF A rb inv] by simp
  next
    case (run_append c cmd i n')
    then show ?thesis using follows_append [OF A inv ei] by simp
  next
    case (run_send c pid t q n')
    then show ?thesis using follows_send [OF A inv] by simp
  next
    case (run_deliver p q x ap n')
    then have "q \<in> sent (rep s)" using ad by (auto simp: addressed_def)
    with run_deliver inv' follows_deliver [OF A inv run_deliver(2,3)] show ?thesis by simp
  next
    case (run_answer c x t pid tgt)
    then show ?thesis using follows_answer [OF A inv ei run_answer(2,3)] inv' by simp
  next
    case (run_commit c)
    then show ?thesis using follows_commit [OF A inv ei] by simp
  next
    case (run_ask c pid t n')
    then show ?thesis using follows_ask [OF A inv] by simp
  next
    case (run_offer c iq pid)
    then show ?thesis using follows_offer [OF A inv] by simp
  next
    case (run_install_begin p iq x n')
    then have "iq \<in> offered (rep s)" "(iq_term iq, p) \<in> asked s" using ad by (auto simp: addressed_def)
    with run_install_begin follows_install_begin [OF A run_install_begin(2)] show ?thesis by simp
  next
    case (run_install_refused p iq x n')
    then have "iq \<in> offered (rep s)" "(iq_term iq, p) \<in> asked s" using ad by (auto simp: addressed_def)
    with run_install_refused follows_install_refused [OF A inv run_install_refused(2)] show ?thesis by simp
  next
    case (run_install_finish p iq x0 x n')
    then show ?thesis using follows_install_finish [OF A inv] by simp
  next
    case (run_snapshot_answer c x t pid meta)
    then show ?thesis using follows_snapshot_answer [OF A run_snapshot_answer(2,3)] by simp
  next
    case (run_compact p i t)
    then show ?thesis using follows_compact [OF A inv] by simp
  qed
qed

lemma run_simulated: "run_reach I M s \<Longrightarrow> \<exists>a. agree_reach (is_majority M) a \<and> sim M s a \<and> progress M s a"
proof (induction rule: run_reach.induct)
  case (begin_run s)
  then show ?case using sim_init progress_init agree_reach.begin_agree by blast
next
  case (next_run s s')
  then show ?case using run_followed agree_steps_reach by blast
qed

section \<open>Agreement of the nodes\<close>

text \<open>A record at or below the commit index of a member is a point below its commit point.\<close>

lemma committed_record:
  assumes r: "agree_reach (is_majority M) a" and l: "like_node M a p n" and wf: "log_wf n" and pt: "log_path b (log n)"
    and g: "grows b (a_tree a)" and k: "k \<le> commit_index n" and u: "LogAtIndexLocked k n = Some u"
  shows "anc (a_tree a) (a_commit a p) (rpoint u)" and "p_index (rpoint u) = unat k"
proof -
  note at = log_at_offset [OF wf u] and ok = shapeD(1) [OF reach_invD(1) [OF r]]
  show i: "p_index (rpoint u) = unat k" using at(4) by (simp add: rpoint_def)
  have "anc (a_tree a) (a_tip a p) (rpoint u)"
    using log_anc [OF wf pt g at(1)] at(2) l by (simp add: like_node_def like_core_def)
  moreover have "p_index (rpoint u) \<le> p_index (a_commit a p)" using k i l by (simp add: like_node_def word_le_nat_alt)
  ultimately show "anc (a_tree a) (a_commit a p) (rpoint u)" by (rule anc_between [OF ok commitD(2) [OF r]])
qed

lemma run_facts:
  assumes "run_reach I M s"
  shows "\<exists>a. agree_reach (is_majority M) a \<and> grows (born (rep s)) (a_tree a) \<and>
    (\<forall>p \<in> M. like_node M a p (member s p) \<and> log_wf (member s p) \<and> log_path (born (rep s)) (log (member s p)))"
proof -
  from run_simulated [OF assms] obtain a where a: "agree_reach (is_majority M) a" "sim M s a" by blast
  from a(1) simD(1,2) [OF a(2)] repl_invD(1,2) [OF repl_inv_reach [OF run_reach_rep [OF assms]]] show ?thesis
    by (auto simp: messages_def)
qed

lemma run_safe:
  assumes run: "run_reach I M s" and M: "i \<in> M" "j \<in> M" and k: "k \<le> commit_index (member s i)" "k \<le> commit_index (member s j)"
    and u: "LogAtIndexLocked k (member s i) = Some u" and v: "LogAtIndexLocked k (member s j) = Some v"
  shows "lr_term u = lr_term v"
    and "last_snapshot_index (member s i) < k \<Longrightarrow> last_snapshot_index (member s j) < k \<Longrightarrow> u = v"
proof -
  obtain a where a: "agree_reach (is_majority M) a" "\<And>p. p \<in> M \<Longrightarrow> like_node M a p (member s p)"
    "grows (born (rep s)) (a_tree a)" "\<And>p. p \<in> M \<Longrightarrow> log_wf (member s p)" "\<And>p. p \<in> M \<Longrightarrow> log_path (born (rep s)) (log (member s p))" using run_facts [OF run] by metis
  note I = reach_invD [OF a(1)] and ok = shapeD(1) [OF reach_invD(1) [OF a(1)]]
  note U = committed_record [OF a(1) a(2) [OF M(1)] a(4,5) [OF M(1)] a(3) k(1) u]
    and V = committed_record [OF a(1) a(2) [OF M(2)] a(4,5) [OF M(2)] a(3) k(2) v]
  have "related (a_tree a) (a_commit a i) (a_commit a j)"
    by (rule maj.decided_related [OF I(1-3) commitD(1) [OF a(1)] commitD(1) [OF a(1)]])
  then have "\<exists>x. anc (a_tree a) x (rpoint u) \<and> anc (a_tree a) x (rpoint v)"
    using U(1) V(1) by (auto simp: related_def intro: anc_trans)
  then obtain x where x: "anc (a_tree a) x (rpoint u)" "anc (a_tree a) x (rpoint v)" by blast
  from anc_same_index [OF ok anc_between [OF ok x]] U(2) V(2) have "rpoint u = rpoint v" by simp
  then show t: "lr_term u = lr_term v" by (simp add: rpoint_def word_unat_eq_iff)
  show "u = v" if "last_snapshot_index (member s i) < k" "last_snapshot_index (member s j) < k"
    using path_matching(2) [OF a(4) [OF M(1)] a(4) [OF M(2)] a(5) [OF M(1)] a(5) [OF M(2)] u v t order_refl u v that] .
qed

lemma run_leader_complete:
  assumes run: "run_reach I M s" and M: "c \<in> M" "i \<in> M" and c: "role (member s c) = kLeader"
    and t: "current_term (member s i) \<le> current_term (member s c)" and k: "k \<le> commit_index (member s i)"
    and u: "LogAtIndexLocked k (member s i) = Some u"
  shows "k \<le> LastLogIndexLocked (member s c)"
    and "last_snapshot_index (member s c) \<le> k \<Longrightarrow> \<exists>v. LogAtIndexLocked k (member s c) = Some v \<and> lr_term v = lr_term u \<and>
      (last_snapshot_index (member s i) < k \<and> last_snapshot_index (member s c) < k \<longrightarrow> v = u)"
proof -
  obtain a where a: "agree_reach (is_majority M) a" "\<And>p. p \<in> M \<Longrightarrow> like_node M a p (member s p)"
    "grows (born (rep s)) (a_tree a)" "\<And>p. p \<in> M \<Longrightarrow> log_wf (member s p)" "\<And>p. p \<in> M \<Longrightarrow> log_path (born (rep s)) (log (member s p))" using run_facts [OF run] by metis
  note I = reach_invD [OF a(1)] and ok = shapeD(1) [OF reach_invD(1) [OF a(1)]]
  note U = committed_record [OF a(1) a(2) [OF M(2)] a(4,5) [OF M(2)] a(3) k u]
  have C: "like_core M a c (member s c)" "like_core M a i (member s i)" using a(2) M by (simp_all add: like_node_def)
  have "anc (a_tree a) (a_tip a c) (a_commit a i)"
    by (rule maj.leader_complete [OF I(1-3) _ commitD(1) [OF a(1)]])
      (use like_coreD(1,2) [OF C(1)] like_coreD(1) [OF C(2)] c t in \<open>simp_all add: word_le_nat_alt\<close>)
  then have x: "anc (a_tree a) (tip (member s c)) (rpoint u)" using U(1) like_coreD(3) [OF C(1)] by (auto intro: anc_trans)
  from anc_le(1) [OF ok this] U(2) show le: "k \<le> LastLogIndexLocked (member s c)" by (simp add: tip_def word_le_nat_alt)
  assume lo: "last_snapshot_index (member s c) \<le> k"
  note at = log_wf_nth [OF a(4) [OF M(1)] lo le]
  let ?v = "log (member s c) ! (unat k - unat (last_snapshot_index (member s c)))"
  have "rpoint ?v = rpoint u"
    using anc_in_log(2) [OF ok a(4,5) [OF M(1)] a(3) x] U(2) lo by (simp add: word_le_nat_alt)
  then have t: "lr_term ?v = lr_term u" by (simp add: rpoint_def word_unat_eq_iff)
  from path_matching(2) [OF a(4) [OF M(1)] a(4) [OF M(2)] a(5) [OF M(1)] a(5) [OF M(2)] at(1) u t order_refl at(1) u] at(1) t
  show "\<exists>v. LogAtIndexLocked k (member s c) = Some v \<and> lr_term v = lr_term u \<and>
      (last_snapshot_index (member s i) < k \<and> last_snapshot_index (member s c) < k \<longrightarrow> v = u)" by auto
qed

end
