(* ===== verification/Examples.thy ===== *)
theory Examples
  imports Recovery Consensus
begin

text \<open>
  Small concrete instances on which the properties are evaluated: a storage that keeps the last saved
  state in memory, the key-value machine, snapshots taken from a given map, and nodes of a cluster
  of three.
\<close>

definition demo_interfaces :: "kv \<Rightarrow> (PersistentRaftState option, kv) interfaces" where
  "demo_interfaces snap = \<lparr>
     storage_Save = (\<lambda>s w. (Inr (), Some s)),
     storage_Load = (\<lambda>w. (Inr (case w of None \<Rightarrow> (\<lparr>ps_current_term = 0, ps_voted_for = - 1,
        ps_commit_index = 0, ps_last_applied = 0, ps_log = []\<rparr>, False) | Some s \<Rightarrow> (s, True)), w)),
     sm_Apply = KvStateMachine_Apply,
     sm_SaveSnapshot = (\<lambda>p m w. (\<lparr>sr_status = Snapshot_kOk, sr_message = ''ok''\<rparr>, w)),
     sm_LoadSnapshot = (\<lambda>p w m. (\<lparr>sr_status = Snapshot_kOk, sr_message = ''ok''\<rparr>, snap)),
     ss_SaveSnapshotFile = (\<lambda>p i t w. (Inr \<lparr>sm_snapshot_path = p, sm_meta_path = p,
        sm_snapshot_dir = p, last_included_index = i, last_included_term = t, created_unix_ms = 0,
        data_checksum = 0\<rparr>, w)),
     ss_ListSnapshots = (\<lambda>w. (Inr \<lparr>snapshots = [], validation_issues = []\<rparr>, w)),
     ss_PruneSnapshots = (\<lambda>k w. (Inr (), w)),
     file_exists = (\<lambda>p w. False), read_file = (\<lambda>p w. Some ''''),
     write_file = (\<lambda>p d w. (Inr (), w)), remove_file = (\<lambda>p w. w),
     create_dirs = (\<lambda>p w. (Inr (), w))\<rparr>"

definition demo_config :: "int \<Rightarrow> int list \<Rightarrow> NodeConfig" where
  "demo_config i ps = \<lparr>cfg_node_id = i, cfg_address = ''host'',
     cfg_peers = map (\<lambda>p. \<lparr>peer_id = p, peer_address = ''host''\<rparr>) ps,
     election_timeout_min = 300, election_timeout_max = 600, heartbeat_interval = 100,
     rpc_deadline = 5, cfg_data_dir = ''d'', kv_limits = default_kv_limits\<rparr>"

definition demo_node :: "int \<Rightarrow> int list \<Rightarrow> (PersistentRaftState option, kv) raft_node" where
  "demo_node i ps = (blank_node (demo_config i ps) default_snapshot_config (timers_init (\<lambda>_. 0) 0) []
      None)\<lparr>log := [bootstrap_record], running := True\<rparr>"

definition rec3 :: "u64 \<Rightarrow> u64 \<Rightarrow> string \<Rightarrow> LogRecord" where
  "rec3 i t c = \<lparr>lr_index = i, lr_term = t, lr_command = c\<rparr>"

lemmas demo_defs = demo_interfaces_def demo_config_def demo_node_def blank_node_def bootstrap_record_def
  timers_init_def rec3_def

lemma demo_saves_ok: "saves_ok (demo_interfaces snap)"
  by (simp add: saves_ok_def demo_interfaces_def)

lemmas log_defs = LastLogIndexLocked_def FirstLogIndexLocked_def HasLogAtIndexLocked_def
  LogAtIndexLocked_def LogOffsetLocked_def TermAtIndexLocked_def LastLogTermLocked_def

lemmas append_defs = OnAppendEntriesLocked_def append_follow_def append_merge_def append_commit_def
  prev_ok_def append_entry_def push_entry_def record_of_entry_def

lemma demo_Save [simp]: "storage_Save (demo_interfaces snap) ps w = (Inr (), Some ps)"
  by (simp add: demo_interfaces_def)

lemma demo_Persist [simp]:
  "PersistStateLocked (demo_interfaces snap) n = (None, n\<lparr>disk := Some (persistent_state n)\<rparr>)"
  by (simp add: PersistStateLocked_def)

lemma demo_sm_Apply [simp]: "sm_Apply (demo_interfaces snap) = KvStateMachine_Apply"
  by (simp add: demo_interfaces_def)

lemma demo_ops [simp]:
  "create_dirs (demo_interfaces snap) p w = (Inr (), w)"
  "write_file (demo_interfaces snap) p d w = (Inr (), w)"
  "ss_SaveSnapshotFile (demo_interfaces snap) p i t w = (Inr \<lparr>sm_snapshot_path = p, sm_meta_path = p,
        sm_snapshot_dir = p, last_included_index = i, last_included_term = t, created_unix_ms = 0,
        data_checksum = 0\<rparr>, w)"
  "sm_LoadSnapshot (demo_interfaces snap) p w m = (\<lparr>sr_status = Snapshot_kOk, sr_message = ''ok''\<rparr>, snap)"
  by (simp_all add: demo_interfaces_def)

lemmas demo_node_defs = demo_node_def blank_node_def demo_config_def bootstrap_record_def timers_init_def rec3_def

lemma demo_delete: "Deserialize ''DEL|a|'' = Some \<lparr>cmd_type = kDelete, cmd_key = ''a'', cmd_value = []\<rparr>"
  using Deserialize_Serialize_delete [of "''a''" "[]"] by (simp add: Serialize_def)

lemma demo_set: "Deserialize ''SET|a|b'' = Some \<lparr>cmd_type = kSet, cmd_key = ''a'', cmd_value = ''b''\<rparr>"
  using Deserialize_Serialize_set [of "''a''" "''b''"] by (simp add: Serialize_def)

section \<open>A cluster of three elects a leader\<close>

abbreviation demo_I :: "(PersistentRaftState option, kv) interfaces" where
  "demo_I \<equiv> demo_interfaces []"

definition demo_start :: "(PersistentRaftState option, kv) cluster" where
  "demo_start = \<lparr>nodes = (\<lambda>i. demo_node i (filter (\<lambda>j. j \<noteq> i) [1, 2, 3])), elections = (\<lambda>_ _. None),
     answered = (\<lambda>_ _. {}), replies = {}, led = {}\<rparr>"

definition demo_e :: election where
  "demo_e = \<lparr>el_term = 1, el_last_log_index = 0, el_last_log_term = 0, el_quorum = 2, el_votes = 1,
     el_won = False\<rparr>"

definition demo_candidate :: "(PersistentRaftState option, kv) raft_node" where
  "demo_candidate = snd (OnElectionTimeout demo_I 0 (nodes demo_start 1))"

definition demo_asked :: "(PersistentRaftState option, kv) cluster" where
  "demo_asked = (set_node 1 demo_candidate demo_start)
     \<lparr>elections := (elections demo_start)(1 := (elections demo_start 1)(el_term demo_e \<mapsto> demo_e)),
      answered := (answered demo_start)(1 := (answered demo_start 1)(el_term demo_e := {}))\<rparr>"

definition demo_vote :: VoteResponse where
  "demo_vote = fst (OnRequestVote demo_I (election_request demo_e (nodes demo_asked 1)) (nodes demo_asked 2))"

definition demo_replied :: "(PersistentRaftState option, kv) cluster" where
  "demo_replied = (set_node 2 (snd (OnRequestVote demo_I (election_request demo_e (nodes demo_asked 1))
      (nodes demo_asked 2))) demo_asked)\<lparr>replies := insert (1, 1, 2, demo_vote) (replies demo_asked)\<rparr>"

definition demo_counted :: "(PersistentRaftState option, kv) cluster" where
  "demo_counted = (set_node 1 demo_candidate demo_replied)
     \<lparr>elections := (elections demo_replied)(1 := (elections demo_replied 1)(1 \<mapsto>
         demo_e\<lparr>el_votes := 2, el_won := True\<rparr>)),
      answered := (answered demo_replied)(1 := (answered demo_replied 1)(1 :=
         insert 2 (answered demo_replied 1 1)))\<rparr>"

definition demo_elected :: "(PersistentRaftState option, kv) cluster" where
  "demo_elected = (set_node 1 (BecomeLeaderLocked demo_candidate) demo_counted)
     \<lparr>led := insert (1, 1) (led demo_counted)\<rparr>"

lemma demo_timeout: "OnElectionTimeout demo_I 0 (nodes demo_start 1) = (Some demo_e, demo_candidate)"
  unfolding demo_candidate_def demo_e_def
  by (simp add: OnElectionTimeout_def OnElectionTimeout_guard_def StartElectionLocked_def demo_start_def
      demo_node_def blank_node_def timers_init_def node_defs log_defs majority_def demo_config_def
      bootstrap_record_def Let_def)

lemma demo_candidate_fields [simp]:
  "role demo_candidate = kCandidate" "current_term demo_candidate = 1" "running demo_candidate"
  "config demo_candidate = demo_config 1 [2, 3]"
  by (simp_all add: demo_candidate_def OnElectionTimeout_def OnElectionTimeout_guard_def
      StartElectionLocked_def demo_start_def demo_node_def blank_node_def timers_init_def node_defs Let_def)

lemma demo_vote_granted: "demo_vote = \<lparr>vs_term = 1, vote_granted = True\<rparr>"
  by (simp add: demo_vote_def OnRequestVote_def demo_asked_def demo_start_def demo_node_def
      blank_node_def election_request_def demo_e_def demo_config_def BecomeFollowerLocked_def
      IsCandidateLogUpToDateLocked_def node_defs log_defs bootstrap_record_def Let_def)

text \<open>The four steps of the election.\<close>

lemma demo_init: "cluster_init {1, 2, 3} demo_start"
  by (auto simp: cluster_init_def demo_start_def member_ok_def demo_node_def blank_node_def demo_config_def)

lemma demo_step_asked: "cluster_step demo_I {1, 2, 3} demo_start demo_asked"
proof -
  have "current_term (nodes demo_start 1) \<noteq> - 1"
    by (simp add: demo_start_def demo_node_def blank_node_def)
  then show ?thesis unfolding demo_asked_def using demo_timeout by (intro timeout_started) simp_all
qed

lemma demo_asked_election: "elections demo_asked 1 1 = Some demo_e"
  by (simp add: demo_asked_def demo_e_def)

lemma demo_step_replied: "cluster_step demo_I {1, 2, 3} demo_asked demo_replied"
  unfolding demo_replied_def demo_vote_def by (rule vote_request [OF _ _ _ demo_asked_election]) simp_all

lemma demo_step_counted: "cluster_step demo_I {1, 2, 3} demo_replied demo_counted"
proof -
  have e: "elections demo_replied 1 1 = Some demo_e" "(1, 1, 2, demo_vote) \<in> replies demo_replied"
    "2 \<notin> answered demo_replied 1 1" "nodes demo_replied 1 = demo_candidate"
    by (simp_all add: demo_replied_def demo_asked_election demo_asked_def demo_e_def)
  have "vote_reply demo_I demo_e demo_vote (nodes demo_replied 1)
      = (True, demo_e\<lparr>el_votes := 2, el_won := True\<rparr>, demo_candidate)"
    by (simp add: e vote_reply_def demo_vote_granted demo_e_def)
  then show ?thesis unfolding demo_counted_def using e by (intro vote_answer) simp_all
qed

lemma demo_step_elected: "cluster_step demo_I {1, 2, 3} demo_counted demo_elected"
  unfolding demo_elected_def
  by (rule election_won [where e = "demo_e\<lparr>el_votes := 2, el_won := True\<rparr>"])
    (simp_all add: demo_counted_def OnElectionWonLocked_def)

lemmas demo_steps = demo_step_asked demo_step_replied demo_step_counted demo_step_elected

lemma demo_reachable: "reachable demo_I {1, 2, 3} demo_elected"
  by (rule reach_init [OF demo_init, THEN reach_step [OF _ demo_step_asked], THEN reach_step [OF _ demo_step_replied],
      THEN reach_step [OF _ demo_step_counted], THEN reach_step [OF _ demo_step_elected]])

section \<open>The leader replicates a record\<close>

definition demo_run :: "(PersistentRaftState option, kv) cluster \<Rightarrow> (PersistentRaftState option, kv) run" where
  "demo_run c = \<lparr>rep = \<lparr>base = c, born = (\<lambda>_. None), sent = {}, offered = {}, installing = (\<lambda>_. {})\<rparr>,
    acked = {}, posted = {}, refused = {}, asked = {}, handed = {}, declined = {}\<rparr>"

lemma demo_logs:
  "log (nodes c i) = [bootstrap_record] \<and> last_snapshot_index (nodes c i) = 0 \<and> last_snapshot_term (nodes c i) = 0"
  if "c \<in> {demo_start, demo_asked, demo_replied, demo_counted, demo_elected}"
proof -
  have c: "log demo_candidate = [bootstrap_record] \<and> last_snapshot_index demo_candidate = 0 \<and> last_snapshot_term demo_candidate = 0"
    by (simp add: demo_candidate_def OnElectionTimeout_def OnElectionTimeout_guard_def StartElectionLocked_def demo_start_def
        demo_node_def blank_node_def timers_init_def node_defs Let_def)
  have s: "log (nodes demo_start i) = [bootstrap_record] \<and> last_snapshot_index (nodes demo_start i) = 0 \<and>
      last_snapshot_term (nodes demo_start i) = 0" for i
    by (simp add: demo_start_def demo_node_def blank_node_def)
  show ?thesis using that c s
    by (auto simp: demo_asked_def demo_replied_def demo_counted_def demo_elected_def)
qed

lemma demo_commits:
  "commit_index (nodes c i) = 0" if "c \<in> {demo_start, demo_asked, demo_replied, demo_counted, demo_elected}"
proof -
  have c: "commit_index demo_candidate = 0"
    by (simp add: demo_candidate_def OnElectionTimeout_def OnElectionTimeout_guard_def StartElectionLocked_def demo_start_def
        demo_node_def blank_node_def timers_init_def node_defs Let_def)
  have s: "commit_index (nodes demo_start i) = 0" for i by (simp add: demo_start_def demo_node_def blank_node_def)
  show ?thesis using that c s
    by (auto simp: demo_asked_def demo_replied_def demo_counted_def demo_elected_def)
qed

lemma demo_roles: "role (nodes c i) \<noteq> kLeader" if "c \<in> {demo_start, demo_asked, demo_replied, demo_counted}"
proof -
  have s: "role (nodes demo_start i) = kFollower" for i by (simp add: demo_start_def demo_node_def blank_node_def)
  have a: "role (nodes demo_asked i) \<noteq> kLeader" for i using s by (simp add: demo_asked_def)
  then have r: "role (nodes demo_replied i) \<noteq> kLeader" for i by (auto simp: demo_replied_def OnRequestVote_role)
  then have "role (nodes demo_counted i) \<noteq> kLeader" for i using a by (auto simp: demo_counted_def)
  with that s a r show ?thesis by auto
qed

lemma demo_run_elected: "run_reach demo_I {1, 2, 3} (demo_run demo_elected)"
proof -
  have q: "run_reach demo_I {1, 2, 3} (demo_run c')"
    if "run_reach demo_I {1, 2, 3} (demo_run c)" "cluster_step demo_I {1, 2, 3} c c'"
      "c \<in> {demo_start, demo_asked, demo_replied, demo_counted}"
      "c' \<in> {demo_start, demo_asked, demo_replied, demo_counted, demo_elected}" for c c'
  proof -
    have m: "c \<in> {demo_start, demo_asked, demo_replied, demo_counted, demo_elected}" using that(3) by blast
    have "run_step demo_I {1, 2, 3} (demo_run c) ((demo_run c)\<lparr>rep := (rep (demo_run c))\<lparr>base := c'\<rparr>\<rparr>)"
      using that(2) demo_logs [OF m] demo_logs [OF that(4)] demo_commits [OF m] demo_commits [OF that(4)] demo_roles [OF that(3)]
      by (intro run_quiet) (simp_all add: demo_run_def same_log_def kept_def)
    then have "run_step demo_I {1, 2, 3} (demo_run c) (demo_run c')" by (simp add: demo_run_def)
    with that(1) show ?thesis by (rule next_run)
  qed
  have "run_init {1, 2, 3} (demo_run demo_start)"
    using demo_init demo_logs demo_commits by (simp add: run_init_def repl_init_def demo_run_def)
  then have "run_reach demo_I {1, 2, 3} (demo_run demo_start)" by (rule begin_run)
  from q [OF q [OF q [OF q [OF this demo_step_asked] demo_step_replied] demo_step_counted] demo_step_elected]
  show ?thesis by simp
qed

lemma demo_leader_node:
  "role (nodes demo_elected 1) = kLeader" "current_term (nodes demo_elected 1) = 1" "running (nodes demo_elected 1)"
  "config (nodes demo_elected 1) = demo_config 1 [2, 3]" "next_index (nodes demo_elected 1) 2 = Some 1"
  "LastLogIndexLocked (nodes demo_elected 1) = 0"
proof -
  have l: "LastLogIndexLocked demo_candidate = 0"
    using demo_logs [of demo_elected 1] by (simp add: demo_elected_def LastLogIndexLocked_def bootstrap_record_def)
  show "role (nodes demo_elected 1) = kLeader" "current_term (nodes demo_elected 1) = 1" "running (nodes demo_elected 1)"
    "config (nodes demo_elected 1) = demo_config 1 [2, 3]" "LastLogIndexLocked (nodes demo_elected 1) = 0"
    using l by (simp_all add: demo_elected_def LastLogIndexLocked_def split: if_splits)
  show "next_index (nodes demo_elected 1) 2 = Some 1"
    using demo_logs [of demo_elected 1]
    by (simp add: demo_elected_def BecomeLeaderLocked_def Let_def node_defs demo_config_def SafeAddOne_def
        LastLogIndexLocked_def bootstrap_record_def)
qed

lemma demo_voter_node:
  "role (nodes demo_elected 2) = kFollower" "current_term (nodes demo_elected 2) = 1"
  by (simp_all add: demo_elected_def demo_counted_def demo_replied_def OnRequestVote_def demo_asked_def demo_start_def demo_node_def
      blank_node_def election_request_def demo_e_def demo_config_def BecomeFollowerLocked_def
      IsCandidateLogUpToDateLocked_def node_defs log_defs bootstrap_record_def Let_def)

text \<open>A follower with an empty log in term \<open>1\<close> accepts a batch with the first record, and learns from the next request that it is committed.\<close>

lemma demo_accept:
  assumes "log n = [bootstrap_record]" "last_snapshot_index n = 0" "last_snapshot_term n = 0" "current_term n = 1" "commit_index n = 0"
    and "aq_term q = 1" "prev_log_index q = 0" "prev_log_term q = 0" "entries q = [entry_of_record (rec3 1 1 c)]" "leader_commit q = 0"
    and "OnAppendEntriesLocked demo_I q n = (r, ap, n')"
  shows "log n' = [bootstrap_record, rec3 1 1 c]" "commit_index n' = 0" "current_term n' = 1" "as_success r" "as_match_index r = 1" "as_term r = 1"
proof -
  have e: "n' = snd (snd (OnAppendEntriesLocked demo_I q n))" "r = fst (OnAppendEntriesLocked demo_I q n)" using assms(11) by simp_all
  show "log n' = [bootstrap_record, rec3 1 1 c]" "commit_index n' = 0" "current_term n' = 1" "as_success r" "as_match_index r = 1" "as_term r = 1"
    unfolding e using assms(1-10)
    by (simp_all add: append_defs log_defs BecomeFollowerLocked_def node_defs bootstrap_record_def entry_of_record_def rec3_def
        SafeAddOne_def Let_def split: option.split)
qed

lemma demo_learn:
  assumes "log n = [bootstrap_record, rec3 1 1 c]" "last_snapshot_index n = 0" "last_snapshot_term n = 0" "current_term n = 1" "commit_index n = 0"
    and "aq_term q = 1" "prev_log_index q = 1" "prev_log_term q = 1" "entries q = []" "leader_commit q = 1"
    and "OnAppendEntriesLocked demo_I q n = (r, ap, n')"
  shows "log n' = log n" "commit_index n' = 1" "current_term n' = 1"
proof -
  have e: "n' = snd (snd (OnAppendEntriesLocked demo_I q n))" using assms(11) by simp
  show "log n' = log n" "commit_index n' = 1" "current_term n' = 1"
    unfolding e using assms(1-10)
    by (simp_all add: append_defs log_defs BecomeFollowerLocked_def node_defs bootstrap_record_def rec3_def Let_def split: option.split)
qed

lemma demo_batch:
  assumes "log n = [bootstrap_record, rec3 1 1 c]" "last_snapshot_index n = 0" "last_snapshot_term n = 0" "current_term n = 1"
    "role n = kLeader" "running n" "next_index n 2 = Some 1"
  obtains q n' where "BuildAppendEntriesRequest 2 1 n = (BatchAppend q, n')" "aq_term q = 1" "prev_log_index q = 0"
    "prev_log_term q = 0" "entries q = [entry_of_record (rec3 1 1 c)]" "leader_commit q = commit_index n" "n' = n\<lparr>next_index := (next_index n)(2 \<mapsto> 1)\<rparr>"
proof -
  have step: "build_entries (Suc (Suc room)) 0 0 1 m = [entry_of_record (rec3 1 1 c)]" if "log m = log n" for room and m :: "('a, 'b) raft_node"
    using that assms by (simp add: log_defs demo_defs Let_def word_le_nat_alt)
  have "kMaxAppendEntriesPerRpc = Suc (Suc 254)" by (simp add: kMaxAppendEntriesPerRpc_def)
  then have be: "build_entries kMaxAppendEntriesPerRpc 0 0 1 (n\<lparr>next_index := (next_index n)(2 \<mapsto> 1)\<rparr>) = [entry_of_record (rec3 1 1 c)]"
    using step [of "n\<lparr>next_index := (next_index n)(2 \<mapsto> 1)\<rparr>" 254] by (simp del: build_entries.simps)
  from assms that show ?thesis
    by (simp add: BuildAppendEntriesRequest_def log_defs bootstrap_record_def Let_def be)
qed

lemma demo_heartbeat:
  assumes "log n = [bootstrap_record, rec3 1 1 c]" "last_snapshot_index n = 0" "last_snapshot_term n = 0" "current_term n = 1"
    "role n = kLeader" "running n" "next_index n 2 = Some 2"
  obtains q n' where "BuildAppendEntriesRequest 2 1 n = (BatchAppend q, n')" "aq_term q = 1" "prev_log_index q = 1"
    "prev_log_term q = 1" "entries q = []" "leader_commit q = commit_index n" "n' = n\<lparr>next_index := (next_index n)(2 \<mapsto> 2)\<rparr>"
proof -
  have step: "build_entries (Suc room) 0 0 2 m = []" if "log m = log n" for room and m :: "('a, 'b) raft_node"
    using that assms by (simp add: log_defs demo_defs Let_def word_le_nat_alt)
  have "kMaxAppendEntriesPerRpc = Suc 255" by (simp add: kMaxAppendEntriesPerRpc_def)
  then have be: "build_entries kMaxAppendEntriesPerRpc 0 0 2 (n\<lparr>next_index := (next_index n)(2 \<mapsto> 2)\<rparr>) = []"
    using step [of "n\<lparr>next_index := (next_index n)(2 \<mapsto> 2)\<rparr>" 255] by (simp del: build_entries.simps)
  from assms that show ?thesis
    by (simp add: BuildAppendEntriesRequest_def log_defs bootstrap_record_def rec3_def Let_def be)
qed

lemma demo_advance:
  assumes "log n = [bootstrap_record, rec3 1 1 c]" "last_snapshot_index n = 0" "last_snapshot_term n = 0" "current_term n = 1"
    "role n = kLeader" "running n" "commit_index n = 0" "config n = demo_config 1 [2, 3]" "next_index n 2 = Some 1"
    and "as_success r" "as_match_index r = 1" "as_term r = 1"
  defines "n' \<equiv> snd (snd (HandleAppendEntriesResponse demo_I 2 1 0 r n))"
  shows "commit_index n' = 1" "next_index n' 2 = Some 2" "log n' = log n" "last_snapshot_index n' = 0" "last_snapshot_term n' = 0"
    "current_term n' = 1" "role n' = kLeader" "running n'"
proof -
  let ?n = "n\<lparr>match_index := (match_index n)(2 \<mapsto> max (case match_index n 2 of None \<Rightarrow> 0 | Some m \<Rightarrow> m) 1),
    next_index := (next_index n)(2 \<mapsto> 2)\<rparr>"
  have n': "n' = AdvanceCommitIndexUnlocked demo_I ?n"
    using assms by (simp add: HandleAppendEntriesResponse_def SafeAddOne_def Let_def)
  have mj: "majority ?n = 2" "2 \<le> replicated_count 1 ?n" using assms(8) by (simp_all add: majority_def replicated_count_def demo_config_def)
  have "commit_candidate 1 ?n = Some 1"
    using assms(1-7) mj by (subst commit_candidate.simps) (simp add: log_defs bootstrap_record_def rec3_def)
  then have c: "commit_candidate (LastLogIndexLocked ?n) ?n = Some 1" using assms(1) by (simp add: LastLogIndexLocked_def rec3_def)
  show "commit_index n' = 1" "next_index n' 2 = Some 2" "log n' = log n" "last_snapshot_index n' = 0" "last_snapshot_term n' = 0"
    "current_term n' = 1" "role n' = kLeader" "running n'"
    unfolding n' using assms(1-6) c by (simp_all add: AdvanceCommitIndexUnlocked_def)
qed


text \<open>The leader appends a record and the second member stores it.\<close>

lemma demo_run_appended:
  obtains s where "run_reach demo_I {1, 2, 3} s" "log (member s 1) = [bootstrap_record, rec3 1 1 c]" "last_snapshot_index (member s 1) = 0"
    "last_snapshot_term (member s 1) = 0" "current_term (member s 1) = 1" "role (member s 1) = kLeader" "running (member s 1)"
    "commit_index (member s 1) = 0" "config (member s 1) = demo_config 1 [2, 3]" "next_index (member s 1) 2 = Some 1"
    "member s 2 = nodes demo_elected 2"
proof -
  let ?s0 = "demo_run demo_elected" and ?n = "nodes demo_elected 1"
  note L = demo_leader_node
  obtain i n1 where ap: "AppendLocalLogUnlocked demo_I c ?n = (i, n1)" by fastforce
  have i: "i = 1" using L(6) Append_result [of demo_I c ?n] ap by (simp add: SafeAddOne_def)
  have n1: "n1 = snd (AppendLocalLogUnlocked demo_I c ?n)" using ap by simp
  have f1: "log n1 = [bootstrap_record, rec3 1 1 c]" "last_snapshot_index n1 = 0" "last_snapshot_term n1 = 0" "current_term n1 = 1"
    "role n1 = kLeader" "running n1" "commit_index n1 = 0" "config n1 = demo_config 1 [2, 3]" "next_index n1 2 = Some 1"
    using L demo_logs [of demo_elected 1] demo_commits [of demo_elected 1] i ap
    by (simp_all add: n1 Append_log rec3_def SafeAddOne_def demo_config_def AppendLocalLogUnlocked_def Let_def)
  define s1 where "s1 = ?s0\<lparr>rep := (put_node 1 n1 (rep ?s0))\<lparr>born := (born (rep ?s0))((i, current_term ?n) \<mapsto> (LastLogTermLocked ?n, c))\<rparr>\<rparr>"
  have "run_step demo_I {1, 2, 3} ?s0 s1"
    using run_append [of 1 "{1, 2, 3}" ?s0 demo_I c i n1] L ap i unfolding s1_def
    by (simp add: demo_run_def word_less_nat_alt unat_u64_max)
  with demo_run_elected have "run_reach demo_I {1, 2, 3} s1" by (rule next_run)
  with f1 show thesis by (intro that [of s1]) (simp_all add: s1_def demo_run_def)
qed

lemma demo_run_stored:
  obtains s and r :: AppendEntriesResponse where "run_reach demo_I {1, 2, 3} s" "log (member s 1) = [bootstrap_record, rec3 1 1 c]" "last_snapshot_index (member s 1) = 0"
    "last_snapshot_term (member s 1) = 0" "current_term (member s 1) = 1" "role (member s 1) = kLeader" "running (member s 1)"
    "commit_index (member s 1) = 0" "config (member s 1) = demo_config 1 [2, 3]" "next_index (member s 1) 2 = Some 1"
    "log (member s 2) = [bootstrap_record, rec3 1 1 c]" "last_snapshot_index (member s 2) = 0" "last_snapshot_term (member s 2) = 0"
    "current_term (member s 2) = 1" "commit_index (member s 2) = 0"
    "(1, 2, as_match_index r) \<in> acked s" "as_success r" "as_match_index r = 1" "as_term r = 1"
proof -
  obtain s where s: "run_reach demo_I {1, 2, 3} s" "log (member s 1) = [bootstrap_record, rec3 1 1 c]" "last_snapshot_index (member s 1) = 0"
    "last_snapshot_term (member s 1) = 0" "current_term (member s 1) = 1" "role (member s 1) = kLeader" "running (member s 1)"
    "commit_index (member s 1) = 0" "config (member s 1) = demo_config 1 [2, 3]" "next_index (member s 1) 2 = Some 1"
    "member s 2 = nodes demo_elected 2" by (rule demo_run_appended)
  have l: "LastLogIndexLocked (member s 1) < - 1" using s(2) by (simp add: LastLogIndexLocked_def rec3_def word_less_nat_alt unat_u64_max)
  obtain q n2 where q: "BuildAppendEntriesRequest 2 1 (member s 1) = (BatchAppend q, n2)" "aq_term q = 1" "prev_log_index q = 0"
    "prev_log_term q = 0" "entries q = [entry_of_record (rec3 1 1 c)]" "leader_commit q = commit_index (member s 1)"
    "n2 = (member s 1)\<lparr>next_index := (next_index (member s 1))(2 \<mapsto> 1)\<rparr>"
    by (rule demo_batch [OF s(2-7,10)])
  define s2 where "s2 = s\<lparr>rep := (put_node 1 n2 (rep s))\<lparr>sent := insert q (sent (rep s))\<rparr>, posted := insert (2, q) (posted s)\<rparr>"
  have "run_step demo_I {1, 2, 3} s s2" unfolding s2_def by (rule run_send [OF _ l q(1)]) simp
  with s(1) have r2: "run_reach demo_I {1, 2, 3} s2" by (rule next_run)
  have m2: "member s2 2 = nodes demo_elected 2" using s(11) by (simp add: s2_def)
  obtain r ap n3 where h: "OnAppendEntriesLocked demo_I q (member s2 2) = (r, ap, n3)" by (metis prod_cases3)
  note V = demo_logs [of demo_elected 2, simplified] demo_voter_node demo_commits [of demo_elected 2, simplified]
  have a: "log n3 = [bootstrap_record, rec3 1 1 c]" "commit_index n3 = 0" "current_term n3 = 1" "as_success r" "as_match_index r = 1" "as_term r = 1"
    by (rule demo_accept [OF _ _ _ _ _ q(2-5) _ h]; use V m2 q(6) s(8) in simp)+
  have f: "last_snapshot_index n3 = 0" "last_snapshot_term n3 = 0"
    using OnAppendEntriesLocked_frame(3,4) [of demo_I q "member s2 2"] h V m2 by simp_all
  define s3 where "s3 = append_answer q 2 r (put_member 2 n3 s2)"
  have "run_step demo_I {1, 2, 3} s2 s3" unfolding s3_def by (rule run_deliver [OF _ _ h]) (simp_all add: s2_def)
  with r2 have "run_reach demo_I {1, 2, 3} s3" by (rule next_run)
  with a f q s show thesis by (intro that [of s3 r]) (simp_all add: s3_def s2_def append_answer_def)
qed

text \<open>The answer commits the record at the leader, and the next request at the member.\<close>

lemma demo_run_committed:
  obtains s where "run_reach demo_I {1, 2, 3} s" "role (member s 1) = kLeader" "current_term (member s 1) = 1"
    "log (member s 1) = [bootstrap_record, rec3 1 1 c]" "last_snapshot_index (member s 1) = 0" "commit_index (member s 1) = 1"
    "log (member s 2) = [bootstrap_record, rec3 1 1 c]" "last_snapshot_index (member s 2) = 0" "commit_index (member s 2) = 1"
    "current_term (member s 2) = 1"
proof -
  obtain s and r :: AppendEntriesResponse where s: "run_reach demo_I {1, 2, 3} s" "log (member s 1) = [bootstrap_record, rec3 1 1 c]" "last_snapshot_index (member s 1) = 0"
    "last_snapshot_term (member s 1) = 0" "current_term (member s 1) = 1" "role (member s 1) = kLeader" "running (member s 1)"
    "commit_index (member s 1) = 0" "config (member s 1) = demo_config 1 [2, 3]" "next_index (member s 1) 2 = Some 1"
    "log (member s 2) = [bootstrap_record, rec3 1 1 c]" "last_snapshot_index (member s 2) = 0" "last_snapshot_term (member s 2) = 0"
    "current_term (member s 2) = 1" "commit_index (member s 2) = 0"
    "(1, 2, as_match_index r) \<in> acked s" "as_success r" "as_match_index r = 1" "as_term r = 1" by (rule demo_run_stored)
  let ?n = "snd (snd (HandleAppendEntriesResponse demo_I 2 1 0 r (member s 1)))"
  have n: "commit_index ?n = 1" "next_index ?n 2 = Some 2" "log ?n = log (member s 1)" "last_snapshot_index ?n = 0" "last_snapshot_term ?n = 0"
    "current_term ?n = 1" "role ?n = kLeader" "running ?n" by (rule demo_advance [OF s(2-10,17-19)])+
  have "run_step demo_I {1, 2, 3} s (put_member 1 ?n s)" by (rule run_answer) (use s(16,17) in simp_all)
  with s(1) have r1: "run_reach demo_I {1, 2, 3} (put_member 1 ?n s)" by (rule next_run)
  let ?s1 = "put_member 1 ?n s"
  have l: "LastLogIndexLocked (member ?s1 1) < - 1" using n(3) s(2) by (simp add: LastLogIndexLocked_def rec3_def word_less_nat_alt unat_u64_max)
  have m: "member ?s1 1 = ?n" "member ?s1 2 = member s 2" by simp_all
  obtain q n2 where q: "BuildAppendEntriesRequest 2 1 (member ?s1 1) = (BatchAppend q, n2)" "aq_term q = 1" "prev_log_index q = 1"
    "prev_log_term q = 1" "entries q = []" "leader_commit q = commit_index ?n" "n2 = ?n\<lparr>next_index := (next_index ?n)(2 \<mapsto> 2)\<rparr>"
    unfolding m(1) by (rule demo_heartbeat [OF _ n(4-8,2)]) (use n(3) s(2) in simp)
  define s2 where "s2 = ?s1\<lparr>rep := (put_node 1 n2 (rep ?s1))\<lparr>sent := insert q (sent (rep ?s1))\<rparr>, posted := insert (2, q) (posted ?s1)\<rparr>"
  have "run_step demo_I {1, 2, 3} ?s1 s2" unfolding s2_def by (rule run_send [OF _ l q(1)]) simp
  with r1 have r2: "run_reach demo_I {1, 2, 3} s2" by (rule next_run)
  have m2: "member s2 2 = member s 2" by (simp add: s2_def)
  obtain x ap n3 where h: "OnAppendEntriesLocked demo_I q (member s2 2) = (x, ap, n3)" by (metis prod_cases3)
  have a: "log n3 = log (member s2 2)" "commit_index n3 = 1" "current_term n3 = 1"
    by (rule demo_learn [OF _ _ _ _ _ q(2-5) _ h]; use s m2 q(6) n(1) in simp)+
  have f: "last_snapshot_index n3 = 0"
    using OnAppendEntriesLocked_frame(3) [of demo_I q "member s2 2"] h s(12) m2 by simp
  define s3 where "s3 = append_answer q 2 x (put_member 2 n3 s2)"
  have "run_step demo_I {1, 2, 3} s2 s3" unfolding s3_def by (rule run_deliver [OF _ _ h]) (simp_all add: s2_def)
  with r2 have "run_reach demo_I {1, 2, 3} s3" by (rule next_run)
  with a f q(7) n s(2,11) m2 show thesis by (intro that [of s3]) (simp_all add: s3_def s2_def)
qed

end
