(* ===== verification/Server.thy ===== *)
theory Server
  imports DurableNode SnapshotCatalog Examples
begin

text \<open>
  A server process: the node on its real components. The constructor of the node creates a file storage
  for the data directory and a snapshot storage for the snapshot directory, and the default
  state machine is the key-value machine; all of them work on one file system. What an
  acknowledged vote or batch of entries leaves is followed through a crash of the process, the identity
  check and the load of the next constructor.
\<close>

section \<open>The components of a process\<close>

definition CreateFileRaftStorage ::
    "StorageFailpoint \<Rightarrow> string \<Rightarrow> (PersistentRaftState \<Rightarrow> fs \<Rightarrow> (string + unit) \<times> fs)
      \<times> (fs \<Rightarrow> (string + PersistentRaftState \<times> bool) \<times> fs)" where
  "CreateFileRaftStorage fp data_dir = (Storage_Save fp data_dir, Storage_Load data_dir)"

text \<open>The file operations of the node itself are the ones of the file system; removal ignores errors.\<close>

definition node_interfaces ::
    "StorageFailpoint \<Rightarrow> SnapshotStorageFailPoint \<Rightarrow> u64 \<Rightarrow> string \<Rightarrow> string \<Rightarrow> (fs, kv) interfaces" where
  "node_interfaces fp sfp now_ms data_dir snapshot_dir = \<lparr>
     storage_Save = fst (CreateFileRaftStorage fp data_dir), storage_Load = snd (CreateFileRaftStorage fp data_dir),
     sm_Apply = KvStateMachine_Apply, sm_SaveSnapshot = KvStateMachine_SaveSnapshot,
     sm_LoadSnapshot = KvStateMachine_LoadSnapshot,
     ss_SaveSnapshotFile = SaveSnapshotFile sfp now_ms snapshot_dir,
     ss_ListSnapshots = ListSnapshotsWithDiagnostics snapshot_dir,
     ss_PruneSnapshots = PruneSnapshots sfp snapshot_dir,
     file_exists = fs_exists, read_file = fs_read, write_file = fs_write,
     remove_file = (\<lambda>p w. snd (fs_remove p w)), create_dirs = fs_create_directories\<rparr>"

text \<open>What the constructor reads on a restart: the disk after the identity check.\<close>

definition booted :: "NodeConfig \<Rightarrow> (fs, kv) interfaces \<Rightarrow> fs \<Rightarrow> fs" where
  "booted cfg I w = snd (ValidateNodeIdentity I (effective_config cfg) (fs_restart w))"

lemma node_interfaces_simps [simp]:
  "storage_Save (node_interfaces fp sfp ms d s) = Storage_Save fp d"
  "storage_Load (node_interfaces fp sfp ms d s) = Storage_Load d"
  "file_exists (node_interfaces fp sfp ms d s) = fs_exists"
  "write_file (node_interfaces fp sfp ms d s) = fs_write"
  "create_dirs (node_interfaces fp sfp ms d s) = fs_create_directories"
  by (simp_all add: node_interfaces_def CreateFileRaftStorage_def)

section \<open>The identity check keeps the stored state\<close>

lemma identity_frame:
  assumes I: "create_dirs I = fs_create_directories" "write_file I = fs_write"
    and K: "\<And>q. K q \<Longrightarrow> q \<notin> set (ancestors (cfg_data_dir cfg)) \<and> q \<noteq> identity_path cfg"
  shows "framed K (ValidateNodeIdentity I cfg)"
  unfolding ValidateNodeIdentity_def [abs_def] I Let_def
  by (intro framed_rules) (use K in \<open>auto simp: identity_path_def\<close>)

lemma storage_beside_identity:
  assumes "plain_dir d" and "in_tree (log_dir_of d) q \<or> q = meta_path_of d \<or> q = meta_tmp_path_of d"
  shows "q \<notin> set (ancestors d) \<and> q \<noteq> path_append d ''node_identity.txt''"
proof -
  note p = storage_paths [OF assms(1)]
  have "under d q" using assms(2) by (auto simp: p in_tree_def intro: under_trans [OF under_child])
  then have "q \<notin> set (ancestors d)" by (rule under_not_ancestor)
  moreover have "q \<noteq> d @ CHR ''/'' # ''node_identity.txt''" using assms(2) by (auto simp: p in_tree_def under_def)
  ultimately show ?thesis by (simp add: path_append_plain [OF assms(1)])
qed

lemma identity_keeps_state:
  assumes I: "create_dirs I = fs_create_directories" "write_file I = fs_write"
    and h: "disk_holds (cfg_data_dir cfg) (Some s) w" and run: "ValidateNodeIdentity I cfg w = (r, w')"
  shows "disk_holds (cfg_data_dir cfg) (Some s) w'"
proof -
  let ?d = "cfg_data_dir cfg"
  let ?K = "\<lambda>q. in_tree (log_dir_of ?d) q \<or> q = meta_path_of ?d \<or> q = meta_tmp_path_of ?d"
  from h have ok: "storage_ok ?d w" by simp
  note okD = storage_okD [OF ok]
  have "framed ?K (ValidateNodeIdentity I cfg)"
    by (rule identity_frame [OF I]) (use storage_beside_identity [OF okD(1)] in \<open>simp add: identity_path_def\<close>)
  from framedD [OF this run okD(2)] have wf: "fs_wf w'" and same: "\<And>q. ?K q \<Longrightarrow> fs_lookup q w' = fs_lookup q w" by blast+
  have "under ?d (meta_path_of ?d)" by (simp add: storage_paths [OF okD(1)])
  then have "fs_lookup a w' = Some FDir" if "a \<in> set (ancestors ?d)" for a
    using that h same fs_wf_above [OF wf, of "meta_path_of ?d" a] under_trans by (auto simp: ancestors_under)
  then have anc: "fs_lookup a w' \<noteq> Some (FFile x)" if "a \<in> set (ancestors ?d)" for a x using that by simp
  have "storage_ok ?d w'"
    using okD(1) wf anc ok same by (simp add: storage_ok_def fs_is_dir_def)
  moreover have "holds_log (log_dir_of ?d) (ps_log s) w' = holds_log (log_dir_of ?d) (ps_log s) w"
    by (rule holds_log_cong) (rule same, simp add: in_tree_def)
  ultimately show ?thesis using h same by simp
qed

section \<open>The file storage across a restart of the process\<close>

text \<open>The contract of the storage holds with the restart that includes the identity check of the next constructor.\<close>

abbreviation data_dir_of :: "NodeConfig \<Rightarrow> string" where
  "data_dir_of cfg \<equiv> cfg_data_dir (effective_config cfg)"

interpretation process: state_storage "Storage_Save fp (data_dir_of cfg)" "Storage_Load (data_dir_of cfg)"
    "booted cfg (node_interfaces fp' sfp ms d' s)" "storage_ok (data_dir_of cfg)" storable_parts
  for fp fp' sfp ms d' s cfg
proof
  fix cfg fp fp' sfp ms d' s' and w w' :: fs and s :: PersistentRaftState
  let ?d = "data_dir_of cfg"
  assume ok: "storage_ok ?d w" and st: "storable_parts (ps_voted_for s) (ps_log s)"
  show "storage_ok ?d (snd (Storage_Save fp ?d s w))" by (rule files.save_good [OF ok st])
  assume run: "Storage_Save fp ?d s w = (Inr (), w')"
  have "disk_holds ?d (Some s) (fs_restart w')"
    using Save_ok [OF run ok] st by (simp add: storable_parts_iff)
  from identity_keeps_state [OF _ _ this prod.collapse [symmetric], of "node_interfaces fp' sfp ms d' s'"]
  have "disk_holds ?d (Some s) (booted cfg (node_interfaces fp' sfp ms d' s') w')" by (simp add: booted_def)
  from Load_disk_holds [OF this]
  show "fst (Storage_Load ?d (booted cfg (node_interfaces fp' sfp ms d' s') w')) = Inr (ClampRecoveredHardState s, True)"
    by simp
qed (rule files.fits_novote)


text \<open>A node constructed from a durable disk has the term and the vote, and starts from the log.\<close>

lemma construct_durable:
  assumes dur: "process.durable cfg fp sfp ms (data_dir_of cfg) s n"
    and run: "RaftNode_ctor (node_interfaces fp sfp ms (data_dir_of cfg) s) cfg scfg t m (fs_restart (disk n)) = Inr n'"
  shows "current_term n' = current_term n \<and> voted_for n' = voted_for n \<and> role n' = kFollower"
    and "\<not> (snap_enabled scfg \<and> load_on_startup scfg) \<Longrightarrow> log n \<noteq> [] \<Longrightarrow> log n' = log n"
proof -
  let ?I = "node_interfaces fp sfp ms (data_dir_of cfg) s"
  let ?w1 = "booted cfg ?I (disk n)"
  from run obtain u where "fst (ValidateNodeIdentity ?I (effective_config cfg) (fs_restart (disk n))) = Inr u"
    by (auto simp: RaftNode_ctor_def Let_def split: prod.splits sum.splits)
  then have v: "ValidateNodeIdentity ?I (effective_config cfg) (fs_restart (disk n)) = (Inr (), ?w1)"
    by (simp add: booted_def prod_eq_iff)
  from dur obtain ps w2 where l: "Storage_Load (data_dir_of cfg) ?w1 = (Inr (ps, True), w2)"
    and ps: "ps_current_term ps = current_term n" "ps_voted_for ps = voted_for n" "ps_log ps = log n"
    unfolding process.durable_def by (metis prod.collapse)
  have l': "storage_Load ?I ?w1 = (Inr (ps, True), w2)" using l by simp
  from ctor_hard_state [OF run v l'] ps
  show "current_term n' = current_term n \<and> voted_for n' = voted_for n \<and> role n' = kFollower" by simp
  assume no: "\<not> (snap_enabled scfg \<and> load_on_startup scfg)" and ne: "log n \<noteq> []"
  define a where "a = adopt_state ps (blank_node (effective_config cfg)
    (effective_snapshot_config (effective_config cfg) scfg) t m w2)"
  have "LoadLatestSnapshotOnStartup ?I a = (Inr None, a)"
    using no by (auto simp: LoadLatestSnapshotOnStartup_def a_def blank_node_def effective_snapshot_config_def)
  then have "replay_committed ?I a = Inr n'" using run v l by (simp add: RaftNode_ctor_def Let_def a_def)
  then have "log n' = log a" by (auto simp: replay_committed_def Let_def split_def split: if_splits)
  then show "log n' = log n" using ps(3) ne by (simp add: a_def adopt_state_def Let_def)
qed



text \<open>
  C3. A granted vote survives a crash. The node runs on its file storage with any I/O faults; the process is
  stopped after the vote was granted and a new one is constructed on the same directory, with any
  snapshots. The new node is a follower in the term of the request with the vote for its candidate, and it grants
  no other candidate a vote in that term.
\<close>

theorem vote_survives_restart:
  assumes "storage_ok (data_dir_of cfg) (disk n)" and "storable_parts (voted_for n) (log n)"
    and "storable_parts (candidate_id q) (log n)" and "candidate_id q \<noteq> - 1"
    and "OnRequestVote (node_interfaces fp sfp ms (data_dir_of cfg) s) q n = (rsp, n1)" and "vote_granted rsp"
    and "RaftNode_ctor (node_interfaces fp' sfp' ms' (data_dir_of cfg) s) cfg scfg t m (fs_restart (disk n1)) = Inr n2"
  shows "current_term n2 = vq_term q \<and> voted_for n2 = candidate_id q \<and> role n2 = kFollower \<and>
    (\<forall>I q'. vq_term q' = vq_term q \<longrightarrow> vote_granted (fst (OnRequestVote I q' n2)) \<longrightarrow> candidate_id q' = candidate_id q)"
proof -
  let ?I = "node_interfaces fp sfp ms (data_dir_of cfg) s"
  have g: "vote_granted (fst (OnRequestVote ?I q n))" using assms(5,6) by simp
  have "process.durable cfg fp' sfp' ms' (data_dir_of cfg) s (snd (OnRequestVote ?I q n))"
    by (rule process.vote_on_disk [OF _ assms(1-3) g]) simp
  then have "process.durable cfg fp' sfp' ms' (data_dir_of cfg) s n1" using assms(5) by simp
  note c = construct_durable(1) [OF this assms(7)]
  from OnRequestVote_granted [OF g] assms(5) have "current_term n1 = vq_term q" "voted_for n1 = candidate_id q" by simp_all
  with c assms(4) show ?thesis by (auto simp: OnRequestVote_granted_iff)
qed


section \<open>A process on a small disk\<close>

text \<open>Construction succeeds on a fault-free disk with a saved state, no identity file and nothing committed.\<close>

lemma construct_fresh:
  assumes h: "disk_holds (data_dir_of cfg) (Some st) w" and q: "fs_quiet w"
    and new: "fs_lookup (identity_path (effective_config cfg)) w = None"
    and zero: "ps_commit_index st = 0" "ps_last_applied st = 0"
    and no: "\<not> (snap_enabled scfg \<and> load_on_startup scfg)"
  shows "\<exists>n. RaftNode_ctor (node_interfaces fp sfp ms (data_dir_of cfg) s) cfg scfg t m w = Inr n"
proof -
  let ?d = "data_dir_of cfg" and ?p = "identity_path (effective_config cfg)"
  let ?I = "node_interfaces fp sfp ms ?d s"
  let ?w = "fold (\<lambda>a. fs_put a FDir) (ancestors ?d) w"
  from h have ok: "storage_ok ?d w" by simp
  note okD = storage_okD [OF ok]
  have p: "?p = ?d @ CHR ''/'' # ''node_identity.txt''" by (simp add: identity_path_def path_append_plain [OF okD(1)])
  have pn: "fs_lookup ?p ?w = None"
    using new under_not_ancestor [of ?d ?p] by (simp add: fold_put_lookup p)
  have "fs_write ?p c ?w = (Inr (), fs_put ?p (FFile c) ?w)" for c
  proof (rule fs_write_quiet)
    have "parent_path ?p = ?d" unfolding p by (rule split_last_component(2)) simp
    then show "parent_path ?p = [] \<or> fs_is_dir (parent_path ?p) ?w"
      using okD(3) by (simp add: fs_is_dir_def fold_put_lookup ancestors_under)
  qed (use q pn in \<open>simp_all add: fs_is_dir_def\<close>)
  then have "\<exists>w1. ValidateNodeIdentity ?I (effective_config cfg) w = (Inr (), w1)"
    using fs_create_directories_quiet [OF q okD(4)] pn by (simp add: ValidateNodeIdentity_def fs_exists_def Let_def)
  then obtain w1 where v: "ValidateNodeIdentity ?I (effective_config cfg) w = (Inr (), w1)" ..
  from Load_disk_holds [OF identity_keeps_state [OF _ _ h v]]
  have l: "storage_Load ?I w1 = (Inr (ClampRecoveredHardState st, True), w1)" by simp
  define a where "a = adopt_state (ClampRecoveredHardState st) (blank_node (effective_config cfg)
    (effective_snapshot_config (effective_config cfg) scfg) t m w1)"
  have "commit_index a = 0" "LoadLatestSnapshotOnStartup ?I a = (Inr None, a)"
    using no zero by (auto simp: a_def adopt_state_def blank_node_def ClampRecoveredHardState_def Let_def
        LoadLatestSnapshotOnStartup_def effective_snapshot_config_def)
  then have "RaftNode_ctor ?I cfg scfg t m w = Inr a"
    using v l by (simp add: RaftNode_ctor_def Let_def a_def replay_committed_def)
  then show ?thesis ..
qed

definition file_state :: "int \<Rightarrow> LogRecord list \<Rightarrow> PersistentRaftState" where
  "file_state v l = \<lparr>ps_current_term = 1, ps_voted_for = v, ps_commit_index = 0, ps_last_applied = 0, ps_log = l\<rparr>"

definition file_log :: "LogRecord list" where
  "file_log = [bootstrap_record, \<lparr>lr_index = 1, lr_term = 1, lr_command = ''SET|a|b''\<rparr>]"

lemma file_states_storable: "storable (file_state v [bootstrap_record])" "storable (file_state v file_log)"
  if "v = 1 \<or> v = - 1"
  using that by (auto simp: storable_def file_state_def file_log_def bootstrap_record_def storable_record_def
      kMaxCommandBytes_def consecutive_def less_Suc_eq nth_Cons')

text \<open>A node of a cluster of three on such a disk.\<close>

definition file_config :: NodeConfig where
  "file_config = \<lparr>cfg_node_id = 2, cfg_address = ''host'', cfg_peers = [\<lparr>peer_id = 1, peer_address = ''host''\<rparr>,
     \<lparr>peer_id = 3, peer_address = ''host''\<rparr>], election_timeout_min = 300, election_timeout_max = 600,
     heartbeat_interval = 100, rpc_deadline = 5, cfg_data_dir = ''d'', kv_limits = default_kv_limits\<rparr>"

definition file_node :: "int \<Rightarrow> fs \<Rightarrow> (fs, kv) raft_node" where
  "file_node v w = (blank_node file_config default_snapshot_config (timers_init (\<lambda>_. 0) 0) [] w)
     \<lparr>current_term := 1, voted_for := v, log := [bootstrap_record], running := True\<rparr>"

abbreviation file_I :: "(fs, kv) interfaces" where
  "file_I \<equiv> node_interfaces kNone snap_kNone 0 ''d'' ''s''"

lemma file_config_dir [simp]: "data_dir_of file_config = ''d''"
  "identity_path (effective_config file_config) = ''d/node_identity.txt''"
  by (simp_all add: effective_config_def file_config_def identity_path_def path_append_def)

lemma file_save:
  assumes "disk_holds ''d'' c w" and "fs_quiet w" and "storable st" and "fs_lookup ''d/node_identity.txt'' w = None"
  obtains w' where "Storage_Save kNone ''d'' st w = (Inr (), w')" "disk_holds ''d'' (Some st) (fs_restart w')"
    "fs_lookup ''d/node_identity.txt'' (fs_restart w') = None"
proof -
  have ok: "storage_ok ''d'' w" using assms(1) by (cases c) simp_all
  from Save_quiet [OF assms(2) ok assms(3)] obtain w' where run: "Storage_Save kNone ''d'' st w = (Inr (), w')" by blast
  have "foreign ''d'' ''d/node_identity.txt''"
    by (simp add: foreign_def in_tree_def path_append_def under_def ancestors_under)
  with framedD [OF Save_foreign [OF storage_okD(1) [OF ok]] run storage_okD(2) [OF ok]] assms(4)
  have "fs_lookup ''d/node_identity.txt'' (fs_restart w') = None" by simp
  with that run Save_ok [OF run ok assms(3)] show ?thesis by simp
qed

abbreviation file_restart :: "fs \<Rightarrow> (string \<times> fs) + (fs, kv) raft_node" where
  "file_restart w \<equiv> RaftNode_ctor file_I file_config (default_snapshot_config\<lparr>snap_enabled := False\<rparr>)
     (timers_init (\<lambda>_. 0) 0) [] (fs_restart w)"

lemma file_construct:
  assumes "disk_holds ''d'' (Some (file_state v l)) (fs_restart w)" and "fs_lookup ''d/node_identity.txt'' (fs_restart w) = None"
  shows "\<exists>n. file_restart w = Inr n"
  using construct_fresh [of file_config "file_state v l" "fs_restart w" "default_snapshot_config\<lparr>snap_enabled := False\<rparr>"
      kNone snap_kNone 0 "''s''", OF _ fs_restart_simps(1)] assms by (simp add: file_state_def)

definition file_vote :: VoteRequest where
  "file_vote = \<lparr>vq_term = 1, candidate_id = 1, vq_last_log_index = 0, vq_last_log_term = 0\<rparr>"

theorem vote_survives_restart_witness:
  "\<exists>rsp n1 n2. OnRequestVote file_I file_vote (file_node (- 1) empty_disk) = (rsp, n1) \<and> vote_granted rsp \<and>
    file_restart (disk n1) = Inr n2 \<and> voted_for n2 = 1"
proof -
  let ?n = "file_node (- 1) empty_disk"
  note st = file_states_storable(1) [of 1] file_states_storable(1) [of "- 1"]
  have "fs_lookup ''d/node_identity.txt'' empty_disk = None" by (simp add: empty_disk_def fs_lookup_def)
  from file_save [OF empty_disk_facts(3,1) st(1) this] obtain w' where
    w': "Storage_Save kNone ''d'' (file_state 1 [bootstrap_record]) empty_disk = (Inr (), w')"
    "disk_holds ''d'' (Some (file_state 1 [bootstrap_record])) (fs_restart w')"
    "fs_lookup ''d/node_identity.txt'' (fs_restart w') = None" by auto
  have ps: "persistent_state (voting_node file_I file_vote ?n) = file_state 1 [bootstrap_record]"
    "disk (voting_node file_I file_vote ?n) = empty_disk"
    by (simp_all add: voting_node_def file_vote_def file_node_def blank_node_def persistent_state_def file_state_def)
  have g: "vote_granted (fst (OnRequestVote file_I file_vote ?n))"
    using w'(1) ps by (simp add: OnRequestVote_granted_iff Persist_ok_iff)
      (simp add: file_vote_def file_node_def blank_node_def IsCandidateLogUpToDateLocked_def
        LastLogIndexLocked_def LastLogTermLocked_def bootstrap_record_def)
  obtain rsp n1 where run: "OnRequestVote file_I file_vote ?n = (rsp, n1)" by fastforce
  with OnRequestVote_granted_disk [OF g] w'(1) ps have d: "disk n1 = w'" by simp
  from file_construct [OF w'(2,3)] obtain n2 where c: "file_restart w' = Inr n2" by blast
  have parts: "storable_parts 1 [bootstrap_record]" "storable_parts (- 1) [bootstrap_record]"
    using st storable_parts_iff [of "file_state 1 [bootstrap_record]"] storable_parts_iff [of "file_state (- 1) [bootstrap_record]"]
    by (simp_all add: file_state_def)
  from vote_survives_restart [of file_config ?n file_vote, OF _ _ _ _ run [folded file_config_dir(1)]] g run d c empty_disk_facts(2) parts
  show ?thesis by (auto simp: file_node_def blank_node_def file_vote_def)
qed



section \<open>The disk stays a tree\<close>





end
