(* ===== verification/Logging.thy ===== *)
theory Logging
  imports Prelude
begin

text \<open>
  The log lines of the programs (\<^verbatim>\<open>runtime/logging.h\<close>): levels, the level filter, and the escaping that puts
  a message of any bytes on one line between quotes. What a call prints is its result; the clock and the
  time zone give the broken-down local time as an argument.
\<close>

datatype LogLevel = kDebug | kInfo | kWarn | kError

fun LogLevel_value :: "LogLevel \<Rightarrow> nat" where
  "LogLevel_value kDebug = 0"
| "LogLevel_value kInfo = 1"
| "LogLevel_value kWarn = 2"
| "LogLevel_value kError = 3"

fun LogLevelName :: "LogLevel \<Rightarrow> string" where
  "LogLevelName kDebug = ''DEBUG''"
| "LogLevelName kInfo = ''INFO''"
| "LogLevelName kWarn = ''WARN''"
| "LogLevelName kError = ''ERROR''"

definition TryParseLogLevel :: "string \<Rightarrow> LogLevel option" where
  "TryParseLogLevel text =
     (if text = ''debug'' \<or> text = ''DEBUG'' \<or> text = ''Debug'' then Some kDebug
      else if text = ''info'' \<or> text = ''INFO'' \<or> text = ''Info'' then Some kInfo
      else if text = ''warn'' \<or> text = ''WARN'' \<or> text = ''warning'' \<or> text = ''WARNING'' then Some kWarn
      else if text = ''error'' \<or> text = ''ERROR'' \<or> text = ''Error'' then Some kError
      else None)"

text \<open>
  \<^verbatim>\<open>NowString\<close>: the local time as \<^verbatim>\<open>localtime_r\<close> breaks it down, for four-digit years, and the milliseconds
  since the epoch.
\<close>

record local_time =
  tm_year :: nat
  tm_mon :: nat
  tm_mday :: nat
  tm_hour :: nat
  tm_min :: nat
  tm_sec :: nat
  since_epoch_ms :: nat

definition NowString :: "local_time \<Rightarrow> string" where
  "NowString t =
     zero_padded 4 (string_of_nat (tm_year t)) @ ''-'' @ zero_padded 2 (string_of_nat (tm_mon t)) @ ''-''
     @ zero_padded 2 (string_of_nat (tm_mday t)) @ '' '' @ zero_padded 2 (string_of_nat (tm_hour t)) @ '':''
     @ zero_padded 2 (string_of_nat (tm_min t)) @ '':'' @ zero_padded 2 (string_of_nat (tm_sec t)) @ ''.''
     @ zero_padded 3 (string_of_nat (since_epoch_ms t mod 1000))"

text \<open>Backslash, double quote, newline, carriage return, tab.\<close>

definition escape_char :: "char \<Rightarrow> string" where
  "escape_char ch =
     (if ch = CHR 0x5C then [CHR 0x5C, CHR 0x5C]
      else if ch = CHR 0x22 then [CHR 0x5C, CHR 0x22]
      else if ch = CHR 0x0A then [CHR 0x5C, CHR ''n'']
      else if ch = CHR 0x0D then [CHR 0x5C, CHR ''r'']
      else if ch = CHR 0x09 then [CHR 0x5C, CHR ''t'']
      else [ch])"

definition EscapeLogMessage :: "string \<Rightarrow> string" where
  "EscapeLogMessage message = concat (map escape_char message)"

text \<open>What one call prints: nothing below the global level, else one line. \<open>message\<close> is its arguments printed in order.\<close>

definition LogWithLevel :: "LogLevel \<Rightarrow> local_time \<Rightarrow> LogLevel \<Rightarrow> string \<Rightarrow> string \<Rightarrow> string" where
  "LogWithLevel global t level tag message =
     (if LogLevel_value level < LogLevel_value global then []
      else ''ts='' @ [CHR 0x22] @ NowString t @ [CHR 0x22] @ '' level='' @ LogLevelName level
        @ '' tag='' @ tag @ '' msg='' @ [CHR 0x22] @ EscapeLogMessage message @ [CHR 0x22, CHR 0x0A])"

definition Log :: "LogLevel \<Rightarrow> local_time \<Rightarrow> string \<Rightarrow> string \<Rightarrow> string" where
  "Log global t tag message = LogWithLevel global t kInfo tag message"

definition LogDebug :: "LogLevel \<Rightarrow> local_time \<Rightarrow> string \<Rightarrow> string \<Rightarrow> string" where
  "LogDebug global t tag message = LogWithLevel global t kDebug tag message"

definition LogWarn :: "LogLevel \<Rightarrow> local_time \<Rightarrow> string \<Rightarrow> string \<Rightarrow> string" where
  "LogWarn global t tag message = LogWithLevel global t kWarn tag message"

definition LogError :: "LogLevel \<Rightarrow> local_time \<Rightarrow> string \<Rightarrow> string \<Rightarrow> string" where
  "LogError global t tag message = LogWithLevel global t kError tag message"

section \<open>Reading a message back\<close>

text \<open>A reader of the quoted part: the message up to the first quote that is not escaped, and the rest.\<close>

definition unescaped :: "char \<Rightarrow> char" where
  "unescaped c = (if c = CHR ''n'' then CHR 0x0A else if c = CHR ''r'' then CHR 0x0D
     else if c = CHR ''t'' then CHR 0x09 else c)"

fun read_quoted :: "string \<Rightarrow> (string \<times> string) option" where
  "read_quoted [] = None"
| "read_quoted (c # s) =
     (if c = CHR 0x22 then Some ([], s)
      else if c = CHR 0x5C
      then (case s of [] \<Rightarrow> None
            | d # r \<Rightarrow> (case read_quoted r of None \<Rightarrow> None | Some (m, rest) \<Rightarrow> Some (unescaped d # m, rest)))
      else (case read_quoted s of None \<Rightarrow> None | Some (m, rest) \<Rightarrow> Some (c # m, rest)))"

lemma read_quoted_escape: "read_quoted (EscapeLogMessage m @ CHR 0x22 # rest) = Some (m, rest)"
proof (induction m)
  case (Cons c m)
  have e: "EscapeLogMessage (c # m) = escape_char c @ EscapeLogMessage m" by (simp add: EscapeLogMessage_def)
  show ?case unfolding e using Cons.IH by (simp add: escape_char_def unescaped_def)
qed (simp add: EscapeLogMessage_def)

lemma escape_one_line: "CHR 0x0A \<notin> set (EscapeLogMessage m)"
  by (auto simp: EscapeLogMessage_def escape_char_def split: if_splits)

lemma zero_padded_one_line: "CHR 0x0A \<notin> set (zero_padded k (string_of_nat n))"
  using string_of_nat_digits [of n] by (auto simp: zero_padded_def is_digit_def list_all_iff)

lemma NowString_one_line: "CHR 0x0A \<notin> set (NowString t)"
  unfolding NowString_def using zero_padded_one_line by simp

lemma LogLevelName_one_line: "CHR 0x0A \<notin> set (LogLevelName l)"
  by (cases l) simp_all

text \<open>
  C21. A log call prints nothing below the global level, else exactly one line, whatever bytes the message has
  (for tags without a newline, which all callers use), and the message can be read back from the quoted field at the
  end of that line.
\<close>

theorem log_line_roundtrip:
  assumes "CHR 0x0A \<notin> set tag"
  shows "(LogWithLevel global t level tag message = [] \<longleftrightarrow> LogLevel_value level < LogLevel_value global)
    \<and> (LogWithLevel global t level tag message \<noteq> [] \<longrightarrow>
        (\<exists>line. LogWithLevel global t level tag message = line @ [CHR 0x0A] \<and> CHR 0x0A \<notin> set line \<and>
           (\<exists>head quoted. line = head @ '' msg='' @ [CHR 0x22] @ quoted \<and> read_quoted quoted = Some (message, []))))"
proof (cases "LogLevel_value level < LogLevel_value global")
  case True
  then show ?thesis by (simp add: LogWithLevel_def)
next
  case False
  let ?head = "''ts='' @ [CHR 0x22] @ NowString t @ [CHR 0x22] @ '' level='' @ LogLevelName level @ '' tag='' @ tag"
  let ?quoted = "EscapeLogMessage message @ [CHR 0x22]"
  let ?line = "?head @ '' msg='' @ [CHR 0x22] @ ?quoted"
  have line: "LogWithLevel global t level tag message = ?line @ [CHR 0x0A]" using False by (simp add: LogWithLevel_def)
  have "CHR 0x0A \<notin> set ?line"
    using assms escape_one_line [of message] NowString_one_line [of t] LogLevelName_one_line [of level] by simp
  moreover have "\<exists>head quoted. ?line = head @ '' msg='' @ [CHR 0x22] @ quoted \<and> read_quoted quoted = Some (message, [])"
    by (rule exI [of _ ?head], rule exI [of _ ?quoted]) (rule conjI [OF refl read_quoted_escape])
  ultimately have "\<exists>line. LogWithLevel global t level tag message = line @ [CHR 0x0A] \<and> CHR 0x0A \<notin> set line \<and>
      (\<exists>head quoted. line = head @ '' msg='' @ [CHR 0x22] @ quoted \<and> read_quoted quoted = Some (message, []))"
    using line by - (rule exI [of _ ?line], rule conjI, assumption, rule conjI)
  with False show ?thesis by auto
qed

theorem log_line_roundtrip_witness:
  "\<exists>t. CHR 0x0A \<notin> set ''node'' \<and> LogWithLevel kInfo t kWarn ''node'' [CHR 0x0A, CHR 0x22] \<noteq> []
    \<and> (\<exists>line. LogWithLevel kInfo t kWarn ''node'' [CHR 0x0A, CHR 0x22] = line @ [CHR 0x0A] \<and> CHR 0x0A \<notin> set line)"
  using log_line_roundtrip [of "''node''" kInfo _ kWarn "[CHR 0x0A, CHR 0x22]"] by fastforce

end
