(* ===== verification/ServerMain.thy ===== *)
theory ServerMain
  imports Server Logging
begin

text \<open>
  The server program (\<^verbatim>\<open>apps/main.cpp\<close>): the configuration file, the node's configuration built from it, the
  summary it logs, and \<^verbatim>\<open>main\<close> from its arguments to its exit code, on the file system of the process. An
  exception is \<open>Inl\<close> with its text; \<^verbatim>\<open>std::stoi\<close> throws with the text \<open>stoi\<close>. A \<^verbatim>\<open>std::map\<close> with string keys is an
  association list that is read in key order, one with integer keys a list sorted by key.
\<close>

section \<open>Reading the configuration file\<close>

text \<open>\<^verbatim>\<open>Trim\<close> of this file removes everything \<^verbatim>\<open>std::isspace\<close> accepts.\<close>

definition TrimSpace :: "string \<Rightarrow> string" where
  "TrimSpace s = rev (dropWhile isspace (rev (dropWhile isspace s)))"

definition ParseBool :: "string \<Rightarrow> bool" where
  "ParseBool value =
     (let v = TrimSpace value
      in v = ''1'' \<or> v = ''true'' \<or> v = ''TRUE'' \<or> v = ''yes'' \<or> v = ''YES'' \<or> v = ''on'')"

text \<open>The loop over the lines.\<close>

fun config_lines :: "string list \<Rightarrow> kv \<Rightarrow> string + kv" where
  "config_lines [] m = Inr m"
| "config_lines (raw # rest) m =
     (let line = TrimSpace (takeWhile (\<lambda>c. c \<noteq> CHR ''#'') raw) in
      if line = [] then config_lines rest m
      else if CHR ''='' \<notin> set line then Inl (''bad config line, expected key=value: '' @ line)
      else let key = TrimSpace (takeWhile (\<lambda>c. c \<noteq> CHR ''='') line);
               val = TrimSpace (drop 1 (dropWhile (\<lambda>c. c \<noteq> CHR ''='') line))
           in if key = [] then Inl ''bad config line, empty key''
              else config_lines rest (kv_put key val m))"

text \<open>Opening a directory as a stream succeeds and yields no line.\<close>

definition LoadKeyValueConfig :: "string \<Rightarrow> fs \<Rightarrow> string + kv" where
  "LoadKeyValueConfig path w =
     (case fs_lookup path w of
        None \<Rightarrow> Inl (''failed to open config file: '' @ path)
      | Some FDir \<Rightarrow> Inr []
      | Some (FFile content) \<Rightarrow> config_lines (Split content (CHR 0x0A)) [])"

definition GetInt :: "kv \<Rightarrow> string \<Rightarrow> int \<Rightarrow> string + int" where
  "GetInt m key default_value =
     (case map_of m key of
        None \<Rightarrow> Inr default_value
      | Some text \<Rightarrow> (case stoi text of None \<Rightarrow> Inl ''stoi'' | Some v \<Rightarrow> Inr v))"

definition GetString :: "kv \<Rightarrow> string \<Rightarrow> string \<Rightarrow> string" where
  "GetString m key default_value = (case map_of m key of None \<Rightarrow> default_value | Some text \<Rightarrow> text)"

definition GetBool :: "kv \<Rightarrow> string \<Rightarrow> bool \<Rightarrow> bool" where
  "GetBool m key default_value = (case map_of m key of None \<Rightarrow> default_value | Some text \<Rightarrow> ParseBool text)"

section \<open>The members of the cluster\<close>

fun member_put :: "int \<Rightarrow> string \<Rightarrow> (int \<times> string) list \<Rightarrow> (int \<times> string) list" where
  "member_put i a [] = [(i, a)]"
| "member_put i a ((j, b) # ms) =
     (if i < j then (i, a) # (j, b) # ms else if i = j then (i, a) # ms else (j, b) # member_put i a ms)"

fun load_members :: "kv \<Rightarrow> (int \<times> string) list \<Rightarrow> string + (int \<times> string) list" where
  "load_members [] ms = Inr ms"
| "load_members ((key, val) # rest) ms =
     (if take 5 key \<noteq> ''node.'' then load_members rest ms
      else if drop 5 key = [] then load_members rest ms
      else case stoi (drop 5 key) of
             None \<Rightarrow> Inl ''stoi''
           | Some nid \<Rightarrow>
               if nid \<le> 0 then Inl (''node id must be positive: '' @ key)
               else load_members rest (member_put nid val ms))"

definition LoadMembers :: "kv \<Rightarrow> string + (int \<times> string) list" where
  "LoadMembers m =
     res_then (load_members (sorted_items m) [])
       (\<lambda>members. if members = [] then Inl ''config must contain at least one node.<id>=<host:port> entry''
                  else Inr members)"

section \<open>Building the configurations\<close>

text \<open>\<^verbatim>\<open>static_cast<std::size_t>\<close> of an \<^verbatim>\<open>int\<close>: negative values wrap.\<close>

definition size_t_of_int :: "int \<Rightarrow> nat" where
  "size_t_of_int i = nat (i mod 2 ^ 64)"

text \<open>\<^verbatim>\<open>config_path.has_parent_path() ? config_path.parent_path() : current_path()\<close>.\<close>

definition config_dir :: "string \<Rightarrow> string \<Rightarrow> string" where
  "config_dir cwd path =
     (if CHR ''/'' \<notin> set path then cwd
      else let d = rev (dropWhile (\<lambda>c. c = CHR ''/'') (dropWhile (\<lambda>c. c \<noteq> CHR ''/'') (rev path)))
           in if d = [] then ''/'' else d)"

definition BuildNodeConfig :: "string \<Rightarrow> kv \<Rightarrow> int \<Rightarrow> string \<Rightarrow> string + NodeConfig" where
  "BuildNodeConfig cwd m override_node_id config_path =
     res_then (LoadMembers m) (\<lambda>members.
     res_then (if override_node_id > 0 then Inr override_node_id else GetInt m ''node_id'' 1) (\<lambda>nid.
     case map_of members nid of
       None \<Rightarrow> Inl (''node_id='' @ string_of_int nid @ '' is not present in config members'')
     | Some address \<Rightarrow>
         res_then (GetInt m ''election_timeout_min_ms'' 800) (\<lambda>emin.
         res_then (GetInt m ''election_timeout_max_ms'' 1600) (\<lambda>emax.
         res_then (GetInt m ''heartbeat_interval_ms'' 150) (\<lambda>hb.
         res_then (GetInt m ''rpc_deadline_ms'' 500) (\<lambda>dl.
         res_then (GetInt m ''kv_max_key_bytes'' 256) (\<lambda>maxk.
         res_then (GetInt m ''kv_max_value_bytes'' (64 * 1024)) (\<lambda>maxv.
         res_then (GetInt m ''kv_max_command_bytes'' (1024 * 1024)) (\<lambda>maxc.
         Inr \<lparr>cfg_node_id = nid, cfg_address = address,
              cfg_peers = map (\<lambda>(i, a). \<lparr>peer_id = i, peer_address = a\<rparr>) (filter (\<lambda>(i, a). i \<noteq> nid) members),
              election_timeout_min = emin, election_timeout_max = emax, heartbeat_interval = hb, rpc_deadline = dl,
              cfg_data_dir = path_append (GetString m ''data_root'' (path_append (config_dir cwd config_path) ''raft_data''))
                (''node_'' @ string_of_int nid),
              kv_limits = \<lparr>max_key_bytes = size_t_of_int maxk, max_value_bytes = size_t_of_int maxv,
                max_command_bytes = size_t_of_int maxc\<rparr>\<rparr>)))))))))"

definition BuildSnapshotConfig :: "string \<Rightarrow> kv \<Rightarrow> int \<Rightarrow> string \<Rightarrow> string + snapshotConfig" where
  "BuildSnapshotConfig cwd m nid config_path =
     res_then (GetInt m ''snapshot_log_threshold'' 30) (\<lambda>threshold.
     res_then (GetInt m ''snapshot_interval_ms'' 600000) (\<lambda>interval.
     res_then (GetInt m ''snapshot_max_count'' 5) (\<lambda>count.
     Inr \<lparr>snap_enabled = GetBool m ''snapshot_enabled'' True,
          cfg_snapshot_dir = path_append
            (GetString m ''snapshot_root'' (path_append (config_dir cwd config_path) ''raft_snapshots''))
            (''node_'' @ string_of_int nid),
          log_threshold = word_of_int threshold, snapshot_interval = interval, max_snapshot_count = size_t_of_int count,
          load_on_startup = GetBool m ''snapshot_load_on_startup'' True,
          snap_file_prefix = GetString m ''snapshot_file_prefix'' ''snapshot''\<rparr>)))"

section \<open>The summary and main\<close>

text \<open>The messages handed to \<^verbatim>\<open>Log\<close> with the tag \<open>raft-node-main\<close>.\<close>

definition PrintConfigSummary :: "string \<Rightarrow> NodeConfig \<Rightarrow> snapshotConfig \<Rightarrow> string list" where
  "PrintConfigSummary config_path c s =
     (let size = string_of_nat (length (cfg_peers c) + 1) in
      [''config='' @ config_path,
       ''node_id='' @ string_of_int (cfg_node_id c),
       ''address='' @ cfg_address c,
       ''known_peers='' @ string_of_nat (length (cfg_peers c)) @ '' (addresses only; this process starts node_id=''
         @ string_of_int (cfg_node_id c) @ '')'']
      @ map (\<lambda>p. ''remote peer.'' @ string_of_int (peer_id p) @ ''='' @ peer_address p) (cfg_peers c)
      @ [''cluster_size='' @ size @ '', quorum='' @ string_of_nat ((length (cfg_peers c) + 1) div 2 + 1)]
      @ (if cfg_peers c = []
         then [''single-node mode: this node can elect itself as leader; ''
               @ ''use node.2/node.3 entries for a 3-node cluster'']
         else [])
      @ [''data_dir='' @ cfg_data_dir c,
         ''kv_max_key_bytes='' @ string_of_nat (max_key_bytes (kv_limits c))
           @ '', kv_max_value_bytes='' @ string_of_nat (max_value_bytes (kv_limits c))
           @ '', kv_max_command_bytes='' @ string_of_nat (max_command_bytes (kv_limits c)),
         ''snapshot_enabled='' @ (if snap_enabled s then ''true'' else ''false''),
         ''snapshot_dir='' @ cfg_snapshot_dir s])"

text \<open>
  What \<^verbatim>\<open>main\<close> depends on besides its arguments and the disk: the working directory, the test hooks and clock of the
  storages, the timers at construction, whether the gRPC server comes up, and what the threads of the node do in each sleep of
  the main loop until the signal arrives.
\<close>

record server_env =
  se_cwd :: string
  se_storage_failpoint :: StorageFailpoint
  se_snapshot_failpoint :: SnapshotStorageFailPoint
  se_now_ms :: u64
  se_timers :: timer_state
  se_server_ok :: bool
  se_sleeps :: "((fs, kv) raft_node \<Rightarrow> (fs, kv) raft_node) list"

text \<open>How it ended: exit code, level of the log, messages of \<^verbatim>\<open>main\<close> in order, disk.\<close>

record server_exit =
  exit_code :: int
  exit_level :: LogLevel
  exit_messages :: "string list"
  exit_disk :: fs

text \<open>The loop until the signal: sleep, then log the report of the node.\<close>

fun main_loop :: "((fs, kv) raft_node \<Rightarrow> (fs, kv) raft_node) list \<Rightarrow> (fs, kv) raft_node \<Rightarrow> string list \<times> (fs, kv) raft_node" where
  "main_loop [] n = ([], n)"
| "main_loop (f # rest) n =
     (let n1 = f n; (out, n2) = main_loop rest n1
      in (Describe (\<lambda>m. Some (KvStateMachine_DebugString m)) n1 # out, n2))"

definition fatal :: "LogLevel \<Rightarrow> string list \<Rightarrow> string \<Rightarrow> fs \<Rightarrow> server_exit" where
  "fatal level out e w = \<lparr>exit_code = 1, exit_level = level, exit_messages = out @ [''fatal: '' @ e], exit_disk = w\<rparr>"

text \<open>From the constructed node on; an exception after \<^verbatim>\<open>Start\<close> runs the destructor, which stops the node.\<close>

definition serve ::
    "server_env \<Rightarrow> (fs, kv) interfaces \<Rightarrow> LogLevel \<Rightarrow> string list \<Rightarrow> kv \<Rightarrow> (fs, kv) raft_node \<Rightarrow> server_exit" where
  "serve E I level out m n =
     (case Node_Start (se_server_ok E) n of
        (Inl e, n1) \<Rightarrow> fatal level out e (disk (Node_Stop I n1))
      | (Inr _, n1) \<Rightarrow>
          (case GetInt m ''describe_interval_ms'' 5000 of
             Inl e \<Rightarrow> fatal level out e (disk (Node_Stop I n1))
           | Inr _ \<Rightarrow>
               (let (reports, n2) = main_loop (se_sleeps E) n1
                in \<lparr>exit_code = 0, exit_level = level,
                    exit_messages = out @ reports @ [''stopping node'', ''node stopped''],
                    exit_disk = disk (Node_Stop I n2)\<rparr>)))"

definition server_config ::
    "string \<Rightarrow> string list \<Rightarrow> fs \<Rightarrow> LogLevel \<times> (string + string \<times> kv \<times> NodeConfig \<times> snapshotConfig)" where
  "server_config cwd args w =
     (let path = (if args = [] then ''config.txt'' else hd args);
          override = (if length args < 2 then Inr (- 1) else case stoi (args ! 1) of None \<Rightarrow> Inl ''stoi'' | Some i \<Rightarrow> Inr i)
      in case res_then override (\<lambda>o'. res_then (LoadKeyValueConfig path w) (\<lambda>m. Inr (o', m))) of
           Inl e \<Rightarrow> (kInfo, Inl e)
         | Inr (o', m) \<Rightarrow>
             (case TryParseLogLevel (GetString m ''log_level'' ''info'') of
                None \<Rightarrow> (kInfo, Inl (''invalid log_level: '' @ GetString m ''log_level'' ''info''))
              | Some level \<Rightarrow>
                  (level, res_then (BuildNodeConfig cwd m o' path) (\<lambda>c.
                          res_then (BuildSnapshotConfig cwd m (cfg_node_id c) path) (\<lambda>s. Inr (path, m, c, s))))))"

text \<open>The interfaces \<^verbatim>\<open>main\<close> gives to the node it constructs.\<close>

definition main_interfaces :: "server_env \<Rightarrow> NodeConfig \<Rightarrow> snapshotConfig \<Rightarrow> (fs, kv) interfaces" where
  "main_interfaces E c s = node_interfaces (se_storage_failpoint E) (se_snapshot_failpoint E) (se_now_ms E)
     (cfg_data_dir (effective_config c)) (cfg_snapshot_dir (effective_snapshot_config c s))"

text \<open>\<open>args\<close> are the arguments after the program name.\<close>

definition server_main :: "server_env \<Rightarrow> string list \<Rightarrow> fs \<Rightarrow> server_exit" where
  "server_main E args w =
     (case server_config (se_cwd E) args w of
        (level, Inl e) \<Rightarrow> fatal level [] e w
      | (level, Inr (path, m, c, s)) \<Rightarrow>
          (let out = PrintConfigSummary path c s;
               I = main_interfaces E c s
           in case RaftNode_ctor I c s (se_timers E) [] w of
                Inl (e, w1) \<Rightarrow> fatal level out e w1
              | Inr n \<Rightarrow> serve E I level out m n))"

text \<open>What appears on standard output: one log line per message, where the level lets it through.\<close>

definition server_output :: "(nat \<Rightarrow> local_time) \<Rightarrow> server_exit \<Rightarrow> string" where
  "server_output stamps x =
     concat (map (\<lambda>(i, m). Log (exit_level x) (stamps i) ''raft-node-main'' m) (enumerate 0 (exit_messages x)))"

section \<open>One configuration file, one cluster\<close>

lemma member_put_keys: "set (map fst (member_put i a ms)) = insert i (set (map fst ms))"
  by (induction i a ms rule: member_put.induct) auto

lemma member_put_sorted: "sorted_wrt (<) (map fst ms) \<Longrightarrow> sorted_wrt (<) (map fst (member_put i a ms))"
proof (induction i a ms rule: member_put.induct)
  case (2 i a j b ms)
  then show ?case using member_put_keys [of i a ms] by (auto simp del: set_map)
qed simp

lemma map_of_member_put: "map_of (member_put i a ms) = (map_of ms)(i \<mapsto> a)"
  by (induction i a ms rule: member_put.induct) auto

lemma load_members_ok:
  assumes "load_members items ms = Inr ms'" and "sorted_wrt (<) (map fst ms)" and "\<forall>i \<in> set (map fst ms). 0 < i"
  shows "sorted_wrt (<) (map fst ms') \<and> (\<forall>i \<in> set (map fst ms'). 0 < i)"
  using assms
proof (induction items ms rule: load_members.induct)
  case (2 key val rest ms)
  show ?case
  proof (cases "take 5 key \<noteq> ''node.'' \<or> drop 5 key = []")
    case True
    with 2 show ?thesis by (simp split: if_splits)
  next
    case False
    with "2.prems"(1) obtain nid where nid: "stoi (drop 5 key) = Some nid" "\<not> nid \<le> 0"
      "load_members rest (member_put nid val ms) = Inr ms'"
      by (simp split: option.splits if_splits)
    moreover have "\<forall>i \<in> set (map fst (member_put nid val ms)). 0 < i"
      using nid(2) "2.prems"(3) unfolding member_put_keys by simp
    ultimately show ?thesis
      using "2.IH"(3) [OF _ _ nid(1,2,3) member_put_sorted [OF "2.prems"(2)]] False by simp
  qed
qed simp

lemma LoadMembers_ok:
  assumes "LoadMembers m = Inr ms"
  shows "ms \<noteq> []" and "sorted_wrt (<) (map fst ms)" and "\<And>i. i \<in> fst ` set ms \<Longrightarrow> 0 < i" and "distinct (map fst ms)"
proof -
  from assms have l: "load_members (sorted_items m) [] = Inr ms" and ne: "ms \<noteq> []"
    by (auto simp: LoadMembers_def res_then_ok_iff split: if_splits)
  from load_members_ok [OF l] have ok: "sorted_wrt (<) (map fst ms)" "\<forall>i \<in> set (map fst ms). 0 < i" by simp_all
  with ne show "ms \<noteq> []" "sorted_wrt (<) (map fst ms)" "\<And>i. i \<in> fst ` set ms \<Longrightarrow> 0 < i" by auto
  from ok(1) show "distinct (map fst ms)" by (simp add: strict_sorted_iff)
qed

lemma BuildNodeConfig_ok:
  assumes "BuildNodeConfig cwd m ov path = Inr c"
  obtains ms where "LoadMembers m = Inr ms" "ov > 0 \<Longrightarrow> cfg_node_id c = ov"
    "map_of ms (cfg_node_id c) = Some (cfg_address c)"
    "cfg_peers c = map (\<lambda>(i, a). \<lparr>peer_id = i, peer_address = a\<rparr>) (filter (\<lambda>(i, a). i \<noteq> cfg_node_id c) ms)"
    "cfg_data_dir c = path_append (GetString m ''data_root'' (path_append (config_dir cwd path) ''raft_data''))
       (''node_'' @ string_of_int (cfg_node_id c))"
  using assms by (auto simp: BuildNodeConfig_def res_then_ok_iff split: option.splits if_splits)

lemma member_ids:
  "map peer_id (map (\<lambda>(i, a). \<lparr>peer_id = i, peer_address = a\<rparr>) ms) = map fst ms"
  by (simp add: split_def)

lemma BuildNodeConfig_member:
  assumes "BuildNodeConfig cwd m ov path = Inr c" and "LoadMembers m = Inr ms"
  shows "member_ok (fst ` set ms) (cfg_node_id c) c" and "cfg_node_id c \<in> fst ` set ms"
proof -
  from assms obtain m: "map_of ms (cfg_node_id c) = Some (cfg_address c)"
    and p: "cfg_peers c = map (\<lambda>(i, a). \<lparr>peer_id = i, peer_address = a\<rparr>) (filter (\<lambda>(i, a). i \<noteq> cfg_node_id c) ms)"
    by (elim BuildNodeConfig_ok) simp
  have "distinct (map fst (filter (\<lambda>(i, a). i \<noteq> cfg_node_id c) ms))"
    using LoadMembers_ok(4) [OF assms(2)] by (rule distinct_map_filter)
  then show "member_ok (fst ` set ms) (cfg_node_id c) c" unfolding member_ok_def p member_ids by auto
  from m show "cfg_node_id c \<in> fst ` set ms" by (force dest: map_of_SomeD)
qed

lemma effective_member_ok: "member_ok M i (effective_config c) = member_ok M i c"
  by (simp add: member_ok_def effective_config_def)

text \<open>
  C23. One configuration file describes one cluster. Let every member the file names build its configuration with its own id and
  construct its node. Then these nodes are a start of the cluster of exactly those members, as the election theorem
  takes it: every node knows itself and all others once, with the addresses of the file, and is a follower. Different members use
  different data directories, and an id that the file does not name is refused.
\<close>

theorem config_file_forms_cluster:
  assumes ms: "LoadMembers m = Inr ms"
    and built: "\<And>i. i \<in> fst ` set ms \<Longrightarrow> BuildNodeConfig cwd m i path = Inr (c i)"
    and made: "\<And>i. i \<in> fst ` set ms \<Longrightarrow> \<exists>I scfg t mach w. RaftNode_ctor I (c i) scfg t mach w = Inr (nodes s i)"
    and fresh: "elections s = (\<lambda>_ _. None)" "answered s = (\<lambda>_ _. {})" "replies s = {}" "led s = {}"
  shows "cluster_init (fst ` set ms) s
    \<and> (\<forall>i \<in> fst ` set ms. \<forall>p \<in> set (peers (nodes s i)). map_of ms (peer_id p) = Some (peer_address p))
    \<and> inj_on (\<lambda>i. cfg_data_dir (c i)) (fst ` set ms)
    \<and> (\<forall>i > 0. i \<notin> fst ` set ms \<longrightarrow>
         BuildNodeConfig cwd m i path = Inl (''node_id='' @ string_of_int i @ '' is not present in config members''))"
proof -
  note lm = LoadMembers_ok [OF ms]
  have id: "cfg_node_id (c i) = i"
    "cfg_peers (c i) = map (\<lambda>(j, a). \<lparr>peer_id = j, peer_address = a\<rparr>) (filter (\<lambda>(j, a). j \<noteq> i) ms)"
    "cfg_data_dir (c i) = path_append (GetString m ''data_root'' (path_append (config_dir cwd path) ''raft_data''))
       (''node_'' @ string_of_int i)" if i: "i \<in> fst ` set ms" for i
    using built [OF i] ms lm(3) [OF i] by (auto elim!: BuildNodeConfig_ok)
  have node: "member_ok (fst ` set ms) i (config (nodes s i))" "role (nodes s i) = kFollower"
    "config (nodes s i) = effective_config (c i)" if i: "i \<in> fst ` set ms" for i
    using made [OF i] BuildNodeConfig_member(1) [OF built [OF i] ms] id(1) [OF i]
    by (auto dest!: ctor_config simp: effective_member_ok)
  have "cluster_init (fst ` set ms) s" using node lm(3) [of "- 1"] fresh by (auto simp: cluster_init_def)
  moreover have "map_of ms (peer_id p) = Some (peer_address p)" if "i \<in> fst ` set ms" "p \<in> set (peers (nodes s i))" for i p
    using that(2) lm(4) by (auto simp: node(3) [OF that(1)] effective_config_def id(2) [OF that(1)] map_of_eq_Some_iff split: if_splits)
  moreover have "inj_on (\<lambda>i. cfg_data_dir (c i)) (fst ` set ms)"
    by (rule inj_onI) (simp add: id(3) path_append_inject)
  moreover have "BuildNodeConfig cwd m i path = Inl (''node_id='' @ string_of_int i @ '' is not present in config members'')"
    if "0 < i" "i \<notin> fst ` set ms" for i
    using that by (simp add: BuildNodeConfig_def ms map_of_eq_None_iff [THEN iffD2])
  ultimately show ?thesis by blast
qed

definition demo_members :: kv where
  "demo_members = [(''node.2'', ''b''), (''node.1'', ''a'')]"

definition demo_built :: "int \<Rightarrow> NodeConfig" where
  "demo_built i = projr (BuildNodeConfig ''/r'' demo_members i ''config.txt'')"

lemma demo_load: "LoadMembers demo_members = Inr [(1, ''a''), (2, ''b'')]"
  by (simp add: LoadMembers_def demo_members_def sorted_items_def stoi_def isspace_def is_digit_def digits_value_def
      digit_value_def Let_def)

lemma demo_build: "i \<in> {1, 2} \<Longrightarrow> BuildNodeConfig ''/r'' demo_members i ''config.txt'' = Inr (demo_built i)"
  unfolding demo_built_def
  by (auto simp: BuildNodeConfig_def demo_load GetInt_def) (simp_all add: demo_members_def)

lemma demo_fresh:
  "\<exists>n. RaftNode_ctor (demo_interfaces []) cfg (default_snapshot_config\<lparr>snap_enabled := False\<rparr>) (timers_init (\<lambda>_. 0) 0) [] None = Inr n"
  by (simp add: RaftNode_ctor_def ValidateNodeIdentity_def demo_interfaces_def LoadLatestSnapshotOnStartup_def
      effective_snapshot_config_def replay_committed_def blank_node_def Let_def)

theorem config_file_forms_cluster_witness:
  "\<exists>s :: (PersistentRaftState option, kv) cluster. cluster_init {1, 2} s"
proof -
  have "\<forall>i. \<exists>n. RaftNode_ctor (demo_interfaces []) (demo_built i) (default_snapshot_config\<lparr>snap_enabled := False\<rparr>)
      (timers_init (\<lambda>_. 0) 0) [] None = Inr n" using demo_fresh by blast
  then obtain n where n: "\<And>i. RaftNode_ctor (demo_interfaces []) (demo_built i) (default_snapshot_config\<lparr>snap_enabled := False\<rparr>)
      (timers_init (\<lambda>_. 0) 0) [] None = Inr (n i)"
    using choice [where Q = "\<lambda>i n. RaftNode_ctor (demo_interfaces []) (demo_built i) (default_snapshot_config\<lparr>snap_enabled := False\<rparr>)
      (timers_init (\<lambda>_. 0) 0) [] None = Inr n"] by blast
  let ?s = "\<lparr>nodes = n, elections = (\<lambda>_ _. None), answered = (\<lambda>_ _. {}), replies = {}, led = {}\<rparr>"
  have k: "fst ` set [(1 :: int, ''a''), (2, ''b'')] = {1, 2}" by auto
  have "cluster_init (fst ` set [(1 :: int, ''a''), (2, ''b'')]) ?s"
    using config_file_forms_cluster [OF demo_load, of "''/r''" "''config.txt''" demo_built ?s] demo_build n
    unfolding k by fastforce
  then show ?thesis unfolding k by blast
qed

section \<open>How the program ends\<close>

lemma main_loop_reports: "length (fst (main_loop sleeps n)) = length sleeps"
  by (induction sleeps arbitrary: n) (simp_all add: Let_def split_def)

lemma main_loop_node: "snd (main_loop sleeps n) = fold (\<lambda>f. f) sleeps n"
  by (induction sleeps arbitrary: n) (simp_all add: Let_def split_def)

lemma serve_cases:
  "serve E I level out m n = x \<longleftrightarrow>
     (case Node_Start (se_server_ok E) n of
        (Inl e, n1) \<Rightarrow> x = fatal level out e (disk (Node_Stop I n1))
      | (Inr _, n1) \<Rightarrow> (case GetInt m ''describe_interval_ms'' 5000 of
          Inl e \<Rightarrow> x = fatal level out e (disk (Node_Stop I n1))
        | Inr _ \<Rightarrow> x = \<lparr>exit_code = 0, exit_level = level,
            exit_messages = out @ fst (main_loop (se_sleeps E) n1) @ [''stopping node'', ''node stopped''],
            exit_disk = disk (Node_Stop I (fold (\<lambda>f. f) (se_sleeps E) n1))\<rparr>))"
  by (auto simp: serve_def main_loop_node split_def Let_def split: prod.split sum.split)

text \<open>
  How the server program ends. It exits with \<open>0\<close> exactly when the configuration is complete, the node could be
  constructed and started, and the report interval is a number; then it has logged the summary, one report per round of its loop and
  the two closing messages, and the disk is the one the stopped node left. In every other case it exits with
  \<open>1\<close> and its last message says why; a bad configuration leaves the disk alone.
\<close>

theorem server_exit_code:
  "let x = server_main E args w in
   case server_config (se_cwd E) args w of
      (level, Inl e) \<Rightarrow> x = \<lparr>exit_code = 1, exit_level = level, exit_messages = [''fatal: '' @ e], exit_disk = w\<rparr>
    | (level, Inr (path, m, c, s)) \<Rightarrow>
        (if \<exists>n n1 i. RaftNode_ctor (main_interfaces E c s) c s (se_timers E) [] w = Inr n \<and>
              Node_Start (se_server_ok E) n = (Inr (), n1) \<and> GetInt m ''describe_interval_ms'' 5000 = Inr i
         then exit_code x = 0 \<and> (\<exists>reports n n1. length reports = length (se_sleeps E) \<and>
              exit_messages x = PrintConfigSummary path c s @ reports @ [''stopping node'', ''node stopped''] \<and>
              RaftNode_ctor (main_interfaces E c s) c s (se_timers E) [] w = Inr n \<and> Node_Start (se_server_ok E) n = (Inr (), n1) \<and>
              exit_disk x = disk (Node_Stop (main_interfaces E c s) (fold (\<lambda>f. f) (se_sleeps E) n1)))
         else exit_code x = 1 \<and> (\<exists>e. exit_messages x = PrintConfigSummary path c s @ [''fatal: '' @ e]))"
proof -
  define x where "x = server_main E args w"
  obtain level r where cfg: "server_config (se_cwd E) args w = (level, r)" by fastforce
  show ?thesis
  proof (cases r)
    case (Inl e)
    with cfg show ?thesis by (simp add: server_main_def fatal_def Let_def)
  next
    case (Inr y)
    obtain path m c s where y: "y = (path, m, c, s)" by (cases y) auto
    have x: "x = (case RaftNode_ctor (main_interfaces E c s) c s (se_timers E) [] w of
        Inl (e, w1) \<Rightarrow> fatal level (PrintConfigSummary path c s) e w1
      | Inr n \<Rightarrow> serve E (main_interfaces E c s) level (PrintConfigSummary path c s) m n)"
      using cfg Inr y by (simp add: x_def server_main_def Let_def)
    show ?thesis
    proof (cases "RaftNode_ctor (main_interfaces E c s) c s (se_timers E) [] w")
      case (Inl z)
      with cfg Inr y x show ?thesis unfolding x_def [symmetric] Let_def by (cases z) (simp add: fatal_def)
    next
      case n: (Inr n)
      obtain q n1 where st: "Node_Start (se_server_ok E) n = (q, n1)" by fastforce
      note sc = serve_cases [of E "main_interfaces E c s" level "PrintConfigSummary path c s" m n x]
      show ?thesis
        unfolding x_def [symmetric] Let_def using sc cfg \<open>r = Inr y\<close> y x n st main_loop_reports [of "se_sleeps E" n1]
        by (cases q; cases "GetInt m ''describe_interval_ms'' 5000") (auto simp: fatal_def)
    qed
  qed
qed

end
