(* ===== verification/Services.thy ===== *)
theory Services
  imports Recovery
begin

text \<open>
  The gRPC services in front of a node (\<^verbatim>\<open>service/kv_service_impl.cpp\<close>, \<^verbatim>\<open>service/raft_service_impl.cpp\<close>): requests and
  responses as records, one function per call. The transport status is always OK, so the functions return
  the response. \<open>env\<close> is what other threads do to the node while a handler does not hold its mutex. The clock counts
  milliseconds and latencies are recorded in microseconds.
\<close>

section \<open>Messages\<close>

datatype KvStatusCode = KV_STATUS_CODE_UNSPECIFIED | KV_STATUS_CODE_OK | KV_STATUS_CODE_NOT_LEADER
  | KV_STATUS_CODE_INVALID_ARGUMENT | KV_STATUS_CODE_KEY_NOT_FOUND | KV_STATUS_CODE_INTERNAL_ERROR
  | KV_STATUS_CODE_NODE_STOPPING | KV_STATUS_CODE_TIMEOUT

text \<open>\<open>PutResponse\<close> and \<open>DeleteResponse\<close> have the same fields.\<close>

record WriteResponse =
  wr_code :: KvStatusCode
  wr_message :: string
  wr_leader_id :: int
  wr_leader_address :: string
  wr_term :: u64
  wr_log_index :: u64

record GetResponse =
  gr_code :: KvStatusCode
  gr_message :: string
  gr_leader_id :: int
  gr_leader_address :: string
  gr_term :: u64
  gr_found :: bool
  gr_value :: string

record StatusResponse =
  st_status :: NodeStatusSnapshot
  st_metrics :: metrics_state

record HealthResponse =
  hr_ok :: bool
  hr_message :: string
  hr_node_id :: int
  hr_role :: string
  hr_term :: u64
  hr_leader_id :: int

record MetricsResponse =
  mr_node_id :: int
  mr_role :: string
  mr_term :: u64
  mr_leader_id :: int
  mr_leader_address :: string
  mr_metrics :: metrics_state

section \<open>The key-value service\<close>

definition FillMetricsSnapshot :: "metrics_state \<Rightarrow> metrics_state" where
  "FillMetricsSnapshot s =
     \<lparr>propose_success_count = propose_success_count s, propose_failure_count = propose_failure_count s,
      election_count = election_count s, leader_change_count = leader_change_count s,
      snapshot_success_count = snapshot_success_count s, snapshot_failure_count = snapshot_failure_count s,
      storage_persist_failure_count = storage_persist_failure_count s,
      rpc_metrics = map (\<lambda>m. \<lparr>metric_name = metric_name m, success_count = success_count m, failure_count = failure_count m,
        total_latency_us = total_latency_us m, max_latency_us = max_latency_us m\<rparr>) (rpc_metrics s)\<rparr>"

fun ToKvStatusCode :: "ProposeStatus \<Rightarrow> KvStatusCode" where
  "ToKvStatusCode Propose_kOk = KV_STATUS_CODE_OK"
| "ToKvStatusCode Propose_kNotLeader = KV_STATUS_CODE_NOT_LEADER"
| "ToKvStatusCode Propose_kInvalidCommand = KV_STATUS_CODE_INVALID_ARGUMENT"
| "ToKvStatusCode Propose_kNodeStopping = KV_STATUS_CODE_NODE_STOPPING"
| "ToKvStatusCode Propose_kTimeout = KV_STATUS_CODE_TIMEOUT"
| "ToKvStatusCode Propose_kReplicationFailed = KV_STATUS_CODE_INTERNAL_ERROR"
| "ToKvStatusCode Propose_kCommitFailed = KV_STATUS_CODE_INTERNAL_ERROR"
| "ToKvStatusCode Propose_kApplyFailed = KV_STATUS_CODE_INTERNAL_ERROR"

definition FillCommonWriteResponse :: "NodeStatusSnapshot \<Rightarrow> ProposeResult \<Rightarrow> WriteResponse" where
  "FillCommonWriteResponse status result =
     \<lparr>wr_code = ToKvStatusCode (pr_status result), wr_message = pr_message result,
      wr_leader_id = pr_leader_id result, wr_leader_address = nss_leader_address status,
      wr_term = pr_term result, wr_log_index = pr_log_index result\<rparr>"

text \<open>The answer to a request that fails validation, and the end of every handler.\<close>

definition invalid_write :: "string \<Rightarrow> NodeStatusSnapshot \<Rightarrow> WriteResponse" where
  "invalid_write reason status =
     \<lparr>wr_code = KV_STATUS_CODE_INVALID_ARGUMENT, wr_message = reason, wr_leader_id = nss_leader_id status,
      wr_leader_address = nss_leader_address status, wr_term = nss_term status, wr_log_index = 0\<rparr>"

definition rpc_done :: "RpcKind \<Rightarrow> bool \<Rightarrow> int \<Rightarrow> ('w, 'm) raft_node \<Rightarrow> ('w, 'm) raft_node" where
  "rpc_done kind success start n = RecordRpcLatency kind success (1000 * (clock (timers n) - start)) n"

text \<open>The common part of \<^verbatim>\<open>Put\<close> and \<^verbatim>\<open>Delete\<close> once the request is valid.\<close>

definition propose_write ::
    "RpcKind \<Rightarrow> ('w, 'm) interfaces \<Rightarrow> ('w, 'm) transport \<Rightarrow> (('w, 'm) raft_node \<Rightarrow> ('w, 'm) raft_node)
      \<Rightarrow> int \<Rightarrow> Command \<Rightarrow> ('w, 'm) raft_node \<Rightarrow> (WriteResponse \<times> ('w, 'm) raft_node) option" where
  "propose_write kind I tr env start command n =
     (case Propose I tr command n of
        None \<Rightarrow> None
      | Some (result, n1) \<Rightarrow>
          let n2 = env n1
          in Some (FillCommonWriteResponse (GetStatusSnapshot n2) result,
                   rpc_done kind (pr_status result = Propose_kOk) start n2))"

definition Kv_Put ::
    "('w, 'm) interfaces \<Rightarrow> ('w, 'm) transport \<Rightarrow> (('w, 'm) raft_node \<Rightarrow> ('w, 'm) raft_node) \<Rightarrow> string \<Rightarrow> string
      \<Rightarrow> ('w, 'm) raft_node \<Rightarrow> (WriteResponse \<times> ('w, 'm) raft_node) option" where
  "Kv_Put I tr env key val n =
     (let limits = kv_limits (config n);
          reason = (case ValidateKeyUnlocked limits key of Some r \<Rightarrow> Some r | None \<Rightarrow> ValidateValueUnlocked limits val);
          n1 = env n
      in case reason of
           Some r \<Rightarrow> Some (invalid_write r (GetStatusSnapshot n1), rpc_done kKvPut False (clock (timers n)) n1)
         | None \<Rightarrow> propose_write kKvPut I tr env (clock (timers n))
                     \<lparr>cmd_type = kSet, cmd_key = key, cmd_value = val\<rparr> n1)"

definition Kv_Delete ::
    "('w, 'm) interfaces \<Rightarrow> ('w, 'm) transport \<Rightarrow> (('w, 'm) raft_node \<Rightarrow> ('w, 'm) raft_node) \<Rightarrow> string
      \<Rightarrow> ('w, 'm) raft_node \<Rightarrow> (WriteResponse \<times> ('w, 'm) raft_node) option" where
  "Kv_Delete I tr env key n =
     (let n1 = env n
      in case ValidateKeyUnlocked (kv_limits (config n)) key of
           Some r \<Rightarrow> Some (invalid_write r (GetStatusSnapshot n1), rpc_done kKvDelete False (clock (timers n)) n1)
         | None \<Rightarrow> propose_write kKvDelete I tr env (clock (timers n))
                     \<lparr>cmd_type = kDelete, cmd_key = key, cmd_value = []\<rparr> n1)"

text \<open>\<open>view m\<close> is the lookup of the state machine when it is the key-value machine.\<close>

definition DebugGetValue :: "('m \<Rightarrow> (string \<Rightarrow> string option) option) \<Rightarrow> string \<Rightarrow> ('w, 'm) raft_node \<Rightarrow> string option" where
  "DebugGetValue view key n = (case view (state_machine n) of None \<Rightarrow> None | Some get \<Rightarrow> get key)"

definition kv_view :: "kv \<Rightarrow> (string \<Rightarrow> string option) option" where
  "kv_view m = Some (\<lambda>key. KvStateMachine_Get key m)"

definition Kv_Get ::
    "('m \<Rightarrow> (string \<Rightarrow> string option) option) \<Rightarrow> (('w, 'm) raft_node \<Rightarrow> ('w, 'm) raft_node) \<Rightarrow> string
      \<Rightarrow> ('w, 'm) raft_node \<Rightarrow> GetResponse \<times> ('w, 'm) raft_node" where
  "Kv_Get view env key n =
     (let start = clock (timers n); n1 = env n; status = GetStatusSnapshot n1;
          r = \<lparr>gr_code = KV_STATUS_CODE_UNSPECIFIED, gr_message = [], gr_leader_id = nss_leader_id status,
               gr_leader_address = nss_leader_address status, gr_term = nss_term status,
               gr_found = False, gr_value = []\<rparr>
      in case ValidateKeyUnlocked (kv_limits (config n)) key of
           Some reason \<Rightarrow>
             (r\<lparr>gr_code := KV_STATUS_CODE_INVALID_ARGUMENT, gr_message := reason\<rparr>, rpc_done kKvGet False start n1)
         | None \<Rightarrow>
             if nss_role status \<noteq> ''Leader''
             then (r\<lparr>gr_code := KV_STATUS_CODE_NOT_LEADER, gr_message := ''node is not the leader''\<rparr>,
                   rpc_done kKvGet False start n1)
             else let n2 = env n1 in
                  case DebugGetValue view key n2 of
                    None \<Rightarrow> (r\<lparr>gr_code := KV_STATUS_CODE_KEY_NOT_FOUND, gr_message := ''key not found''\<rparr>,
                             rpc_done kKvGet False start n2)
                  | Some v \<Rightarrow> (r\<lparr>gr_code := KV_STATUS_CODE_OK, gr_message := ''ok'', gr_found := True, gr_value := v\<rparr>,
                               rpc_done kKvGet True start n2))"

definition Kv_Status ::
    "(('w, 'm) raft_node \<Rightarrow> ('w, 'm) raft_node) \<Rightarrow> ('w, 'm) raft_node \<Rightarrow> StatusResponse \<times> ('w, 'm) raft_node" where
  "Kv_Status env n =
     (let n1 = env n
      in (\<lparr>st_status = GetStatusSnapshot n, st_metrics = FillMetricsSnapshot (GetMetricsSnapshot n1)\<rparr>,
          rpc_done kKvStatus True (clock (timers n)) n1))"

definition Kv_Health ::
    "(('w, 'm) raft_node \<Rightarrow> ('w, 'm) raft_node) \<Rightarrow> ('w, 'm) raft_node \<Rightarrow> HealthResponse \<times> ('w, 'm) raft_node" where
  "Kv_Health env n =
     (let status = GetStatusSnapshot n; n1 = env n; n2 = env n1
      in (\<lparr>hr_ok = running n1, hr_message = (if running n2 then ''ok'' else ''stopping''),
           hr_node_id = nss_node_id status, hr_role = nss_role status, hr_term = nss_term status,
           hr_leader_id = nss_leader_id status\<rparr>,
          rpc_done kKvHealth (running n1) (clock (timers n)) n2))"

definition Kv_Metrics ::
    "(('w, 'm) raft_node \<Rightarrow> ('w, 'm) raft_node) \<Rightarrow> ('w, 'm) raft_node \<Rightarrow> MetricsResponse \<times> ('w, 'm) raft_node" where
  "Kv_Metrics env n =
     (let status = GetStatusSnapshot n; n1 = env n
      in (\<lparr>mr_node_id = nss_node_id status, mr_role = nss_role status, mr_term = nss_term status,
           mr_leader_id = nss_leader_id status, mr_leader_address = nss_leader_address status,
           mr_metrics = FillMetricsSnapshot (GetMetricsSnapshot n1)\<rparr>,
          rpc_done kKvMetrics True (clock (timers n)) n1))"

section \<open>The Raft service\<close>

definition Service_RequestVote ::
    "('w, 'm) interfaces \<Rightarrow> (('w, 'm) raft_node \<Rightarrow> ('w, 'm) raft_node) \<Rightarrow> VoteRequest \<Rightarrow> ('w, 'm) raft_node
      \<Rightarrow> VoteResponse \<times> ('w, 'm) raft_node" where
  "Service_RequestVote I env request n =
     (let (response, n1) = OnRequestVote I request n
      in (response, rpc_done kRequestVote True (clock (timers n)) (env n1)))"

definition Service_AppendEntries ::
    "('w, 'm) interfaces \<Rightarrow> (('w, 'm) raft_node \<Rightarrow> ('w, 'm) raft_node) \<Rightarrow> AppendEntriesRequest \<Rightarrow> ('w, 'm) raft_node
      \<Rightarrow> AppendEntriesResponse \<times> ('w, 'm) raft_node" where
  "Service_AppendEntries I env request n =
     (let (response, n1) = OnAppendEntries I request n
      in (response, rpc_done kAppendEntries True (clock (timers n)) (env n1)))"

definition Service_InstallSnapshot ::
    "('w, 'm) interfaces \<Rightarrow> (('w, 'm) raft_node \<Rightarrow> ('w, 'm) raft_node) \<Rightarrow> InstallSnapshotRequest \<Rightarrow> ('w, 'm) raft_node
      \<Rightarrow> InstallSnapshotResponse \<times> ('w, 'm) raft_node" where
  "Service_InstallSnapshot I env request n =
     (let (response, n1) = OnInstallSnapshot I env request n
      in (response, rpc_done kInstallSnapshot True (clock (timers n)) (env n1)))"

end
