(* ===== verification/KvService.thy ===== *)
theory KvService
  imports Services
begin

text \<open>
  The key-value service of a server without peers as an implementation of a map: \<open>kv_spec\<close> says what a sequence of
  client requests must answer, and \<open>Kv_Calls_refine\<close> that the handlers, the proposal path, the commit rule, the apply loop
  and the state machine together answer exactly that.
\<close>

section \<open>The effect of a command\<close>

lemma command_effect:
  assumes v: "ValidateCommandUnlocked limits c = None" and ne: "cmd_type c = kSet \<Longrightarrow> cmd_value c \<noteq> []"
  shows "apply_Ok (fst (KvStateMachine_Apply i (Serialize c) m))"
    and "KvStateMachine_Get key (snd (KvStateMachine_Apply i (Serialize c) m)) =
      (if key = cmd_key c then (if cmd_type c = kSet then Some (cmd_value c) else None)
       else KvStateMachine_Get key m)"
proof -
  note w = Validate_no_delimiter [OF v]
  obtain ty k val where c: "c = \<lparr>cmd_type = ty, cmd_key = k, cmd_value = val\<rparr>" by (cases c) auto
  have "apply_Ok (fst (KvStateMachine_Apply i (Serialize c) m)) \<and>
    KvStateMachine_Get key (snd (KvStateMachine_Apply i (Serialize c) m)) =
      (if key = cmd_key c then (if cmd_type c = kSet then Some (cmd_value c) else None)
       else KvStateMachine_Get key m)"
  proof (cases ty)
    case kUnknown
    with w(1) c show ?thesis by simp
  next
    case kSet
    then show ?thesis
      using w(2-4) ne c Deserialize_Serialize_set [of k val]
      by (simp add: KvStateMachine_Apply_def KvStateMachine_Get_def IsValid_def map_of_kv_put
          Serialize_def kInternalNoOpCommand_def)
  next
    case kDelete
    then show ?thesis
      using w(2,3) c Deserialize_Serialize_delete [of k val]
      by (simp add: KvStateMachine_Apply_def KvStateMachine_Get_def IsValid_def map_of_kv_erase
          Serialize_def kInternalNoOpCommand_def)
  qed
  then show "apply_Ok (fst (KvStateMachine_Apply i (Serialize c) m))"
    and "KvStateMachine_Get key (snd (KvStateMachine_Apply i (Serialize c) m)) =
      (if key = cmd_key c then (if cmd_type c = kSet then Some (cmd_value c) else None)
       else KvStateMachine_Get key m)" by simp_all
qed

section \<open>A server without peers\<close>

text \<open>A running leader without peers that has applied its whole log.\<close>

definition serving :: "('w, 'm) raft_node \<Rightarrow> bool" where
  "serving n \<longleftrightarrow> running n \<and> role n = kLeader \<and> peers n = [] \<and> 0 < rpc_deadline (config n) \<and> log_wf n \<and>
     last_snapshot_index n \<le> last_applied n \<and> last_applied n = commit_index n \<and> commit_index n = LastLogIndexLocked n"

lemma servingD:
  assumes "serving n"
  shows "running n" "role n = kLeader" "peers n = []" "0 < rpc_deadline (config n)" "log_wf n"
    "last_snapshot_index n \<le> last_applied n" "last_applied n = LastLogIndexLocked n" "commit_index n = LastLogIndexLocked n"
  using assms by (auto simp: serving_def)

lemma metrics_irrelevant [simp]:
  "LastLogIndexLocked (n\<lparr>metrics := x\<rparr>) = LastLogIndexLocked n" "serving (n\<lparr>metrics := x\<rparr>) = serving n"
  by (simp_all add: serving_def log_wf_def LastLogIndexLocked_def)

lemma last_plus_one:
  assumes "LastLogIndexLocked n < - 1"
  shows "SafeAddOne (LastLogIndexLocked n) = LastLogIndexLocked n + 1"
    and "LastLogIndexLocked n < SafeAddOne (LastLogIndexLocked n)"
  using SafeAddOne_eq_Suc [OF assms] unat_add_one [OF assms] by (simp_all add: u64_simps word_unat_eq_iff)

text \<open>The node after the leader's append, and the facts the rest of a proposal needs of it.\<close>

lemma append_serving:
  fixes I c n
  defines "i \<equiv> SafeAddOne (LastLogIndexLocked n)" and "n1 \<equiv> snd (AppendLocalLogUnlocked I c n)"
  assumes ok: "saves_ok I" and s: "serving n" and room: "LastLogIndexLocked n < - 1"
  shows "AppendLocalLogUnlocked I c n = (i, n1)" and "log_wf n1" and "LastLogIndexLocked n1 = i"
    and "LogAtIndexLocked i n1 = Some \<lparr>lr_index = i, lr_term = current_term n, lr_command = c\<rparr>"
proof -
  have f: "fst (AppendLocalLogUnlocked I c n) = i"
    using saves_ok_Persist [OF ok] by (simp add: Append_result i_def)
  then show "AppendLocalLogUnlocked I c n = (i, n1)" by (simp add: prod_eq_iff n1_def)
  have l: "log n1 = log n @ [\<lparr>lr_index = i, lr_term = current_term n, lr_command = c\<rparr>]"
    using f unfolding n1_def by (simp add: Append_log i_def)
  show wf: "log_wf n1" unfolding n1_def by (rule log_wf_Append [OF servingD(5) [OF s] room])
  show "LastLogIndexLocked n1 = i" using l by (simp add: LastLogIndexLocked_def)
  show "LogAtIndexLocked i n1 = Some \<lparr>lr_index = i, lr_term = current_term n, lr_command = c\<rparr>"
    using l by (simp add: LogAtIndexLocked_Some_iff [OF log_wfD(2) [OF wf]])
qed

lemma wait_alone:
  assumes "running n" "role n = kLeader" "peers n = []" "0 < rpc_deadline (config n)" "HasLogAtIndexLocked i n"
  shows "ReplicateLogEntryToMajority I tr i n = Some (kReplicated, n)"
proof -
  have "replicate_round I tr i n = (Some kReplicated, n)"
    using assms by (simp add: replicate_round_def majority_def Let_def)
  with assms(4) show ?thesis by (simp add: ReplicateLogEntryToMajority_def)
qed

text \<open>After the append the commit rule takes the new index and the apply loop the new record.\<close>

lemma commit_and_apply_alone:
  fixes I c n
  defines "i \<equiv> SafeAddOne (LastLogIndexLocked n)" and "n1 \<equiv> snd (AppendLocalLogUnlocked I c n)"
  defines "n2 \<equiv> snd (ApplyCommittedEntries I (AdvanceCommitIndexUnlocked I n1))"
  assumes ok: "saves_ok I" and s: "serving n" and room: "LastLogIndexLocked n < - 1"
    and ap: "apply_Ok (fst (sm_Apply I i c (state_machine n)))"
  shows "apply_Ok (fst (ApplyCommittedEntries I (AdvanceCommitIndexUnlocked I n1)))"
    and "last_applied n2 = i" and "serving n2" and "LastLogIndexLocked n2 = i"
    and "state_machine n2 = snd (sm_Apply I i c (state_machine n))"
    and "config n2 = config n" and "current_term n2 = current_term n"
proof -
  let ?r = "\<lparr>lr_index = i, lr_term = current_term n, lr_command = c\<rparr>"
  let ?n = "AdvanceCommitIndexUnlocked I n1"
  note sv = servingD [OF s]
  note app = append_serving [OF ok s room, of c, folded i_def n1_def]
  note i = last_plus_one [OF room, folded i_def]
  have fr: "commit_index n1 = commit_index n" "last_applied n1 = last_applied n" "current_term n1 = current_term n"
    "role n1 = role n" "config n1 = config n" "running n1 = running n" "last_snapshot_index n1 = last_snapshot_index n"
    "last_snapshot_term n1 = last_snapshot_term n" "state_machine n1 = state_machine n"
    unfolding n1_def by simp_all
  have "HasLogAtIndexLocked i n1" using app(4) by (simp add: LogAtIndexLocked_def split: if_splits)
  moreover have "TermAtIndexLocked i n1 = current_term n1" using app(4) fr by (simp add: TermAtIndexLocked_eq [OF app(2)])
  ultimately have "commit_candidate i n1 = Some i"
    using i(2) sv(3,8) fr by (subst commit_candidate.simps) (simp add: majority_def replicated_count_def)
  then have ci: "commit_index ?n = i"
    using sv(2) fr app(3) log_wfD(1) [OF app(2)] by (simp add: AdvanceCommitIndexUnlocked_def)
  have last: "LastLogIndexLocked ?n = i" using app(3) by (simp add: LastLogIndexLocked_def split: if_splits)
  have wf: "log_wf ?n" using app(2) by (simp add: log_wf_def)
  have able: "applicable ?n" using wf ci last sv(6,7) fr i(2) by (simp add: applicable_def)
  have at: "LogAtIndexLocked (last_applied ?n + 1) ?n = Some ?r"
    using app(4) i(1) sv(7) fr by (simp add: LogAt_cong [of ?n n1])
  have "unapplied (?n\<lparr>last_applied := last_applied ?n + 1\<rparr>) = []"
    using i(1) sv(7) fr ci by (intro unapplied_nil) simp
  moreover have "last_applied ?n < commit_index ?n" "last_snapshot_index ?n \<le> last_applied ?n"
    "commit_index ?n \<le> LastLogIndexLocked ?n" using ci last sv(6,7) fr i(2) by simp_all
  ultimately have un: "unapplied ?n = [?r]" using unapplied_Cons [OF wf] at by fastforce
  obtain res m where res: "sm_Apply I i c (state_machine n) = (res, m)" by fastforce
  with ap have run: "apply_run (sm_Apply I) (unapplied ?n) (state_machine ?n) = (None, 1, m)"
    using un fr by simp
  note ref = Apply_refines_run [OF ok able, unfolded run]
  from ref show "apply_Ok (fst (ApplyCommittedEntries I ?n))" by simp
  from ref show la: "last_applied n2 = i" using ci by (simp add: n2_def)
  from ref res show "state_machine n2 = snd (sm_Apply I i c (state_machine n))" by (simp add: n2_def)
  show cf: "config n2 = config n" and "current_term n2 = current_term n" using fr by (simp_all add: n2_def)
  show ll: "LastLogIndexLocked n2 = i" using last by (simp add: n2_def LastLogIndexLocked_def split: if_splits)
  have "log_wf n2" using wf by (simp add: n2_def log_wf_def)
  then show "serving n2" using sv fr cf la ll ci i(2) by (simp add: serving_def n2_def)
qed

text \<open>A valid command proposed to such a server: it is appended, committed, applied and acknowledged.\<close>

lemma propose_alone:
  fixes I c n
  defines "i \<equiv> SafeAddOne (LastLogIndexLocked n)"
  assumes ok: "saves_ok I" and s: "serving n" and room: "LastLogIndexLocked n < - 1"
    and v: "ValidateCommandUnlocked (kv_limits (config n)) c = None"
    and ap: "apply_Ok (fst (sm_Apply I i (Serialize c) (state_machine n)))"
  shows "\<exists>r n'. Propose I tr c n = Some (r, n') \<and> pr_status r = Propose_kOk \<and> pr_log_index r = i \<and>
    pr_term r = current_term n \<and> serving n' \<and> LastLogIndexLocked n' = i \<and> config n' = config n \<and>
    state_machine n' = snd (sm_Apply I i (Serialize c) (state_machine n))"
proof -
  let ?n1 = "snd (AppendLocalLogUnlocked I (Serialize c) n)"
  let ?n2 = "snd (ApplyCommittedEntries I (AdvanceCommitIndexUnlocked I ?n1))"
  let ?r = "ProposeResult_init\<lparr>pr_leader_id := node_id ?n1, pr_term := current_term n, pr_log_index := i,
       pr_message := ''log appended locally''\<rparr>"
  note sv = servingD [OF s]
  note app = append_serving [OF ok s room, of "Serialize c", folded i_def]
  note ca = commit_and_apply_alone [OF ok s room ap [unfolded i_def], folded i_def]
  have ne: "Serialize c \<noteq> []" using v by (auto simp: ValidateCommandUnlocked_def Let_def split: if_splits option.splits)
  have i0: "i \<noteq> 0" unfolding i_def by simp
  have "fst (AppendLocalLogUnlocked I (Serialize c) n) = i" using app(1) by (metis fst_conv)
  then have b: "propose_begin I c n = (Inr ?r, ?n1)"
    using sv(1,2) v ne i0 by (simp add: propose_begin_def Let_def split_def)
  have "HasLogAtIndexLocked i ?n1" using app(4) by (simp add: LogAtIndexLocked_def split: if_splits)
  then have w: "ReplicateLogEntryToMajority I tr i ?n1 = Some (kReplicated, ?n1)"
    using sv(1-4) by (intro wait_alone) simp_all
  have f: "propose_finish I ?r kReplicated ?n1 =
      (?r\<lparr>pr_status := Propose_kOk, pr_message := ''command committed and applied''\<rparr>, RecordProposeResult True ?n2)"
    using ca(1,2) by (simp add: propose_finish_def Let_def split_def)
  have "Propose I tr c n = Some (?r\<lparr>pr_status := Propose_kOk, pr_message := ''command committed and applied''\<rparr>,
      RecordProposeResult True ?n2)"
    using b w f by (simp add: Propose_def)
  moreover have "serving (RecordProposeResult True ?n2)" "LastLogIndexLocked (RecordProposeResult True ?n2) = i"
    "config (RecordProposeResult True ?n2) = config n"
    "state_machine (RecordProposeResult True ?n2) = snd (sm_Apply I i (Serialize c) (state_machine n))"
    using ca(3-6) by (simp_all add: RecordProposeResult_def)
  ultimately show ?thesis by fastforce
qed

section \<open>Sequences of requests\<close>

text \<open>
  What the other threads of such a server may do between the sections of a handler: run timers, count, let time
  pass. They do not touch the fields below: without peers nothing arrives from outside.
\<close>

definition undisturbed :: "(('w, 'm) raft_node \<Rightarrow> ('w, 'm) raft_node) \<Rightarrow> bool" where
  "undisturbed env \<longleftrightarrow> (\<forall>n. config (env n) = config n \<and> running (env n) = running n \<and> role (env n) = role n \<and>
     current_term (env n) = current_term n \<and> leader_id (env n) = leader_id n \<and> log (env n) = log n \<and>
     commit_index (env n) = commit_index n \<and> last_applied (env n) = last_applied n \<and>
     last_snapshot_index (env n) = last_snapshot_index n \<and> last_snapshot_term (env n) = last_snapshot_term n \<and>
     state_machine (env n) = state_machine n)"

lemma undisturbed_fields:
  assumes "undisturbed env"
  shows "config (env n) = config n" "role (env n) = role n" "state_machine (env n) = state_machine n"
    "LastLogIndexLocked (env n) = LastLogIndexLocked n" "serving (env n) = serving n"
  using assms unfolding undisturbed_def by (simp_all add: serving_def log_wf_def LastLogIndexLocked_def)

datatype kv_request = PutRequest string string | DeleteRequest string | GetRequest string

text \<open>One call of the service: the status code and, for a \<^verbatim>\<open>Get\<close>, the value found.\<close>

fun Kv_Call ::
    "('w, kv) interfaces \<Rightarrow> ('w, kv) transport \<Rightarrow> (('w, kv) raft_node \<Rightarrow> ('w, kv) raft_node) \<Rightarrow> kv_request
      \<Rightarrow> ('w, kv) raft_node \<Rightarrow> ((KvStatusCode \<times> string option) \<times> ('w, kv) raft_node) option" where
  "Kv_Call I tr env (PutRequest key val) n =
     (case Kv_Put I tr env key val n of None \<Rightarrow> None | Some (r, n1) \<Rightarrow> Some ((wr_code r, None), n1))"
| "Kv_Call I tr env (DeleteRequest key) n =
     (case Kv_Delete I tr env key n of None \<Rightarrow> None | Some (r, n1) \<Rightarrow> Some ((wr_code r, None), n1))"
| "Kv_Call I tr env (GetRequest key) n =
     (let (r, n1) = Kv_Get kv_view env key n in Some ((gr_code r, if gr_found r then Some (gr_value r) else None), n1))"

fun Kv_Calls ::
    "('w, kv) interfaces \<Rightarrow> ('w, kv) transport \<Rightarrow> (('w, kv) raft_node \<Rightarrow> ('w, kv) raft_node) \<Rightarrow> kv_request list
      \<Rightarrow> ('w, kv) raft_node \<Rightarrow> ((KvStatusCode \<times> string option) list \<times> ('w, kv) raft_node) option" where
  "Kv_Calls I tr env [] n = Some ([], n)"
| "Kv_Calls I tr env (q # qs) n =
     (case Kv_Call I tr env q n of None \<Rightarrow> None
      | Some (a, n1) \<Rightarrow> (case Kv_Calls I tr env qs n1 of None \<Rightarrow> None | Some (answers, n2) \<Rightarrow> Some (a # answers, n2)))"

text \<open>The specification: a map, and limits on sizes. A command's text has five more bytes than key and value.\<close>

definition good_key :: "KvRequestLimits \<Rightarrow> string \<Rightarrow> bool" where
  "good_key limits key \<longleftrightarrow> key \<noteq> [] \<and> CHR ''|'' \<notin> set key \<and> length key \<le> max_key_bytes limits"

fun kv_spec :: "KvRequestLimits \<Rightarrow> kv_request \<Rightarrow> (string \<Rightarrow> string option)
    \<Rightarrow> (KvStatusCode \<times> string option) \<times> (string \<Rightarrow> string option)" where
  "kv_spec limits (PutRequest key val) m =
     (if good_key limits key \<and> CHR ''|'' \<notin> set val \<and> length val \<le> max_value_bytes limits
         \<and> length key + length val + 5 \<le> max_command_bytes limits
      then ((KV_STATUS_CODE_OK, None), m(key \<mapsto> val)) else ((KV_STATUS_CODE_INVALID_ARGUMENT, None), m))"
| "kv_spec limits (DeleteRequest key) m =
     (if good_key limits key \<and> length key + 5 \<le> max_command_bytes limits
      then ((KV_STATUS_CODE_OK, None), m(key := None)) else ((KV_STATUS_CODE_INVALID_ARGUMENT, None), m))"
| "kv_spec limits (GetRequest key) m =
     ((if \<not> good_key limits key then (KV_STATUS_CODE_INVALID_ARGUMENT, None)
       else case m key of None \<Rightarrow> (KV_STATUS_CODE_KEY_NOT_FOUND, None) | Some v \<Rightarrow> (KV_STATUS_CODE_OK, Some v)), m)"

fun kv_spec_run :: "KvRequestLimits \<Rightarrow> kv_request list \<Rightarrow> (string \<Rightarrow> string option)
    \<Rightarrow> (KvStatusCode \<times> string option) list \<times> (string \<Rightarrow> string option)" where
  "kv_spec_run limits [] m = ([], m)"
| "kv_spec_run limits (q # qs) m =
     (let (a, m1) = kv_spec limits q m; (answers, m2) = kv_spec_run limits qs m1 in (a # answers, m2))"

definition kv_contents :: "('w, kv) raft_node \<Rightarrow> string \<Rightarrow> string option" where
  "kv_contents n key = KvStateMachine_Get key (state_machine n)"

lemma validate_key_iff: "ValidateKeyUnlocked limits key = None \<longleftrightarrow> good_key limits key"
  by (auto simp: ValidateKeyUnlocked_def good_key_def)

lemma validate_value_iff:
  "ValidateValueUnlocked limits val = None \<longleftrightarrow> CHR ''|'' \<notin> set val \<and> length val \<le> max_value_bytes limits"
  by (auto simp: ValidateValueUnlocked_def)

lemma validate_set_iff:
  "ValidateCommandUnlocked limits \<lparr>cmd_type = kSet, cmd_key = key, cmd_value = val\<rparr> = None \<longleftrightarrow>
   good_key limits key \<and> CHR ''|'' \<notin> set val \<and> length val \<le> max_value_bytes limits
     \<and> length key + length val + 5 \<le> max_command_bytes limits"
  using validate_key_iff [of limits key] validate_value_iff [of limits val]
  by (auto simp: ValidateCommandUnlocked_def IsValid_def Serialize_def Let_def good_key_def split: option.splits if_splits)

lemma validate_delete_iff:
  "ValidateCommandUnlocked limits \<lparr>cmd_type = kDelete, cmd_key = key, cmd_value = []\<rparr> = None \<longleftrightarrow>
   good_key limits key \<and> length key + 5 \<le> max_command_bytes limits"
  using validate_key_iff [of limits key]
  by (auto simp: ValidateCommandUnlocked_def IsValid_def Serialize_def Let_def good_key_def split: option.splits if_splits)

text \<open>What one call keeps, next to the contents of the machine.\<close>

definition served :: "('w, 'm) raft_node \<Rightarrow> ('w, 'm) raft_node \<Rightarrow> bool" where
  "served n n' \<longleftrightarrow> serving n' \<and> config n' = config n \<and> unat (LastLogIndexLocked n') \<le> Suc (unat (LastLogIndexLocked n))"

lemma served_refl [simp]: "served n n = serving n"
  by (simp add: served_def)

lemma rpc_done_served [simp]: "served n (rpc_done kind b t n') = served n n'"
  by (simp add: served_def rpc_done_def RecordRpcLatency_def)

lemma rpc_done_contents [simp]: "kv_contents (rpc_done kind b t n) = kv_contents n"
  by (simp add: kv_contents_def rpc_done_def RecordRpcLatency_def fun_eq_iff)

lemma undisturbed_served [simp]: "undisturbed env \<Longrightarrow> served n (env n') = served n n'" "undisturbed env \<Longrightarrow> served (env n) n' = served n n'"
  by (simp_all add: served_def undisturbed_fields)

lemma undisturbed_contents [simp]: "undisturbed env \<Longrightarrow> kv_contents (env n) = kv_contents n"
  by (simp add: kv_contents_def undisturbed_fields fun_eq_iff)

lemma propose_write_ok:
  assumes ok: "saves_ok I" "sm_Apply I = KvStateMachine_Apply" and e: "undisturbed env" and s: "serving n" "LastLogIndexLocked n < - 1"
    and v: "ValidateCommandUnlocked (kv_limits (config n)) c = None" "cmd_type c = kSet \<Longrightarrow> cmd_value c \<noteq> []"
  shows "\<exists>r n'. propose_write kind I tr env start c n = Some (r, n') \<and> wr_code r = KV_STATUS_CODE_OK \<and> served n n' \<and>
    kv_contents n' = (kv_contents n)(cmd_key c := if cmd_type c = kSet then Some (cmd_value c) else None)"
proof -
  let ?i = "SafeAddOne (LastLogIndexLocked n)"
  note eff = command_effect [OF v]
  have "apply_Ok (fst (sm_Apply I ?i (Serialize c) (state_machine n)))" using eff(1) ok(2) by simp
  from propose_alone [OF ok(1) s v(1) this, of tr] obtain r n' where
    p: "Propose I tr c n = Some (r, n')" "pr_status r = Propose_kOk" "serving n'" "LastLogIndexLocked n' = ?i"
    "config n' = config n" "state_machine n' = snd (sm_Apply I ?i (Serialize c) (state_machine n))" by blast
  have "kv_contents n' = (kv_contents n)(cmd_key c := if cmd_type c = kSet then Some (cmd_value c) else None)"
    using p(6) ok(2) eff(2) by (simp add: kv_contents_def fun_eq_iff)
  moreover have "served n n'" using p(3-5) SafeAddOne_eq_Suc [OF s(2)] by (simp add: served_def)
  ultimately show ?thesis using p(1,2) e by (simp add: propose_write_def FillCommonWriteResponse_def Let_def)
qed

lemma propose_write_invalid:
  assumes e: "undisturbed env" and s: "serving n" and v: "ValidateCommandUnlocked (kv_limits (config n)) c = Some reason"
  shows "\<exists>r n'. propose_write kind I tr env start c n = Some (r, n') \<and> wr_code r = KV_STATUS_CODE_INVALID_ARGUMENT \<and>
    served n n' \<and> kv_contents n' = kv_contents n"
proof -
  have "propose_begin I c n = (Inl (ProposeResult_init\<lparr>pr_status := Propose_kInvalidCommand, pr_leader_id := node_id n,
      pr_term := current_term n, pr_message := reason\<rparr>), RecordProposeResult False n)"
    using servingD(1,2) [OF s] v by (simp add: propose_begin_def Let_def)
  moreover have "served n (RecordProposeResult False n)" "kv_contents (RecordProposeResult False n) = kv_contents n"
    using s by (simp_all add: served_def RecordProposeResult_def kv_contents_def fun_eq_iff)
  ultimately show ?thesis using e by (simp add: propose_write_def Propose_def FillCommonWriteResponse_def Let_def)
qed

text \<open>A command that fits, and one that does not, in one statement.\<close>

lemma propose_write_refines:
  assumes "saves_ok I" "sm_Apply I = KvStateMachine_Apply" "undisturbed env" "serving n" "LastLogIndexLocked n < - 1"
    and "cmd_type c = kSet \<Longrightarrow> cmd_value c \<noteq> []"
  shows "\<exists>r n'. propose_write kind I tr env start c (env n) = Some (r, n') \<and> served n n' \<and>
    (if ValidateCommandUnlocked (kv_limits (config n)) c = None
     then wr_code r = KV_STATUS_CODE_OK \<and>
       kv_contents n' = (kv_contents n)(cmd_key c := if cmd_type c = kSet then Some (cmd_value c) else None)
     else wr_code r = KV_STATUS_CODE_INVALID_ARGUMENT \<and> kv_contents n' = kv_contents n)"
proof -
  note cf = undisturbed_fields [OF assms(3), of n]
  have s: "serving (env n)" "LastLogIndexLocked (env n) < - 1" using assms(4,5) cf by simp_all
  show ?thesis
  proof (cases "ValidateCommandUnlocked (kv_limits (config n)) c")
    case None
    with propose_write_ok [OF assms(1-3) s, of c kind tr start] cf assms(3,6) show ?thesis by (cases "cmd_type c = kSet") auto
  next
    case (Some reason)
    with propose_write_invalid [OF assms(3) s(1), of c reason kind I tr start] cf assms(3) show ?thesis by auto
  qed
qed

lemma Kv_Put_refines:
  assumes "saves_ok I" "sm_Apply I = KvStateMachine_Apply" "undisturbed env" "serving n" "LastLogIndexLocked n < - 1" "val \<noteq> []"
  shows "\<exists>n'. Kv_Call I tr env (PutRequest key val) n =
      Some (fst (kv_spec (kv_limits (config n)) (PutRequest key val) (kv_contents n)), n') \<and> served n n' \<and>
    kv_contents n' = snd (kv_spec (kv_limits (config n)) (PutRequest key val) (kv_contents n))"
proof (cases "good_key (kv_limits (config n)) key \<and> CHR ''|'' \<notin> set val \<and> length val \<le> max_value_bytes (kv_limits (config n))")
  case True
  have "ValidateKeyUnlocked (kv_limits (config n)) key = None" "ValidateValueUnlocked (kv_limits (config n)) val = None"
    using True by (simp_all add: validate_key_iff validate_value_iff)
  moreover obtain r n' where "propose_write kKvPut I tr env (clock (timers n))
      \<lparr>cmd_type = kSet, cmd_key = key, cmd_value = val\<rparr> (env n) = Some (r, n')" "served n n'"
    "if length key + length val + 5 \<le> max_command_bytes (kv_limits (config n))
     then wr_code r = KV_STATUS_CODE_OK \<and> kv_contents n' = (kv_contents n)(key \<mapsto> val)
     else wr_code r = KV_STATUS_CODE_INVALID_ARGUMENT \<and> kv_contents n' = kv_contents n"
    using propose_write_refines [OF assms(1-5), of "\<lparr>cmd_type = kSet, cmd_key = key, cmd_value = val\<rparr>" kKvPut tr "clock (timers n)"]
      assms(6) True by (auto simp: validate_set_iff)
  ultimately show ?thesis using True by (auto simp: Kv_Put_def Let_def)
next
  case False
  then obtain reason where "(case ValidateKeyUnlocked (kv_limits (config n)) key of Some r \<Rightarrow> Some r
      | None \<Rightarrow> ValidateValueUnlocked (kv_limits (config n)) val) = Some reason"
    using validate_key_iff [of "kv_limits (config n)" key] validate_value_iff [of "kv_limits (config n)" val]
    by (auto split: option.splits)
  with False assms(3,4) show ?thesis by (auto simp: Kv_Put_def invalid_write_def Let_def)
qed

lemma Kv_Delete_refines:
  assumes "saves_ok I" "sm_Apply I = KvStateMachine_Apply" "undisturbed env" "serving n" "LastLogIndexLocked n < - 1"
  shows "\<exists>n'. Kv_Call I tr env (DeleteRequest key) n =
      Some (fst (kv_spec (kv_limits (config n)) (DeleteRequest key) (kv_contents n)), n') \<and> served n n' \<and>
    kv_contents n' = snd (kv_spec (kv_limits (config n)) (DeleteRequest key) (kv_contents n))"
proof (cases "good_key (kv_limits (config n)) key")
  case True
  have "ValidateKeyUnlocked (kv_limits (config n)) key = None" using True by (simp add: validate_key_iff)
  moreover obtain r n' where "propose_write kKvDelete I tr env (clock (timers n))
      \<lparr>cmd_type = kDelete, cmd_key = key, cmd_value = []\<rparr> (env n) = Some (r, n')" "served n n'"
    "if length key + 5 \<le> max_command_bytes (kv_limits (config n))
     then wr_code r = KV_STATUS_CODE_OK \<and> kv_contents n' = (kv_contents n)(key := None)
     else wr_code r = KV_STATUS_CODE_INVALID_ARGUMENT \<and> kv_contents n' = kv_contents n"
    using propose_write_refines [OF assms, of "\<lparr>cmd_type = kDelete, cmd_key = key, cmd_value = []\<rparr>" kKvDelete tr "clock (timers n)"]
      True by (auto simp: validate_delete_iff)
  ultimately show ?thesis using True by (auto simp: Kv_Delete_def Let_def)
next
  case False
  then obtain reason where "ValidateKeyUnlocked (kv_limits (config n)) key = Some reason"
    using validate_key_iff [of "kv_limits (config n)" key] by auto
  with False assms(3,4) show ?thesis by (auto simp: Kv_Delete_def invalid_write_def Let_def)
qed

lemma Kv_Get_refines:
  assumes "undisturbed env" "serving n"
  shows "\<exists>n'. Kv_Call I tr env (GetRequest key) n =
      Some (fst (kv_spec (kv_limits (config n)) (GetRequest key) (kv_contents n)), n') \<and> served n n' \<and>
    kv_contents n' = snd (kv_spec (kv_limits (config n)) (GetRequest key) (kv_contents n))"
proof -
  have ld: "nss_role (GetStatusSnapshot (env n)) = ''Leader''"
    using servingD(2) [OF assms(2)] assms(1) by (simp add: GetStatusSnapshot_def undisturbed_fields RoleName_def)
  have dg: "DebugGetValue kv_view key (env (env n)) = kv_contents n key"
    using assms(1) by (simp add: DebugGetValue_def kv_view_def kv_contents_def undisturbed_fields)
  have vk: "ValidateKeyUnlocked (kv_limits (config n)) key = None \<longleftrightarrow> good_key (kv_limits (config n)) key"
    by (rule validate_key_iff)
  show ?thesis using assms vk ld dg
    by (cases "ValidateKeyUnlocked (kv_limits (config n)) key"; cases "kv_contents n key")
      (simp_all add: Kv_Get_def Let_def)
qed

lemma Kv_Call_refines:
  assumes "saves_ok I" "sm_Apply I = KvStateMachine_Apply" "undisturbed env" "serving n" "LastLogIndexLocked n < - 1"
    and "\<And>key. q \<noteq> PutRequest key []"
  shows "\<exists>n'. Kv_Call I tr env q n = Some (fst (kv_spec (kv_limits (config n)) q (kv_contents n)), n') \<and> served n n' \<and>
    kv_contents n' = snd (kv_spec (kv_limits (config n)) q (kv_contents n))"
proof (cases q)
  case (PutRequest key val)
  with assms(6) have "val \<noteq> []" by simp
  from Kv_Put_refines [OF assms(1-5) this] PutRequest show ?thesis by simp
next
  case (DeleteRequest key)
  with Kv_Delete_refines [OF assms(1-5)] show ?thesis by simp
next
  case (GetRequest key)
  with Kv_Get_refines [OF assms(3,4)] show ?thesis by simp
qed

lemma Kv_Calls_refine:
  assumes "saves_ok I" "sm_Apply I = KvStateMachine_Apply" "undisturbed env" "serving n"
    and "unat (LastLogIndexLocked n) + length qs < 2 ^ 64 - 1" and "\<And>key. PutRequest key [] \<notin> set qs"
  shows "\<exists>n'. Kv_Calls I tr env qs n = Some (fst (kv_spec_run (kv_limits (config n)) qs (kv_contents n)), n') \<and> serving n' \<and>
    kv_contents n' = snd (kv_spec_run (kv_limits (config n)) qs (kv_contents n))"
  using assms(4-6)
proof (induction qs arbitrary: n)
  case (Cons q qs)
  have "LastLogIndexLocked n < - 1" using Cons.prems(2) by (simp add: u64_simps unat_u64_max)
  moreover have "q \<noteq> PutRequest key []" for key using Cons.prems(3) [of key] by auto
  ultimately obtain n' where n': "Kv_Call I tr env q n = Some (fst (kv_spec (kv_limits (config n)) q (kv_contents n)), n')"
    "served n n'" "kv_contents n' = snd (kv_spec (kv_limits (config n)) q (kv_contents n))"
    using Kv_Call_refines [OF assms(1-3) Cons.prems(1)] by blast
  have "unat (LastLogIndexLocked n') + length qs < 2 ^ 64 - 1" "serving n'" "config n' = config n"
    using n'(2) Cons.prems(2) by (auto simp: served_def)
  with Cons.IH [of n'] Cons.prems(3) n' show ?case by (auto simp: Let_def split_def)
qed simp

end
