(* ===== verification/KvClient.thy ===== *)
theory KvClient
  imports KvService
begin

text \<open>
  The command line client (\<^verbatim>\<open>apps/raft_kv_client.cpp\<close>): one function per subcommand, with what it prints and its exit
  code, and \<^verbatim>\<open>main\<close>. A stub is a record of the calls it offers on the state \<open>'s\<close> of the other side; a call gives an error of
  the transport (\<open>Inl\<close> with its message) or a response, and \<open>None\<close> when it never returns. The end connects the client to
  the handlers of a server.
\<close>

section \<open>The program\<close>

record 's kv_stub =
  stub_Put :: "string \<Rightarrow> string \<Rightarrow> 's \<Rightarrow> ((string + WriteResponse) \<times> 's) option"
  stub_Delete :: "string \<Rightarrow> 's \<Rightarrow> ((string + WriteResponse) \<times> 's) option"
  stub_Get :: "string \<Rightarrow> 's \<Rightarrow> ((string + GetResponse) \<times> 's) option"
  stub_Status :: "'s \<Rightarrow> ((string + StatusResponse) \<times> 's) option"
  stub_Health :: "'s \<Rightarrow> ((string + HealthResponse) \<times> 's) option"
  stub_Metrics :: "'s \<Rightarrow> ((string + MetricsResponse) \<times> 's) option"

record client_exit =
  client_code :: int
  client_out :: string
  client_err :: string

fun KvStatusCode_value :: "KvStatusCode \<Rightarrow> nat" where
  "KvStatusCode_value KV_STATUS_CODE_UNSPECIFIED = 0"
| "KvStatusCode_value KV_STATUS_CODE_OK = 1"
| "KvStatusCode_value KV_STATUS_CODE_NOT_LEADER = 2"
| "KvStatusCode_value KV_STATUS_CODE_INVALID_ARGUMENT = 3"
| "KvStatusCode_value KV_STATUS_CODE_KEY_NOT_FOUND = 4"
| "KvStatusCode_value KV_STATUS_CODE_INTERNAL_ERROR = 5"
| "KvStatusCode_value KV_STATUS_CODE_NODE_STOPPING = 6"
| "KvStatusCode_value KV_STATUS_CODE_TIMEOUT = 7"

definition newline :: string where
  "newline = [CHR 0x0A]"

definition PrintUsage :: string where
  "PrintUsage =
     ''usage:'' @ newline
     @ ''  raft_kv_client <addr> put <key> <value>'' @ newline
     @ ''  raft_kv_client <addr> get <key>'' @ newline
     @ ''  raft_kv_client <addr> delete <key>'' @ newline
     @ ''  raft_kv_client <addr> status'' @ newline
     @ ''  raft_kv_client <addr> health'' @ newline
     @ ''  raft_kv_client <addr> metrics'' @ newline"

definition usage_exit :: client_exit where
  "usage_exit = \<lparr>client_code = 2, client_out = [], client_err = PrintUsage\<rparr>"

text \<open>The common part of the subcommands: a failed call, or what is printed of the response and the exit code.\<close>

definition run_call ::
    "('r \<Rightarrow> string \<times> int) \<Rightarrow> ((string + 'r) \<times> 's) option \<Rightarrow> (client_exit \<times> 's) option" where
  "run_call report call =
     (case call of
        None \<Rightarrow> None
      | Some (Inl e, s) \<Rightarrow> Some (\<lparr>client_code = 1, client_out = [], client_err = ''rpc failed: '' @ e @ newline\<rparr>, s)
      | Some (Inr r, s) \<Rightarrow> Some (\<lparr>client_code = snd (report r), client_out = fst (report r), client_err = []\<rparr>, s))"

definition code_exit :: "KvStatusCode \<Rightarrow> int" where
  "code_exit c = (if c = KV_STATUS_CODE_OK then 0 else 2)"

definition report_write :: "WriteResponse \<Rightarrow> string \<times> int" where
  "report_write r =
     (''code='' @ string_of_nat (KvStatusCode_value (wr_code r)) @ '' term='' @ string_of_u64 (wr_term r)
      @ '' leader_id='' @ string_of_int (wr_leader_id r) @ '' leader_address='' @ wr_leader_address r
      @ '' log_index='' @ string_of_u64 (wr_log_index r) @ '' message='' @ wr_message r @ newline,
      code_exit (wr_code r))"

definition RunPut :: "'s kv_stub \<Rightarrow> string \<Rightarrow> string \<Rightarrow> 's \<Rightarrow> (client_exit \<times> 's) option" where
  "RunPut stub key val s = run_call report_write (stub_Put stub key val s)"

definition RunDelete :: "'s kv_stub \<Rightarrow> string \<Rightarrow> 's \<Rightarrow> (client_exit \<times> 's) option" where
  "RunDelete stub key s = run_call report_write (stub_Delete stub key s)"

definition report_get :: "GetResponse \<Rightarrow> string \<times> int" where
  "report_get r =
     (''code='' @ string_of_nat (KvStatusCode_value (gr_code r)) @ '' term='' @ string_of_u64 (gr_term r)
      @ '' leader_id='' @ string_of_int (gr_leader_id r) @ '' leader_address='' @ gr_leader_address r
      @ '' found='' @ (if gr_found r then ''true'' else ''false'') @ '' value='' @ gr_value r
      @ '' message='' @ gr_message r @ newline,
      code_exit (gr_code r))"

definition RunGet :: "'s kv_stub \<Rightarrow> string \<Rightarrow> 's \<Rightarrow> (client_exit \<times> 's) option" where
  "RunGet stub key s = run_call report_get (stub_Get stub key s)"

definition peer_line :: "PeerReplicationStatus \<Rightarrow> string" where
  "peer_line p =
     ''peer_id='' @ string_of_int (prs_peer_id p) @ '' address='' @ prs_address p
     @ '' match_index='' @ string_of_u64 (prs_match_index p) @ '' next_index='' @ string_of_u64 (prs_next_index p) @ newline"

definition report_status :: "StatusResponse \<Rightarrow> string \<times> int" where
  "report_status r =
     (let s = st_status r in
      (''node_id='' @ string_of_int (nss_node_id s) @ '' address='' @ nss_address s @ '' role='' @ nss_role s
       @ '' term='' @ string_of_u64 (nss_term s) @ '' leader_id='' @ string_of_int (nss_leader_id s)
       @ '' leader_address='' @ nss_leader_address s @ '' commit_index='' @ string_of_u64 (nss_commit_index s)
       @ '' last_applied='' @ string_of_u64 (nss_last_applied s) @ '' last_log_index='' @ string_of_u64 (nss_last_log_index s)
       @ '' snapshot_index='' @ string_of_u64 (nss_snapshot_index s) @ newline
       @ concat (map peer_line (nss_peers s)), 0))"

definition RunStatus :: "'s kv_stub \<Rightarrow> 's \<Rightarrow> (client_exit \<times> 's) option" where
  "RunStatus stub s = run_call report_status (stub_Status stub s)"

definition report_health :: "HealthResponse \<Rightarrow> string \<times> int" where
  "report_health r =
     (''ok='' @ (if hr_ok r then ''true'' else ''false'') @ '' node_id='' @ string_of_int (hr_node_id r)
      @ '' role='' @ hr_role r @ '' term='' @ string_of_u64 (hr_term r) @ '' leader_id='' @ string_of_int (hr_leader_id r)
      @ '' message='' @ hr_message r @ newline,
      if hr_ok r then 0 else 2)"

definition RunHealth :: "'s kv_stub \<Rightarrow> 's \<Rightarrow> (client_exit \<times> 's) option" where
  "RunHealth stub s = run_call report_health (stub_Health stub s)"

definition rpc_line :: "RpcMetricState \<Rightarrow> string" where
  "rpc_line m =
     ''rpc='' @ metric_name m @ '' success='' @ string_of_u64 (success_count m) @ '' failure='' @ string_of_u64 (failure_count m)
     @ '' total_latency_us='' @ string_of_u64 (total_latency_us m) @ '' max_latency_us='' @ string_of_u64 (max_latency_us m)
     @ newline"

definition report_metrics :: "MetricsResponse \<Rightarrow> string \<times> int" where
  "report_metrics r =
     (let m = mr_metrics r in
      (''node_id='' @ string_of_int (mr_node_id r) @ '' role='' @ mr_role r @ '' term='' @ string_of_u64 (mr_term r)
       @ '' leader_id='' @ string_of_int (mr_leader_id r) @ '' leader_address='' @ mr_leader_address r
       @ '' propose_success='' @ string_of_u64 (propose_success_count m)
       @ '' propose_failure='' @ string_of_u64 (propose_failure_count m)
       @ '' elections='' @ string_of_u64 (election_count m) @ '' leader_changes='' @ string_of_u64 (leader_change_count m)
       @ '' snapshot_success='' @ string_of_u64 (snapshot_success_count m)
       @ '' snapshot_failure='' @ string_of_u64 (snapshot_failure_count m)
       @ '' storage_persist_failure='' @ string_of_u64 (storage_persist_failure_count m) @ newline
       @ concat (map rpc_line (rpc_metrics m)), 0))"

definition RunMetrics :: "'s kv_stub \<Rightarrow> 's \<Rightarrow> (client_exit \<times> 's) option" where
  "RunMetrics stub s = run_call report_metrics (stub_Metrics stub s)"

text \<open>\<open>args\<close> are the arguments after the program name; \<open>MakeStub\<close> connects to an address.\<close>

definition client_main :: "(string \<Rightarrow> 's kv_stub) \<Rightarrow> string list \<Rightarrow> 's \<Rightarrow> (client_exit \<times> 's) option" where
  "client_main MakeStub args s =
     (if length args < 2 then Some (usage_exit, s)
      else let stub = MakeStub (args ! 0); command = args ! 1 in
        if command = ''put''
        then (if length args \<noteq> 4 then Some (usage_exit, s) else RunPut stub (args ! 2) (args ! 3) s)
        else if command = ''get''
        then (if length args \<noteq> 3 then Some (usage_exit, s) else RunGet stub (args ! 2) s)
        else if command = ''delete''
        then (if length args \<noteq> 3 then Some (usage_exit, s) else RunDelete stub (args ! 2) s)
        else if command = ''status'' then RunStatus stub s
        else if command = ''health'' then RunHealth stub s
        else if command = ''metrics'' then RunMetrics stub s
        else Some (usage_exit, s))"

section \<open>A client in front of a server\<close>

text \<open>The handlers of a node as a stub, for a transport without errors.\<close>

definition node_stub ::
    "('w, kv) interfaces \<Rightarrow> ('w, kv) transport \<Rightarrow> (('w, kv) raft_node \<Rightarrow> ('w, kv) raft_node)
      \<Rightarrow> ('w, kv) raft_node kv_stub" where
  "node_stub I tr env =
     \<lparr>stub_Put = (\<lambda>key val n. map_option (apfst Inr) (Kv_Put I tr env key val n)),
      stub_Delete = (\<lambda>key n. map_option (apfst Inr) (Kv_Delete I tr env key n)),
      stub_Get = (\<lambda>key n. Some (apfst Inr (Kv_Get kv_view env key n))),
      stub_Status = (\<lambda>n. Some (apfst Inr (Kv_Status env n))),
      stub_Health = (\<lambda>n. Some (apfst Inr (Kv_Health env n))),
      stub_Metrics = (\<lambda>n. Some (apfst Inr (Kv_Metrics env n)))\<rparr>"

text \<open>The command line of a request, and a session of several runs of the client, one after the other.\<close>

fun client_args :: "string \<Rightarrow> kv_request \<Rightarrow> string list" where
  "client_args addr (PutRequest key val) = [addr, ''put'', key, val]"
| "client_args addr (DeleteRequest key) = [addr, ''delete'', key]"
| "client_args addr (GetRequest key) = [addr, ''get'', key]"

fun client_session :: "(string \<Rightarrow> 's kv_stub) \<Rightarrow> string list list \<Rightarrow> 's \<Rightarrow> (client_exit list \<times> 's) option" where
  "client_session MakeStub [] s = Some ([], s)"
| "client_session MakeStub (args # rest) s =
     (case client_main MakeStub args s of None \<Rightarrow> None
      | Some (x, s1) \<Rightarrow> (case client_session MakeStub rest s1 of None \<Rightarrow> None | Some (xs, s2) \<Rightarrow> Some (x # xs, s2)))"

text \<open>A run shows an answer: by its exit code, by nothing on the error stream, and for a value by printing it.\<close>

definition shows_answer :: "client_exit \<Rightarrow> KvStatusCode \<times> string option \<Rightarrow> bool" where
  "shows_answer x a \<longleftrightarrow> client_code x = code_exit (fst a) \<and> client_err x = [] \<and>
     (case snd a of None \<Rightarrow> True
      | Some v \<Rightarrow> \<exists>head tail. client_out x = head @ '' found=true value='' @ v @ '' message='' @ tail)"

lemma client_call:
  assumes "Kv_Call I tr env q n = Some (a, n')"
  shows "\<exists>x. client_main (\<lambda>_. node_stub I tr env) (client_args addr q) n = Some (x, n') \<and> shows_answer x a"
proof (cases q)
  case (GetRequest key)
  obtain r n1 where g: "Kv_Get kv_view env key n = (r, n1)" by fastforce
  with assms GetRequest have a: "a = (gr_code r, if gr_found r then Some (gr_value r) else None)" "n1 = n'" by simp_all
  let ?head = "''code='' @ string_of_nat (KvStatusCode_value (gr_code r)) @ '' term='' @ string_of_u64 (gr_term r)
      @ '' leader_id='' @ string_of_int (gr_leader_id r) @ '' leader_address='' @ gr_leader_address r"
  have "fst (report_get r) = ?head @ '' found=true value='' @ gr_value r @ '' message='' @ (gr_message r @ newline)"
    if "gr_found r" using that by (simp add: report_get_def)
  then have "gr_found r \<Longrightarrow> \<exists>head tail. fst (report_get r) = head @ '' found=true value='' @ gr_value r @ '' message='' @ tail"
    by blast
  then show ?thesis using g a GetRequest
    by (simp add: client_main_def RunGet_def node_stub_def run_call_def shows_answer_def)
      (simp add: report_get_def)
next
  case (PutRequest key val)
  with assms obtain r where "Kv_Put I tr env key val n = Some (r, n')" "a = (wr_code r, None)"
    by (auto split: option.splits)
  with PutRequest show ?thesis
    by (simp add: client_main_def RunPut_def node_stub_def run_call_def shows_answer_def report_write_def)
next
  case (DeleteRequest key)
  with assms obtain r where "Kv_Delete I tr env key n = Some (r, n')" "a = (wr_code r, None)"
    by (auto split: option.splits)
  with DeleteRequest show ?thesis
    by (simp add: client_main_def RunDelete_def node_stub_def run_call_def shows_answer_def report_write_def)
qed

lemma client_session_calls:
  assumes "Kv_Calls I tr env qs n = Some (answers, n')"
  shows "\<exists>xs. client_session (\<lambda>_. node_stub I tr env) (map (client_args addr) qs) n = Some (xs, n') \<and>
    list_all2 shows_answer xs answers"
  using assms
proof (induction qs arbitrary: n answers)
  case (Cons q qs)
  then obtain a n1 as where c: "Kv_Call I tr env q n = Some (a, n1)" "Kv_Calls I tr env qs n1 = Some (as, n')" "answers = a # as"
    by (auto split: option.splits)
  from client_call [OF c(1), of addr] Cons.IH [OF c(2)] c(3) show ?case by auto
qed simp

end
