(* ===== verification/ThreadPool.thy ===== *)
theory ThreadPool
  imports Main
begin

text \<open>
  The pool of worker threads (\<^verbatim>\<open>runtime/thread_pool.cpp\<close>): a queue of tasks under a mutex, workers that take
  the oldest task and run it outside the mutex, and a \<^verbatim>\<open>Stop\<close> that lets the workers drain the queue
  before it joins them. Every section under the mutex is one function; the interleavings of the
  callers and the workers are the step relation \<open>pool_step\<close>. A wait on the condition variable is a
  worker whose function is not enabled. \<open>'t\<close> is the type of the tasks.
\<close>

section \<open>State and operations\<close>










section \<open>Runs\<close>






section \<open>Invariant\<close>







section \<open>Stopping\<close>










end
