(* ===== verification/Spec2Isabelle.thy ===== *)
theory Spec2Isabelle
  imports ServerMain KvClient ThreadPool
begin

text \<open>
  A model of CQUPT_Raft, a key-value store replicated with Raft, and what is proved of it.

  \<^bold>\<open>The program.\<close> A node (\<^verbatim>\<open>modules/raft/node/raft_node.cpp\<close>) keeps the Raft state under one mutex. Timers
  (\<^verbatim>\<open>runtime/min_heap_timer\<close>) start elections, heartbeats and snapshots; one replicator per peer
  (\<^verbatim>\<open>replication/replicator.cpp\<close>) sends log batches or snapshots; clients propose commands
  (\<^verbatim>\<open>common/command.cpp\<close>) that are appended, replicated, committed and applied to a state machine
  (\<^verbatim>\<open>state_machine/state_machine.cpp\<close>). The hard state and the log go to a storage after every change, and a
  background worker writes snapshots and compacts the log. The constructor is the recovery path. Two gRPC services
  (\<^verbatim>\<open>service/kv_service_impl.cpp\<close>, \<^verbatim>\<open>service/raft_service_impl.cpp\<close>) lead requests to the node; the programs are the server
  (\<^verbatim>\<open>apps/main.cpp\<close>), which reads a configuration file, and the client (\<^verbatim>\<open>apps/raft_kv_client.cpp\<close>).

  \<^bold>\<open>Theories.\<close>
  \<^item> \<open>Prelude\<close>: words of 64 bits, the saturating successor, decimal text, path concatenation.
  \<^item> \<open>Command\<close>: \<^verbatim>\<open>common/command.cpp\<close>, the text protocol of log records.
  \<^item> \<open>TimerScheduler\<close>: \<^verbatim>\<open>runtime/min_heap_timer.cpp\<close>, with its invariant and histories of steps.
  \<^item> \<open>NodeTypes\<close>: the structs, the protocol messages, the fields of a node, and the record
    \<open>interfaces\<close> with the operations of storage, snapshot storage, state machine and files that the node
    calls. These operations are arguments of the node's definitions.
  \<^item> \<open>RaftLog\<close>, \<open>NodeCore\<close>, \<open>Apply\<close>, \<open>Vote\<close>, \<open>AppendEntries\<close>, \<open>Snapshotting\<close>, \<open>Replication\<close>, \<open>Proposals\<close>,
    \<open>Lifecycle\<close>: \<^verbatim>\<open>raft_node.cpp\<close> and \<^verbatim>\<open>replicator.cpp\<close>, one definition per function or locked section, named
    after it (\<open>OnAppendEntries\<close>, \<open>AdvanceCommitIndexUnlocked\<close>, ...).
  \<^item> \<open>FileSystem\<close>, \<open>Codec\<close>, \<open>KvStateMachine\<close>: \<^verbatim>\<open>state_machine.cpp\<close> down to the bytes of a snapshot file, on a
    file system with I/O errors and crashes.
  \<^item> \<open>Cluster\<close>: nodes that exchange vote requests and answers in any order, with loss, delay and repetition.
  \<^item> \<open>LogMatching\<close>: the same nodes with AppendEntries and InstallSnapshot messages that leaders really sent.
  \<^item> \<open>Agreement\<close> and \<open>Probing\<close>: an abstract protocol on points of a tree of records, with its safety over any quorums, and
    what a leader may believe of another member's log.
  \<^item> \<open>Runs\<close>, \<open>Simulation\<close>, \<open>Consensus\<close>: runs of the nodes with all that moves commit indexes (elections, batches, answers, conflict
    hints, commits, snapshots, compaction, restarts), their simulation by the protocol, and the next index of a leader as such a belief.
  \<^item> \<open>Recovery\<close>: the contract of a state machine that recovery relies on, and its consequences.
  \<^item> \<open>RaftStorage\<close>: \<^verbatim>\<open>storage/raft_storage.cpp\<close>, the save and the load of hard state and log byte for byte.
    \<open>StorageFormat\<close>, \<open>StorageLoad\<close>, \<open>StorageSave\<close>, \<open>StorageRecovery\<close> and \<open>StorageQuiet\<close> show what a save leaves on
    disk under any faults and what a load makes of it.
  \<^item> \<open>SnapshotStorage\<close>: \<^verbatim>\<open>storage/snapshot_storage.cpp\<close>; \<open>SnapshotRecovery\<close> and \<open>SnapshotCatalog\<close> do the same for
    the snapshot directories.
  \<^item> \<open>FilePaths\<close> and \<open>FileFrames\<close>: paths, well-formed tables, the effect of each file operation under any faults, and
    frame rules for sequences of them.
  \<^item> \<open>DurableNode\<close> and \<open>Server\<close>: the node on its storage, and a process with all its real components across a crash.
  \<^item> \<open>Services\<close> and \<open>KvService\<close>: the Raft and key-value services on a node, and the map with limits that a server without
    peers implements.
  \<^item> \<open>Logging\<close> and \<open>ThreadPool\<close>: \<^verbatim>\<open>runtime/logging.h\<close>, the bytes of a log line; \<^verbatim>\<open>runtime/thread_pool.cpp\<close>, workers as a step
    relation.
  \<^item> \<open>ServerMain\<close> and \<open>KvClient\<close>: the two programs, from arguments and configuration text to printed lines and exit codes.
  \<^item> \<open>Examples\<close>: small instances on which the properties below are evaluated.

  \<^bold>\<open>State and time.\<close> A node is the record \<open>raft_node\<close>; an operation takes it and returns it updated, next to
  its answer. Unsigned 64-bit fields are words, so additions wrap as in the code. Time is the
  reading of the clock in the node's timers; random numbers are a stream of draws. A section of the code that
  holds the mutex is one step. Where a function releases the mutex, the definition takes what the
  other threads do in between as a function argument, or is split into its locked sections. The
  composed definitions of \<open>Replication\<close> and \<open>Proposals\<close> take the network and the other threads
  as the record \<open>transport\<close>.

  \<^bold>\<open>Loops.\<close> All loops are structural or have a termination proof (the apply loop ends because each
  round either returns or moves the apply boundary towards the commit index). The wait for a
  majority runs on fuel: \<open>rpc_deadline + 1\<close> rounds of at least 20 ms reach the deadline of
  \<open>20 * rpc_deadline\<close> ms, and \<open>propose_returns\<close> shows that the fuel is enough.

  \<^bold>\<open>Interfaces as locales.\<close> \<open>quorum_system\<close> (\<open>Cluster\<close>: any two quorums meet) carries the uniqueness of
  leaders and the safety of the abstract protocol and is interpreted by the majorities the code counts; \<open>codec\<close> (\<open>Codec\<close>: a reader inverts a writer) by the integer, string and item formats;
  \<open>replicated_machine\<close> (\<open>Recovery\<close>: what a snapshot must preserve) by the key-value machine; \<open>state_storage\<close>
  (\<open>DurableNode\<close>: a successful save is what a restart loads) by the file storage, once for a bare restart and once
  (\<open>Server\<close>) for a restart that includes the identity check of the constructor.

  \<^bold>\<open>What is shown.\<close> Elections: at most one leader per term in every run with crashes and restarts, votes granted exactly
  under the stated conditions and binding across a crash of the process (C1 to C3). Replication: the follower's handler
  refines a reference merge; acknowledged entries survive a crash; two members never commit different records; a leader has
  every record committed in its term or earlier; batches are well formed; logs match in every run; the commit rule; progress of rejected
  probes (C4 to C11). Applying: exactly once and in order; round trip of commands; a committed record with an empty value
  blocks the node (C12 to C14). Snapshots: compaction, file round trip, crash behaviour, snapshot plus log suffix,
  worker, installation, startup (C15, C19, C20, C24, C29 to C31). Timers: cancellation, at most one firing,
  service of due timers (C16 to C18). Log lines can be read back (C21). Restart (C22), configuration files (C23),
  proposals (C26, C27), retry backoff (C32). The service and a session of the client refine a map (C25, C28). Storage: a
  successful save is loaded again, the results an interrupted one can have, the crash points that lose the state (C33 to
  C35). The thread pool runs every accepted task once and drains (C36). Snapshot storage: atomic publication, listing,
  pruning (C37 to C39). All of it keeps the file system a tree (C40).

  \<^bold>\<open>Bounds.\<close> The election theorem excludes a term counter at its maximum, where the code's increment wraps
  to zero; the batch and append theorems exclude a log whose last index is the largest 64-bit value.

  \<^bold>\<open>Not modelled.\<close> gRPC itself (a call is a function of the request, or fails); the branches for Windows; the page cache
  (an operation of the file system that completed is durable). In \<open>Cluster\<close>, \<open>LogMatching\<close> and
  \<open>Runs\<close> a member restarts with the term, vote and log it had and a commit index that is not larger: the crash points of C35, and
  a crash after a failed save, are outside these runs. A follower commits up to its own last record, not up to the last record of the
  request; \<open>Consensus\<close> shows that this is safe because of how the leader chooses its next index.
\<close>

section \<open>Elections\<close>

text \<open>
  C1. Election safety: in every run of the cluster, whatever the network delivers and whoever restarts from the
  term and vote it had, no two members ever become leader of the same term.
\<close>

theorem election_safety:
  assumes "reachable I M s" and "(i, t) \<in> led s" and "(j, t) \<in> led s"
  shows "i = j"
  by (rule election_inv_safe [OF election_inv_reachable [OF assms(1)] assms(2,3)])

theorem election_safety_witness:
  "reachable demo_I {1, 2, 3} demo_elected \<and> {j. (j, 1) \<in> led demo_elected} = {1}"
proof -
  have one: "(1, 1) \<in> led demo_elected" by (simp add: demo_elected_def)
  have "j = 1" if "(j, 1) \<in> led demo_elected" for j
    by (rule election_safety [OF demo_reachable that one])
  with one demo_reachable show ?thesis by blast
qed

text \<open>
  C2. The vote handler grants a vote exactly when the request is not from an older term, the candidate's
  log is at least as up to date, the node has not voted for somebody else in that term, and the
  storage accepted the new hard state (the higher term first, where there is one, then the vote).
\<close>

theorem vote_granted_iff:
  "vote_granted (fst (OnRequestVote I q n)) \<longleftrightarrow>
     current_term n \<le> vq_term q \<and>
     IsCandidateLogUpToDateLocked (vq_last_log_index q) (vq_last_log_term q) n \<and>
     (current_term n < vq_term q \<or> voted_for n = - 1 \<or> voted_for n = candidate_id q) \<and>
     (vq_term q \<le> current_term n \<or> fst (BecomeFollowerLocked I (vq_term q) (- 1) n)) \<and>
     fst (PersistStateLocked I (voting_node I q n)) = None"
  by (rule OnRequestVote_granted_iff)

section \<open>Log replication: the follower\<close>

definition demo_append :: AppendEntriesRequest where
  "demo_append = \<lparr>aq_term = 1, aq_leader_id = 2, prev_log_index = 0, prev_log_term = 0,
     entries = [\<lparr>le_index = 1, le_term = 1, le_command = ''SET|a|b''\<rparr>], leader_commit = 1\<rparr>"

lemma demo_append_facts:
  "log_wf (demo_node 1 [2, 3])" "entries_after (prev_log_index demo_append) (entries demo_append)"
  "as_success (fst (OnAppendEntriesLocked demo_I demo_append (demo_node 1 [2, 3])))"
  "commit_index (demo_node 1 [2, 3]) = 0" "LastLogIndexLocked (demo_node 1 [2, 3]) = 0"
  "last_snapshot_index (demo_node 1 [2, 3]) = 0" "log (demo_node 1 [2, 3]) = [bootstrap_record]"
  by (simp_all add: log_wf_def entries_after_def append_defs log_defs demo_append_def
      BecomeFollowerLocked_def node_defs demo_node_def blank_node_def bootstrap_record_def
      SafeAddOne_def Let_def)

text \<open>
  C4. What a successful AppendEntries does: the records up to the boundary stay, after it the log is the
  reference merge of the old records with the request's entries, the answer's match index is that of
  the last entry, and the commit index becomes the smaller of the leader's and the last index,
  unless it was already larger. The apply loop runs exactly when the commit index moved.
\<close>

theorem append_entries_refines_merge:
  assumes "log_wf n" and "entries_after (prev_log_index q) (entries q)"
    and "as_success (fst (OnAppendEntriesLocked I q n))"
  shows "log (snd (snd (OnAppendEntriesLocked I q n))) = merged_log q n \<and>
    as_match_index (fst (OnAppendEntriesLocked I q n)) =
      (if entries q = [] then prev_log_index q else le_index (last (entries q))) \<and>
    commit_index (snd (snd (OnAppendEntriesLocked I q n))) =
      max (commit_index n) (min (leader_commit q) (lr_index (last (merged_log q n)))) \<and>
    fst (snd (OnAppendEntriesLocked I q n)) =
      (commit_index n < commit_index (snd (snd (OnAppendEntriesLocked I q n))))"
  using OnAppendEntriesLocked_cases [OF assms(1,2), of I] assms(3) by (simp add: Let_def split_def)

theorem append_entries_refines_merge_witness:
  "log (snd (snd (OnAppendEntriesLocked demo_I demo_append (demo_node 1 [2, 3]))))
    = [bootstrap_record, rec3 1 1 ''SET|a|b''] \<and>
   commit_index (snd (snd (OnAppendEntriesLocked demo_I demo_append (demo_node 1 [2, 3])))) = 1"
  using append_entries_refines_merge [OF demo_append_facts(1,2,3)] demo_append_facts(4,6,7)
  by (simp add: merged_log_def demo_append_def record_of_entry_def rec3_def)

text \<open>
  After a successful AppendEntries every entry of the request is in the follower's log, with the index
  and the term it was sent with.
\<close>

theorem append_entries_present:
  assumes "log_wf n" and "entries_after (prev_log_index q) (entries q)"
    and "as_success (fst (OnAppendEntriesLocked I q n))" and "e \<in> set (entries q)"
  shows "\<exists>r. LogAtIndexLocked (le_index e) (snd (snd (OnAppendEntriesLocked I q n))) = Some r \<and>
    lr_term r = le_term e"
proof -
  have "prev_ok q n" "log (snd (snd (OnAppendEntriesLocked I q n))) = merged_log q n"
    using OnAppendEntriesLocked_cases [OF assms(1,2), of I] assms(3) by (simp_all add: Let_def split_def)
  then show ?thesis
    by (intro merged_log_holds_entries [OF assms(1,2) _ log_wf_OnAppendEntriesLocked [OF assms(1)]])
      (simp_all add: OnAppendEntriesLocked_frame assms(4))
qed

theorem append_entries_present_witness:
  "\<exists>r. LogAtIndexLocked 1 (snd (snd (OnAppendEntriesLocked demo_I demo_append (demo_node 1 [2, 3])))) = Some r \<and>
    lr_term r = 1"
  using append_entries_present [OF demo_append_facts(1,2,3),
      of "\<lparr>le_index = 1, le_term = 1, le_command = ''SET|a|b''\<rparr>"]
  by (simp add: demo_append_def)

text \<open>
  Whatever an AppendEntries request contains, the handler keeps the log well formed: not empty,
  starting at the snapshot boundary, with consecutive indexes.
\<close>

theorem append_entries_any_request_wf:
  assumes "log_wf n"
  shows "log_wf (snd (OnAppendEntries I q n))"
  by (rule log_wf_OnAppendEntries [OF assms])

theorem append_entries_any_request_wf_witness:
  "log_wf (snd (OnAppendEntries demo_I demo_append (demo_node 1 [2, 3])))"
  by (rule append_entries_any_request_wf [OF demo_append_facts(1)])

text \<open>
  A request that does not contradict a committed record leaves all committed records in place, and
  the commit index neither moves back nor past the end of the log.
\<close>

theorem append_entries_keeps_committed:
  assumes wf: "log_wf n" and ea: "entries_after (prev_log_index q) (entries q)"
    and c: "commit_index n \<le> LastLogIndexLocked n" "last_snapshot_index n \<le> commit_index n"
    and compat: "compatible_upto (commit_index n) q n"
  shows "take (Suc (unat (commit_index n) - unat (last_snapshot_index n)))
      (log (snd (snd (OnAppendEntriesLocked I q n))))
    = take (Suc (unat (commit_index n) - unat (last_snapshot_index n))) (log n) \<and>
    commit_index n \<le> commit_index (snd (snd (OnAppendEntriesLocked I q n))) \<and>
    commit_index (snd (snd (OnAppendEntriesLocked I q n)))
      \<le> LastLogIndexLocked (snd (snd (OnAppendEntriesLocked I q n)))"
    (is "?kept \<and> ?mono \<and> ?bound")
proof -
  let ?n' = "snd (snd (OnAppendEntriesLocked I q n))"
  let ?k = "Suc (unat (commit_index n) - unat (last_snapshot_index n))"
  note cases = OnAppendEntriesLocked_cases [OF wf ea, of I, unfolded Let_def split_def]
  have wf': "log_wf ?n'" by (rule log_wf_OnAppendEntriesLocked [OF wf])
  have kept: "prev_ok q n \<Longrightarrow> take ?k (merged_log q n) = take ?k (log n)"
    by (rule merged_log_keeps [OF wf ea _ c(1) compat c(2)])
  with cases have k: ?kept by auto
  have "?k \<le> length (log n)"
    using log_wf_last [OF wf] log_wfD(1) [OF wf] c(1) by (cases "log n") (auto simp: u64_simps)
  then have "?k \<le> length (log ?n')" using k by (metis length_take min.absorb_iff2 min.cobounded1)
  then have ub: "commit_index n \<le> LastLogIndexLocked ?n'"
    using log_wf_last [OF wf'] c(2) by (simp add: OnAppendEntriesLocked_frame u64_simps)
  have last: "LastLogIndexLocked ?n' = lr_index (last (log ?n'))"
    using log_wfD(1) [OF wf'] by (simp add: LastLogIndexLocked_def)
  have ?mono using cases by auto
  moreover have ?bound using cases ub last by auto
  ultimately show ?thesis using k by blast
qed

theorem append_entries_keeps_committed_witness:
  "take 1 (log (snd (snd (OnAppendEntriesLocked demo_I demo_append (demo_node 1 [2, 3]))))) = [bootstrap_record]"
  using append_entries_keeps_committed [OF demo_append_facts(1,2), where I = demo_I]
    demo_append_facts(4-7)
  by (simp add: compatible_upto_def demo_append_def)

section \<open>Log replication: the leader\<close>

text \<open>
  C8. A batch is well formed: it carries the leader's term, id and commit index, its boundary is a record of
  the leader's log with that record's term, its entries are the leader's own next records, at most 256
  of them, and it is not empty while the follower is known to lag behind.
\<close>

theorem batch_well_formed:
  assumes "log_wf n" and "LastLogIndexLocked n < - 1"
    and "fst (BuildAppendEntriesRequest pid t n) = BatchAppend q"
  shows "role n = kLeader \<and> aq_term q = current_term n \<and> leader_commit q = commit_index n \<and>
    prev_log_term q = TermAtIndexLocked (prev_log_index q) n \<and>
    entries_after (prev_log_index q) (entries q) \<and>
    (\<exists>k. entries q = map entry_of_record (take k (log_from (prev_log_index q + 1) n)) \<and> k \<le> 256 \<and>
      (LastLogIndexLocked n \<le> prev_log_index q \<or> 0 < k))"
proof -
  obtain n' where b: "BuildAppendEntriesRequest pid t n = (BatchAppend q, n')"
    using assms(3) by (cases "BuildAppendEntriesRequest pid t n") auto
  note B = Build_request [OF assms(1,2) b]
  from B(9) obtain k where "entries q = map entry_of_record (take k (log_from (prev_log_index q + 1) n))"
    "k \<le> 256" "prev_log_index q < LastLogIndexLocked n \<longrightarrow> 0 < k"
    unfolding kMaxAppendEntriesPerRpc_def by blast
  then have "\<exists>k. entries q = map entry_of_record (take k (log_from (prev_log_index q + 1) n)) \<and> k \<le> 256 \<and>
      (LastLogIndexLocked n \<le> prev_log_index q \<or> 0 < k)"
    by (metis not_le)
  with B(1-6,8,10) show ?thesis by simp
qed

definition demo_leader :: "(PersistentRaftState option, kv) raft_node" where
  "demo_leader = (demo_node 2 [1, 3])\<lparr>role := kLeader, current_term := 1, leader_id := 2,
     log := [bootstrap_record, rec3 1 1 ''SET|a|b''], commit_index := 1, last_applied := 1,
     next_index := [1 \<mapsto> 1]\<rparr>"

lemma demo_leader_facts:
  "log_wf demo_leader" "LastLogIndexLocked demo_leader < - 1"
  "fst (BuildAppendEntriesRequest 1 1 demo_leader) = BatchAppend demo_append"
proof -
  show "log_wf demo_leader" by (simp add: log_wf_def consecutive_def less_Suc_eq demo_leader_def demo_defs)
  have "LastLogIndexLocked demo_leader = 1" by (simp add: LastLogIndexLocked_def demo_leader_def demo_defs)
  then show "LastLogIndexLocked demo_leader < - 1" by (simp add: word_less_nat_alt unat_u64_max)
  have step: "build_entries (Suc (Suc room)) 0 0 1 m = [entry_of_record (rec3 1 1 ''SET|a|b'')]"
    if "log m = [bootstrap_record, rec3 1 1 ''SET|a|b'']" for room and m :: "(PersistentRaftState option, kv) raft_node"
    using that by (simp add: log_defs demo_defs Let_def word_le_nat_alt)
  have two: "build_entries 256 0 0 1 m = [entry_of_record (rec3 1 1 ''SET|a|b'')]"
    if "log m = [bootstrap_record, rec3 1 1 ''SET|a|b'']" for m :: "(PersistentRaftState option, kv) raft_node"
  proof -
    have "256 = Suc (Suc 254)" by simp
    with step [OF that] show ?thesis by metis
  qed
  show "fst (BuildAppendEntriesRequest 1 1 demo_leader) = BatchAppend demo_append"
    using two
    by (simp add: BuildAppendEntriesRequest_def demo_leader_def demo_append_def demo_node_def
        blank_node_def log_defs demo_config_def bootstrap_record_def entry_of_record_def rec3_def
        kMaxAppendEntriesPerRpc_def Let_def)
qed

theorem batch_well_formed_witness:
  "role demo_leader = kLeader \<and> aq_term demo_append = current_term demo_leader"
  using batch_well_formed [OF demo_leader_facts] by simp

text \<open>
  C9. Log matching: in every run of a cluster that starts fresh, whatever the network does with the messages and whoever
  leads, compacts, installs snapshots or restarts with its log, two members that have a record of the same term at an index have the same
  terms at every index before it that both still hold, and the same records above both snapshot boundaries.
\<close>

theorem log_matching:
  assumes "repl_reach I M s" and "i \<in> M" and "j \<in> M"
    and "LogAtIndexLocked x (node_of s i) = Some r" and "LogAtIndexLocked x (node_of s j) = Some r'" and "lr_term r = lr_term r'"
    and "y \<le> x" and "LogAtIndexLocked y (node_of s i) = Some u" and "LogAtIndexLocked y (node_of s j) = Some v"
  shows "lr_term u = lr_term v \<and>
    (last_snapshot_index (node_of s i) < y \<and> last_snapshot_index (node_of s j) < y \<longrightarrow> u = v)"
proof -
  note D = repl_invD [OF repl_inv_reach [OF assms(1)]]
  from path_matching [OF D(1) [OF assms(2)] D(1) [OF assms(3)] D(2) [OF assms(2)] D(2) [OF assms(3)] assms(4-9)]
  show ?thesis by blast
qed

lemma demo_record: "log n = [bootstrap_record, rec3 1 1 c] \<Longrightarrow> LogAtIndexLocked 1 n = Some (rec3 1 1 c)"
  by (simp add: log_defs rec3_def bootstrap_record_def)

theorem log_matching_witness:
  "\<exists>s r r'. repl_reach demo_I {1, 2, 3} s \<and> LogAtIndexLocked 1 (node_of s 1) = Some r \<and> LogAtIndexLocked 1 (node_of s 2) = Some r' \<and>
    lr_command r = ''SET|a|b'' \<and> lr_term r = lr_term r'"
proof -
  obtain s where s: "run_reach demo_I {1, 2, 3} s"
    "log (member s 1) = [bootstrap_record, rec3 1 1 ''SET|a|b'']" "log (member s 2) = [bootstrap_record, rec3 1 1 ''SET|a|b'']"
    by (rule demo_run_committed)
  note at = demo_record [OF s(2)] demo_record [OF s(3)] and r = run_reach_rep [OF s(1)]
  from log_matching [OF r, of 1 2 1 _ _ 1, OF _ _ at] at r show ?thesis by (auto simp: rec3_def)
qed

text \<open>
  C6. State machine safety: in every run of a cluster that starts fresh, with elections, batches, answers, commits,
  conflict hints, snapshots, compaction and restarts in any order, and messages and answers lost, delayed or repeated, two
  members never commit different records: where both have committed
  an index and both still hold its record, the terms are the same, and the records are the same above both snapshot
  boundaries (at a boundary the record is the marker that stands for the compacted prefix).
\<close>

theorem state_machine_safety:
  assumes "run_reach I M s" and "i \<in> M" and "j \<in> M"
    and "k \<le> commit_index (member s i)" and "k \<le> commit_index (member s j)"
    and "LogAtIndexLocked k (member s i) = Some u" and "LogAtIndexLocked k (member s j) = Some v"
  shows "lr_term u = lr_term v \<and>
    (last_snapshot_index (member s i) < k \<and> last_snapshot_index (member s j) < k \<longrightarrow> u = v)"
  using run_safe [OF assms] by blast

theorem state_machine_safety_witness:
  "\<exists>s r. run_reach demo_I {1, 2, 3} s \<and> 1 \<le> commit_index (member s 1) \<and> 1 \<le> commit_index (member s 2) \<and>
    LogAtIndexLocked 1 (member s 1) = Some r \<and> LogAtIndexLocked 1 (member s 2) = Some r \<and> lr_command r = ''SET|a|b''"
proof -
  obtain s where s: "run_reach demo_I {1, 2, 3} s"
    "log (member s 1) = [bootstrap_record, rec3 1 1 ''SET|a|b'']" "log (member s 2) = [bootstrap_record, rec3 1 1 ''SET|a|b'']"
    "commit_index (member s 1) = 1" "commit_index (member s 2) = 1"
    by (rule demo_run_committed)
  note at = demo_record [OF s(2)] demo_record [OF s(3)]
  have k: "1 \<le> commit_index (member s 1)" "1 \<le> commit_index (member s 2)" using s(4,5) by simp_all
  from state_machine_safety [OF s(1) _ _ k at] at k s(1) show ?thesis by (auto simp: rec3_def)
qed

text \<open>
  C7. Leader completeness: in every such run a leader has every record that any member whose term is not later than
  the leader's has committed: its log reaches the index, and, unless it has compacted past the index, holds there a
  record of the same term, and the same record above both snapshot boundaries.
\<close>

theorem leader_completeness:
  assumes "run_reach I M s" and "c \<in> M" and "i \<in> M" and "role (member s c) = kLeader"
    and "current_term (member s i) \<le> current_term (member s c)"
    and "k \<le> commit_index (member s i)" and "LogAtIndexLocked k (member s i) = Some u"
  shows "k \<le> LastLogIndexLocked (member s c) \<and>
    (last_snapshot_index (member s c) \<le> k \<longrightarrow> (\<exists>v. LogAtIndexLocked k (member s c) = Some v \<and> lr_term v = lr_term u \<and>
      (last_snapshot_index (member s i) < k \<and> last_snapshot_index (member s c) < k \<longrightarrow> v = u)))"
  using run_leader_complete [OF assms] by blast

theorem leader_completeness_witness:
  "\<exists>s r. run_reach demo_I {1, 2, 3} s \<and> role (member s 1) = kLeader \<and> commit_index (member s 2) = 1 \<and>
    LogAtIndexLocked 1 (member s 2) = Some r \<and> LogAtIndexLocked 1 (member s 1) = Some r \<and> lr_command r = ''SET|a|b''"
proof -
  obtain s where s: "run_reach demo_I {1, 2, 3} s" "role (member s 1) = kLeader"
    "current_term (member s 1) = 1" "current_term (member s 2) = 1"
    "last_snapshot_index (member s 1) = 0" "last_snapshot_index (member s 2) = 0"
    "log (member s 2) = [bootstrap_record, rec3 1 1 ''SET|a|b'']" "commit_index (member s 2) = 1"
    by (rule demo_run_committed)
  note at = demo_record [OF s(7)]
  have k: "1 \<le> commit_index (member s 2)" "current_term (member s 2) \<le> current_term (member s 1)" using s(3,4,8) by simp_all
  from leader_completeness [OF s(1) _ _ s(2) k(2,1) at] at s show ?thesis by (auto simp: rec3_def word_less_nat_alt)
qed

text \<open>
  One replication round trip: when a leader with a well-formed log builds a batch and a follower accepts
  it, the follower's log holds, at every index of the batch, a record of the term the leader has
  there.
\<close>

theorem replication_agrees:
  assumes wfL: "log_wf leader" and room: "LastLogIndexLocked leader < - 1"
    and wfF: "log_wf follower" and b: "fst (BuildAppendEntriesRequest pid t leader) = BatchAppend q"
    and ok: "as_success (fst (OnAppendEntriesLocked I q follower))" and e: "e \<in> set (entries q)"
  shows "\<exists>rl rf. LogAtIndexLocked (le_index e) leader = Some rl \<and>
    LogAtIndexLocked (le_index e) (snd (snd (OnAppendEntriesLocked I q follower))) = Some rf \<and>
    lr_term rl = lr_term rf"
proof -
  obtain n' where b': "BuildAppendEntriesRequest pid t leader = (BatchAppend q, n')"
    using b by (cases "BuildAppendEntriesRequest pid t leader") auto
  note B = Build_request [OF wfL room b']
  from B(9) e obtain r where r: "r \<in> set (log leader)" "e = entry_of_record r"
    by (auto simp: log_from_def dest!: in_set_takeD in_set_dropD)
  then have "LogAtIndexLocked (le_index e) leader = Some r" "lr_term r = le_term e"
    by (simp_all add: LogAtIndexLocked_Some_iff [OF log_wfD(2) [OF wfL]] entry_of_record_def)
  moreover have "\<exists>rf. LogAtIndexLocked (le_index e) (snd (snd (OnAppendEntriesLocked I q follower))) = Some rf
      \<and> lr_term rf = le_term e"
  proof -
    have "prev_ok q follower" "log (snd (snd (OnAppendEntriesLocked I q follower))) = merged_log q follower"
      using OnAppendEntriesLocked_cases [OF wfF B(10), of I] ok by (simp_all add: Let_def split_def)
    then show ?thesis
      by (intro merged_log_holds_entries [OF wfF B(10) _ log_wf_OnAppendEntriesLocked [OF wfF]])
        (simp_all add: OnAppendEntriesLocked_frame e)
  qed
  ultimately show ?thesis by auto
qed

theorem replication_agrees_witness:
  "\<exists>rl rf. LogAtIndexLocked 1 demo_leader = Some rl \<and>
    LogAtIndexLocked 1 (snd (snd (OnAppendEntriesLocked demo_I demo_append (demo_node 1 [2, 3])))) = Some rf \<and>
    lr_term rl = lr_term rf"
  using replication_agrees [OF demo_leader_facts(1,2) demo_append_facts(1) demo_leader_facts(3)
      demo_append_facts(3), of "\<lparr>le_index = 1, le_term = 1, le_command = ''SET|a|b''\<rparr>"]
  by (simp add: demo_append_def)

text \<open>
  C10. The leader's commit rule: the commit index moves to the largest index above it that holds a record of
  the current term and that a majority, the leader included, is known to store; when there is no such
  index it stays.
\<close>

theorem commit_rule:
  assumes "role n = kLeader" and "log n \<noteq> []"
  shows "commit_index (AdvanceCommitIndexUnlocked I n) = i \<longleftrightarrow>
    (if \<exists>j. commit_index n < j \<and> j \<le> LastLogIndexLocked n \<and> commit_test j n
     then commit_index n < i \<and> i \<le> LastLogIndexLocked n \<and> commit_test i n \<and>
       (\<forall>j. i < j \<and> j \<le> LastLogIndexLocked n \<longrightarrow> \<not> commit_test j n)
     else i = commit_index n)"
  by (rule Advance_spec [OF assms])

theorem commit_rule_witness:
  "commit_index (AdvanceCommitIndexUnlocked demo_I (demo_leader\<lparr>commit_index := 0, match_index := [1 \<mapsto> 1]\<rparr>)) = 1"
proof -
  let ?n = "demo_leader\<lparr>commit_index := 0, match_index := [1 \<mapsto> 1]\<rparr>"
  have n: "role ?n = kLeader" "log ?n \<noteq> []" "LastLogIndexLocked ?n = 1" "commit_index ?n = 0"
    by (simp_all add: demo_leader_def LastLogIndexLocked_def demo_defs)
  have t: "commit_test 1 ?n"
    by (simp add: commit_test_def demo_leader_def demo_defs log_defs majority_def replicated_count_def)
  have m: "\<not> (1 < j \<and> j \<le> LastLogIndexLocked ?n)" for j using n(3) by auto
  show ?thesis using commit_rule [OF n(1,2), of demo_I 1] n t m by auto
qed



section \<open>Applying committed records\<close>





section \<open>Commands with an empty value\<close>

text \<open>
  C13. Round trip of commands: a command that passes validation is read back from its log record, except a
  set command with an empty value, whose record cannot be read (validation accepts it).
\<close>

theorem command_roundtrip:
  assumes "ValidateCommandUnlocked limits c = None"
  shows "Deserialize (Serialize c) =
    (if cmd_type c = kSet \<and> cmd_value c = [] then None
     else Some (c\<lparr>cmd_value := (if cmd_type c = kDelete then [] else cmd_value c)\<rparr>))"
proof -
  note v = Validate_no_delimiter [OF assms]
  obtain ty k val where c: "c = \<lparr>cmd_type = ty, cmd_key = k, cmd_value = val\<rparr>" by (cases c) auto
  show ?thesis
  proof (cases ty)
    case kUnknown
    with v(1) c show ?thesis by simp
  next
    case kSet
    then show ?thesis
      using v(2-4) c Deserialize_Serialize_set [of k val] Deserialize_empty_value [of k]
      by (cases "val = []") (simp_all add: Serialize_def)
  next
    case kDelete
    then show ?thesis using v(2,3) c Deserialize_Serialize_delete [of k val] by simp
  qed
qed

theorem command_roundtrip_witness:
  "Deserialize (Serialize \<lparr>cmd_type = kSet, cmd_key = ''a'', cmd_value = ''b''\<rparr>)
     = Some \<lparr>cmd_type = kSet, cmd_key = ''a'', cmd_value = ''b''\<rparr> \<and>
   Deserialize (Serialize \<lparr>cmd_type = kSet, cmd_key = ''a'', cmd_value = []\<rparr>) = None"
  using command_roundtrip [of default_kv_limits "\<lparr>cmd_type = kSet, cmd_key = ''a'', cmd_value = ''b''\<rparr>"]
    command_roundtrip [of default_kv_limits "\<lparr>cmd_type = kSet, cmd_key = ''a'', cmd_value = []\<rparr>"]
  by (simp add: ValidateCommandUnlocked_def ValidateKeyUnlocked_def ValidateValueUnlocked_def IsValid_def
      Serialize_def default_kv_limits_def)




section \<open>Snapshots\<close>

text \<open>
  C15. Compaction to a snapshot whose boundary record is in the log keeps every later record, keeps the log
  well formed, and makes the snapshot's index and term the new boundary.
\<close>

theorem compaction_keeps_suffix:
  assumes "log_wf n" and "boundary_matches idx trm n" and "last_snapshot_index n < idx" and "idx < i"
  shows "LogAtIndexLocked i (CompactLogPrefixLocked idx trm n) = LogAtIndexLocked i n \<and>
    log_wf (CompactLogPrefixLocked idx trm n) \<and>
    last_snapshot_index (CompactLogPrefixLocked idx trm n) = idx \<and>
    last_snapshot_term (CompactLogPrefixLocked idx trm n) = trm"
proof -
  have "last_snapshot_index (CompactLogPrefixLocked idx trm n) = idx"
    "last_snapshot_term (CompactLogPrefixLocked idx trm n) = trm"
    by (simp_all add: CompactLogPrefixLocked_new [OF assms(1,3)])
  with Compact_keeps_suffix [OF assms(1,2,4)] log_wf_Compact [OF assms(1)] show ?thesis by simp
qed

theorem compaction_keeps_suffix_witness:
  "LogAtIndexLocked 2 (CompactLogPrefixLocked 1 1
     (demo_leader\<lparr>log := [bootstrap_record, rec3 1 1 ''x'', rec3 2 1 ''y'']\<rparr>)) = Some (rec3 2 1 ''y'')"
proof -
  let ?n = "demo_leader\<lparr>log := [bootstrap_record, rec3 1 1 ''x'', rec3 2 1 ''y'']\<rparr>"
  have n: "log_wf ?n" "boundary_matches 1 1 ?n" "last_snapshot_index ?n < 1" "(1 :: u64) < 2"
    by (simp_all add: log_wf_def consecutive_def less_Suc_eq boundary_matches_def demo_leader_def demo_defs)
  have "LogAtIndexLocked 2 ?n = Some (rec3 2 1 ''y'')"
    by (simp add: log_defs demo_leader_def demo_defs word_le_nat_alt)
  with compaction_keeps_suffix [OF n] show ?thesis by simp
qed

section \<open>Restart\<close>


definition demo_saved :: PersistentRaftState where
  "demo_saved = \<lparr>ps_current_term = 1, ps_voted_for = 2, ps_commit_index = 5, ps_last_applied = 0,
     ps_log = [bootstrap_record, rec3 1 1 ''SET|a|b'']\<rparr>"

definition demo_adopted :: "(PersistentRaftState option, kv) raft_node" where
  "demo_adopted = adopt_state demo_saved (blank_node (demo_config 1 [2, 3])
     (default_snapshot_config\<lparr>cfg_snapshot_dir := ''s'', snap_enabled := False\<rparr>) (timers_init (\<lambda>_. 0) 0) [] (Some demo_saved))"

lemma demo_saved_facts:
  "ValidateNodeIdentity demo_I (effective_config (demo_config 1 [2, 3])) (Some demo_saved)
     = (Inr (), Some demo_saved)"
  "storage_Load demo_I (Some demo_saved) = (Inr (demo_saved, True), Some demo_saved)"
  "persisted_wf demo_saved" "lr_index (hd (ps_log demo_saved)) = 0"
  "RaftNode_ctor demo_I (demo_config 1 [2, 3]) (default_snapshot_config\<lparr>cfg_snapshot_dir := ''s'', snap_enabled := False\<rparr>)
    (timers_init (\<lambda>_. 0) 0) [] (Some demo_saved) = replay_committed demo_I demo_adopted"
  by (simp_all add: ValidateNodeIdentity_def effective_config_def demo_config_def demo_interfaces_def
      persisted_wf_def demo_saved_def consecutive_def less_Suc_eq bootstrap_record_def rec3_def
      RaftNode_ctor_def demo_adopted_def effective_snapshot_config_def LoadLatestSnapshotOnStartup_def
      blank_node_def Let_def)

lemma demo_adopted_facts:
  "applicable demo_adopted" "unapplied demo_adopted = [rec3 1 1 ''SET|a|b'']"
  "last_applied demo_adopted = 0" "commit_index demo_adopted = 1" "state_machine demo_adopted = []"
  by (simp_all add: applicable_def unapplied_def log_wf_def consecutive_def less_Suc_eq adopt_state_def
      LastLogIndexLocked_def demo_adopted_def demo_saved_def demo_defs Let_def)

lemma demo_restart: "\<exists>n. replay_committed demo_I demo_adopted = Inr n"
proof -
  have "apply_Ok (fst (ApplyCommittedEntries demo_I demo_adopted))"
    using Apply_refines_run [OF demo_saves_ok demo_adopted_facts(1), of "[]"]
    by (simp add: demo_adopted_facts rec3_def KvStateMachine_Apply_def kInternalNoOpCommand_def demo_set IsValid_def)
  then show ?thesis by (simp add: replay_committed_def demo_adopted_facts Let_def split_def)
qed


text \<open>
  A restart forgets no promise: a constructed node is a follower with exactly the term and the vote the storage
  returned, whichever snapshots it loads and records it replays.
\<close>

theorem restart_keeps_vote:
  assumes "RaftNode_ctor I cfg scfg t m w0 = Inr n"
    and "ValidateNodeIdentity I (effective_config cfg) w0 = (Inr (), w1)"
    and "storage_Load I w1 = (Inr (ps, True), w2)"
  shows "current_term n = ps_current_term ps \<and> voted_for n = ps_voted_for ps \<and> role n = kFollower"
  using ctor_hard_state [OF assms] by simp

theorem restart_keeps_vote_witness:
  "\<exists>n. RaftNode_ctor demo_I (demo_config 1 [2, 3])
      (default_snapshot_config\<lparr>cfg_snapshot_dir := ''s'', snap_enabled := False\<rparr>)
      (timers_init (\<lambda>_. 0) 0) [] (Some demo_saved) = Inr n \<and> current_term n = 1 \<and> voted_for n = 2"
proof -
  from demo_restart obtain n where r: "replay_committed demo_I demo_adopted = Inr n" by blast
  note c = demo_saved_facts(5) [unfolded r]
  from restart_keeps_vote [OF c demo_saved_facts(1,2)] c show ?thesis
    by (auto simp: demo_saved_def)
qed

text \<open>
  C24. Snapshot plus log suffix: restoring the snapshot taken after some records and applying the remaining ones
  gives the same answers and the same contents as applying the whole log to the original machine.
\<close>

theorem snapshot_then_log:
  assumes "kv_wf m" and "fst (apply_run KvStateMachine_Apply rs m) = None"
    and "kv_small (snd (snd (apply_run KvStateMachine_Apply rs m)))"
  shows "\<exists>m'. parse_snapshot (snapshot_bytes (snd (snd (apply_run KvStateMachine_Apply rs m)))) = Inr m' \<and>
    fst (apply_run KvStateMachine_Apply rs' m') = fst (apply_run KvStateMachine_Apply (rs @ rs') m) \<and>
    (\<forall>key. KvStateMachine_Get key (snd (snd (apply_run KvStateMachine_Apply rs' m')))
      = KvStateMachine_Get key (snd (snd (apply_run KvStateMachine_Apply (rs @ rs') m))))"
  using kv.snapshot_then_replay [OF assms, of rs'] by (auto simp: KvStateMachine_Get_def)

theorem snapshot_then_log_witness:
  "\<exists>m'. parse_snapshot (snapshot_bytes [(''a'', ''b'')]) = Inr m' \<and>
    KvStateMachine_Get ''a'' (snd (snd (apply_run KvStateMachine_Apply [] m'))) = Some ''b''"
proof -
  have run: "apply_run KvStateMachine_Apply [rec3 1 1 ''SET|a|b''] [] = (None, 1, [(''a'', ''b'')])"
    by (simp add: rec3_def KvStateMachine_Apply_def kInternalNoOpCommand_def demo_set IsValid_def kv_put_def)
  have "kv_wf []" by (simp add: kv_wf_def)
  from snapshot_then_log [OF this, of "[rec3 1 1 ''SET|a|b'']" "[]"] run show ?thesis
    by (auto simp: kv_small_def KvStateMachine_Get_def)
qed

section \<open>Proposals\<close>

text \<open>
  What a command does: the record of a command that passed validation (other than a set command with an
  empty value) is applied successfully, binds the key of a set command to its value, removes the key of
  a delete command, and leaves every other key alone.
\<close>

theorem client_command_effect:
  assumes v: "ValidateCommandUnlocked limits c = None" and ne: "cmd_type c = kSet \<Longrightarrow> cmd_value c \<noteq> []"
  shows "apply_Ok (fst (KvStateMachine_Apply i (Serialize c) m)) \<and>
    KvStateMachine_Get key (snd (KvStateMachine_Apply i (Serialize c) m)) =
      (if key = cmd_key c then (if cmd_type c = kSet then Some (cmd_value c) else None)
       else KvStateMachine_Get key m)"
  using command_effect [OF v ne] by simp

theorem client_command_effect_witness:
  "KvStateMachine_Get ''a'' (snd (KvStateMachine_Apply 1
     (Serialize \<lparr>cmd_type = kSet, cmd_key = ''a'', cmd_value = ''b''\<rparr>) [])) = Some ''b''"
  using client_command_effect [of default_kv_limits "\<lparr>cmd_type = kSet, cmd_key = ''a'', cmd_value = ''b''\<rparr>"]
  by (simp add: ValidateCommandUnlocked_def ValidateKeyUnlocked_def ValidateValueUnlocked_def IsValid_def
      Serialize_def default_kv_limits_def)

text \<open>
  C26. A proposal always returns: as long as the clock does not run backwards, waiting for a majority ends at its
  deadline, so \<^verbatim>\<open>Propose\<close> gives an answer whatever the network and the other threads do.
\<close>

theorem propose_returns:
  assumes "clock_monotone tr"
  shows "\<exists>r n'. Propose I tr c n = Some (r, n')"
  by (rule Propose_returns [OF assms])

definition demo_tr :: "(PersistentRaftState option, kv) transport" where
  "demo_tr = \<lparr>call_AppendEntries = (\<lambda>_ _ n. (None, n)), call_InstallSnapshot = (\<lambda>_ _ n. (None, n)),
     during_sleep = (\<lambda>n. n)\<rparr>"

theorem propose_returns_witness:
  "\<exists>r n'. Propose demo_I demo_tr \<lparr>cmd_type = kSet, cmd_key = ''a'', cmd_value = ''b''\<rparr> (demo_node 1 [2, 3])
    = Some (r, n')"
  by (rule propose_returns) (simp add: clock_monotone_def demo_tr_def)

text \<open>
  C27. What success means for a client: when \<^verbatim>\<open>Propose\<close> answers \<open>kOk\<close>, the node was leader, the command was
  valid, the answer carries the index at which the record was appended and the term it was appended
  in, and the node has applied its log up to that index.
\<close>

theorem propose_ok_applied:
  assumes "Propose I tr c n = Some (r, n')" and "pr_status r = Propose_kOk"
  shows "running n \<and> role n = kLeader \<and> ValidateCommandUnlocked (kv_limits (config n)) c = None \<and>
    pr_log_index r = SafeAddOne (LastLogIndexLocked n) \<and> pr_term r = current_term n \<and>
    pr_log_index r \<le> last_applied n'"
  using Propose_ok_applied [OF assms] by simp

definition demo_single :: "(PersistentRaftState option, kv) raft_node" where
  "demo_single = (demo_node 1 [])\<lparr>role := kLeader, current_term := 1, leader_id := 1\<rparr>"

definition demo_grown :: "(PersistentRaftState option, kv) raft_node" where
  "demo_grown = demo_single\<lparr>log := [bootstrap_record, rec3 1 1 ''SET|a|b''], match_index := [1 \<mapsto> 1],
     next_index := [1 \<mapsto> 2]\<rparr>"

abbreviation demo_appended :: "(PersistentRaftState option, kv) raft_node" where
  "demo_appended \<equiv> demo_grown\<lparr>disk := Some (persistent_state demo_grown)\<rparr>"

lemma demo_single_append: "AppendLocalLogUnlocked demo_I ''SET|a|b'' demo_single = (1, demo_appended)"
  by (simp add: AppendLocalLogUnlocked_def demo_grown_def demo_single_def SafeAddOne_def
      LastLogIndexLocked_def demo_node_defs Let_def)

lemma demo_single_begin:
  "propose_begin demo_I \<lparr>cmd_type = kSet, cmd_key = ''a'', cmd_value = ''b''\<rparr> demo_single =
    (Inr (ProposeResult_init\<lparr>pr_leader_id := 1, pr_term := 1, pr_log_index := 1,
        pr_message := ''log appended locally''\<rparr>), demo_appended)"
proof -
  have n: "running demo_single" "role demo_single = kLeader" "current_term demo_single = 1"
    "kv_limits (config demo_single) = default_kv_limits" "node_id demo_appended = 1"
    by (simp_all add: demo_grown_def demo_single_def demo_node_defs)
  then show ?thesis
    by (simp add: propose_begin_def demo_single_append ValidateCommandUnlocked_def ValidateKeyUnlocked_def
        ValidateValueUnlocked_def IsValid_def Serialize_def default_kv_limits_def Let_def)
qed

lemma demo_single_wait:
  "ReplicateLogEntryToMajority demo_I demo_tr 1 demo_appended = Some (kReplicated, demo_appended)"
proof -
  have n: "running demo_appended" "role demo_appended = kLeader" "peers demo_appended = []"
    "now demo_appended = 0" "rpc_deadline (config demo_appended) = 5" "HasLogAtIndexLocked 1 demo_appended"
    by (simp_all add: demo_grown_def demo_single_def log_defs demo_node_defs)
  have "replicate_round demo_I demo_tr 1 demo_appended = (Some kReplicated, demo_appended)"
    using n by (simp add: replicate_round_def majority_def Let_def)
  with n show ?thesis by (simp add: ReplicateLogEntryToMajority_def eval_nat_numeral)
qed

lemma demo_single_finish:
  "pr_status (fst (propose_finish demo_I (ProposeResult_init\<lparr>pr_leader_id := 1, pr_term := 1,
      pr_log_index := 1, pr_message := ''log appended locally''\<rparr>) kReplicated demo_appended)) = Propose_kOk"
proof -
  let ?n = "AdvanceCommitIndexUnlocked demo_I demo_appended"
  have l: "LastLogIndexLocked demo_appended = 1" "role demo_appended = kLeader" "log demo_appended \<noteq> []"
    "commit_index demo_appended = 0"
    by (simp_all add: demo_grown_def demo_single_def log_defs demo_node_defs)
  have "commit_candidate 1 demo_appended = Some 1"
    by (subst commit_candidate.simps)
      (simp add: replicated_count_def majority_def log_defs demo_grown_def demo_single_def demo_node_defs)
  with l have ci: "commit_index ?n = 1" "log ?n = [bootstrap_record, rec3 1 1 ''SET|a|b'']" "last_applied ?n = 0"
    "last_snapshot_index ?n = 0" "last_snapshot_term ?n = 0" "state_machine ?n = []"
    by (simp_all add: AdvanceCommitIndexUnlocked_def demo_grown_def demo_single_def demo_node_defs)
  then have ap: "applicable ?n" "unapplied ?n = [rec3 1 1 ''SET|a|b'']"
    by (simp_all add: applicable_def unapplied_def log_wf_def consecutive_def less_Suc_eq
        LastLogIndexLocked_def demo_node_defs)
  have "apply_Ok (fst (ApplyCommittedEntries demo_I ?n)) \<and> last_applied (snd (ApplyCommittedEntries demo_I ?n)) = 1"
    using Apply_refines_run [OF demo_saves_ok ap(1), of "[]"] ap(2) ci
    by (simp add: rec3_def KvStateMachine_Apply_def kInternalNoOpCommand_def demo_set IsValid_def)
  then show ?thesis by (simp add: propose_finish_def Let_def split_def)
qed

theorem propose_ok_applied_witness:
  "\<exists>r n'. Propose demo_I demo_tr \<lparr>cmd_type = kSet, cmd_key = ''a'', cmd_value = ''b''\<rparr> demo_single = Some (r, n') \<and>
    pr_status r = Propose_kOk \<and> 1 \<le> last_applied n'"
proof -
  let ?r1 = "ProposeResult_init\<lparr>pr_leader_id := 1, pr_term := 1, pr_log_index := 1,
        pr_message := ''log appended locally''\<rparr>"
  obtain r n' where f: "propose_finish demo_I ?r1 kReplicated demo_appended = (r, n')" by fastforce
  have p: "Propose demo_I demo_tr \<lparr>cmd_type = kSet, cmd_key = ''a'', cmd_value = ''b''\<rparr> demo_single = Some (r, n')"
    using demo_single_wait f by (simp add: Propose_def demo_single_begin)
  have k: "pr_status r = Propose_kOk" using demo_single_finish f by simp
  have "pr_log_index r = 1" using f k by (auto simp: propose_finish_def Let_def split_def split: if_splits)
  with propose_ok_applied [OF p k] p k show ?thesis by auto
qed






text \<open>
  The leader's own append: on success the new record follows the last one, has the current term and the
  given command, and is on disk; on failure the log is what it was. Either way the log stays well formed.
\<close>

theorem local_append:
  assumes "log_wf n" and "LastLogIndexLocked n < - 1"
  shows "log_wf (snd (AppendLocalLogUnlocked I c n)) \<and>
    (if fst (AppendLocalLogUnlocked I c n) = 0 then log (snd (AppendLocalLogUnlocked I c n)) = log n
     else unat (fst (AppendLocalLogUnlocked I c n)) = Suc (unat (LastLogIndexLocked n)) \<and>
       log (snd (AppendLocalLogUnlocked I c n)) = log n @
         [\<lparr>lr_index = fst (AppendLocalLogUnlocked I c n), lr_term = current_term n, lr_command = c\<rparr>] \<and>
       (\<exists>ps. ps_log ps = log (snd (AppendLocalLogUnlocked I c n)) \<and> ps_current_term ps = current_term n \<and>
         storage_Save I ps (disk n) = (Inr (), disk (snd (AppendLocalLogUnlocked I c n)))))"
proof -
  let ?r = "AppendLocalLogUnlocked I c n"
  define x where "x = n\<lparr>log := log n @ [\<lparr>lr_index = SafeAddOne (LastLogIndexLocked n),
          lr_term = current_term n, lr_command = c\<rparr>],
        match_index := (match_index n)(node_id n \<mapsto> SafeAddOne (LastLogIndexLocked n)),
        next_index := (next_index n)(node_id n \<mapsto> SafeAddOne (SafeAddOne (LastLogIndexLocked n)))\<rparr>"
  have r: "?r = (case PersistStateLocked I x of (None, n2) \<Rightarrow> (SafeAddOne (LastLogIndexLocked n), n2)
       | (Some e, n2) \<Rightarrow> ?r)"
    by (simp add: AppendLocalLogUnlocked_def x_def Let_def split_def split: option.split)
  have fst: "fst ?r = (if fst (PersistStateLocked I x) = None then SafeAddOne (LastLogIndexLocked n) else 0)"
    using Append_result [of I c n] by (simp add: x_def)
  have "\<exists>ps. ps_log ps = log (snd ?r) \<and> ps_current_term ps = current_term n \<and>
         storage_Save I ps (disk n) = (Inr (), disk (snd ?r))" if "fst ?r \<noteq> 0"
  proof -
    have p: "fst (PersistStateLocked I x) = None" using that fst by (simp split: if_splits)
    then have "snd ?r = snd (PersistStateLocked I x)" using r by (simp add: split_def)
    moreover have "storage_Save I (persistent_state x) (disk x) = (Inr (), disk (snd (PersistStateLocked I x)))"
      using p by (auto simp: Persist_ok_iff prod_eq_iff)
    ultimately show ?thesis
      by (intro exI [of _ "persistent_state x"]) (simp add: persistent_state_def x_def)
  qed
  with log_wf_Append [OF assms, of I c] Append_log [of I c n] fst SafeAddOne_eq_Suc [OF assms(2)]
  show ?thesis by (simp split: if_splits)
qed

theorem local_append_witness:
  "log (snd (AppendLocalLogUnlocked demo_I ''SET|a|b'' demo_single)) = [bootstrap_record, rec3 1 1 ''SET|a|b'']"
proof -
  have n: "log_wf demo_single" "LastLogIndexLocked demo_single = 0" "log demo_single = [bootstrap_record]"
    "current_term demo_single = 1"
    by (simp_all add: log_wf_def demo_single_def LastLogIndexLocked_def demo_defs)
  have f: "fst (AppendLocalLogUnlocked demo_I ''SET|a|b'' demo_single) = 1"
    using n(2) by (simp add: Append_result SafeAddOne_def)
  have "LastLogIndexLocked demo_single < - 1" using n(2) by (simp add: word_less_nat_alt unat_u64_max)
  from local_append [OF n(1) this, of demo_I "''SET|a|b''"] n f show ?thesis by (simp add: rec3_def)
qed

section \<open>Snapshots of a running node\<close>

text \<open>
  C29. One round of the snapshot worker, undisturbed: the records above the apply boundary, the state machine and
  the boundaries of commit and apply are kept, the log stays well formed, and it is compacted at most up
  to the apply boundary the snapshot was taken at.
\<close>

theorem worker_round_safe:
  assumes "applicable n"
  shows "log_wf (SnapshotWorkerLoop_round I (\<lambda>n. n) n) \<and>
    state_machine (SnapshotWorkerLoop_round I (\<lambda>n. n) n) = state_machine n \<and>
    commit_index (SnapshotWorkerLoop_round I (\<lambda>n. n) n) = commit_index n \<and>
    last_applied (SnapshotWorkerLoop_round I (\<lambda>n. n) n) = last_applied n \<and>
    last_snapshot_index (SnapshotWorkerLoop_round I (\<lambda>n. n) n) \<in> {last_snapshot_index n, last_applied n} \<and>
    (\<forall>j > last_applied n. LogAtIndexLocked j (SnapshotWorkerLoop_round I (\<lambda>n. n) n) = LogAtIndexLocked j n)"
  using worker_round_keeps [OF assms, where I = I] by auto

definition demo_to_compact :: "(PersistentRaftState option, kv) raft_node" where
  "demo_to_compact = (demo_node 1 [2, 3])\<lparr>log := [bootstrap_record, rec3 1 1 ''x'', rec3 2 1 ''y''],
     commit_index := 1, last_applied := 1,
     snapshot_worker := worker_init\<lparr>snapshot_pending := True\<rparr>\<rparr>"

theorem worker_round_safe_witness:
  "LogAtIndexLocked 2 (SnapshotWorkerLoop_round demo_I (\<lambda>n. n) demo_to_compact) = Some (rec3 2 1 ''y'')"
proof -
  have n: "applicable demo_to_compact" "LogAtIndexLocked 2 demo_to_compact = Some (rec3 2 1 ''y'')"
    "last_applied demo_to_compact < 2"
    by (simp_all add: applicable_def log_wf_def consecutive_def less_Suc_eq log_defs demo_to_compact_def
        demo_defs word_le_nat_alt word_less_nat_alt)
  from worker_round_safe [OF n(1), of demo_I] n(2,3) show ?thesis by simp
qed










section \<open>Retry backoff\<close>

text \<open>
  C32. Backoff: after \<open>k\<close> transport failures in a row since the last success, whatever their times, one more failure
  keeps the replicator quiet for the smaller of half a second and \<open>20 * 2 ^ k\<close> milliseconds.
\<close>

theorem backoff_doubles_to_limit:
  "retry_backoff (fold RecordTransportFailureLocked ts (ResetBackoffLocked r)) = min 500 (20 * 2 ^ length ts) \<and>
   next_retry_time (fold RecordTransportFailureLocked (ts @ [t]) (ResetBackoffLocked r)) =
     t + min 500 (20 * 2 ^ length ts)"
  using backoff_run [of "ResetBackoffLocked r" ts]
  by (simp add: ResetBackoffLocked_def kInitialRetryBackoff_def kMaxRetryBackoff_def RecordTransportFailureLocked_def)

end
